(* ===== verification/Prelude.thy ===== *)
theory Prelude
  imports Main "HOL-Library.Word"
begin

text \<open>
  What the components share: the machine integer types of \<^verbatim>\<open>include/defs.h\<close>, the byte
  addressed memory, the result type of code that may stop the kernel, and the generic lemmas
  on words, lists and memory that carry the component proofs.
\<close>

unbundle bit_operations_syntax

section \<open>Machine integers\<close>

text \<open>The explicitly sized types of \<^verbatim>\<open>include/defs.h\<close>. A C \<^verbatim>\<open>int\<close>
  is the same 32 bits as \<open>u32\<close>, read with \<^const>\<open>sint\<close> where its sign matters.\<close>

type_synonym u8 = "8 word"
type_synonym u16 = "16 word"
type_synonym u32 = "32 word"
type_synonym u64 = "64 word"

text \<open>The byte addressed memory as the running kernel sees it.\<close>

type_synonym bmem = "u32 \<Rightarrow> u8"

abbreviation (input) NULL :: u32 where "NULL \<equiv> 0"

text \<open>\<^verbatim>\<open>DIV_ROUND_UP\<close> of \<^verbatim>\<open>include/x86.h\<close>, on unsigned
  32-bit operands: the sum \<open>n + d - 1\<close> wraps as it does in C.\<close>

definition DIV_ROUND_UP :: "u32 \<Rightarrow> u32 \<Rightarrow> u32" where
  "DIV_ROUND_UP n d = (n + d - 1) div d"

section \<open>Results\<close>

text \<open>
  A call that does not return to its caller gives a value of type \<open>stop\<close>:
  \<open>Panic msg\<close> is \<^verbatim>\<open>__panic\<close> (a failed \<^verbatim>\<open>assert\<close>, with the text of
  the asserted expression, or a \<^verbatim>\<open>panic\<close> call), \<open>Fault\<close> is an access or an
  instruction the hardware refuses, \<open>Diverge\<close> is a loop that never ends.
\<close>

datatype stop = Panic string | Fault | Diverge

type_synonym 'a res = "stop + 'a"

definition bind_res :: "'a res \<Rightarrow> ('a \<Rightarrow> 'b res) \<Rightarrow> 'b res" where
  "bind_res r f = (case r of Inl e \<Rightarrow> Inl e | Inr a \<Rightarrow> f a)"

definition assert_res :: "string \<Rightarrow> bool \<Rightarrow> 'a res \<Rightarrow> 'a res" where
  "assert_res msg b r = (if b then r else Inl (Panic msg))"

definition of_loop :: "'a option \<Rightarrow> 'a res" where
  "of_loop x = (case x of None \<Rightarrow> Inl Diverge | Some a \<Rightarrow> Inr a)"

primrec repeat_res :: "nat \<Rightarrow> ('s \<Rightarrow> 's res) \<Rightarrow> 's \<Rightarrow> 's res" where
  "repeat_res 0 f s = Inr s"
| "repeat_res (Suc n) f s = bind_res (f s) (repeat_res n f)"

lemma bind_res_simps [simp]:
  "bind_res (Inl e) f = Inl e"
  "bind_res (Inr a) f = f a"
  by (simp_all add: bind_res_def)

lemma assert_res_simps [simp]:
  "assert_res msg True r = r"
  "assert_res msg False r = Inl (Panic msg)"
  by (simp_all add: assert_res_def)

lemma of_loop_simps [simp]:
  "of_loop None = Inl Diverge"
  "of_loop (Some a) = Inr a"
  by (simp_all add: of_loop_def)

lemma bind_res_Inr_iff: "bind_res r f = Inr b \<longleftrightarrow> (\<exists>a. r = Inr a \<and> f a = Inr b)"
  by (cases r) simp_all

lemma assert_res_Inr_iff: "assert_res msg b r = Inr a \<longleftrightarrow> b \<and> r = Inr a"
  by (cases b) simp_all

lemma of_loop_Inr_iff: "of_loop x = Inr a \<longleftrightarrow> x = Some a"
  by (cases x) simp_all

lemma bind_res_split:
  "P (bind_res r f) \<longleftrightarrow> (\<forall>e. r = Inl e \<longrightarrow> P (Inl e)) \<and> (\<forall>a. r = Inr a \<longrightarrow> P (f a))"
  by (cases r) simp_all

lemmas res_iffs = bind_res_Inr_iff assert_res_Inr_iff of_loop_Inr_iff

named_theorems mem_simps \<open>reads after writes of the byte memory\<close>

section \<open>Words\<close>

lemma unat_add_nowrap:
  fixes x y :: "'a::len word"
  shows "unat x + unat y < 2 ^ LENGTH('a) \<Longrightarrow> unat (x + y) = unat x + unat y"
  by (simp add: unat_word_ariths)

lemma unat_Suc_nowrap:
  fixes x y :: "'a::len word"
  assumes "x < y"
  shows "unat (x + 1) = Suc (unat x)"
proof -
  have "unat x < unat y" using assms by (simp add: word_less_nat_alt)
  moreover have "unat y < 2 ^ LENGTH('a)" by (rule unsigned_less)
  ultimately have "Suc (unat x) < 2 ^ LENGTH('a)" by (rule order.strict_trans1 [OF Suc_leI])
  then show ?thesis by (simp add: unat_word_ariths)
qed

lemma unat_u32_less: "unat (x :: u32) < 2 ^ 32"
  by (rule order_less_le_trans [OF unsigned_less]) simp

lemma unat_u32_le: "unat (x :: u32) \<le> 2 ^ 32"
  by (rule less_imp_le) (rule unat_u32_less)

lemma unat_u8_less: "unat (x :: u8) < 256"
  by (rule order_less_le_trans [OF unsigned_less]) simp

lemma ucast_u8_u32: "(ucast (x :: u8) :: u32) = word_of_int (int (unat x))"
  by simp

lemma sint_of_int_u32: "sint (word_of_int k :: u32) = signed_take_bit 31 k"
  by (simp add: signed_of_int)

lemma sint_diff_u32:
  fixes x y :: u32
  assumes "- (2 ^ 31) \<le> sint x - sint y" "sint x - sint y < 2 ^ 31"
  shows "sint (x - y) = sint x - sint y"
proof -
  have "signed_take_bit 31 (sint x - sint y) = sint x - sint y"
    using assms by (intro signed_take_bit_int_eq_self) simp_all
  then show ?thesis by (simp add: sint_word_ariths)
qed

lemma sint_of_nat: "n < 2 ^ 31 \<Longrightarrow> sint (of_nat n :: u32) = int n"
proof -
  assume "n < 2 ^ 31"
  then have "signed_take_bit 31 (int n) = int n" by (intro signed_take_bit_int_eq_self) simp_all
  moreover have "(of_nat n :: u32) = word_of_int (int n)" by simp
  ultimately show ?thesis by (simp only: sint_of_int_u32)
qed

lemma sint_u32_range: "- (2 ^ 31) \<le> sint (x :: u32)" "sint (x :: u32) < 2 ^ 31"
  using sint_greater_eq [of x] sint_less [of x] by simp_all

lemma sint_pred_u32: "0 \<le> sint (x :: u32) \<Longrightarrow> sint (x - 1) = sint x - 1"
  using sint_diff_u32 [of x 1] sint_u32_range [of x] by simp

text \<open>The \<^verbatim>\<open>int\<close> difference of two \<^verbatim>\<open>unsigned char\<close>s.\<close>

lemma sint_ucast_u8_diff:
  fixes x y :: u8
  shows "sint (ucast x - ucast y :: u32) = int (unat x) - int (unat y)"
proof -
  have "int (unat x) - int (unat y) < 256" "- 256 < int (unat x) - int (unat y)"
    using unat_u8_less [of x] unat_u8_less [of y] by linarith+
  then have "signed_take_bit 31 (int (unat x) - int (unat y)) = int (unat x) - int (unat y)"
    by (intro signed_take_bit_int_eq_self) simp_all
  then show ?thesis by (simp only: ucast_u8_u32 sint_of_int_u32 flip: of_int_diff)
qed

lemma of_nat_inj_word:
  assumes "of_nat i = (of_nat j :: 'a::len word)" "i < 2 ^ LENGTH('a)" "j < 2 ^ LENGTH('a)"
  shows "i = j"
proof -
  have "unat (of_nat i :: 'a word) = i" "unat (of_nat j :: 'a word) = j"
    using assms(2,3) by (simp_all add: unat_of_nat)
  then show ?thesis using assms(1) by metis
qed

lemma add_of_nat_inj:
  fixes p :: "'a::len word"
  assumes "p + of_nat i = p + of_nat j" "i < 2 ^ LENGTH('a)" "j < 2 ^ LENGTH('a)"
  shows "i = j"
  using of_nat_inj_word [OF _ assms(2,3)] assms(1) by (metis add_left_imp_eq)

lemma of_nat_unat_id [simp]: "of_nat (unat (x :: 'a::len word)) = x"
  by simp

section \<open>First hit in an interval\<close>

lemma find_upt_skip:
  assumes "a \<le> b" "\<And>k. a \<le> k \<Longrightarrow> k < b \<Longrightarrow> \<not> P k"
  shows "List.find P [a..<c] = List.find P [b..<c]"
  using assms
proof (induction rule: dec_induct [consumes 1])
  case base
  then show ?case by simp
next
  case (step n)
  then have "List.find P [n..<c] = List.find P [Suc n..<c]" by (cases "n < c") (auto simp: upt_conv_Cons)
  then show ?case using step by simp
qed

lemma find_upt_Some_iff:
  "List.find P [a..<c] = Some i \<longleftrightarrow> a \<le> i \<and> i < c \<and> P i \<and> (\<forall>k. a \<le> k \<and> k < i \<longrightarrow> \<not> P k)"
proof
  assume "List.find P [a..<c] = Some i"
  then obtain n where n: "n < c - a" "P (a + n)" "i = a + n" "\<forall>j < n. \<not> P (a + j)"
    unfolding find_Some_iff by auto
  have "\<not> P k" if "a \<le> k" "k < i" for k
    using n(4) [rule_format, of "k - a"] n(3) that by simp
  then show "a \<le> i \<and> i < c \<and> P i \<and> (\<forall>k. a \<le> k \<and> k < i \<longrightarrow> \<not> P k)"
    using n by auto
next
  assume *: "a \<le> i \<and> i < c \<and> P i \<and> (\<forall>k. a \<le> k \<and> k < i \<longrightarrow> \<not> P k)"
  then have "List.find P [a..<c] = List.find P [i..<c]" by (intro find_upt_skip) auto
  then show "List.find P [a..<c] = Some i" using * by (simp add: upt_conv_Cons)
qed

lemma find_upt_None_iff: "List.find P [a..<c] = None \<longleftrightarrow> (\<forall>k. a \<le> k \<and> k < c \<longrightarrow> \<not> P k)"
  by (auto simp: find_None_iff)

section \<open>Byte ranges\<close>

text \<open>\<open>bytes m p n\<close> reads \<open>n\<close> bytes from \<open>p\<close>; \<open>span p n\<close> is the set of
  their addresses.\<close>

definition bytes :: "bmem \<Rightarrow> u32 \<Rightarrow> nat \<Rightarrow> u8 list" where
  "bytes m p n = map (\<lambda>i. m (p + of_nat i)) [0..<n]"

definition span :: "u32 \<Rightarrow> nat \<Rightarrow> u32 set" where
  "span p n = (\<lambda>i. p + of_nat i) ` {..<n}"

lemma length_bytes [simp]: "length (bytes m p n) = n"
  by (simp add: bytes_def)

lemma nth_bytes [simp]: "i < n \<Longrightarrow> bytes m p n ! i = m (p + of_nat i)"
  by (simp add: bytes_def)

lemma bytes_0 [simp]: "bytes m p 0 = []"
  by (simp add: bytes_def)

lemma bytes_Suc: "bytes m p (Suc n) = m p # bytes m (p + 1) n"
  by (rule nth_equalityI) (auto simp: nth_Cons' less_Suc_eq_0_disj algebra_simps)

lemma bytes_numeral [simp]:
  "bytes m p (numeral k) = m p # bytes m (p + 1) (pred_numeral k)"
  by (simp only: numeral_eq_Suc bytes_Suc)

lemma replicate_num: "replicate (numeral k) x = x # replicate (pred_numeral k) x"
  by (simp only: numeral_eq_Suc replicate_Suc)

lemma bytes_1 [simp]: "bytes m p (Suc 0) = [m p]"
  by (simp add: bytes_Suc)

lemma bytes_add: "bytes m p (i + j) = bytes m p i @ bytes m (p + of_nat i) j"
  by (induction i arbitrary: p) (simp_all add: bytes_Suc algebra_simps)

lemma bytes_append_iff:
  "bytes m p (length (xs @ ys)) = xs @ ys \<longleftrightarrow>
   bytes m p (length xs) = xs \<and> bytes m (p + of_nat (length xs)) (length ys) = ys"
  by (simp add: bytes_add)

lemma span_0 [simp]: "span p 0 = {}"
  by (simp add: span_def)

lemma span_Suc: "span p (Suc n) = insert p (span (p + 1) n)"
proof -
  have "{..<Suc n} = insert 0 (Suc ` {..<n})" by auto (metis Suc_less_eq gr0_implies_Suc imageI lessThan_iff not_gr0)
  then show ?thesis by (simp add: span_def image_image algebra_simps)
qed

lemma span_numeral [simp]: "span p (numeral k) = insert p (span (p + 1) (pred_numeral k))"
  by (simp only: numeral_eq_Suc span_Suc)

lemma span_1 [simp]: "span p (Suc 0) = {p}"
  by (simp add: span_Suc)

lemma in_spanI: "i < n \<Longrightarrow> p + of_nat i \<in> span p n"
  by (simp add: span_def)

lemma span_mono: "m \<le> n \<Longrightarrow> span p m \<subseteq> span p n"
  by (auto simp: span_def)

lemma span_shift: "i + k \<le> n \<Longrightarrow> span (p + of_nat i) k \<subseteq> span p n"
  by (auto simp: span_def add.assoc simp flip: of_nat_add)

lemma bytes_cong: "(\<And>a. a \<in> span p n \<Longrightarrow> m a = m' a) \<Longrightarrow> bytes m p n = bytes m' p n"
  by (rule nth_equalityI) (auto simp: in_spanI)

lemma span_below:
  assumes "unat b + n \<le> 2 ^ 32" "unat p + k \<le> unat b"
  shows "span p k \<inter> span b n = {}"
proof -
  have u: "unat (q + of_nat i) = unat q + i" if "unat q + i < 2 ^ 32" for q :: u32 and i
  proof -
    have "i < 2 ^ 32" using that by simp
    then have "unat (of_nat i :: u32) = i" by (simp add: unat_of_nat)
    then show ?thesis using that by (subst unat_add_nowrap) simp_all
  qed
  have "unat a < unat b" if "a \<in> span p k" for a
    using that assms u unfolding span_def by (auto simp: u)
  moreover have "unat b \<le> unat a" if "a \<in> span b n" for a
    using that assms u unfolding span_def by (auto simp: u)
  ultimately show ?thesis by fastforce
qed

text \<open>A memory with the bytes \<open>bs\<close> at \<open>p\<close>, zero elsewhere.\<close>

definition placed :: "u32 \<Rightarrow> u8 list \<Rightarrow> bmem" where
  "placed p bs = (\<lambda>a. let i = unat (a - p) in if i < length bs then bs ! i else 0)"

end
