(* ===== verification/Strings.thy ===== *)
theory Strings
  imports Prelude "HOL-Library.List_Lexorder"
begin

text \<open>
  \<^verbatim>\<open>kernel/string.c\<close> and the string instructions of \<^verbatim>\<open>include/x86.h\<close> it
  inlines, on the byte memory. A function that writes memory returns its C result and the new
  memory. A scan for a terminating null byte is a \<^theory_text>\<open>partial_function\<close>: \<open>None\<close>
  is the scan that never ends. Plain \<^verbatim>\<open>char\<close> is signed on this target.
\<close>

section \<open>The inlined string instructions (include/x86.h)\<close>

text \<open>\<^verbatim>\<open>rep stosb\<close>, \<^verbatim>\<open>rep movsb\<close> (direction flag clear, then set) and
  \<^verbatim>\<open>rep movsl\<close>, with the count of \<^verbatim>\<open>%ecx\<close> as the recursion argument. A
  \<^verbatim>\<open>movsl\<close> reads its four bytes before it writes them.\<close>

primrec rep_stosb :: "nat \<Rightarrow> u8 \<Rightarrow> u32 \<Rightarrow> bmem \<Rightarrow> bmem" where
  "rep_stosb 0 al edi m = m"
| "rep_stosb (Suc n) al edi m = rep_stosb n al (edi + 1) (m(edi := al))"

primrec rep_movsb :: "nat \<Rightarrow> u32 \<Rightarrow> u32 \<Rightarrow> bmem \<Rightarrow> bmem" where
  "rep_movsb 0 esi edi m = m"
| "rep_movsb (Suc n) esi edi m = rep_movsb n (esi + 1) (edi + 1) (m(edi := m esi))"

primrec rep_movsb_std :: "nat \<Rightarrow> u32 \<Rightarrow> u32 \<Rightarrow> bmem \<Rightarrow> bmem" where
  "rep_movsb_std 0 esi edi m = m"
| "rep_movsb_std (Suc n) esi edi m = rep_movsb_std n (esi - 1) (edi - 1) (m(edi := m esi))"

definition movsl :: "u32 \<Rightarrow> u32 \<Rightarrow> bmem \<Rightarrow> bmem" where
  "movsl esi edi m =
     m(edi := m esi, edi + 1 := m (esi + 1), edi + 2 := m (esi + 2), edi + 3 := m (esi + 3))"

primrec rep_movsl :: "nat \<Rightarrow> u32 \<Rightarrow> u32 \<Rightarrow> bmem \<Rightarrow> bmem" where
  "rep_movsl 0 esi edi m = m"
| "rep_movsl (Suc n) esi edi m = rep_movsl n (esi + 4) (edi + 4) (movsl esi edi m)"

definition x86_memset :: "u32 \<Rightarrow> u8 \<Rightarrow> u32 \<Rightarrow> bmem \<Rightarrow> u32 \<times> bmem" where
  "x86_memset s c n m = (s, rep_stosb (unat n) c s m)"

definition x86_memcpy :: "u32 \<Rightarrow> u32 \<Rightarrow> u32 \<Rightarrow> bmem \<Rightarrow> u32 \<times> bmem" where
  "x86_memcpy dst src n m =
     (let words = n div 4;
          m1 = rep_movsl (unat words) src dst m;
          ecx = n AND 3
      in (dst, if ecx = 0 then m1
               else rep_movsb (unat ecx) (src + 4 * words) (dst + 4 * words) m1))"

definition x86_memmove :: "u32 \<Rightarrow> u32 \<Rightarrow> u32 \<Rightarrow> bmem \<Rightarrow> u32 \<times> bmem" where
  "x86_memmove dst src n m =
     (if dst < src then x86_memcpy dst src n m
      else (dst, rep_movsb_std (unat n) (n - 1 + src) (n - 1 + dst) m))"

text \<open>\<^verbatim>\<open>lodsb; scasb; jne; testb; jne\<close>: at the first difference
  \<^verbatim>\<open>sbbl %eax,%eax\<close> spreads the carry of the unsigned comparison
  \<^verbatim>\<open>al - (%edi)\<close> and \<^verbatim>\<open>orb $1,%al\<close> makes it \<open>-1\<close> or \<open>1\<close>.\<close>

partial_function (option) x86_strcmp :: "bmem \<Rightarrow> u32 \<Rightarrow> u32 \<Rightarrow> u32 option" where
  "x86_strcmp m esi edi =
     (let al = m esi
      in if al \<noteq> m edi then Some ((if al < m edi then - 1 else 0) OR 1)
         else if al \<noteq> 0 then x86_strcmp m (esi + 1) (edi + 1)
         else Some 0)"

section \<open>The C functions (kernel/string.c)\<close>

partial_function (option) strlen_loop :: "bmem \<Rightarrow> u32 \<Rightarrow> u32 \<Rightarrow> u32 option" where
  "strlen_loop m s cnt = (if m s \<noteq> 0 then strlen_loop m (s + 1) (cnt + 1) else Some cnt)"

definition strlen :: "bmem \<Rightarrow> u32 \<Rightarrow> u32 option" where
  "strlen m s = strlen_loop m s 0"

function strnlen_loop :: "bmem \<Rightarrow> u32 \<Rightarrow> u32 \<Rightarrow> u32 \<Rightarrow> u32" where
  "strnlen_loop m s len cnt =
     (if cnt < len \<and> m s \<noteq> 0 then strnlen_loop m (s + 1) len (cnt + 1) else cnt)"
  by pat_completeness auto
termination
  by (relation "measure (\<lambda>(m, s, len, cnt). unat len - unat cnt)")
     (auto simp: unat_Suc_nowrap word_less_nat_alt)

declare strnlen_loop.simps [simp del]

definition strnlen :: "bmem \<Rightarrow> u32 \<Rightarrow> u32 \<Rightarrow> u32" where
  "strnlen m s len = strnlen_loop m s len 0"

partial_function (option) strcpy_loop :: "u32 \<Rightarrow> u32 \<Rightarrow> bmem \<Rightarrow> bmem option" where
  "strcpy_loop p src m =
     (let c = m src; m' = m(p := c)
      in if c \<noteq> 0 then strcpy_loop (p + 1) (src + 1) m' else Some m')"

definition strcpy :: "u32 \<Rightarrow> u32 \<Rightarrow> bmem \<Rightarrow> (u32 \<times> bmem) option" where
  "strcpy dst src m = map_option (Pair dst) (strcpy_loop dst src m)"

primrec strncpy_loop :: "nat \<Rightarrow> u32 \<Rightarrow> u32 \<Rightarrow> bmem \<Rightarrow> bmem" where
  "strncpy_loop 0 p src m = m"
| "strncpy_loop (Suc len) p src m =
     (let m' = m(p := m src)
      in strncpy_loop len (p + 1) (if m src \<noteq> 0 then src + 1 else src) m')"

definition strncpy :: "u32 \<Rightarrow> u32 \<Rightarrow> u32 \<Rightarrow> bmem \<Rightarrow> u32 \<times> bmem" where
  "strncpy dst src len m = (dst, strncpy_loop (unat len) dst src m)"

definition strcmp :: "bmem \<Rightarrow> u32 \<Rightarrow> u32 \<Rightarrow> u32 option" where
  "strcmp m s1 s2 = x86_strcmp m s1 s2"

text \<open>\<^verbatim>\<open>(int)((unsigned char)*s1 - (unsigned char)*s2)\<close>\<close>

definition uchar_diff :: "u8 \<Rightarrow> u8 \<Rightarrow> u32" where
  "uchar_diff x y = ucast x - ucast y"

primrec strncmp_loop :: "nat \<Rightarrow> bmem \<Rightarrow> u32 \<Rightarrow> u32 \<Rightarrow> u32" where
  "strncmp_loop 0 m s1 s2 = 0"
| "strncmp_loop (Suc n) m s1 s2 =
     (if m s1 \<noteq> 0 \<and> m s1 = m s2 then strncmp_loop n m (s1 + 1) (s2 + 1)
      else uchar_diff (m s1) (m s2))"

definition strncmp :: "bmem \<Rightarrow> u32 \<Rightarrow> u32 \<Rightarrow> u32 \<Rightarrow> u32" where
  "strncmp m s1 s2 n = strncmp_loop (unat n) m s1 s2"

text \<open>The byte is promoted with its sign and compared with the \<^verbatim>\<open>int\<close> argument.\<close>

partial_function (option) strchr :: "bmem \<Rightarrow> u32 \<Rightarrow> u32 \<Rightarrow> u32 option" where
  "strchr m s c =
     (if m s \<noteq> 0 then (if (scast (m s) :: u32) = c then Some s else strchr m (s + 1) c)
      else Some NULL)"

partial_function (option) strfind :: "bmem \<Rightarrow> u32 \<Rightarrow> u32 \<Rightarrow> u32 option" where
  "strfind m s c =
     (if m s \<noteq> 0 then (if (scast (m s) :: u32) = c then Some s else strfind m (s + 1) c)
      else Some s)"

definition memset :: "u32 \<Rightarrow> u32 \<Rightarrow> u32 \<Rightarrow> bmem \<Rightarrow> u32 \<times> bmem" where
  "memset s c n m = x86_memset s (ucast c) n m"

definition memmove :: "u32 \<Rightarrow> u32 \<Rightarrow> u32 \<Rightarrow> bmem \<Rightarrow> u32 \<times> bmem" where
  "memmove dst src n m = x86_memmove dst src n m"

definition memcpy :: "u32 \<Rightarrow> u32 \<Rightarrow> u32 \<Rightarrow> bmem \<Rightarrow> u32 \<times> bmem" where
  "memcpy dst src n m = x86_memcpy dst src n m"

primrec memcmp_loop :: "nat \<Rightarrow> bmem \<Rightarrow> u32 \<Rightarrow> u32 \<Rightarrow> u32" where
  "memcmp_loop 0 m s1 s2 = 0"
| "memcmp_loop (Suc n) m s1 s2 =
     (if m s1 \<noteq> m s2 then uchar_diff (m s1) (m s2)
      else memcmp_loop n m (s1 + 1) (s2 + 1))"

definition memcmp :: "bmem \<Rightarrow> u32 \<Rightarrow> u32 \<Rightarrow> u32 \<Rightarrow> u32" where
  "memcmp m v1 v2 n = memcmp_loop (unat n) m v1 v2"

text \<open>\<^verbatim>\<open>strtol\<close>: white space, sign, base prefix, then digits. The value
  accumulates in a 32-bit \<^verbatim>\<open>long\<close>, wrapping as the compiled code does.\<close>

partial_function (option) skip_blank :: "bmem \<Rightarrow> u32 \<Rightarrow> u32 option" where
  "skip_blank m s = (if m s = 0x20 \<or> m s = 0x09 then skip_blank m (s + 1) else Some s)"

definition digit_of :: "u8 \<Rightarrow> u32 option" where
  "digit_of c =
     (if 0x30 \<le> sint c \<and> sint c \<le> 0x39 then Some (scast c - 0x30)
      else if 0x61 \<le> sint c \<and> sint c \<le> 0x7a then Some (scast c - 0x61 + 10)
      else if 0x41 \<le> sint c \<and> sint c \<le> 0x5a then Some (scast c - 0x41 + 10)
      else None)"

partial_function (option) strtol_digits :: "bmem \<Rightarrow> u32 \<Rightarrow> u32 \<Rightarrow> u32 \<Rightarrow> (u32 \<times> u32) option" where
  "strtol_digits m s base val =
     (case digit_of (m s) of
        None \<Rightarrow> Some (val, s)
      | Some dig \<Rightarrow>
          if sint base \<le> sint dig then Some (val, s)
          else strtol_digits m (s + 1) base (val * base + dig))"

definition strtol_base :: "bmem \<Rightarrow> u32 \<Rightarrow> u32 \<Rightarrow> u32 \<times> u32" where
  "strtol_base m s base =
     (if (base = 0 \<or> base = 16) \<and> m s = 0x30 \<and> m (s + 1) = 0x78 then (s + 2, 16)
      else if base = 0 \<and> m s = 0x30 then (s + 1, 8)
      else if base = 0 then (s, 10)
      else (s, base))"

text \<open>The result is the value and the pointer stored through \<^verbatim>\<open>endptr\<close>.\<close>

definition strtol :: "bmem \<Rightarrow> u32 \<Rightarrow> u32 \<Rightarrow> (u32 \<times> u32) option" where
  "strtol m s base =
     Option.bind (skip_blank m s) (\<lambda>s.
       let neg = (m s = 0x2d);
           s = (if m s = 0x2b then s + 1 else if m s = 0x2d then s + 1 else s);
           (s, base) = strtol_base m s base
       in map_option (\<lambda>(val, e). (if neg then - val else val, e)) (strtol_digits m s base 0))"

section \<open>Block operations: closed forms\<close>

text \<open>\<open>filled\<close> and \<open>copied\<close> say what a whole block operation does to every address; the
  distance to the start of the block is taken modulo the address space, so a block may wrap.\<close>

definition filled :: "u32 \<Rightarrow> nat \<Rightarrow> u8 \<Rightarrow> bmem \<Rightarrow> bmem" where
  "filled s n c m = (\<lambda>a. if unat (a - s) < n then c else m a)"

definition copied :: "u32 \<Rightarrow> u32 \<Rightarrow> nat \<Rightarrow> bmem \<Rightarrow> bmem" where
  "copied src dst n m = (\<lambda>a. if unat (a - dst) < n then m (a - dst + src) else m a)"

lemma unat_sub_Suc: "a \<noteq> s \<Longrightarrow> unat (a - (s + 1)) = unat (a - s) - 1" for a s :: "'a::len word"
  using unat_minus_one [of "a - s"] by (simp add: diff_diff_eq)

lemma unat_sub_pos: "a \<noteq> s \<Longrightarrow> 0 < unat (a - s)" for a s :: "'a::len word"
  by (simp add: unat_gt_0)

lemma unat_m1 [simp]: "unat (s - (s + 1) :: u32) = 2 ^ 32 - 1"
proof -
  have "s - (s + 1) = (- 1 :: u32)" by simp
  then show ?thesis by (simp add: unsigned_minus_1_eq_mask mask_eq_exp_minus_1)
qed

lemma rep_stosb_eq: "n \<le> 2 ^ 32 \<Longrightarrow> rep_stosb n c s m = filled s n c m"
proof (induction n arbitrary: s m)
  case 0
  then show ?case by (simp add: filled_def)
next
  case (Suc n)
  have "filled (s + 1) n c (m(s := c)) a = filled s (Suc n) c m a" for a
  proof (cases "a = s")
    case True
    then show ?thesis using Suc.prems by (simp add: filled_def)
  next
    case False
    then show ?thesis using unat_sub_Suc [OF False] unat_sub_pos [OF False]
      by (auto simp: filled_def)
  qed
  then show ?case using Suc by (auto simp: fun_eq_iff)
qed

text \<open>A forward copy is right unless the destination starts inside the source block, a backward
  copy unless the source starts inside the destination block.\<close>

definition clobbers :: "u32 \<Rightarrow> nat \<Rightarrow> bool" where
  "clobbers d n \<longleftrightarrow> 0 < unat d \<and> unat d < n"

lemma rep_movsb_eq:
  "n \<le> 2 ^ 32 \<Longrightarrow> \<not> clobbers (dst - src) n \<Longrightarrow> rep_movsb n src dst m = copied src dst n m"
proof (induction n arbitrary: src dst m)
  case 0
  then show ?case by (simp add: copied_def)
next
  case (Suc n)
  let ?m = "m(dst := m src)"
  have d: "dst + 1 - (src + 1) = dst - src" by simp
  have "\<not> clobbers (dst - src) n" using Suc.prems(2) by (auto simp: clobbers_def)
  then have IH: "rep_movsb n (src + 1) (dst + 1) ?m = copied (src + 1) (dst + 1) n ?m"
    by (intro Suc.IH) (use Suc.prems(1) d in auto)
  have "copied (src + 1) (dst + 1) n ?m a = copied src dst (Suc n) m a" for a
  proof (cases "a = dst")
    case True
    then show ?thesis using Suc.prems(1) by (simp add: copied_def)
  next
    case False
    have ne: "a - dst + src \<noteq> dst" if "unat (a - dst) < Suc n"
    proof
      assume "a - dst + src = dst"
      then have "a - dst = dst - src" by (simp add: algebra_simps)
      then show False
        using Suc.prems(2) that unat_sub_pos [OF False] by (simp add: clobbers_def)
    qed
    have e: "a - (dst + 1) + (src + 1) = a - dst + src" by simp
    have lt: "unat (a - (dst + 1)) < n \<longleftrightarrow> unat (a - dst) < Suc n"
      using unat_sub_Suc [OF False] unat_sub_pos [OF False] by auto
    show ?thesis
    proof (cases "unat (a - dst) < Suc n")
      case True
      have "copied (src + 1) (dst + 1) n ?m a = ?m (a - dst + src)"
        unfolding copied_def lt e using True by simp
      also have "\<dots> = m (a - dst + src)" by (rule fun_upd_other) (rule ne [OF True])
      finally show ?thesis using True by (simp add: copied_def)
    next
      case F: False
      with lt False show ?thesis unfolding copied_def by simp
    qed
  qed
  then show ?case using IH by (simp add: fun_eq_iff)
qed

lemma rep_movsb_std_eq:
  "n \<le> 2 ^ 32 \<Longrightarrow> \<not> clobbers (src - dst) n \<Longrightarrow>
   rep_movsb_std n (of_nat n - 1 + src) (of_nat n - 1 + dst) m = copied src dst n m"
proof (induction n arbitrary: m)
  case 0
  then show ?case by (simp add: copied_def)
next
  case (Suc n)
  let ?m = "m(dst + of_nat n := m (src + of_nat n))"
  have n: "unat (of_nat n :: u32) = n" using Suc.prems(1) by (simp add: unat_of_nat)
  have "\<not> clobbers (src - dst) n" using Suc.prems(2) by (auto simp: clobbers_def)
  then have IH: "rep_movsb_std n (of_nat n - 1 + src) (of_nat n - 1 + dst) ?m = copied src dst n ?m"
    by (intro Suc.IH) (use Suc.prems(1) in auto)
  have "copied src dst n ?m a = copied src dst (Suc n) m a" for a
  proof (cases "a = dst + of_nat n")
    case True
    then show ?thesis by (simp add: copied_def n add.commute)
  next
    case False
    then have "unat (a - dst) \<noteq> n" using n by (metis add.commute diff_add_cancel of_nat_unat_id)
    then have lt: "unat (a - dst) < n \<longleftrightarrow> unat (a - dst) < Suc n" by auto
    have "a - dst + src \<noteq> dst + of_nat n" if "unat (a - dst) < n"
    proof
      assume "a - dst + src = dst + of_nat n"
      then have d: "src - dst = of_nat n - (a - dst)" by (simp add: algebra_simps)
      have "a - dst \<le> of_nat n" using that n by (simp add: word_le_nat_alt)
      then have "unat (src - dst) = n - unat (a - dst)" by (metis d n unat_sub)
      then show False using Suc.prems(2) that by (simp add: clobbers_def)
    qed
    then show ?thesis using False lt by (simp add: copied_def)
  qed
  then show ?case using IH by (simp add: fun_eq_iff algebra_simps)
qed

lemma rep_movsb_add:
  "rep_movsb (j + k) src dst m =
   rep_movsb k (src + of_nat j) (dst + of_nat j) (rep_movsb j src dst m)"
  by (induction j arbitrary: src dst m) (simp_all add: algebra_simps)

lemma four_Suc: "(4 :: nat) = Suc (Suc (Suc (Suc 0)))"
  by simp

lemma movsl_eq:
  assumes "\<not> clobbers (dst - src) 4"
  shows "movsl src dst m = rep_movsb 4 src dst m"
proof -
  have "dst - src \<noteq> 1" "dst - src \<noteq> 2" "dst - src \<noteq> 3"
    using assms by (auto simp: clobbers_def)
  then have "src + 1 \<noteq> dst" "src + 2 \<noteq> dst" "src + 3 \<noteq> dst" by auto
  then show ?thesis
    unfolding four_Suc rep_movsb.simps by (simp add: movsl_def add.assoc add.commute [of _ src])
qed

lemma rep_movsl_eq:
  "\<not> clobbers (dst - src) (4 * n) \<Longrightarrow> rep_movsl n src dst m = rep_movsb (4 * n) src dst m"
proof (induction n arbitrary: src dst m)
  case 0
  then show ?case by simp
next
  case (Suc n)
  have "\<not> clobbers (dst - src) 4" "\<not> clobbers (dst - src) (4 * n)"
    using Suc.prems by (auto simp: clobbers_def)
  then have "rep_movsl (Suc n) src dst m =
      rep_movsb (4 * n) (src + of_nat 4) (dst + of_nat 4) (rep_movsb 4 src dst m)"
    using Suc.IH [of "dst + 4" "src + 4" "movsl src dst m"] by (simp add: movsl_eq)
  also have "\<dots> = rep_movsb (4 + 4 * n) src dst m" by (simp only: rep_movsb_add)
  finally show ?case by simp
qed

lemma and_3_mod: "n AND 3 = (n mod 4 :: u32)"
proof -
  have "take_bit 2 n = n AND 3" by (simp add: take_bit_eq_mask mask_eq_exp_minus_1)
  then show ?thesis by (simp add: take_bit_eq_mod)
qed

text \<open>The three block operations, with the pointers they return. A copy of \<open>n\<close> bytes
  reads its source as it was before the call.\<close>

lemma memset_eq: "memset s c n m = (s, filled s (unat n) (ucast c) m)"
  by (simp only: memset_def x86_memset_def rep_stosb_eq [OF unat_u32_le])

lemma memcpy_eq:
  assumes "\<not> clobbers (dst - src) (unat n)"
  shows "memcpy dst src n m = (dst, copied src dst (unat n) m)"
proof -
  have q: "unat (n div 4) = unat n div 4" by (simp add: unat_div)
  have r: "unat (n AND 3) = unat n mod 4" by (simp add: and_3_mod unat_mod)
  have "\<not> clobbers (dst - src) (4 * unat (n div 4))"
    using assms unfolding q by (auto simp: clobbers_def)
  then have "snd (x86_memcpy dst src n m) =
      rep_movsb (unat (n AND 3)) (src + of_nat (4 * unat (n div 4))) (dst + of_nat (4 * unat (n div 4)))
        (rep_movsb (4 * unat (n div 4)) src dst m)"
    by (simp add: x86_memcpy_def Let_def rep_movsl_eq)
  also have "\<dots> = rep_movsb (4 * unat (n div 4) + unat (n AND 3)) src dst m"
    by (simp only: rep_movsb_add)
  also have "4 * unat (n div 4) + unat (n AND 3) = unat n" by (simp add: q r)
  finally show ?thesis
    using rep_movsb_eq [OF unat_u32_le assms] by (simp add: memcpy_def x86_memcpy_def Let_def)
qed

lemma clobbers_below:
  fixes d s :: u32
  assumes "d \<le> s" "unat s + n \<le> 2 ^ 32"
  shows "\<not> clobbers (d - s) n"
  using assms by (auto simp: clobbers_def unat_sub_if' word_le_nat_alt)

lemma memmove_eq:
  assumes "unat src + unat n \<le> 2 ^ 32" "unat dst + unat n \<le> 2 ^ 32"
  shows "memmove dst src n m = (dst, copied src dst (unat n) m)"
proof (cases "dst < src")
  case True
  then have "\<not> clobbers (dst - src) (unat n)" by (intro clobbers_below assms) simp
  then show ?thesis using True by (simp add: memmove_def x86_memmove_def flip: memcpy_def add: memcpy_eq)
next
  case False
  then have "\<not> clobbers (src - dst) (unat n)" by (intro clobbers_below assms) simp
  then show ?thesis
    using False rep_movsb_std_eq [OF unat_u32_le, of src dst n m]
    by (simp add: memmove_def x86_memmove_def)
qed

section \<open>Null-terminated strings\<close>

text \<open>\<open>cstring m p cs\<close>: the bytes \<open>cs\<close>, none of them null, stand at \<open>p\<close> and a null byte
  follows them.\<close>

primrec cstring :: "bmem \<Rightarrow> u32 \<Rightarrow> u8 list \<Rightarrow> bool" where
  "cstring m p [] \<longleftrightarrow> m p = 0"
| "cstring m p (c # cs) \<longleftrightarrow> c \<noteq> 0 \<and> m p = c \<and> cstring m (p + 1) cs"

lemma cstring_append:
  "cstring m p (xs @ ys) \<longleftrightarrow>
   0 \<notin> set xs \<and> bytes m p (length xs) = xs \<and> cstring m (p + of_nat (length xs)) ys"
proof (induction xs arbitrary: p)
  case (Cons x xs)
  show ?case using Cons [of "p + 1"] by (auto simp: bytes_Suc algebra_simps)
qed simp

lemma cstring_iff:
  "cstring m p cs \<longleftrightarrow>
   0 \<notin> set cs \<and> bytes m p (length cs) = cs \<and> m (p + of_nat (length cs)) = 0"
  using cstring_append [of m p cs "[]"] by simp

lemma cstring_nth: "cstring m p cs \<Longrightarrow> i < length cs \<Longrightarrow> m (p + of_nat i) = cs ! i"
  using nth_bytes [of i "length cs" m p] by (simp add: cstring_iff)

lemma cstring_nth_nonzero: "cstring m p cs \<Longrightarrow> i < length cs \<Longrightarrow> m (p + of_nat i) \<noteq> 0"
  by (metis cstring_iff cstring_nth nth_mem)

lemma cstring_end: "cstring m p cs \<Longrightarrow> m (p + of_nat (length cs)) = 0"
  by (simp add: cstring_iff)

lemma cstring_unique: "cstring m p xs \<Longrightarrow> cstring m p ys \<Longrightarrow> xs = ys"
proof (induction xs arbitrary: p ys)
  case Nil
  then show ?case by (cases ys) auto
next
  case (Cons x xs)
  then show ?case by (cases ys) auto
qed

lemma cstring_cong:
  assumes "\<And>a. a \<in> span p (Suc (length cs)) \<Longrightarrow> m' a = m a"
  shows "cstring m' p cs = cstring m p cs"
  using assms
proof (induction cs arbitrary: p)
  case (Cons c cs)
  have "cstring m' (p + 1) cs = cstring m (p + 1) cs"
    using Cons.prems by (intro Cons.IH) (simp add: span_Suc)
  moreover have "m' p = m p" using Cons.prems by (simp add: span_Suc)
  ultimately show ?case by simp
qed (simp add: span_Suc)

text \<open>A null byte ends every string before it covers the address space.\<close>

lemma cstring_length: "cstring m p cs \<Longrightarrow> length cs < 2 ^ 32"
proof (rule ccontr)
  assume cs: "cstring m p cs" and "\<not> length cs < 2 ^ 32"
  then have le: "2 ^ 32 \<le> length cs" by simp
  define i where "i = length cs - 2 ^ 32"
  have "(of_nat (length cs) :: u32) = of_nat i"
  proof -
    have "length cs = i + 2 ^ 32" using le by (simp add: i_def)
    then show ?thesis by simp
  qed
  moreover have "i < length cs" using le by (simp add: i_def)
  ultimately show False using cstring_nth_nonzero [OF cs, of i] cstring_end [OF cs] by simp
qed

lemma strlen_loop_eq: "cstring m s cs \<Longrightarrow> strlen_loop m s cnt = Some (cnt + of_nat (length cs))"
  by (induction cs arbitrary: s cnt) (simp_all add: strlen_loop.simps algebra_simps)

lemma strlen_eq: "cstring m s cs \<Longrightarrow> strlen m s = Some (of_nat (length cs))"
  by (simp add: strlen_def strlen_loop_eq)

lemma strnlen_loop_spec:
  assumes "cnt \<le> len"
  shows "cnt \<le> strnlen_loop m s len cnt \<and> strnlen_loop m s len cnt \<le> len \<and>
    (\<forall>i < unat (strnlen_loop m s len cnt) - unat cnt. m (s + of_nat i) \<noteq> 0) \<and>
    (strnlen_loop m s len cnt < len \<longrightarrow> m (s + (strnlen_loop m s len cnt - cnt)) = 0)"
  using assms
proof (induction m s len cnt rule: strnlen_loop.induct)
  case (1 m s len cnt)
  show ?case
  proof (cases "cnt < len \<and> m s \<noteq> 0")
    case True
    let ?r = "strnlen_loop m (s + 1) len (cnt + 1)"
    have r: "strnlen_loop m s len cnt = ?r" using True by (simp add: strnlen_loop.simps [of m s])
    have S: "unat (cnt + 1) = Suc (unat cnt)" using True unat_Suc_nowrap by blast
    then have "cnt + 1 \<le> len" using True by (simp add: word_le_nat_alt word_less_nat_alt)
    note IH = "1.IH" [OF True this]
    have "m (s + of_nat i) \<noteq> 0" if "i < unat ?r - unat cnt" for i
    proof (cases i)
      case (Suc j)
      then have "m (s + 1 + of_nat j) \<noteq> 0" using IH that S by auto
      then show ?thesis using Suc by (simp add: algebra_simps)
    qed (use True in simp)
    moreover have "s + 1 + (?r - (cnt + 1)) = s + (?r - cnt)" by simp
    ultimately show ?thesis using IH S unfolding r by (simp add: word_le_nat_alt)
  next
    case False
    then show ?thesis using "1.prems" by (auto simp: strnlen_loop.simps [of m s])
  qed
qed

lemma strcpy_loop_eq:
  assumes "cstring m src cs" "\<not> clobbers (dst - src) (Suc (length cs))"
  shows "strcpy_loop dst src m = Some (rep_movsb (Suc (length cs)) src dst m)"
  using assms
proof (induction cs arbitrary: src dst m)
  case Nil
  then show ?case by (simp add: strcpy_loop.simps fun_upd_def)
next
  case (Cons c cs)
  let ?m = "m(dst := c)"
  have len: "Suc (length cs) < 2 ^ 32" using cstring_length [OF Cons.prems(1)] by simp
  have "?m a = m a" if a: "a \<in> span (src + 1) (Suc (length cs))" for a
  proof -
    from a obtain i where i: "i < Suc (length cs)" "a = src + 1 + of_nat i" by (auto simp: span_def)
    have "a \<noteq> dst"
    proof
      assume "a = dst"
      then have "dst - src = of_nat (Suc i)" using i by (simp add: algebra_simps)
      then have "unat (dst - src) = Suc i" using i len by (simp only: unat_of_nat) simp
      then show False using Cons.prems(2) i by (simp add: clobbers_def)
    qed
    then show ?thesis by simp
  qed
  then have "cstring ?m (src + 1) cs" using Cons.prems(1) by (subst cstring_cong [where m = m]) auto
  moreover have "\<not> clobbers (dst + 1 - (src + 1)) (Suc (length cs))"
    using Cons.prems(2) by (simp add: clobbers_def) linarith
  ultimately have "strcpy_loop (dst + 1) (src + 1) ?m =
      Some (rep_movsb (Suc (length cs)) (src + 1) (dst + 1) ?m)"
    by (rule Cons.IH)
  then show ?case using Cons.prems(1) by (simp add: strcpy_loop.simps [of dst])
qed

lemma strcpy_eq:
  assumes "cstring m src cs" "\<not> clobbers (dst - src) (Suc (length cs))"
  shows "strcpy dst src m = Some (dst, copied src dst (Suc (length cs)) m)"
proof -
  have "Suc (length cs) \<le> 2 ^ 32" using cstring_length [OF assms(1)] by simp
  then show ?thesis
    using strcpy_loop_eq [OF assms] rep_movsb_eq [OF _ assms(2)]
    by (simp add: strcpy_def del: rep_movsb.simps)
qed

lemma x86_strcmp_eq:
  "cstring m s1 xs \<Longrightarrow> cstring m s2 ys \<Longrightarrow>
   x86_strcmp m s1 s2 = Some (if xs = ys then 0 else if xs < ys then - 1 else 1)"
proof (induction xs arbitrary: s1 s2 ys)
  case Nil
  then show ?case by (cases ys) (auto simp: x86_strcmp.simps word_neq_0_conv)
next
  case (Cons x xs)
  show ?case
  proof (cases ys)
    case Nil
    then show ?thesis using Cons.prems by (auto simp: x86_strcmp.simps)
  next
    case (Cons y zs)
    then show ?thesis
      using Cons.prems Cons.IH [of "s1 + 1" "s2 + 1" zs] by (auto simp: x86_strcmp.simps [of m s1])
  qed
qed

lemma strncpy_loop_at:
  assumes "span p n \<inter> span src (Suc (length cs)) = {}" "cstring m src cs" "n \<le> 2 ^ 32"
  shows "strncpy_loop n p src m =
    (\<lambda>a. if unat (a - p) < n
         then (if unat (a - p) < length cs then cs ! unat (a - p) else 0) else m a)"
  using assms
proof (induction n arbitrary: p src m cs)
  case 0
  then show ?case by simp
next
  case (Suc n)
  let ?m = "m(p := m src)"
  have "p \<notin> span src (Suc (length cs))" using Suc.prems(1) by (auto simp: span_Suc)
  then have keep: "?m a = m a" if "a \<in> span src (Suc (length cs))" for a using that by auto
  have step: "unat (a - (p + 1)) = unat (a - p) - 1 \<and> 0 < unat (a - p)" if "a \<noteq> p" for a
    using that unat_sub_Suc unat_sub_pos by blast
  then have lt: "unat (a - p) - Suc 0 < k \<longleftrightarrow> unat (a - p) < Suc k" if "a \<noteq> p" for a k
    using that by fastforce
  have self: "\<not> unat (p - (p + 1)) < n" using Suc.prems(3) by (simp only: unat_m1)
  show ?case
  proof (cases cs)
    case Nil
    then have "m src = 0" using Suc.prems(2) by simp
    have "cstring ?m src []" using Nil Suc.prems(2) by simp
    then have "strncpy_loop n (p + 1) src ?m =
        (\<lambda>a. if unat (a - (p + 1)) < n
             then (if unat (a - (p + 1)) < length ([] :: u8 list)
                   then ([] :: u8 list) ! unat (a - (p + 1)) else 0) else ?m a)"
      by (intro Suc.IH) (use Suc.prems Nil in \<open>auto simp: span_Suc\<close>)
    then have "strncpy_loop (Suc n) p src m a =
        (if unat (a - (p + 1)) < n then 0 else if a = p then 0 else m a)" for a
      using \<open>m src = 0\<close> by simp
    then show ?thesis using Nil self step lt by (simp add: fun_eq_iff)
  next
    case (Cons c ds)
    then have "m src = c" "c \<noteq> 0" using Suc.prems(2) by auto
    have "cstring ?m src cs" using Suc.prems(2) keep by (subst cstring_cong [where m = m]) auto
    then have "cstring ?m (src + 1) ds" unfolding Cons by (simp only: cstring.simps)
    have "span (p + 1) n \<inter> span (src + 1) (Suc (length ds)) = {}"
      using Suc.prems(1) Cons by (auto simp: span_Suc)
    from Suc.IH [OF this \<open>cstring ?m (src + 1) ds\<close>]
    have "strncpy_loop n (p + 1) (src + 1) ?m =
        (\<lambda>a. if unat (a - (p + 1)) < n
             then (if unat (a - (p + 1)) < length ds then ds ! unat (a - (p + 1)) else 0) else ?m a)"
      using Suc.prems(3) by (simp add: fun_upd_def)
    then have "strncpy_loop (Suc n) p src m a =
        (if unat (a - (p + 1)) < n
         then (if unat (a - (p + 1)) < length ds then ds ! unat (a - (p + 1)) else 0)
         else if a = p then c else m a)" for a
      using \<open>m src = c\<close> \<open>c \<noteq> 0\<close> by simp
    then show ?thesis using Cons self step lt
      by (simp add: fun_eq_iff nth_Cons') (metis less_irrefl)
  qed
qed

lemma uchar_diff_sign:
  shows "sint (uchar_diff x y) = 0 \<longleftrightarrow> x = y"
    and "sint (uchar_diff x y) < 0 \<longleftrightarrow> x < y"
    and "uchar_diff x y = 0 \<longleftrightarrow> x = y"
proof -
  have d: "sint (uchar_diff x y) = int (unat x) - int (unat y)"
    by (simp only: uchar_diff_def sint_ucast_u8_diff)
  show e: "sint (uchar_diff x y) = 0 \<longleftrightarrow> x = y"
    unfolding d by (metis diff_eq_diff_eq eq_iff_diff_eq_0 of_nat_eq_iff of_nat_unat_id)
  show "sint (uchar_diff x y) < 0 \<longleftrightarrow> x < y"
    unfolding d word_less_nat_alt by linarith
  show "uchar_diff x y = 0 \<longleftrightarrow> x = y" using e by (metis signed_eq_0_iff)
qed

lemma strncmp_loop_sign:
  assumes "cstring m s1 xs" "cstring m s2 ys"
  shows "sint (strncmp_loop n m s1 s2) = 0 \<longleftrightarrow> take n xs = take n ys"
    and "sint (strncmp_loop n m s1 s2) < 0 \<longleftrightarrow> take n xs < take n ys"
proof -
  have "(sint (strncmp_loop n m s1 s2) = 0 \<longleftrightarrow> take n xs = take n ys) \<and>
        (sint (strncmp_loop n m s1 s2) < 0 \<longleftrightarrow> take n xs < take n ys)"
    using assms
  proof (induction n arbitrary: s1 s2 xs ys)
    case 0
    then show ?case by simp
  next
    case (Suc n)
    have hd1: "m s1 = (case xs of [] \<Rightarrow> 0 | x # _ \<Rightarrow> x)" and hd2: "m s2 = (case ys of [] \<Rightarrow> 0 | y # _ \<Rightarrow> y)"
      using Suc.prems by (auto split: list.splits)
    have nz: "\<And>x zs. xs = x # zs \<Longrightarrow> x \<noteq> 0" "\<And>y zs. ys = y # zs \<Longrightarrow> y \<noteq> 0" using Suc.prems by auto
    show ?case
    proof (cases "m s1 \<noteq> 0 \<and> m s1 = m s2")
      case True
      then obtain x zs ws where "xs = x # zs" "ys = x # ws"
        using hd1 hd2 by (auto split: list.splits)
      then show ?thesis
        using Suc.IH [of "s1 + 1" zs "s2 + 1" ws] Suc.prems True by auto
    next
      case False
      then show ?thesis using nz
        by (cases xs; cases ys)
           (auto simp: hd1 hd2 uchar_diff_sign word_neq_0_conv)
    qed
  qed
  then show "sint (strncmp_loop n m s1 s2) = 0 \<longleftrightarrow> take n xs = take n ys"
    and "sint (strncmp_loop n m s1 s2) < 0 \<longleftrightarrow> take n xs < take n ys"
    by blast+
qed

lemma memcmp_loop_sign:
  shows "memcmp_loop n m s1 s2 = 0 \<longleftrightarrow> bytes m s1 n = bytes m s2 n"
    and "sint (memcmp_loop n m s1 s2) < 0 \<longleftrightarrow> bytes m s1 n < bytes m s2 n"
proof -
  have "(memcmp_loop n m s1 s2 = 0 \<longleftrightarrow> bytes m s1 n = bytes m s2 n) \<and>
        (sint (memcmp_loop n m s1 s2) < 0 \<longleftrightarrow> bytes m s1 n < bytes m s2 n)"
    by (induction n arbitrary: s1 s2)
       (auto simp: bytes_Suc uchar_diff_sign)
  then show "memcmp_loop n m s1 s2 = 0 \<longleftrightarrow> bytes m s1 n = bytes m s2 n"
    and "sint (memcmp_loop n m s1 s2) < 0 \<longleftrightarrow> bytes m s1 n < bytes m s2 n"
    by simp_all
qed

text \<open>The scans for a character stop at its first occurrence.\<close>

definition index_of_char :: "u32 \<Rightarrow> u8 list \<Rightarrow> nat" where
  "index_of_char c cs = length (takeWhile (\<lambda>x. (scast x :: u32) \<noteq> c) cs)"

lemma index_of_char_simps [simp]:
  "index_of_char c [] = 0"
  "index_of_char c (x # xs) = (if scast x = c then 0 else Suc (index_of_char c xs))"
  by (simp_all add: index_of_char_def)

lemma strfind_eq:
  "cstring m s cs \<Longrightarrow> strfind m s c = Some (s + of_nat (index_of_char c cs))"
  by (induction cs arbitrary: s) (auto simp: strfind.simps algebra_simps)

lemma strchr_eq:
  "cstring m s cs \<Longrightarrow>
   strchr m s c =
     Some (if index_of_char c cs < length cs then s + of_nat (index_of_char c cs) else NULL)"
  by (induction cs arbitrary: s) (auto simp: strchr.simps algebra_simps)

section \<open>strtol\<close>

lemma skip_blank_eq:
  "bytes m s (length ws) = ws \<Longrightarrow> set ws \<subseteq> {0x20, 0x09} \<Longrightarrow>
   m (s + of_nat (length ws)) \<notin> {0x20, 0x09} \<Longrightarrow>
   skip_blank m s = Some (s + of_nat (length ws))"
proof (induction ws arbitrary: s)
  case Nil
  then show ?case by (simp add: skip_blank.simps)
next
  case (Cons w ws)
  then show ?case
    using Cons.IH [of "s + 1"] by (auto simp: skip_blank.simps [of m s] bytes_Suc algebra_simps)
qed

text \<open>The value of a character in a base: \<open>Some d\<close> when the digit loop accepts it.\<close>

definition base_digit :: "u32 \<Rightarrow> u8 \<Rightarrow> u32 option" where
  "base_digit base c =
     (case digit_of c of None \<Rightarrow> None | Some d \<Rightarrow> if sint d < sint base then Some d else None)"

definition digits_value :: "u32 \<Rightarrow> u8 list \<Rightarrow> u32" where
  "digits_value base ds = foldl (\<lambda>v c. v * base + the (base_digit base c)) 0 ds"

lemma strtol_digits_eq:
  assumes "bytes m s (length ds) = ds" "\<forall>c \<in> set ds. base_digit base c \<noteq> None"
    "base_digit base (m (s + of_nat (length ds))) = None"
  shows "strtol_digits m s base v =
    Some (foldl (\<lambda>v c. v * base + the (base_digit base c)) v ds, s + of_nat (length ds))"
  using assms
proof (induction ds arbitrary: s v)
  case Nil
  then show ?case
    by (auto simp: strtol_digits.simps [of m s] base_digit_def not_less split: option.splits if_splits)
next
  case (Cons c ds)
  from Cons.prems have c: "m s = c" "bytes m (s + 1) (length ds) = ds" by (simp_all add: bytes_Suc)
  obtain d where d: "digit_of c = Some d" "sint d < sint base"
    using Cons.prems(2) by (auto simp: base_digit_def split: option.splits if_splits)
  have "strtol_digits m (s + 1) base (v * base + d) =
      Some (foldl (\<lambda>v c. v * base + the (base_digit base c)) (v * base + d) ds,
            s + 1 + of_nat (length ds))"
    using Cons.prems c by (intro Cons.IH) (simp_all add: algebra_simps)
  then show ?case
    using c d by (simp add: strtol_digits.simps [of m s] base_digit_def not_le algebra_simps)
qed

text \<open>A sign character, or none.\<close>

definition is_sign :: "u8 list \<Rightarrow> bool" where
  "is_sign sg \<longleftrightarrow> sg = [] \<or> sg = [0x2b] \<or> sg = [0x2d]"

lemma digit_of_cases:
  "digit_of c = Some d \<Longrightarrow> c \<notin> {0x20, 0x09, 0x2b, 0x2d, 0x78} \<or> c = 0x78 \<and> sint d = 33"
  by (auto simp: digit_of_def split: if_splits)

lemma base_digit_x: "sint base \<le> 16 \<Longrightarrow> base_digit base 0x78 = None"
  by (auto simp: base_digit_def digit_of_def)

lemma base_digit_not_blank:
  "base_digit base c \<noteq> None \<Longrightarrow> c \<notin> {0x20, 0x09, 0x2b, 0x2d}"
  by (auto simp: base_digit_def digit_of_def)

lemma strtol_eq:
  assumes str: "bytes m s (length (ws @ sg @ ds)) = ws @ sg @ ds"
    and ws: "set ws \<subseteq> {0x20, 0x09}" and sg: "is_sign sg" and ds: "ds \<noteq> []"
    and dig: "\<forall>c \<in> set ds. base_digit base c \<noteq> None"
    and stop: "base_digit base (m (s + of_nat (length (ws @ sg @ ds)))) = None"
    and base: "2 \<le> sint base" "base \<noteq> 16 \<or> ds \<noteq> [0x30] \<or> m (s + of_nat (length (ws @ sg @ ds))) \<noteq> 0x78"
  shows "strtol m s base =
    Some (if sg = [0x2d] then - digits_value base ds else digits_value base ds,
          s + of_nat (length (ws @ sg @ ds)))"
proof -
  let ?s1 = "s + of_nat (length ws)"
  let ?s2 = "s + of_nat (length (ws @ sg))"
  have split: "bytes m s (length ws) = ws" "bytes m ?s1 (length sg) = sg" "bytes m ?s2 (length ds) = ds"
    using str unfolding bytes_append_iff by (simp_all add: algebra_simps)
  have d0: "m ?s2 = hd ds" using split(3) ds by (cases ds) (simp_all add: bytes_Suc)
  have "hd ds \<in> set ds" using ds by simp
  then have nb: "hd ds \<notin> {0x20, 0x09, 0x2b, 0x2d}" using dig base_digit_not_blank by blast
  have m1: "m ?s1 = hd (sg @ ds)" using split(2) d0 sg by (auto simp: is_sign_def bytes_Suc)
  then have blank: "skip_blank m s = Some ?s1"
    using sg nb by (intro skip_blank_eq split ws) (auto simp: is_sign_def)
  have b0: "base \<noteq> 0" using base(1) by auto
  have prefix: "strtol_base m ?s2 base = (?s2, base)"
  proof (cases "base = 16 \<and> m ?s2 = 0x30 \<and> m (?s2 + 1) = 0x78")
    case True
    obtain c ds' where c: "ds = c # ds'" using ds by (cases ds) auto
    show ?thesis
    proof (cases ds')
      case Nil
      then show ?thesis using True base(2) d0 c by (simp add: algebra_simps)
    next
      case (Cons c' ds'')
      then have "m (?s2 + 1) = c'" using split(3) c by (simp add: bytes_Suc)
      then have "base_digit 16 0x78 \<noteq> None" using dig True c Cons by auto
      then show ?thesis by (simp add: base_digit_x)
    qed
  next
    case False
    then show ?thesis using b0 by (auto simp: strtol_base_def)
  qed
  have e: "s + of_nat (length (ws @ sg @ ds)) = ?s2 + of_nat (length ds)" by (simp add: algebra_simps)
  have digits: "strtol_digits m ?s2 base 0 = Some (digits_value base ds, ?s2 + of_nat (length ds))"
    unfolding digits_value_def by (rule strtol_digits_eq [OF split(3) dig stop [unfolded e]])
  have sgn: "m ?s1 = 0x2b \<longleftrightarrow> sg = [0x2b]" "m ?s1 = 0x2d \<longleftrightarrow> sg = [0x2d]"
    using m1 nb sg by (auto simp: is_sign_def)
  define p where "p = ?s1"
  define q where "q = ?s2"
  have "(if sg = [0x2b] then p + 1 else if sg = [0x2d] then p + 1 else p) = q"
    using sg by (auto simp: is_sign_def p_def q_def algebra_simps)
  then show ?thesis
    unfolding strtol_def blank e
    using prefix digits sgn unfolding p_def [symmetric] q_def [symmetric]
    by (auto simp: Let_def split: if_splits)
qed

section \<open>Properties\<close>

lemma copied_at: "i < n \<Longrightarrow> n \<le> 2 ^ 32 \<Longrightarrow> copied src dst n m (dst + of_nat i) = m (src + of_nat i)"
proof -
  assume i: "i < n" "n \<le> 2 ^ 32"
  then have "unat (of_nat i :: u32) = i" by (simp add: unat_of_nat)
  then show ?thesis using i(1) by (simp add: copied_def add.commute [of _ src])
qed

lemma copied_bytes: "n \<le> 2 ^ 32 \<Longrightarrow> bytes (copied src dst n m) dst n = bytes m src n"
  by (rule nth_equalityI) (auto simp: copied_at)

lemma in_span_iff: "n \<le> 2 ^ 32 \<Longrightarrow> a \<in> span p n \<longleftrightarrow> unat (a - p) < n"
proof
  assume "n \<le> 2 ^ 32" "a \<in> span p n"
  then show "unat (a - p) < n" by (auto simp: span_def unat_of_nat)
next
  assume "unat (a - p) < n"
  then have "p + of_nat (unat (a - p)) \<in> span p n" by (rule in_spanI)
  then show "a \<in> span p n" by (simp only: of_nat_unat_id) simp
qed

lemma copied_other: "a \<notin> span dst n \<Longrightarrow> n \<le> 2 ^ 32 \<Longrightarrow> copied src dst n m a = m a"
  by (simp add: in_span_iff copied_def)

text \<open>C30. \<^verbatim>\<open>memmove\<close> is right for every pair of blocks that do not run off the
  end of the address space, however they overlap: the destination gets the bytes the source held
  before the call, nothing else changes, and the destination pointer is returned.\<close>

theorem memmove_moves:
  assumes "unat src + unat n \<le> 2 ^ 32" "unat dst + unat n \<le> 2 ^ 32"
  shows "fst (memmove dst src n m) = dst \<and>
    bytes (snd (memmove dst src n m)) dst (unat n) = bytes m src (unat n) \<and>
    (\<forall>a. a \<notin> span dst (unat n) \<longrightarrow> snd (memmove dst src n m) a = m a)"
  using copied_other unat_u32_le by (simp add: memmove_eq [OF assms] copied_bytes unat_u32_le)

theorem memmove_moves_witness:
  "bytes (snd (memmove 0x101 0x100 3 (placed 0x100 [1, 2, 3, 4]))) 0x101 3 = [1, 2, 3]"
  using memmove_moves [of "0x100" 3 "0x101" "placed 0x100 [1, 2, 3, 4]"]
  by (simp add: placed_def)

text \<open>\<^verbatim>\<open>strcmp\<close> (the \<^verbatim>\<open>lodsb\<close>/\<^verbatim>\<open>scasb\<close> loop)
  returns on every two null-terminated strings, with 0, -1 or 1 as the first string is equal to,
  before or after the second one in the lexicographic order of unsigned bytes.\<close>

theorem strcmp_lexicographic:
  assumes "cstring m s1 xs" "cstring m s2 ys"
  shows "strcmp m s1 s2 = Some (if xs = ys then 0 else if xs < ys then - 1 else 1)"
  using assms by (simp add: strcmp_def x86_strcmp_eq)

theorem strcmp_lexicographic_witness:
  "strcmp (placed 0x100 [97, 98, 0, 97, 200, 0]) 0x100 0x103 = Some (- 1)"
  using strcmp_lexicographic [of "placed 0x100 [97, 98, 0, 97, 200, 0]" "0x100" "[97, 98]" "0x103" "[97, 200]"]
  by (simp add: placed_def)

text \<open>\<^verbatim>\<open>strncpy\<close> writes exactly \<open>len\<close> bytes: the string cut to
  \<open>len\<close>, padded with null bytes; every other byte of memory stays.\<close>

theorem strncpy_pads:
  assumes "cstring m src cs" "span dst (unat len) \<inter> span src (Suc (length cs)) = {}"
  shows "fst (strncpy dst src len m) = dst \<and>
    bytes (snd (strncpy dst src len m)) dst (unat len) =
      take (unat len) cs @ replicate (unat len - length cs) 0 \<and>
    (\<forall>a. a \<notin> span dst (unat len) \<longrightarrow> snd (strncpy dst src len m) a = m a)"
proof -
  have le: "unat len \<le> 2 ^ 32" by (rule unat_u32_le)
  note at = strncpy_loop_at [OF assms(2,1) le]
  have "bytes (snd (strncpy dst src len m)) dst (unat len) =
      take (unat len) cs @ replicate (unat len - length cs) 0"
  proof (rule nth_equalityI)
    fix i assume "i < length (bytes (snd (strncpy dst src len m)) dst (unat len))"
    then have i: "i < unat len" by simp
    then have "unat (of_nat i :: u32) = i" using le by (simp add: unat_of_nat)
    then show "bytes (snd (strncpy dst src len m)) dst (unat len) ! i =
        (take (unat len) cs @ replicate (unat len - length cs) 0) ! i"
      using i by (auto simp: strncpy_def at nth_append)
  qed simp
  then show ?thesis by (auto simp: strncpy_def at in_span_iff [OF le])
qed

theorem strncpy_pads_witness:
  "bytes (snd (strncpy 0x200 0x100 4 (placed 0x100 [97, 98, 0]))) 0x200 4 = [97, 98, 0, 0]"
proof -
  have "span 0x200 (unat (4 :: u32)) \<inter> span 0x100 (Suc (length [97, 98 :: u8])) = {}"
    by (simp add: span_Suc)
  then show ?thesis
    using strncpy_pads [of "placed 0x100 [97, 98, 0]" "0x100" "[97, 98]" "0x200" 4]
    by (simp add: placed_def replicate_num)
qed

text \<open>\<^verbatim>\<open>strtol\<close> skips blanks, takes one optional sign and every
  following digit of the base, and returns their value modulo \<open>2 ^ 32\<close>, negated after a minus,
  together with a pointer just behind the last digit.\<close>

theorem strtol_value:
  assumes "bytes m s (length (ws @ sg @ ds)) = ws @ sg @ ds"
    and "set ws \<subseteq> {0x20, 0x09}" "is_sign sg" "ds \<noteq> []"
    and "\<forall>c \<in> set ds. base_digit base c \<noteq> None"
    and "base_digit base (m (s + of_nat (length (ws @ sg @ ds)))) = None"
    and "2 \<le> sint base" "base \<noteq> 16 \<or> ds \<noteq> [0x30] \<or> m (s + of_nat (length (ws @ sg @ ds))) \<noteq> 0x78"
  shows "strtol m s base =
    Some (if sg = [0x2d] then - digits_value base ds else digits_value base ds,
          s + of_nat (length (ws @ sg @ ds)))"
  using assms by (rule strtol_eq)

theorem strtol_value_witness:
  "strtol (placed 0x100 [0x20, 0x2d, 0x34, 0x32, 0]) 0x100 10 = Some (- 42, 0x104)"
  using strtol_value [of "placed 0x100 [0x20, 0x2d, 0x34, 0x32, 0]" "0x100" "[0x20]" "[0x2d]" "[0x34, 0x32]" 10]
  by (simp add: placed_def bytes_Suc is_sign_def base_digit_def digit_of_def digits_value_def)

end
