(* ===== verification/Bitmap.thy ===== *)
theory Bitmap
  imports Strings
begin

text \<open>
  \<^verbatim>\<open>ds/bitmap.c\<close>. The bits of a bitmap are bytes of memory, found through a pointer,
  so a scan that leaves the bitmap reads whatever stands behind it. A failed
  \<^verbatim>\<open>assert\<close> is a \<open>Panic\<close> with the text of its expression.
\<close>

section \<open>The code\<close>

record bitmap =
  bitmap_len :: u32
  bitmap_bits :: u32

definition bitmap_init :: "bitmap \<Rightarrow> bmem \<Rightarrow> bmem" where
  "bitmap_init btmp m = snd (memset (bitmap_bits btmp) 0 (bitmap_len btmp) m)"

definition bitmap_scan_test :: "bmem \<Rightarrow> bitmap \<Rightarrow> u32 \<Rightarrow> u32" where
  "bitmap_scan_test m btmp bit_idx =
     (let byte_idx = bit_idx div 8;
          bit_odd = bit_idx mod 8
      in ucast (m (bitmap_bits btmp + byte_idx)) AND push_bit (unat bit_odd) 1)"

text \<open>The inner loops of \<^verbatim>\<open>bitmap_scan\<close>: over the full bytes, over the bits of the
  first byte that is not full, and over the \<open>count\<close> bits that must follow.\<close>

function skip_full :: "bmem \<Rightarrow> bitmap \<Rightarrow> u32 \<Rightarrow> u32" where
  "skip_full m btmp idx_byte =
     (if m (bitmap_bits btmp + idx_byte) = 0xff \<and> idx_byte < bitmap_len btmp
      then skip_full m btmp (idx_byte + 1) else idx_byte)"
  by pat_completeness auto
termination
  by (relation "measure (\<lambda>(m, btmp, i). unat (bitmap_len btmp) - unat i)")
     (auto simp: unat_Suc_nowrap word_less_nat_alt)

declare skip_full.simps [simp del]

text \<open>\<^verbatim>\<open>(uint8_t)(BITMAP_MASK << idx_bit)\<close> is 0 from \<open>idx_bit = 8\<close> on, so
  this loop ends on every byte.\<close>

function free_bit :: "u8 \<Rightarrow> nat \<Rightarrow> nat" where
  "free_bit byte idx_bit =
     (if ucast (push_bit idx_bit (1 :: u32)) AND byte \<noteq> 0 then free_bit byte (Suc idx_bit)
      else idx_bit)"
  by pat_completeness auto
termination
proof (relation "measure (\<lambda>(byte, i). 8 - i)")
  fix byte :: u8 and i
  assume "ucast (push_bit i (1 :: u32)) AND byte \<noteq> 0"
  then have "i < 8"
    by (rule_tac ccontr) (auto intro!: bit_word_eqI simp: bit_simps)
  then show "((byte, Suc i), byte, i) \<in> measure (\<lambda>(byte, i). 8 - i)" by simp
qed simp

declare free_bit.simps [simp del]

primrec free_run :: "bmem \<Rightarrow> bitmap \<Rightarrow> u32 \<Rightarrow> nat \<Rightarrow> bool" where
  "free_run m btmp next_bit 0 = True"
| "free_run m btmp next_bit (Suc count) =
     (if bitmap_scan_test m btmp next_bit \<noteq> 0 then False
      else free_run m btmp (next_bit + 1) count)"

lemma skip_full_ge: "idx \<le> skip_full m btmp idx"
proof (induction m btmp idx rule: skip_full.induct)
  case (1 m btmp idx)
  show ?case
  proof (cases "m (bitmap_bits btmp + idx) = 0xff \<and> idx < bitmap_len btmp")
    case True
    then have "idx < idx + 1" using unat_Suc_nowrap [of idx "bitmap_len btmp"]
      by (simp add: word_less_nat_alt)
    then show ?thesis using "1.IH" [OF True] True by (simp add: skip_full.simps [of m btmp idx])
  next
    case False
    then show ?thesis by (simp only: skip_full.simps [of m btmp idx] if_False order_refl)
  qed
qed

function scan_from :: "bmem \<Rightarrow> bitmap \<Rightarrow> u32 \<Rightarrow> u32 \<Rightarrow> u32 res" where
  "scan_from m btmp cnt idx_byte =
     (let idx_byte = skip_full m btmp idx_byte
      in if \<not> idx_byte < bitmap_len btmp then Inl (Panic ''idx_byte < btmp->bitmap_len'')
         else if idx_byte = bitmap_len btmp then Inr (- 1)
         else
           let idx_bit = free_bit (m (bitmap_bits btmp + idx_byte)) 0;
               bit_idx_start = idx_byte * 8 + of_nat idx_bit
           in if cnt = 1 then Inr bit_idx_start
              else if free_run m btmp (bit_idx_start + 1) (unat (cnt - 1)) then Inr bit_idx_start
              else scan_from m btmp cnt (idx_byte + 1))"
  by pat_completeness auto
termination
proof (relation "measure (\<lambda>(m, btmp, cnt, i). unat (bitmap_len btmp) - unat i)", goal_cases)
  case 1
  then show ?case by simp
next
  case (2 m btmp cnt i i' b s)
  then have "unat i' < unat (bitmap_len btmp)" "unat i \<le> unat i'"
    using skip_full_ge [of i m btmp] by (simp_all add: word_less_nat_alt word_le_nat_alt)
  moreover have "unat (i' + 1) = Suc (unat i')"
    using 2(2) by (intro unat_Suc_nowrap [of _ "bitmap_len btmp"]) simp
  ultimately show ?case by simp
qed

declare scan_from.simps [simp del]

definition bitmap_scan :: "bmem \<Rightarrow> bitmap \<Rightarrow> u32 \<Rightarrow> u32 res" where
  "bitmap_scan m btmp cnt = scan_from m btmp cnt 0"

definition bitmap_set :: "bitmap \<Rightarrow> u32 \<Rightarrow> u8 \<Rightarrow> bmem \<Rightarrow> bmem res" where
  "bitmap_set btmp bit_idx value m =
     assert_res ''(value == 0) || (value == 1)'' (value = 0 \<or> value = 1)
       (let byte_idx = bit_idx div 8;
            bit_odd = bit_idx mod 8;
            mask = push_bit (unat bit_odd) (1 :: u32);
            a = bitmap_bits btmp + byte_idx
        in if value \<noteq> 0 then Inr (m(a := ucast (ucast (m a) OR mask)))
           else Inr (m(a := ucast (ucast (m a) AND NOT mask))))"

section \<open>Bits\<close>

text \<open>Bit \<open>n\<close> of a bitmap, for any \<open>n\<close> the pointer arithmetic reaches.\<close>

definition bm_bit :: "bmem \<Rightarrow> bitmap \<Rightarrow> nat \<Rightarrow> bool" where
  "bm_bit m btmp n = bit (m (bitmap_bits btmp + of_nat (n div 8))) (n mod 8)"

definition bm_size :: "bitmap \<Rightarrow> nat" where
  "bm_size btmp = 8 * unat (bitmap_len btmp)"

lemma bit_mask_test:
  fixes x :: u8
  assumes "k < 8"
  shows "ucast x AND push_bit k (1 :: u32) \<noteq> 0 \<longleftrightarrow> bit x k"
proof
  assume "bit x k"
  then have "bit (ucast x AND push_bit k (1 :: u32)) k" using assms by (simp add: bit_simps)
  then show "ucast x AND push_bit k (1 :: u32) \<noteq> 0" by auto
next
  assume "ucast x AND push_bit k (1 :: u32) \<noteq> 0"
  then obtain n where "bit (ucast x AND push_bit k (1 :: u32)) n" by (auto simp: bit_eq_iff)
  then show "bit x k" using assms by (auto simp: bit_simps)
qed

lemma div_8_of_nat: "(i :: u32) div 8 = of_nat (unat i div 8)"
proof -
  have "unat (i div 8) = unat i div 8" by (simp add: unat_div)
  then show ?thesis by (metis of_nat_unat_id)
qed

lemma scan_test_iff: "bitmap_scan_test m btmp i \<noteq> 0 \<longleftrightarrow> bm_bit m btmp (unat i)"
proof -
  have "unat (i mod 8) = unat i mod 8" by (simp add: unat_mod)
  moreover have "i div 8 = of_nat (unat i div 8)" by (rule div_8_of_nat)
  ultimately show ?thesis
    using bit_mask_test [of "unat i mod 8" "m (bitmap_bits btmp + i div 8)"]
    by (simp add: bitmap_scan_test_def Let_def bm_bit_def del: push_bit_of_1)
qed

lemma bit_set_byte:
  fixes x :: u8
  assumes "k < 8" "n < 8"
  shows "bit (ucast (ucast x OR push_bit k (1 :: u32)) :: u8) n \<longleftrightarrow> n = k \<or> bit x n"
    and "bit (ucast (ucast x AND NOT (push_bit k (1 :: u32))) :: u8) n \<longleftrightarrow> n \<noteq> k \<and> bit x n"
  using assms by (auto simp: bit_simps)

lemma byte_index_inj:
  assumes "j < 2 ^ 32" "i < 2 ^ 32"
    "p + (of_nat (j div 8) :: u32) = p + of_nat (i div 8)"
  shows "j div 8 = i div 8"
  using assms by (intro add_of_nat_inj [OF assms(3)]) simp_all

text \<open>Setting a bit to a value changes that bit and nothing else, in memory or in the bitmap.\<close>

definition set_bit_mem :: "bitmap \<Rightarrow> nat \<Rightarrow> bool \<Rightarrow> bmem \<Rightarrow> bmem" where
  "set_bit_mem btmp n v m =
     (let a = bitmap_bits btmp + of_nat (n div 8);
          mask = push_bit (n mod 8) (1 :: u32)
      in m(a := if v then ucast (ucast (m a) OR mask) else ucast (ucast (m a) AND NOT mask)))"

lemma bitmap_set_eq:
  "bitmap_set btmp i v m =
     (if v = 0 \<or> v = 1 then Inr (set_bit_mem btmp (unat i) (v = 1) m)
      else Inl (Panic ''(value == 0) || (value == 1)''))"
proof -
  have "unat (i mod 8) = unat i mod 8" by (simp add: unat_mod)
  moreover have "i div 8 = of_nat (unat i div 8)" by (rule div_8_of_nat)
  ultimately show ?thesis
    by (auto simp: bitmap_set_def set_bit_mem_def Let_def simp del: push_bit_of_1)
qed

lemma bm_bit_set [mem_simps]:
  assumes "j < 2 ^ 32" "i < 2 ^ 32"
  shows "bm_bit (set_bit_mem btmp i v m) btmp j = (if j = i then v else bm_bit m btmp j)"
proof (cases "j div 8 = i div 8")
  case True
  moreover have "j = i \<longleftrightarrow> j mod 8 = i mod 8" using True by (metis mult_div_mod_eq)
  ultimately show ?thesis
    by (simp add: set_bit_mem_def bm_bit_def Let_def bit_set_byte del: push_bit_of_1)
next
  case False
  then have "bitmap_bits btmp + of_nat (j div 8) \<noteq> bitmap_bits btmp + of_nat (i div 8)"
    using byte_index_inj [OF assms] by blast
  then show ?thesis using False by (auto simp: set_bit_mem_def bm_bit_def Let_def)
qed

lemma set_bit_mem_other [mem_simps]:
  "a \<noteq> bitmap_bits btmp + of_nat (i div 8) \<Longrightarrow> set_bit_mem btmp i v m a = m a"
  by (simp add: set_bit_mem_def Let_def)

section \<open>The scans\<close>

lemma bit_255 [simp]: "bit (255 :: int) n \<longleftrightarrow> n < 8"
proof -
  have e: "(255 :: int) = mask 8" by (simp add: mask_eq_exp_minus_1)
  show ?thesis unfolding e by (simp only: bit_mask_iff possible_bit_int) auto
qed

lemma not_full_byte: "(x :: u8) \<noteq> 0xff \<longleftrightarrow> (\<exists>n < 8. \<not> bit x n)"
  by (auto simp: bit_eq_iff dest: bit_imp_le_length)

lemma bm_bit_div_mod:
  "k < 8 \<Longrightarrow> bm_bit m btmp (8 * i + k) \<longleftrightarrow> bit (m (bitmap_bits btmp + of_nat i)) k"
  by (simp add: bm_bit_def)

lemma full_byte_bits:
  "m (bitmap_bits btmp + of_nat (n div 8)) = 0xff \<Longrightarrow> bm_bit m btmp n"
  by (simp add: bm_bit_def)

lemma skip_full_spec:
  "idx \<le> bitmap_len btmp \<Longrightarrow>
   skip_full m btmp idx \<le> bitmap_len btmp \<and>
   (\<forall>k. unat idx \<le> k \<and> k < unat (skip_full m btmp idx) \<longrightarrow> m (bitmap_bits btmp + of_nat k) = 0xff) \<and>
   (skip_full m btmp idx < bitmap_len btmp \<longrightarrow> m (bitmap_bits btmp + skip_full m btmp idx) \<noteq> 0xff)"
proof (induction m btmp idx rule: skip_full.induct)
  case (1 m btmp idx)
  show ?case
  proof (cases "m (bitmap_bits btmp + idx) = 0xff \<and> idx < bitmap_len btmp")
    case True
    have S: "unat (idx + 1) = Suc (unat idx)" using True by (intro unat_Suc_nowrap) blast
    then have "idx + 1 \<le> bitmap_len btmp" using True by (simp add: word_le_nat_alt word_less_nat_alt)
    note IH = "1.IH" [OF True this]
    have r: "skip_full m btmp idx = skip_full m btmp (idx + 1)"
      using True by (simp add: skip_full.simps [of m btmp idx])
    have "m (bitmap_bits btmp + of_nat k) = 0xff" if "unat idx \<le> k" "k < unat (skip_full m btmp idx)" for k
      using IH that True S unfolding r by (cases "k = unat idx") (auto simp del: of_nat_unat)
    then show ?thesis using IH unfolding r by blast
  next
    case False
    then have "skip_full m btmp idx = idx" by (simp only: skip_full.simps [of m btmp idx] if_False)
    then show ?thesis using False "1.prems" by auto
  qed
qed

lemma free_bit_spec:
  "\<forall>j < i. bit x j \<Longrightarrow> \<exists>n \<ge> i. n < 8 \<and> \<not> bit x n \<Longrightarrow>
   free_bit x i < 8 \<and> \<not> bit x (free_bit x i) \<and> (\<forall>j < free_bit x i. bit x j)"
proof (induction x i rule: free_bit.induct)
  case (1 x i)
  from "1.prems"(2) have i: "i < 8" by auto
  have "ucast (push_bit i (1 :: u32)) AND x \<noteq> 0 \<longleftrightarrow> bit x i"
  proof
    assume "bit x i"
    then have "bit (ucast (push_bit i (1 :: u32)) AND x) i" using i by (simp add: bit_simps)
    then show "ucast (push_bit i (1 :: u32)) AND x \<noteq> 0" by auto
  next
    assume "ucast (push_bit i (1 :: u32)) AND x \<noteq> 0"
    then obtain n where "bit (ucast (push_bit i (1 :: u32)) AND x) n" by (auto simp: bit_eq_iff)
    then show "bit x i" by (auto simp: bit_simps)
  qed
  note test = this
  show ?case
  proof (cases "bit x i")
    case True
    then have "free_bit x i = free_bit x (Suc i)" using test by (simp add: free_bit.simps [of x i])
    moreover have "\<forall>j < Suc i. bit x j" using "1.prems"(1) True less_Suc_eq by auto
    moreover have "\<exists>n \<ge> Suc i. n < 8 \<and> \<not> bit x n"
      using "1.prems"(2) True by (metis Suc_leI le_neq_implies_less)
    ultimately show ?thesis using "1.IH" test True by auto
  next
    case False
    then have "free_bit x i = i" using test by (simp add: free_bit.simps [of x i])
    then show ?thesis using False i "1.prems"(1) by simp
  qed
qed

lemma free_bit_0:
  "x \<noteq> 0xff \<Longrightarrow> free_bit x 0 < 8 \<and> \<not> bit x (free_bit x 0) \<and> (\<forall>j < free_bit x 0. bit x j)"
  by (rule free_bit_spec) (auto simp: not_full_byte)

lemma free_run_iff:
  "free_run m btmp i n \<longleftrightarrow> (\<forall>k < n. \<not> bm_bit m btmp (unat (i + of_nat k)))"
proof (induction n arbitrary: i)
  case (Suc n)
  have "(\<forall>k < Suc n. P k) \<longleftrightarrow> P 0 \<and> (\<forall>k < n. P (Suc k))" for P :: "nat \<Rightarrow> bool"
    using less_Suc_eq_0_disj by auto
  then show ?case by (simp add: Suc scan_test_iff algebra_simps)
qed simp

text \<open>The scan without its loops: the first byte that has a clear bit and whose first clear bit
  starts a run of \<open>cnt\<close> clear bits. Only the first clear bit of each byte is tried.\<close>

definition scan_start :: "bmem \<Rightarrow> bitmap \<Rightarrow> nat \<Rightarrow> nat" where
  "scan_start m btmp i = 8 * i + free_bit (m (bitmap_bits btmp + of_nat i)) 0"

definition scan_hit :: "bmem \<Rightarrow> bitmap \<Rightarrow> u32 \<Rightarrow> nat \<Rightarrow> bool" where
  "scan_hit m btmp cnt i \<longleftrightarrow>
     m (bitmap_bits btmp + of_nat i) \<noteq> 0xff \<and>
     (cnt = 1 \<or> free_run m btmp (of_nat (scan_start m btmp i) + 1) (unat (cnt - 1)))"

definition scan_reference :: "bmem \<Rightarrow> bitmap \<Rightarrow> u32 \<Rightarrow> nat \<Rightarrow> u32 res" where
  "scan_reference m btmp cnt from =
     (case List.find (scan_hit m btmp cnt) [from..<unat (bitmap_len btmp)] of
        None \<Rightarrow> Inl (Panic ''idx_byte < btmp->bitmap_len'')
      | Some i \<Rightarrow> Inr (of_nat (scan_start m btmp i)))"

lemma scan_from_eq:
  "idx \<le> bitmap_len btmp \<Longrightarrow> scan_from m btmp cnt idx = scan_reference m btmp cnt (unat idx)"
proof (induction m btmp cnt idx rule: scan_from.induct)
  case (1 m btmp cnt idx)
  define j where "j = skip_full m btmp idx"
  define l where "l = bitmap_len btmp"
  note spec = skip_full_spec [OF "1.prems", of m, folded j_def l_def]
  have ge: "unat idx \<le> unat j" using skip_full_ge [of idx m btmp] by (simp add: j_def word_le_nat_alt)
  have nohit: "\<not> scan_hit m btmp cnt k" if "unat idx \<le> k" "k < unat j" for k
    using spec that by (auto simp: scan_hit_def)
  have skip: "List.find (scan_hit m btmp cnt) [unat idx..<unat l] =
      List.find (scan_hit m btmp cnt) [unat j..<unat l]"
    by (rule find_upt_skip [OF ge nohit])
  show ?case
  proof (cases "j < l")
    case False
    then show ?thesis using skip
      by (simp add: scan_from.simps [of m] scan_reference_def Let_def word_less_nat_alt flip: j_def l_def)
  next
    case True
    then have jl: "unat j < unat l" and ne: "j \<noteq> l" by (auto simp: word_less_nat_alt)
    have b: "m (bitmap_bits btmp + j) \<noteq> 0xff" using spec True by blast
    have st: "j * 8 + of_nat (free_bit (m (bitmap_bits btmp + j)) 0) = of_nat (scan_start m btmp (unat j))"
      by (simp add: scan_start_def mult.commute)
    have hit: "scan_hit m btmp cnt (unat j) \<longleftrightarrow>
        cnt = 1 \<or> free_run m btmp (of_nat (scan_start m btmp (unat j)) + 1) (unat (cnt - 1))"
      using b by (simp add: scan_hit_def)
    have S: "unat (j + 1) = Suc (unat j)" by (rule unat_Suc_nowrap [OF True])
    have le: "j + 1 \<le> l" using S jl by (simp add: word_le_nat_alt)
    have unfold: "scan_from m btmp cnt idx =
        (if scan_hit m btmp cnt (unat j) then Inr (of_nat (scan_start m btmp (unat j)))
         else scan_from m btmp cnt (j + 1))"
      using True ne by (simp add: scan_from.simps [of m btmp cnt idx] Let_def hit st flip: j_def l_def)
    show ?thesis
    proof (cases "scan_hit m btmp cnt (unat j)")
      case H: True
      then show ?thesis using unfold skip jl
        by (simp add: scan_reference_def upt_conv_Cons flip: l_def)
    next
      case H: False
      have "scan_from m btmp cnt (j + 1) = scan_reference m btmp cnt (unat (j + 1))"
      proof (rule "1.IH" [OF j_def])
        show "\<not> \<not> j < bitmap_len btmp" "j \<noteq> bitmap_len btmp" using True by (auto simp: l_def)
      qed (use H hit le st in \<open>auto simp: l_def\<close>)
      then show ?thesis using unfold H skip jl
        by (simp add: scan_reference_def upt_conv_Cons S flip: l_def)
    qed
  qed
qed

lemma bitmap_scan_eq: "bitmap_scan m btmp cnt = scan_reference m btmp cnt 0"
  by (simp add: bitmap_scan_def scan_from_eq)

lemma scan_start_bits:
  assumes "m (bitmap_bits btmp + of_nat i) \<noteq> 0xff"
  shows "scan_start m btmp i div 8 = i" "\<not> bm_bit m btmp (scan_start m btmp i)"
    "\<And>j. 8 * i \<le> j \<Longrightarrow> j < scan_start m btmp i \<Longrightarrow> bm_bit m btmp j"
proof -
  note fb = free_bit_0 [OF assms]
  show "scan_start m btmp i div 8 = i" using fb by (simp add: scan_start_def)
  show "\<not> bm_bit m btmp (scan_start m btmp i)" using fb by (simp add: scan_start_def bm_bit_div_mod)
  show "bm_bit m btmp j" if "8 * i \<le> j" "j < scan_start m btmp i" for j
  proof -
    from that fb have "j = 8 * i + (j - 8 * i)" "j - 8 * i < 8" "j - 8 * i < free_bit (m (bitmap_bits btmp + of_nat i)) 0"
      by (auto simp: scan_start_def)
    then show ?thesis using fb by (metis bm_bit_div_mod)
  qed
qed

lemma scan_start_size:
  "m (bitmap_bits btmp + of_nat i) \<noteq> 0xff \<Longrightarrow> i < unat (bitmap_len btmp) \<Longrightarrow>
   scan_start m btmp i < bm_size btmp"
  using free_bit_0 by (fastforce simp: scan_start_def bm_size_def)

text \<open>A scan for one bit is first fit.\<close>

lemma bitmap_scan_one:
  "bitmap_scan m btmp 1 =
     (case List.find (\<lambda>n. \<not> bm_bit m btmp n) [0..<bm_size btmp] of
        None \<Rightarrow> Inl (Panic ''idx_byte < btmp->bitmap_len'')
      | Some n \<Rightarrow> Inr (of_nat n))"
proof (cases "List.find (scan_hit m btmp 1) [0..<unat (bitmap_len btmp)]")
  case None
  have "bm_bit m btmp n" if "n < bm_size btmp" for n
  proof (rule full_byte_bits)
    have "n div 8 < unat (bitmap_len btmp)" using that by (simp add: bm_size_def less_mult_imp_div_less mult.commute)
    then show "m (bitmap_bits btmp + of_nat (n div 8)) = 0xff"
      using None by (auto simp: find_upt_None_iff scan_hit_def)
  qed
  then have "List.find (\<lambda>n. \<not> bm_bit m btmp n) [0..<bm_size btmp] = None"
    by (simp add: find_upt_None_iff)
  then show ?thesis using None by (simp add: bitmap_scan_eq scan_reference_def)
next
  case (Some i)
  then have i: "i < unat (bitmap_len btmp)" "m (bitmap_bits btmp + of_nat i) \<noteq> 0xff"
    "\<And>k. k < i \<Longrightarrow> m (bitmap_bits btmp + of_nat k) = 0xff"
    by (auto simp: find_upt_Some_iff scan_hit_def)
  let ?n = "scan_start m btmp i"
  have "bm_bit m btmp j" if "j < ?n" for j
  proof (cases "8 * i \<le> j")
    case False
    then have "j div 8 < i" by (simp add: less_mult_imp_div_less mult.commute)
    then show ?thesis using i(3) by (intro full_byte_bits)
  qed (use that i(2) scan_start_bits(3) in blast)
  then have "List.find (\<lambda>n. \<not> bm_bit m btmp n) [0..<bm_size btmp] = Some ?n"
    unfolding find_upt_Some_iff using scan_start_bits(2) scan_start_size i by blast
  then show ?thesis using Some by (simp add: bitmap_scan_eq scan_reference_def)
qed

text \<open>What a scan for any count returns: a clear bit inside the bitmap, followed by clear bits up
  to the count, wherever in memory those are.\<close>

lemma bitmap_scan_run:
  assumes "bitmap_scan m btmp cnt = Inr r" "bm_size btmp \<le> 2 ^ 32" "0 < cnt"
  shows "unat r < bm_size btmp" "\<And>k. k < unat cnt \<Longrightarrow> \<not> bm_bit m btmp (unat (r + of_nat k))"
proof -
  from assms(1) obtain i where "List.find (scan_hit m btmp cnt) [0..<unat (bitmap_len btmp)] = Some i"
    and r: "r = of_nat (scan_start m btmp i)"
    by (auto simp: bitmap_scan_eq scan_reference_def split: option.splits)
  then have i: "i < unat (bitmap_len btmp)" and hit: "scan_hit m btmp cnt i"
    by (auto simp: find_upt_Some_iff)
  from hit have b: "m (bitmap_bits btmp + of_nat i) \<noteq> 0xff" by (simp add: scan_hit_def)
  have lt: "scan_start m btmp i < bm_size btmp" using scan_start_size b i by blast
  then have ur: "unat r = scan_start m btmp i" using assms(2) r by (simp add: unat_of_nat)
  then show "unat r < bm_size btmp" using lt by simp
  show "\<not> bm_bit m btmp (unat (r + of_nat k))" if k: "k < unat cnt" for k
  proof (cases k)
    case 0
    then show ?thesis using scan_start_bits(2) b ur by simp
  next
    case (Suc l)
    then have "cnt \<noteq> 1" using k by auto
    then have "free_run m btmp (r + 1) (unat (cnt - 1))" using hit r by (simp add: scan_hit_def)
    moreover have "l < unat (cnt - 1)" using k Suc assms(3) by (simp add: unat_minus_one word_neq_0_conv)
    ultimately show ?thesis unfolding free_run_iff Suc by (auto simp: algebra_simps)
  qed
qed

section \<open>The interface the allocators use\<close>

text \<open>An array of bits with a search for a clear one. \<open>claim\<close> is the idiom of every allocator of
  the kernel: scan for one bit, then set it.\<close>

locale bit_array =
  fixes valid :: "'s \<Rightarrow> bool"
    and size_of :: nat
    and get :: "'s \<Rightarrow> nat \<Rightarrow> bool"
    and scan :: "'s \<Rightarrow> nat res"
    and put :: "nat \<Rightarrow> bool \<Rightarrow> 's \<Rightarrow> 's"
  assumes scan_Inr: "valid s \<Longrightarrow> scan s = Inr n \<Longrightarrow> n < size_of \<and> \<not> get s n"
    and scan_Inl: "valid s \<Longrightarrow> scan s = Inl e \<Longrightarrow> n < size_of \<Longrightarrow> get s n"
    and get_put: "valid s \<Longrightarrow> n < size_of \<Longrightarrow> k < size_of \<Longrightarrow>
      get (put n b s) k = (if k = n then b else get s k)"
    and valid_put: "valid s \<Longrightarrow> n < size_of \<Longrightarrow> valid (put n b s)"
begin

definition claim :: "'s \<Rightarrow> (nat \<times> 's) res" where
  "claim s = bind_res (scan s) (\<lambda>n. Inr (n, put n True s))"

primrec claims :: "nat \<Rightarrow> 's \<Rightarrow> (nat list \<times> 's) res" where
  "claims 0 s = Inr ([], s)"
| "claims (Suc k) s =
     bind_res (claim s) (\<lambda>(n, s). bind_res (claims k s) (\<lambda>(ns, s). Inr (n # ns, s)))"

definition free_count :: "'s \<Rightarrow> nat" where
  "free_count s = card {n. n < size_of \<and> \<not> get s n}"

lemma claim_Inr:
  assumes "valid s" "claim s = Inr (n, s')"
  shows "valid s'" "n < size_of" "\<not> get s n"
    "\<And>k. k < size_of \<Longrightarrow> get s' k \<longleftrightarrow> k = n \<or> get s k"
  using assms scan_Inr by (auto simp: claim_def bind_res_Inr_iff get_put valid_put split: if_splits)

lemma claim_free_count:
  assumes "valid s" "claim s = Inr (n, s')"
  shows "free_count s = Suc (free_count s')"
proof -
  note c = claim_Inr [OF assms]
  have "{k. k < size_of \<and> \<not> get s k} = insert n {k. k < size_of \<and> \<not> get s' k}"
    using c by auto
  moreover have "n \<notin> {k. k < size_of \<and> \<not> get s' k}" using c by auto
  ultimately show ?thesis by (simp add: free_count_def)
qed

lemma claim_ok_iff:
  assumes "valid s"
  shows "(\<exists>n s'. claim s = Inr (n, s')) \<longleftrightarrow> 0 < free_count s"
proof
  show "0 < free_count s" if "\<exists>n s'. claim s = Inr (n, s')" using that claim_free_count [OF assms] by auto
  assume "0 < free_count s"
  then have "{n. n < size_of \<and> \<not> get s n} \<noteq> {}" by (auto simp: free_count_def card_gt_0_iff)
  then obtain k where "k < size_of" "\<not> get s k" by auto
  then obtain n where "scan s = Inr n" using scan_Inl [OF assms] by (cases "scan s") blast+
  then show "\<exists>n s'. claim s = Inr (n, s')" by (simp add: claim_def)
qed

text \<open>Claims never collide with each other or with what was claimed before.\<close>

lemma claims_Inr:
  "valid s \<Longrightarrow> claims k s = Inr (ns, s') \<Longrightarrow>
   length ns = k \<and> distinct ns \<and> valid s' \<and> (\<forall>n \<in> set ns. n < size_of \<and> \<not> get s n) \<and>
   (\<forall>n < size_of. get s' n \<longleftrightarrow> n \<in> set ns \<or> get s n)"
proof (induction k arbitrary: s ns)
  case (Suc k)
  from Suc.prems(2) obtain n t ms where c: "claim s = Inr (n, t)" and cs: "claims k t = Inr (ms, s')"
    and ns: "ns = n # ms"
    by (auto simp: bind_res_Inr_iff)
  note one = claim_Inr [OF Suc.prems(1) c]
  note rest = Suc.IH [OF one(1) cs]
  then show ?case using one ns by auto
qed auto

lemma claims_ok_iff:
  "valid s \<Longrightarrow> (\<exists>ns s'. claims k s = Inr (ns, s')) \<longleftrightarrow> k \<le> free_count s"
proof (induction k arbitrary: s)
  case (Suc k)
  show ?case
  proof (cases "claim s")
    case (Inl e)
    then have "free_count s = 0" using claim_ok_iff [OF Suc.prems] by simp
    then show ?thesis using Inl by simp
  next
    case (Inr r)
    then obtain n t where c: "claim s = Inr (n, t)" by (cases r) auto
    then have "(\<exists>ns s'. claims k t = Inr (ns, s')) \<longleftrightarrow> k \<le> free_count t"
      by (intro Suc.IH claim_Inr [OF Suc.prems c])
    then show ?thesis using c claim_free_count [OF Suc.prems c] by (auto simp: bind_res_Inr_iff)
  qed
qed simp

lemma release:
  assumes "valid s" "n < size_of" "get s n"
  shows "free_count (put n False s) = Suc (free_count s)"
proof -
  have "{k. k < size_of \<and> \<not> get (put n False s) k} = insert n {k. k < size_of \<and> \<not> get s k}"
    using assms by (auto simp: get_put split: if_splits)
  moreover have "n \<notin> {k. k < size_of \<and> \<not> get s k}" using assms by auto
  ultimately show ?thesis by (simp add: free_count_def)
qed

end

definition scan_one :: "bitmap \<Rightarrow> bmem \<Rightarrow> nat res" where
  "scan_one btmp m = bind_res (bitmap_scan m btmp 1) (\<lambda>n. Inr (unat n))"

lemma scan_one_Inr:
  assumes "bm_size btmp \<le> 2 ^ 32"
  shows "scan_one btmp m = Inr n \<longleftrightarrow>
    List.find (\<lambda>n. \<not> bm_bit m btmp n) [0..<bm_size btmp] = Some n"
proof (cases "List.find (\<lambda>n. \<not> bm_bit m btmp n) [0..<bm_size btmp]")
  case None
  then show ?thesis by (simp add: scan_one_def bitmap_scan_one)
next
  case (Some k)
  then have "k < 2 ^ 32" using assms by (auto simp: find_upt_Some_iff)
  then have "unat (of_nat k :: u32) = k" by (simp add: unat_of_nat)
  then show ?thesis using Some by (simp add: scan_one_def bitmap_scan_one)
qed

interpretation bm: bit_array "\<lambda>m. bm_size btmp \<le> 2 ^ 32" "bm_size btmp" "\<lambda>m. bm_bit m btmp"
    "scan_one btmp" "set_bit_mem btmp"
  for btmp :: bitmap
proof
  fix m :: bmem and n k :: nat and b and e
  assume v: "bm_size btmp \<le> 2 ^ 32"
  show "scan_one btmp m = Inr n \<Longrightarrow> n < bm_size btmp \<and> \<not> bm_bit m btmp n"
    using v by (auto simp: scan_one_Inr find_upt_Some_iff)
  show "scan_one btmp m = Inl e \<Longrightarrow> n < bm_size btmp \<Longrightarrow> bm_bit m btmp n"
    by (auto simp: scan_one_def bitmap_scan_one find_upt_None_iff split: option.splits)
  show "n < bm_size btmp \<Longrightarrow> k < bm_size btmp \<Longrightarrow>
      bm_bit (set_bit_mem btmp n b m) btmp k = (if k = n then b else bm_bit m btmp k)"
    using v by (intro bm_bit_set) linarith+
qed

section \<open>Properties\<close>

text \<open>C28. The byte-skipping \<^verbatim>\<open>bitmap_scan\<close> for one bit is first fit over the
  whole bitmap: it returns the first clear bit, and fails its assertion exactly when every bit is
  set (so its \<^verbatim>\<open>return -1\<close> is never reached).\<close>

theorem bitmap_scan_first_fit:
  "bitmap_scan m btmp 1 =
     (case List.find (\<lambda>n. \<not> bm_bit m btmp n) [0..<bm_size btmp] of
        None \<Rightarrow> Inl (Panic ''idx_byte < btmp->bitmap_len'')
      | Some n \<Rightarrow> Inr (of_nat n))"
  by (rule bitmap_scan_one)

text \<open>Every scan that returns gives the start of \<open>cnt\<close> consecutive clear bits, and the
  start lies inside the bitmap.\<close>

theorem bitmap_scan_clear_run:
  assumes "bitmap_scan m btmp cnt = Inr r" "bm_size btmp \<le> 2 ^ 32" "0 < cnt"
  shows "unat r < bm_size btmp \<and> (\<forall>k < unat cnt. \<not> bm_bit m btmp (unat (r + of_nat k)))"
  using bitmap_scan_run [OF assms] by blast

theorem bitmap_scan_clear_run_witness:
  "unat (2 :: u32) < 8 \<and>
   \<not> bm_bit (placed 0x100 [0xf3]) \<lparr>bitmap_len = 1, bitmap_bits = 0x100\<rparr> (unat (2 + of_nat 0 :: u32)) \<and>
   \<not> bm_bit (placed 0x100 [0xf3]) \<lparr>bitmap_len = 1, bitmap_bits = 0x100\<rparr> (unat (2 + of_nat 1 :: u32))"
proof -
  have "bitmap_scan (placed 0x100 [0xf3]) \<lparr>bitmap_len = 1, bitmap_bits = 0x100\<rparr> 2 = Inr 2"
    by (simp add: bitmap_scan_def scan_from.simps [of _ _ _ 0] skip_full.simps [of _ _ 0]
        free_bit.simps placed_def Let_def bitmap_scan_test_def)
  from bitmap_scan_clear_run [OF this]
  have "unat (2 :: u32) < bm_size \<lparr>bitmap_len = 1, bitmap_bits = 0x100\<rparr> \<and>
    (\<forall>k < unat (2 :: u32). \<not> bm_bit (placed 0x100 [0xf3]) \<lparr>bitmap_len = 1, bitmap_bits = 0x100\<rparr> (unat (2 + of_nat k :: u32)))"
    by (simp add: bm_size_def)
  then have lt: "unat (2 :: u32) < bm_size \<lparr>bitmap_len = 1, bitmap_bits = 0x100\<rparr>"
    and run: "k < unat (2 :: u32) \<Longrightarrow>
      \<not> bm_bit (placed 0x100 [0xf3]) \<lparr>bitmap_len = 1, bitmap_bits = 0x100\<rparr> (unat (2 + of_nat k :: u32))" for k
    by blast+
  show ?thesis using lt run [of 0] run [of 1] by (simp add: bm_size_def)
qed

text \<open>The end of the run is not checked: with one byte, its last bit clear and a clear byte
  behind the bitmap, a scan for two bits returns a run that leaves the bitmap.\<close>

theorem bitmap_scan_overruns:
  "bitmap_scan (placed 0x100 [0x7f, 0]) \<lparr>bitmap_len = 1, bitmap_bits = 0x100\<rparr> 2 = Inr 7"
  by (simp add: bitmap_scan_def scan_from.simps [of _ _ _ 0] skip_full.simps [of _ _ 0]
      free_bit.simps placed_def Let_def bitmap_scan_test_def bm_bit_def)

text \<open>Only the first clear bit of each byte is tried: this byte has six clear bits in a row
  behind its only set bit, and a scan for two bits fails.\<close>

theorem bitmap_scan_misses_run:
  "bitmap_scan (placed 0x100 [2, 0xff]) \<lparr>bitmap_len = 1, bitmap_bits = 0x100\<rparr> 2 =
     Inl (Panic ''idx_byte < btmp->bitmap_len'') \<and>
   map (bm_bit (placed 0x100 [2, 0xff]) \<lparr>bitmap_len = 1, bitmap_bits = 0x100\<rparr>) [0, 1, 2, 3, 4, 5, 6, 7] =
     [False, True, False, False, False, False, False, False]"
  by (simp add: bitmap_scan_def scan_from.simps [of _ _ _ 0] scan_from.simps [of _ _ _ 1]
      skip_full.simps [of _ _ 0] skip_full.simps [of _ _ 1]
      free_bit.simps placed_def Let_def bitmap_scan_test_def bm_bit_def)

end
