(* ===== verification/Cpu.thy ===== *)
theory Cpu
  imports Prelude
begin

text \<open>
  The processor state the kernel reads and writes outside memory: the interrupt flag of
  \<^verbatim>\<open>eflags\<close> (\<^verbatim>\<open>kernel/intr.c\<close>, \<^verbatim>\<open>cli\<close> and
  \<^verbatim>\<open>sti\<close> of \<^verbatim>\<open>include/x86.h\<close>) and the bytes written to I/O ports
  (\<^verbatim>\<open>outb\<close>, \<^verbatim>\<open>outsw\<close>), as a trace. What the devices answer is not
  known: \<open>port_inputs p n\<close> is what the \<open>n\<close>-th read of port \<open>p\<close> from now on will give. The records
  of the other components extend \<open>cpu\<close>, so every operation here applies to the whole kernel state.
\<close>

section \<open>State\<close>

datatype port_data = Byte u8 | Word u16

record cpu =
  eflags :: u32
  port_writes :: "(u16 \<times> port_data) list"
  port_inputs :: "u16 \<Rightarrow> nat \<Rightarrow> u16"

datatype intr_status = INTR_OFF | INTR_ON

section \<open>The instructions\<close>

definition EFLAGS_IF :: u32 where "EFLAGS_IF = 0x00000200"

definition sti :: "'a cpu_scheme \<Rightarrow> 'a cpu_scheme" where
  "sti s = s\<lparr>eflags := eflags s OR EFLAGS_IF\<rparr>"

definition cli :: "'a cpu_scheme \<Rightarrow> 'a cpu_scheme" where
  "cli s = s\<lparr>eflags := eflags s AND NOT EFLAGS_IF\<rparr>"

definition outb :: "u16 \<Rightarrow> u8 \<Rightarrow> 'a cpu_scheme \<Rightarrow> 'a cpu_scheme" where
  "outb port data s = s\<lparr>port_writes := port_writes s @ [(port, Byte data)]\<rparr>"

definition outw :: "u16 \<Rightarrow> u16 \<Rightarrow> 'a cpu_scheme \<Rightarrow> 'a cpu_scheme" where
  "outw port data s = s\<lparr>port_writes := port_writes s @ [(port, Word data)]\<rparr>"

definition inw :: "u16 \<Rightarrow> 'a cpu_scheme \<Rightarrow> u16 \<times> 'a cpu_scheme" where
  "inw port s =
     (port_inputs s port 0, s\<lparr>port_inputs := (port_inputs s)(port := (\<lambda>n. port_inputs s port (Suc n)))\<rparr>)"

definition inb :: "u16 \<Rightarrow> 'a cpu_scheme \<Rightarrow> u8 \<times> 'a cpu_scheme" where
  "inb port s = (let (w, s) = inw port s in (ucast w, s))"

section \<open>kernel/intr.c\<close>

definition get_intr_status :: "'a cpu_scheme \<Rightarrow> intr_status" where
  "get_intr_status s = (if EFLAGS_IF AND eflags s \<noteq> 0 then INTR_ON else INTR_OFF)"

definition intr_enable :: "'a cpu_scheme \<Rightarrow> intr_status \<times> 'a cpu_scheme" where
  "intr_enable s =
     (if INTR_ON = get_intr_status s then (INTR_ON, s) else (INTR_OFF, sti s))"

definition intr_disable :: "'a cpu_scheme \<Rightarrow> intr_status \<times> 'a cpu_scheme" where
  "intr_disable s =
     (if INTR_ON = get_intr_status s then (INTR_ON, cli s) else (INTR_OFF, s))"

definition set_intr_status :: "intr_status \<Rightarrow> 'a cpu_scheme \<Rightarrow> intr_status \<times> 'a cpu_scheme" where
  "set_intr_status status s = (if status = INTR_ON then intr_enable s else intr_disable s)"

section \<open>Facts\<close>

text \<open>What the callers use: the old status comes back, the new status is as asked, and putting
  the old status back undoes the first call.\<close>

lemma EFLAGS_IF_bit: "bit EFLAGS_IF n \<longleftrightarrow> n = 9"
proof -
  have e: "EFLAGS_IF = push_bit 9 1" by (simp add: EFLAGS_IF_def)
  show ?thesis unfolding e by (auto simp: bit_simps simp del: push_bit_of_1)
qed

lemma IF_bit: "EFLAGS_IF AND e \<noteq> 0 \<longleftrightarrow> bit e 9"
proof
  assume "bit e 9"
  then have "bit (EFLAGS_IF AND e) 9" by (simp add: bit_and_iff EFLAGS_IF_bit)
  then show "EFLAGS_IF AND e \<noteq> 0" by auto
next
  assume "EFLAGS_IF AND e \<noteq> 0"
  then show "bit e 9"
    by (rule_tac ccontr) (auto intro!: bit_word_eqI simp: bit_and_iff EFLAGS_IF_bit)
qed

lemma status_sti [simp]: "get_intr_status (sti s) = INTR_ON"
  unfolding get_intr_status_def IF_bit by (simp add: sti_def bit_or_iff EFLAGS_IF_bit)

lemma status_cli [simp]: "get_intr_status (cli s) = INTR_OFF"
  unfolding get_intr_status_def IF_bit
  by (simp add: cli_def bit_and_iff bit_not_iff EFLAGS_IF_bit)

lemma intr_disable_simps [simp]:
  "fst (intr_disable s) = get_intr_status s"
  "get_intr_status (snd (intr_disable s)) = INTR_OFF"
  by (cases "get_intr_status s"; simp add: intr_disable_def)+

lemma intr_enable_simps [simp]:
  "fst (intr_enable s) = get_intr_status s"
  "get_intr_status (snd (intr_enable s)) = INTR_ON"
  by (cases "get_intr_status s"; simp add: intr_enable_def)+

lemma set_intr_status_simps [simp]:
  "fst (set_intr_status st s) = get_intr_status s"
  "get_intr_status (snd (set_intr_status st s)) = st"
  by (cases st; simp add: set_intr_status_def)+

lemma IF_restore: "bit e 9 \<Longrightarrow> (e AND NOT EFLAGS_IF) OR EFLAGS_IF = e"
  by (rule bit_word_eqI) (auto simp: bit_simps EFLAGS_IF_bit)

text \<open>A critical section (disable, work that leaves \<open>eflags\<close> alone, restore) keeps
  \<open>eflags\<close>.\<close>

lemma set_intr_status_restore:
  assumes "eflags t = eflags (snd (intr_disable s))"
  shows "snd (set_intr_status (get_intr_status s) t) = t\<lparr>eflags := eflags s\<rparr>"
proof (cases "get_intr_status s")
  case INTR_OFF
  then have e: "eflags t = eflags s" using assms by (simp add: intr_disable_def)
  then have "get_intr_status t = INTR_OFF" using INTR_OFF by (simp add: get_intr_status_def)
  then show ?thesis using INTR_OFF e by (simp add: set_intr_status_def intr_disable_def)
next
  case INTR_ON
  then have b: "bit (eflags s) 9" by (simp add: get_intr_status_def IF_bit split: if_splits)
  have "eflags t = eflags s AND NOT EFLAGS_IF"
    using assms INTR_ON by (simp add: intr_disable_def cli_def)
  moreover from this have "get_intr_status t = INTR_OFF"
    unfolding get_intr_status_def IF_bit by (simp add: bit_and_iff bit_not_iff EFLAGS_IF_bit)
  ultimately show ?thesis using INTR_ON b
    by (simp add: set_intr_status_def intr_enable_def sti_def IF_restore)
qed

section \<open>Properties\<close>

text \<open>A critical section puts \<^verbatim>\<open>eflags\<close> back: disabling interrupts,
  working without touching the flag, and restoring the returned status leaves all of
  \<^verbatim>\<open>eflags\<close> as it was, whether interrupts were on or off.\<close>

theorem critical_section_restores:
  assumes "\<And>t. eflags (work t) = eflags t"
  shows "eflags (snd (set_intr_status (fst (intr_disable s)) (work (snd (intr_disable s))))) = eflags s \<and>
    get_intr_status (work (snd (intr_disable s))) = INTR_OFF"
proof -
  have "get_intr_status (work t) = get_intr_status t" for t
    using assms [of t] by (simp add: get_intr_status_def)
  then show ?thesis
    using set_intr_status_restore [of "work (snd (intr_disable s))" s] assms by simp
qed

theorem critical_section_restores_witness:
  "eflags (snd (set_intr_status (fst (intr_disable \<lparr>eflags = 0x202, port_writes = [], port_inputs = (\<lambda>_ _. 0)\<rparr>))
     (outb 0x20 1 (snd (intr_disable \<lparr>eflags = 0x202, port_writes = [], port_inputs = (\<lambda>_ _. 0)\<rparr>))))) = 0x202"
  using critical_section_restores [of "outb 0x20 1" "\<lparr>eflags = 0x202, port_writes = [], port_inputs = (\<lambda>_ _. 0)\<rparr>"]
  by (simp add: outb_def)

end
