(* ===== verification/Lists.thy ===== *)
theory Lists
  imports Cpu
begin

text \<open>
  \<^verbatim>\<open>ds/list.c\<close>: doubly linked lists of \<^verbatim>\<open>struct list_entry\<close>s that live
  inside other structures. The entries form a heap of their own, keyed by address
  (no other access of the kernel overlaps part of an entry). A \<^verbatim>\<open>struct list\<close> at
  \<open>p\<close> is its header entry at \<open>p\<close> and its tailer entry at \<open>p + 8\<close>. The traversals run
  until they meet the tailer; one that never does gives \<open>None\<close>.
\<close>

section \<open>The code\<close>

record list_entry =
  le_prev :: u32
  le_next :: u32

record lstate = cpu +
  entries :: "u32 \<Rightarrow> list_entry"

definition tailer :: "u32 \<Rightarrow> u32" where
  "tailer plist = plist + 8"

definition set_prev :: "u32 \<Rightarrow> u32 \<Rightarrow> 'a lstate_scheme \<Rightarrow> 'a lstate_scheme" where
  "set_prev e v s = s\<lparr>entries := (entries s)(e := (entries s e)\<lparr>le_prev := v\<rparr>)\<rparr>"

definition set_next :: "u32 \<Rightarrow> u32 \<Rightarrow> 'a lstate_scheme \<Rightarrow> 'a lstate_scheme" where
  "set_next e v s = s\<lparr>entries := (entries s)(e := (entries s e)\<lparr>le_next := v\<rparr>)\<rparr>"

definition list_init :: "u32 \<Rightarrow> 'a lstate_scheme \<Rightarrow> 'a lstate_scheme" where
  "list_init plist s =
     (let s = set_prev plist NULL s;
          s = set_next plist (tailer plist) s;
          s = set_prev (tailer plist) plist s
      in set_next (tailer plist) NULL s)"

definition list_insert_before :: "u32 \<Rightarrow> u32 \<Rightarrow> 'a lstate_scheme \<Rightarrow> 'a lstate_scheme" where
  "list_insert_before before elem s =
     (let (old_status, s) = intr_disable s;
          s = set_next (le_prev (entries s before)) elem s;
          s = set_prev elem (le_prev (entries s before)) s;
          s = set_next elem before s;
          s = set_prev before elem s
      in snd (set_intr_status old_status s))"

definition list_push :: "u32 \<Rightarrow> u32 \<Rightarrow> 'a lstate_scheme \<Rightarrow> 'a lstate_scheme" where
  "list_push plist elem s = list_insert_before (le_next (entries s plist)) elem s"

definition list_append :: "u32 \<Rightarrow> u32 \<Rightarrow> 'a lstate_scheme \<Rightarrow> 'a lstate_scheme" where
  "list_append plist elem s = list_insert_before (tailer plist) elem s"

definition list_remove :: "u32 \<Rightarrow> 'a lstate_scheme \<Rightarrow> 'a lstate_scheme" where
  "list_remove elem s =
     (let (old_status, s) = intr_disable s;
          s = set_next (le_prev (entries s elem)) (le_next (entries s elem)) s;
          s = set_prev (le_next (entries s elem)) (le_prev (entries s elem)) s
      in snd (set_intr_status old_status s))"

definition list_pop :: "u32 \<Rightarrow> 'a lstate_scheme \<Rightarrow> u32 \<times> 'a lstate_scheme" where
  "list_pop plist s = (let elem = le_next (entries s plist) in (elem, list_remove elem s))"

partial_function (option) find_from ::
    "(u32 \<Rightarrow> list_entry) \<Rightarrow> u32 \<Rightarrow> u32 \<Rightarrow> u32 \<Rightarrow> bool option" where
  "find_from h fin target elem =
     (if elem \<noteq> fin then (if elem = target then Some True
                          else find_from h fin target (le_next (h elem)))
      else Some False)"

definition list_find :: "u32 \<Rightarrow> u32 \<Rightarrow> 'a lstate_scheme \<Rightarrow> bool option" where
  "list_find plist target s =
     find_from (entries s) (tailer plist) target (le_next (entries s plist))"

partial_function (option) len_from ::
    "(u32 \<Rightarrow> list_entry) \<Rightarrow> u32 \<Rightarrow> u32 \<Rightarrow> u32 \<Rightarrow> u32 option" where
  "len_from h fin first counter =
     (if first \<noteq> fin then len_from h fin (le_next (h first)) (counter + 1) else Some counter)"

definition list_len :: "u32 \<Rightarrow> 'a lstate_scheme \<Rightarrow> u32 option" where
  "list_len plist s = len_from (entries s) (tailer plist) (le_next (entries s plist)) 0"

definition list_empty :: "u32 \<Rightarrow> 'a lstate_scheme \<Rightarrow> bool" where
  "list_empty plist s \<longleftrightarrow> le_next (entries s plist) = tailer plist"

text \<open>The callback of \<^verbatim>\<open>list_traversal\<close> may change the state, the links it is
  walking included, or stop the kernel.\<close>

partial_function (option) traverse_from ::
    "u32 \<Rightarrow> (u32 \<Rightarrow> u32 \<Rightarrow> 'a lstate_scheme \<Rightarrow> 'a lstate_scheme res) \<Rightarrow> u32 \<Rightarrow> u32 \<Rightarrow>
     'a lstate_scheme \<Rightarrow> 'a lstate_scheme res option" where
  "traverse_from fin func arg first s =
     (if first \<noteq> fin then
        (case func first arg s of
           Inl e \<Rightarrow> Some (Inl e)
         | Inr s' \<Rightarrow> traverse_from fin func arg (le_next (entries s' first)) s')
      else Some (Inr s))"

definition list_traversal ::
    "u32 \<Rightarrow> (u32 \<Rightarrow> u32 \<Rightarrow> 'a lstate_scheme \<Rightarrow> 'a lstate_scheme res) \<Rightarrow> u32 \<Rightarrow>
     'a lstate_scheme \<Rightarrow> 'a lstate_scheme res option" where
  "list_traversal plist func arg s =
     (let first = le_next (entries s plist)
      in if list_empty plist s then Some (Inr s)
         else traverse_from (tailer plist) func arg first s)"

section \<open>Well-formed lists\<close>

text \<open>\<open>linked h ns\<close>: each entry of \<open>ns\<close> points forward to the next one and is pointed back to by
  it. \<open>dlist h p xs\<close>: the list at \<open>p\<close> holds the entries \<open>xs\<close>, in this order.\<close>

fun linked :: "(u32 \<Rightarrow> list_entry) \<Rightarrow> u32 list \<Rightarrow> bool" where
  "linked h [] = True"
| "linked h [a] = True"
| "linked h (a # b # ns) \<longleftrightarrow> le_next (h a) = b \<and> le_prev (h b) = a \<and> linked h (b # ns)"

definition nodes :: "u32 \<Rightarrow> u32 list \<Rightarrow> u32 list" where
  "nodes p xs = p # xs @ [tailer p]"

definition dlist :: "(u32 \<Rightarrow> list_entry) \<Rightarrow> u32 \<Rightarrow> u32 list \<Rightarrow> bool" where
  "dlist h p xs \<longleftrightarrow> linked h (nodes p xs) \<and> distinct (nodes p xs)"

lemma linked_append:
  "linked h (xs @ a # ys) \<longleftrightarrow> linked h (xs @ [a]) \<and> linked h (a # ys)"
  by (induction h xs rule: linked.induct) (cases ys; simp)+

lemma linked_Cons: "ys \<noteq> [] \<Longrightarrow>
  linked h (a # ys) \<longleftrightarrow> le_next (h a) = hd ys \<and> le_prev (h (hd ys)) = a \<and> linked h ys"
  by (cases ys) auto

text \<open>Only the forward link of the last entry and the backward link of the first one are free.\<close>

lemma linked_cong:
  assumes "\<And>a. a \<in> set (butlast ns) \<Longrightarrow> le_next (h' a) = le_next (h a)"
    and "\<And>a. a \<in> set (tl ns) \<Longrightarrow> le_prev (h' a) = le_prev (h a)"
  shows "linked h' ns = linked h ns"
  using assms by (induction h ns rule: linked.induct) auto

lemma in_set_tlD: "x \<in> set (tl xs) \<Longrightarrow> x \<in> set xs"
  by (cases xs) auto

lemma linked_frame:
  assumes "\<And>a. a \<in> set ns \<Longrightarrow> h' a = h a"
  shows "linked h' ns = linked h ns"
proof (rule linked_cong)
  show "le_next (h' a) = le_next (h a)" if "a \<in> set (butlast ns)" for a
    using assms [OF in_set_butlastD [OF that]] by simp
  show "le_prev (h' a) = le_prev (h a)" if "a \<in> set (tl ns)" for a
    using assms [OF in_set_tlD [OF that]] by simp
qed

section \<open>What each operation does to the heap of entries\<close>

definition upd_next :: "u32 \<Rightarrow> u32 \<Rightarrow> (u32 \<Rightarrow> list_entry) \<Rightarrow> u32 \<Rightarrow> list_entry" where
  "upd_next e v h = h(e := (h e)\<lparr>le_next := v\<rparr>)"

definition upd_prev :: "u32 \<Rightarrow> u32 \<Rightarrow> (u32 \<Rightarrow> list_entry) \<Rightarrow> u32 \<Rightarrow> list_entry" where
  "upd_prev e v h = h(e := (h e)\<lparr>le_prev := v\<rparr>)"

lemma upd_next_apply [simp]:
  "le_next (upd_next e v h x) = (if x = e then v else le_next (h x))"
  "le_prev (upd_next e v h x) = le_prev (h x)"
  by (auto simp: upd_next_def)

lemma upd_prev_apply [simp]:
  "le_prev (upd_prev e v h x) = (if x = e then v else le_prev (h x))"
  "le_next (upd_prev e v h x) = le_next (h x)"
  by (auto simp: upd_prev_def)

lemma upd_other [simp]:
  "x \<noteq> e \<Longrightarrow> upd_next e v h x = h x"
  "x \<noteq> e \<Longrightarrow> upd_prev e v h x = h x"
  by (simp_all add: upd_next_def upd_prev_def)

definition insert_heap :: "u32 \<Rightarrow> u32 \<Rightarrow> (u32 \<Rightarrow> list_entry) \<Rightarrow> u32 \<Rightarrow> list_entry" where
  "insert_heap before elem h =
     (let p = le_prev (h before)
      in upd_prev before elem (upd_next elem before (upd_prev elem p (upd_next p elem h))))"

definition remove_heap :: "u32 \<Rightarrow> (u32 \<Rightarrow> list_entry) \<Rightarrow> u32 \<Rightarrow> list_entry" where
  "remove_heap elem h =
     (let h1 = upd_next (le_prev (h elem)) (le_next (h elem)) h
      in upd_prev (le_next (h1 elem)) (le_prev (h elem)) h1)"

definition init_heap :: "u32 \<Rightarrow> (u32 \<Rightarrow> list_entry) \<Rightarrow> u32 \<Rightarrow> list_entry" where
  "init_heap p h =
     upd_next (tailer p) NULL (upd_prev (tailer p) p (upd_next p (tailer p) (upd_prev p NULL h)))"

text \<open>The interrupt flag is put back, so an operation changes the links only.\<close>

lemma set_intr_status_entries:
  "snd (set_intr_status (get_intr_status s)
     (snd (intr_disable s)\<lparr>entries := h\<rparr>)) = s\<lparr>entries := h\<rparr>"
proof -
  have "snd (intr_disable s)\<lparr>entries := h, eflags := eflags s\<rparr> = s\<lparr>entries := h\<rparr>"
    by (simp add: intr_disable_def cli_def)
  then show ?thesis
    using set_intr_status_restore [of "snd (intr_disable s)\<lparr>entries := h\<rparr>" s] by simp
qed

lemma entries_intr_disable [simp]: "entries (snd (intr_disable s)) = entries s"
  by (simp add: intr_disable_def cli_def)

lemma list_insert_before_eq:
  "list_insert_before b e s = s\<lparr>entries := insert_heap b e (entries s)\<rparr>"
proof -
  have "list_insert_before b e s =
      snd (set_intr_status (get_intr_status s)
        (snd (intr_disable s)\<lparr>entries := insert_heap b e (entries s)\<rparr>))"
    by (simp add: list_insert_before_def case_prod_beta set_next_def set_prev_def insert_heap_def
        Let_def upd_next_def upd_prev_def)
  then show ?thesis by (simp only: set_intr_status_entries)
qed

lemma list_remove_eq:
  "list_remove e s = s\<lparr>entries := remove_heap e (entries s)\<rparr>"
proof -
  have "list_remove e s =
      snd (set_intr_status (get_intr_status s)
        (snd (intr_disable s)\<lparr>entries := remove_heap e (entries s)\<rparr>))"
    by (simp add: list_remove_def case_prod_beta set_next_def set_prev_def remove_heap_def
        Let_def upd_next_def upd_prev_def)
  then show ?thesis by (simp only: set_intr_status_entries)
qed

lemma list_init_eq: "list_init p s = s\<lparr>entries := init_heap p (entries s)\<rparr>"
  by (simp add: list_init_def set_next_def set_prev_def init_heap_def Let_def upd_next_def upd_prev_def)

section \<open>Every operation keeps lists well formed\<close>

lemma linked_split:
  "linked h (A @ a # b # B) \<longleftrightarrow>
   linked h (A @ [a]) \<and> le_next (h a) = b \<and> le_prev (h b) = a \<and> linked h (b # B)"
  by (subst linked_append) auto

lemma linked_same_links:
  assumes "linked h ns" "distinct ns"
    and "\<And>x. x \<in> set (butlast ns) \<Longrightarrow> le_next (h' x) = le_next (h x)"
    and "\<And>x. x \<in> set (tl ns) \<Longrightarrow> le_prev (h' x) = le_prev (h x)"
  shows "linked h' ns"
  using assms linked_cong by metis

lemma dlist_split:
  assumes "dlist h p (xs @ ys)"
  obtains A a b B where "p # xs = A @ [a]" "ys @ [tailer p] = b # B"
    "nodes p (xs @ ys) = A @ a # b # B"
proof -
  obtain A a where A: "p # xs = A @ [a]" by (metis list.discI rev_exhaust)
  obtain b B where B: "ys @ [tailer p] = b # B" by (metis append_is_Nil_conv list.exhaust not_Cons_self2)
  have "nodes p (xs @ ys) = (p # xs) @ (ys @ [tailer p])" by (simp add: nodes_def)
  then have "nodes p (xs @ ys) = A @ a # b # B" unfolding A B by simp
  with A B show thesis by (rule that)
qed

lemma dlist_init: "dlist (init_heap p h) p []"
  by (simp add: dlist_def nodes_def init_heap_def tailer_def)

lemma dlist_insert:
  assumes wf: "dlist h p (xs @ ys)" and e: "e \<notin> set (nodes p (xs @ ys))"
    and b: "b = hd (ys @ [tailer p])"
  shows "dlist (insert_heap b e h) p (xs @ e # ys)"
proof -
  obtain A a b' B where A: "p # xs = A @ [a]" and B: "ys @ [tailer p] = b' # B"
    and ns: "nodes p (xs @ ys) = A @ a # b' # B"
    using wf by (rule dlist_split)
  have [simp]: "b' = b" using B b by simp
  have lk: "linked h (A @ [a])" "le_next (h a) = b" "le_prev (h b) = a" "linked h (b # B)"
    using wf unfolding dlist_def ns by (simp_all add: linked_split)
  have d: "distinct (A @ a # b # B)" and eA: "e \<notin> set (A @ a # b # B)"
    using wf e unfolding dlist_def ns by simp_all
  have new: "nodes p (xs @ e # ys) = A @ a # e # b # B"
  proof -
    have "nodes p (xs @ e # ys) = (p # xs) @ e # (ys @ [tailer p])" by (simp add: nodes_def)
    then show ?thesis unfolding A B by simp
  qed
  let ?h = "insert_heap b e h"
  have "linked ?h (A @ [a])"
    by (rule linked_same_links [OF lk(1)]) (use d eA lk in \<open>auto simp: insert_heap_def Let_def dest!: in_set_tlD\<close>)
  moreover have "linked ?h (b # B)"
    by (rule linked_same_links [OF lk(4)])
      (use d eA lk in \<open>auto simp: insert_heap_def Let_def dest: in_set_butlastD split: if_splits\<close>)
  moreover have "le_next (?h a) = e" "le_prev (?h e) = a" "le_next (?h e) = b" "le_prev (?h b) = e"
    using d eA lk by (auto simp: insert_heap_def Let_def)
  ultimately have "linked ?h (A @ a # e # b # B)" by (simp add: linked_split)
  then show ?thesis unfolding dlist_def new using d eA by auto
qed

lemma dlist_remove:
  assumes wf: "dlist h p (xs @ e # ys)"
  shows "dlist (remove_heap e h) p (xs @ ys)"
proof -
  obtain A a where A: "p # xs = A @ [a]" by (metis list.discI rev_exhaust)
  obtain b B where B: "ys @ [tailer p] = b # B" by (metis append_is_Nil_conv list.exhaust not_Cons_self2)
  have ns: "nodes p (xs @ e # ys) = A @ a # e # b # B"
  proof -
    have "nodes p (xs @ e # ys) = (p # xs) @ e # (ys @ [tailer p])" by (simp add: nodes_def)
    then show ?thesis unfolding A B by simp
  qed
  have new: "nodes p (xs @ ys) = A @ a # b # B"
  proof -
    have "nodes p (xs @ ys) = (p # xs) @ (ys @ [tailer p])" by (simp add: nodes_def)
    then show ?thesis unfolding A B by simp
  qed
  have lk: "linked h (A @ [a])" "le_prev (h e) = a" "le_next (h e) = b" "linked h (b # B)"
    using wf unfolding dlist_def ns by (simp_all add: linked_split)
  have d: "distinct (A @ a # e # b # B)" using wf unfolding dlist_def ns by simp
  let ?h = "remove_heap e h"
  have "linked ?h (A @ [a])"
    by (rule linked_same_links [OF lk(1)]) (use d lk in \<open>auto simp: remove_heap_def Let_def dest!: in_set_tlD\<close>)
  moreover have "linked ?h (b # B)"
    by (rule linked_same_links [OF lk(4)])
      (use d lk in \<open>auto simp: remove_heap_def Let_def dest: in_set_butlastD split: if_splits\<close>)
  moreover have "le_next (?h a) = b" "le_prev (?h b) = a"
    using d lk by (auto simp: remove_heap_def Let_def)
  ultimately have "linked ?h (A @ a # b # B)" by (simp add: linked_split)
  then show ?thesis unfolding dlist_def new using d by auto
qed

section \<open>The operations on well-formed lists\<close>

text \<open>\<open>holds p s xs\<close>: in state \<open>s\<close> the list at \<open>p\<close> holds \<open>xs\<close>;
  \<open>slot p e\<close>: \<open>e\<close> is not the header or the tailer of the list at \<open>p\<close>.\<close>

definition holds :: "u32 \<Rightarrow> 'a lstate_scheme \<Rightarrow> u32 list \<Rightarrow> bool" where
  "holds p s xs \<longleftrightarrow> dlist (entries s) p xs"

definition slot :: "u32 \<Rightarrow> u32 \<Rightarrow> bool" where
  "slot p e \<longleftrightarrow> e \<noteq> p \<and> e \<noteq> tailer p"

lemma set_nodes: "e \<in> set (nodes p xs) \<longleftrightarrow> \<not> slot p e \<or> e \<in> set xs"
  by (auto simp: nodes_def slot_def)

lemma dlist_slots: "dlist h p xs \<Longrightarrow> \<forall>e \<in> set xs. slot p e"
  by (auto simp: dlist_def nodes_def slot_def)

lemma dlist_distinct: "dlist h p xs \<Longrightarrow> distinct xs"
  by (simp add: dlist_def nodes_def)

lemma dlist_first: "dlist h p xs \<Longrightarrow> le_next (h p) = hd (xs @ [tailer p])"
  by (cases xs) (auto simp: dlist_def nodes_def)

lemma holds_init: "holds p (list_init p s) []"
  by (simp add: holds_def list_init_eq dlist_init)

lemma holds_push:
  assumes "holds p s xs" "slot p e" "e \<notin> set xs"
  shows "holds p (list_push p e s) (e # xs)"
proof -
  have d: "dlist (entries s) p ([] @ xs)" using assms(1) by (simp add: holds_def)
  then have "dlist (insert_heap (le_next (entries s p)) e (entries s)) p ([] @ e # xs)"
    by (rule dlist_insert) (use assms dlist_first [OF d] in \<open>simp_all add: set_nodes\<close>)
  then show ?thesis by (simp add: holds_def list_push_def list_insert_before_eq)
qed

lemma holds_append:
  assumes "holds p s xs" "slot p e" "e \<notin> set xs"
  shows "holds p (list_append p e s) (xs @ [e])"
proof -
  have d: "dlist (entries s) p (xs @ [])" using assms(1) by (simp add: holds_def)
  then have "dlist (insert_heap (tailer p) e (entries s)) p (xs @ e # [])"
    by (rule dlist_insert) (use assms in \<open>simp_all add: set_nodes\<close>)
  then show ?thesis by (simp add: holds_def list_append_def list_insert_before_eq)
qed

lemma holds_remove:
  assumes "holds p s xs" "e \<in> set xs"
  shows "holds p (list_remove e s) (remove1 e xs)"
proof -
  obtain ys zs where xs: "xs = ys @ e # zs" using assms(2) by (meson split_list)
  have d: "distinct xs" using assms(1) dlist_distinct by (auto simp: holds_def)
  have "dlist (remove_heap e (entries s)) p (ys @ zs)"
    using assms(1) unfolding holds_def xs by (rule dlist_remove)
  moreover have "remove1 e xs = ys @ zs" using d unfolding xs by (simp add: remove1_append)
  ultimately show ?thesis by (simp add: holds_def list_remove_eq)
qed

lemma pop_fst: "holds p s (e # xs) \<Longrightarrow> fst (list_pop p s) = e"
  using dlist_first [of "entries s" p "e # xs"] by (simp add: holds_def list_pop_def Let_def)

lemma holds_pop:
  assumes "holds p s (e # xs)"
  shows "holds p (snd (list_pop p s)) xs"
  using holds_remove [OF assms, of e] pop_fst [OF assms]
  by (simp add: list_pop_def Let_def)

lemma list_empty_holds: "holds p s xs \<Longrightarrow> list_empty p s \<longleftrightarrow> xs = []"
  using dlist_first [of "entries s" p xs] dlist_slots [of "entries s" p xs]
  by (cases xs) (auto simp: list_empty_def holds_def slot_def)

lemma find_from_linked:
  assumes "linked h (xs @ [z])" "distinct (xs @ [z])"
  shows "find_from h z t (hd (xs @ [z])) = Some (t \<in> set xs)"
  using assms
proof (induction xs)
  case Nil
  then show ?case by (simp add: find_from.simps)
next
  case (Cons x xs)
  then have n: "le_next (h x) = hd (xs @ [z])" "linked h (xs @ [z])"
    using linked_Cons [of "xs @ [z]" h x] by simp_all
  have "find_from h z t x = (if x = t then Some True else find_from h z t (le_next (h x)))"
    using Cons.prems by (subst find_from.simps) auto
  then show ?case using Cons.IH Cons.prems n by auto
qed

lemma len_from_linked:
  assumes "linked h (xs @ [z])" "z \<notin> set xs"
  shows "len_from h z (hd (xs @ [z])) k = Some (k + of_nat (length xs))"
  using assms
proof (induction xs arbitrary: k)
  case Nil
  then show ?case by (simp add: len_from.simps)
next
  case (Cons x xs)
  then have n: "le_next (h x) = hd (xs @ [z])" "linked h (xs @ [z])"
    using linked_Cons [of "xs @ [z]" h x] by simp_all
  have "len_from h z x k = len_from h z (le_next (h x)) (k + 1)"
    using Cons.prems by (subst len_from.simps) auto
  then show ?case using Cons.IH Cons.prems n by (simp add: algebra_simps)
qed

lemma dlist_tail: "dlist h p xs \<Longrightarrow> linked h (xs @ [tailer p]) \<and> distinct (xs @ [tailer p])"
  using linked_Cons [of "xs @ [tailer p]" h p] by (auto simp: dlist_def nodes_def)

lemma find_holds: "holds p s xs \<Longrightarrow> list_find p t s = Some (t \<in> set xs)"
  using find_from_linked [of "entries s" xs "tailer p" t] dlist_tail [of "entries s" p xs]
    dlist_first [of "entries s" p xs]
  by (simp add: holds_def list_find_def)

lemma len_holds: "holds p s xs \<Longrightarrow> list_len p s = Some (of_nat (length xs))"
  using len_from_linked [of "entries s" xs "tailer p" 0] dlist_tail [of "entries s" p xs]
    dlist_first [of "entries s" p xs]
  by (simp add: holds_def list_len_def)

text \<open>An operation on one list leaves every list that shares no entry with it alone.\<close>

lemma dlist_frame:
  assumes "dlist h q ys" "\<And>a. a \<in> set (nodes q ys) \<Longrightarrow> h' a = h a"
  shows "dlist h' q ys"
  using assms linked_frame [of "nodes q ys" h' h] by (simp add: dlist_def)

lemma insert_heap_other:
  "x \<noteq> b \<Longrightarrow> x \<noteq> e \<Longrightarrow> x \<noteq> le_prev (h b) \<Longrightarrow> insert_heap b e h x = h x"
  by (simp add: insert_heap_def Let_def)

lemma remove_heap_other:
  "x \<noteq> e \<Longrightarrow> x \<noteq> le_prev (h e) \<Longrightarrow> x \<noteq> le_next (h e) \<Longrightarrow> remove_heap e h x = h x"
  by (simp add: remove_heap_def Let_def)

lemma dlist_neighbours:
  assumes "dlist h p xs" "e \<in> set xs"
  shows "le_prev (h e) \<in> set (nodes p xs) \<and> le_next (h e) \<in> set (nodes p xs)"
proof -
  obtain ys zs where xs: "xs = ys @ e # zs" using assms(2) by (meson split_list)
  obtain A a where A: "p # ys = A @ [a]" by (metis list.discI rev_exhaust)
  obtain b B where B: "zs @ [tailer p] = b # B" by (metis append_is_Nil_conv list.exhaust not_Cons_self2)
  have "nodes p xs = (p # ys) @ e # (zs @ [tailer p])" by (simp add: nodes_def xs)
  then have ns: "nodes p xs = A @ a # e # b # B" unfolding A B by simp
  then have "le_prev (h e) = a" "le_next (h e) = b"
    using assms(1) by (simp_all add: dlist_def linked_split)
  then show ?thesis by (simp add: ns)
qed

lemma dlist_last:
  assumes "dlist h p xs"
  shows "le_prev (h (tailer p)) \<in> set (p # xs)"
proof -
  obtain A a where A: "p # xs = A @ [a]" by (metis list.discI rev_exhaust)
  have "nodes p xs = A @ a # tailer p # []" using A by (simp add: nodes_def)
  then have "le_prev (h (tailer p)) = a" using assms by (simp add: dlist_def linked_split)
  then show ?thesis by (simp add: A)
qed

lemma append_frame:
  assumes "holds p s xs" "holds q s ys" "slot q e" "e \<notin> set ys"
    and "set (nodes p xs) \<inter> set (nodes q ys) = {}"
  shows "holds q (list_append p e s) ys"
proof -
  have "dlist (insert_heap (tailer p) e (entries s)) q ys"
  proof (rule dlist_frame)
    show "dlist (entries s) q ys" using assms(2) by (simp add: holds_def)
    show "insert_heap (tailer p) e (entries s) a = entries s a" if a: "a \<in> set (nodes q ys)" for a
    proof (rule insert_heap_other)
      show "a \<noteq> e" using a assms(3,4) by (auto simp: set_nodes)
      have "a \<notin> set (nodes p xs)" using a assms(5) by auto
      moreover have "le_prev (entries s (tailer p)) \<in> set (nodes p xs)"
        using dlist_last [of "entries s" p xs] assms(1) by (auto simp: holds_def nodes_def)
      moreover have "tailer p \<in> set (nodes p xs)" by (simp add: nodes_def)
      ultimately show "a \<noteq> tailer p" "a \<noteq> le_prev (entries s (tailer p))" by auto
    qed
  qed
  then show ?thesis by (simp add: holds_def list_append_def list_insert_before_eq)
qed

lemma remove_frame:
  assumes "holds p s xs" "holds q s ys" "e \<in> set xs"
    and "set (nodes p xs) \<inter> set (nodes q ys) = {}"
  shows "holds q (list_remove e s) ys"
proof -
  have "dlist (remove_heap e (entries s)) q ys"
  proof (rule dlist_frame)
    show "dlist (entries s) q ys" using assms(2) by (simp add: holds_def)
    show "remove_heap e (entries s) a = entries s a" if a: "a \<in> set (nodes q ys)" for a
    proof (rule remove_heap_other)
      have "a \<notin> set (nodes p xs)" using a assms(4) by auto
      moreover have "le_prev (entries s e) \<in> set (nodes p xs)" "le_next (entries s e) \<in> set (nodes p xs)"
        using dlist_neighbours [of "entries s" p xs e] assms(1,3) by (auto simp: holds_def)
      moreover have "e \<in> set (nodes p xs)" using assms(3) by (simp add: set_nodes)
      ultimately show "a \<noteq> e" "a \<noteq> le_prev (entries s e)" "a \<noteq> le_next (entries s e)" by auto
    qed
  qed
  then show ?thesis by (simp add: holds_def list_remove_eq)
qed

section \<open>The interface the schedulers and wait queues use\<close>

text \<open>A queue of distinct elements. \<open>content s xs\<close> is what the provider promises about the
  order; \<open>ok e\<close> are the elements that may be queued at all.\<close>

locale ring =
  fixes content :: "'s \<Rightarrow> 'e list \<Rightarrow> bool"
    and ok :: "'e \<Rightarrow> bool"
    and put :: "'e \<Rightarrow> 's \<Rightarrow> 's"
    and take_first :: "'s \<Rightarrow> 'e \<times> 's"
  assumes content_put: "content s xs \<Longrightarrow> ok e \<Longrightarrow> e \<notin> set xs \<Longrightarrow> content (put e s) (xs @ [e])"
    and take_fst: "content s (e # xs) \<Longrightarrow> fst (take_first s) = e"
    and content_take: "content s (e # xs) \<Longrightarrow> content (snd (take_first s)) xs"
    and content_ok: "content s xs \<Longrightarrow> \<forall>e \<in> set xs. ok e"
    and content_distinct: "content s xs \<Longrightarrow> distinct xs"
begin

definition turn :: "'s \<Rightarrow> 's" where
  "turn s = (let (e, s) = take_first s in put e s)"

lemma turn_rotates:
  assumes "content s xs" "xs \<noteq> []"
  shows "content (turn s) (rotate1 xs)"
proof -
  obtain e ys where xs: "xs = e # ys" using assms(2) by (cases xs) auto
  have "e \<notin> set ys" "ok e" using content_distinct [OF assms(1)] content_ok [OF assms(1)] xs by auto
  then show ?thesis
    using assms(1) unfolding xs turn_def by (auto simp: case_prod_beta take_fst intro!: content_put content_take)
qed

lemma turns_rotate: "content s xs \<Longrightarrow> xs \<noteq> [] \<Longrightarrow> content ((turn ^^ n) s) (rotate n xs)"
proof (induction n)
  case (Suc n)
  then have "content (turn ((turn ^^ n) s)) (rotate1 (rotate n xs))" by (intro turn_rotates) auto
  then show ?case by simp
qed simp

text \<open>Nobody starves: after \<open>i\<close> turns the element that was \<open>i\<close>-th is first.\<close>

lemma every_turn_comes:
  assumes "content s xs" "i < length xs"
  shows "fst (take_first ((turn ^^ i) s)) = xs ! i"
proof -
  have "content ((turn ^^ i) s) (rotate i xs)" using assms by (intro turns_rotate) auto
  moreover have "rotate i xs = xs ! i # tl (rotate i xs)"
    using assms(2) hd_rotate_conv_nth [of xs i] by (cases "rotate i xs"; cases xs) auto
  ultimately show ?thesis using take_fst by metis
qed

lemma put_all:
  assumes "content s xs" "\<forall>e \<in> set es. ok e" "distinct es" "set es \<inter> set xs = {}"
  shows "content (fold put es s) (xs @ es)"
  using assms
proof (induction es arbitrary: s xs)
  case (Cons e es)
  then have "content (put e s) (xs @ [e])" by (intro content_put) auto
  then have "content (fold put es (put e s)) ((xs @ [e]) @ es)" using Cons by (intro Cons.IH) auto
  then show ?case by simp
qed simp

end

interpretation dl: ring "holds p" "slot p" "list_append p" "list_pop p"
  for p :: u32
proof unfold_locales
  show "holds p s xs \<Longrightarrow> \<forall>e \<in> set xs. slot p e" for s :: "'a lstate_scheme" and xs
    unfolding holds_def by (rule dlist_slots)
  show "holds p s xs \<Longrightarrow> distinct xs" for s :: "'a lstate_scheme" and xs
    unfolding holds_def by (rule dlist_distinct)
qed (fact holds_append pop_fst holds_pop)+

section \<open>Properties\<close>

text \<open>C29. On a well-formed list the six operations of \<^verbatim>\<open>list.c\<close> are the
  operations of a sequence: push at the head, append at the tail, pop the head, remove one entry,
  search and length; each of them leaves the list well formed.\<close>

theorem list_operations:
  assumes "holds p s (x # xs)" "slot p e" "e \<notin> set (x # xs)"
  shows "holds p (list_push p e s) (e # x # xs) \<and>
    holds p (list_append p e s) (x # xs @ [e]) \<and>
    fst (list_pop p s) = x \<and> holds p (snd (list_pop p s)) xs \<and>
    (\<forall>y \<in> set (x # xs). holds p (list_remove y s) (remove1 y (x # xs))) \<and>
    list_find p t s = Some (t \<in> set (x # xs)) \<and>
    list_len p s = Some (of_nat (length (x # xs)))"
  using holds_push [OF assms] holds_append [OF assms] pop_fst [OF assms(1)] holds_pop [OF assms(1)]
    holds_remove [OF assms(1)] find_holds [OF assms(1)] len_holds [OF assms(1)]
  by auto

definition sample_state :: lstate where
  "sample_state = \<lparr>eflags = 0x202, port_writes = [], port_inputs = (\<lambda>_ _. 0), entries = (\<lambda>_. \<lparr>le_prev = 0, le_next = 0\<rparr>)\<rparr>"

lemma sample_list: "holds 0x100 (fold (list_append 0x100) [0x200, 0x300] (list_init 0x100 sample_state)) [0x200, 0x300]"
  using dl.put_all [of "0x100" "list_init 0x100 sample_state" "[]" "[0x200, 0x300]"] holds_init [of "0x100" sample_state]
  by (simp add: slot_def tailer_def)

theorem list_operations_witness:
  "fst (list_pop 0x100 (fold (list_append 0x100) [0x200, 0x300] (list_init 0x100 sample_state))) = 0x200"
  using list_operations [OF sample_list, of "0x400" 0] by (simp add: slot_def tailer_def)

text \<open>Taking the head of a list and appending it again, over and over, gives every entry its
  turn in list order: after \<open>i\<close> rounds the entry that was \<open>i\<close>-th is the next one out.\<close>

theorem list_round_robin:
  assumes "holds p s xs" "i < length xs"
  shows "fst (list_pop p (((\<lambda>s. let (e, s) = list_pop p s in list_append p e s) ^^ i) s)) = xs ! i"
  using dl.every_turn_comes [OF assms] by (simp add: dl.turn_def [abs_def])

theorem list_round_robin_witness:
  "fst (list_pop 0x100 (((\<lambda>s. let (e, s) = list_pop 0x100 s in list_append 0x100 e s) ^^ 1)
     (fold (list_append 0x100) [0x200, 0x300] (list_init 0x100 sample_state)))) = 0x300"
  using list_round_robin [OF sample_list, of 1] by simp

text \<open>Appending to one list or removing from it never disturbs another list that shares no
  entry with it.\<close>

theorem list_operations_frame:
  assumes "holds p s xs" "holds q s ys" "set (nodes p xs) \<inter> set (nodes q ys) = {}"
  shows "(slot q e \<and> e \<notin> set ys \<longrightarrow> holds q (list_append p e s) ys) \<and>
    (e \<in> set xs \<longrightarrow> holds q (list_remove e s) ys)"
  using append_frame [OF assms(1,2) _ _ assms(3)] remove_frame [OF assms(1,2) _ assms(3)] by blast

theorem list_operations_frame_witness:
  "holds 0x500 (list_append 0x100 0x700 (list_init 0x500
     (fold (list_append 0x100) [0x200, 0x300] (list_init 0x100 sample_state)))) []"
proof -
  let ?s = "fold (list_append 0x100) [0x200, 0x300] (list_init 0x100 sample_state)"
  have e: "entries (list_init 0x500 ?s) a = entries ?s a" if "a \<in> set (nodes 0x100 [0x200, 0x300])" for a
    using that by (auto simp: list_init_eq init_heap_def nodes_def tailer_def)
  have "holds 0x100 (list_init 0x500 ?s) [0x200, 0x300]"
    using sample_list dlist_frame [OF _ e] by (simp add: holds_def del: fold.simps)
  moreover have "holds 0x500 (list_init 0x500 ?s) []" by (rule holds_init)
  ultimately show ?thesis
    using list_operations_frame [of "0x100" "list_init 0x500 ?s" "[0x200, 0x300]" "0x500" "[]" "0x700"]
    by (simp add: nodes_def tailer_def slot_def del: fold.simps)
qed

end
