(* ===== verification/Printf.thy ===== *)
theory Printf
  imports Strings
begin

text \<open>
  \<^verbatim>\<open>kernel/printfmt.c\<close>: the formatter behind every \<^verbatim>\<open>kprintf\<close> and
  \<^verbatim>\<open>snprintf\<close>. It is parametric in the callback \<open>putch\<close>, a function on the
  state \<open>'s\<close> that may stop the kernel; \<open>rd s\<close> is the memory of state \<open>s\<close> (the callback
  may write it) and \<open>lit str\<close> is where the linker placed the string literal \<open>str\<close>. The
  variable arguments are the list of the 32-bit stack slots: a \<^verbatim>\<open>long long\<close>
  takes two, low half first. Reading a slot that was not passed is undefined in C and a
  \<open>Fault\<close> here. \<open>None\<close> is a call that never returns.
\<close>

section \<open>Arguments and division\<close>

definition va_arg :: "u32 list \<Rightarrow> (u32 \<times> u32 list) res" where
  "va_arg ap = (case ap of [] \<Rightarrow> Inl Fault | v # ap' \<Rightarrow> Inr (v, ap'))"

definition va_arg64 :: "u32 list \<Rightarrow> (u64 \<times> u32 list) res" where
  "va_arg64 ap =
     bind_res (va_arg ap) (\<lambda>(lo, ap).
     bind_res (va_arg ap) (\<lambda>(hi, ap).
       Inr (push_bit 32 (ucast hi) OR ucast lo, ap)))"

text \<open>\<^verbatim>\<open>divl\<close> divides \<open>%edx:%eax\<close>; it faults on a zero divisor and when the quotient does
  not fit into \<open>%eax\<close>. \<^verbatim>\<open>do_div\<close> divides the upper half first so that it does fit.\<close>

definition divl :: "u32 \<Rightarrow> u32 \<Rightarrow> u32 \<Rightarrow> (u32 \<times> u32) res" where
  "divl edx eax d =
     (let n = push_bit 32 (ucast edx) OR (ucast eax :: u64)
      in if d = 0 \<or> 2 ^ 32 \<le> n div ucast d then Inl Fault
         else Inr (ucast (n div ucast d), ucast (n mod ucast d)))"

definition do_div :: "u64 \<Rightarrow> u32 \<Rightarrow> (u64 \<times> u32) res" where
  "do_div n base =
     (let low = ucast n; high = ucast (drop_bit 32 n)
      in if high \<noteq> 0 \<and> base = 0 then Inl Fault
         else let upper = (if high \<noteq> 0 then high mod base else high);
                  high = (if high \<noteq> 0 then high div base else high)
              in bind_res (divl upper low base) (\<lambda>(low, m).
                   Inr (push_bit 32 (ucast high) OR ucast low, m)))"

definition getuint :: "u32 list \<Rightarrow> u32 \<Rightarrow> (u64 \<times> u32 list) res" where
  "getuint ap lflag =
     (if 2 \<le> sint lflag then va_arg64 ap
      else bind_res (va_arg ap) (\<lambda>(v, ap). Inr (ucast v, ap)))"

definition getint :: "u32 list \<Rightarrow> u32 \<Rightarrow> (u64 \<times> u32 list) res" where
  "getint ap lflag =
     (if 2 \<le> sint lflag then va_arg64 ap
      else bind_res (va_arg ap) (\<lambda>(v, ap). Inr (scast v, ap)))"

section \<open>Numbers\<close>

text \<open>The literal \<^verbatim>\<open>"0123456789abcdef"\<close> with its null byte.\<close>

definition hex_digits :: "u32 list" where
  "hex_digits = [0x30, 0x31, 0x32, 0x33, 0x34, 0x35, 0x36, 0x37, 0x38, 0x39,
                 0x61, 0x62, 0x63, 0x64, 0x65, 0x66, 0]"

definition digit_char :: "u32 \<Rightarrow> u32 res" where
  "digit_char i = (if unat i < length hex_digits then Inr (hex_digits ! unat i) else Inl Fault)"

primrec putch_times :: "(u32 \<Rightarrow> 's \<Rightarrow> 's res) \<Rightarrow> nat \<Rightarrow> u32 \<Rightarrow> 's \<Rightarrow> 's res" where
  "putch_times putch 0 c s = Inr s"
| "putch_times putch (Suc n) c s = bind_res (putch c s) (putch_times putch n c)"

text \<open>\<^verbatim>\<open>while (-- width > 0)\<close> runs \<open>width - 1\<close> times when that is positive.\<close>

partial_function (option) printnum ::
    "(u32 \<Rightarrow> 's \<Rightarrow> 's res) \<Rightarrow> u64 \<Rightarrow> u32 \<Rightarrow> u32 \<Rightarrow> u32 \<Rightarrow> 's \<Rightarrow> 's res option" where
  "printnum putch num base width padc s =
     (case do_div num base of
        Inl e \<Rightarrow> Some (Inl e)
      | Inr (result, m) \<Rightarrow>
          Option.bind
            (if ucast base \<le> num then printnum putch result base (width - 1) padc s
             else Some (putch_times putch (nat (sint (width - 1))) padc s))
            (\<lambda>r. Some (bind_res r (\<lambda>s. bind_res (digit_char m) (\<lambda>c. putch c s)))))"

section \<open>The escape sequences\<close>

record fmt_flags =
  padc :: u8
  width :: u32
  precision :: u32
  lflag :: u32
  altflag :: bool

definition init_flags :: fmt_flags where
  "init_flags = \<lparr>padc = 0x20, width = - 1, precision = - 1, lflag = 0, altflag = False\<rparr>"

definition process_precision :: "u32 \<Rightarrow> fmt_flags \<Rightarrow> fmt_flags" where
  "process_precision v fl =
     (if sint (width fl) < 0 then fl\<lparr>width := v, precision := - 1\<rparr> else fl\<lparr>precision := v\<rparr>)"

text \<open>The decimal loop of a width or precision: \<open>ch\<close> is the digit just read, \<open>fmt\<close> points behind it.\<close>

partial_function (option) parse_number :: "bmem \<Rightarrow> u32 \<Rightarrow> u8 \<Rightarrow> u32 \<Rightarrow> (u32 \<times> u32) option" where
  "parse_number m fmt ch prec =
     (let prec = prec * 10 + ucast ch - 0x30;
          ch = m fmt
      in if sint ch < 0x30 \<or> 0x39 < sint ch then Some (prec, fmt)
         else parse_number m (fmt + 1) ch prec)"

text \<open>\<^verbatim>\<open>reswitch\<close>: the flags up to the conversion character, which is returned
  with the pointer behind it and the arguments left.\<close>

partial_function (option) reswitch ::
    "bmem \<Rightarrow> u32 \<Rightarrow> u32 list \<Rightarrow> fmt_flags \<Rightarrow> (u8 \<times> u32 \<times> u32 list \<times> fmt_flags) res option" where
  "reswitch m fmt ap fl =
     (let ch = m fmt; fmt = fmt + 1
      in if ch = 0x2d then reswitch m fmt ap (fl\<lparr>padc := 0x2d\<rparr>)
         else if ch = 0x30 then reswitch m fmt ap (fl\<lparr>padc := 0x30\<rparr>)
         else if 0x31 \<le> ch \<and> ch \<le> 0x39 then
           Option.bind (parse_number m fmt ch 0) (\<lambda>(prec, fmt).
             reswitch m fmt ap (process_precision prec fl))
         else if ch = 0x2a then
           (case va_arg ap of Inl e \<Rightarrow> Some (Inl e)
            | Inr (prec, ap) \<Rightarrow> reswitch m fmt ap (process_precision prec fl))
         else if ch = 0x2e then
           reswitch m fmt ap (if sint (width fl) < 0 then fl\<lparr>width := 0\<rparr> else fl)
         else if ch = 0x23 then reswitch m fmt ap (fl\<lparr>altflag := True\<rparr>)
         else if ch = 0x6c then reswitch m fmt ap (fl\<lparr>lflag := lflag fl + 1\<rparr>)
         else Some (Inr (ch, fmt, ap, fl)))"

text \<open>The characters of \<^verbatim>\<open>%s\<close>; the result is the width left for padding.\<close>

partial_function (option) put_string ::
    "('s \<Rightarrow> bmem) \<Rightarrow> (u32 \<Rightarrow> 's \<Rightarrow> 's res) \<Rightarrow> bool \<Rightarrow> u32 \<Rightarrow> u32 \<Rightarrow> u32 \<Rightarrow> 's \<Rightarrow>
     (u32 \<times> 's) res option" where
  "put_string rd putch alt p prec w s =
     (let ch = rd s p
      in if ch = 0 \<or> (0 \<le> sint prec \<and> sint (prec - 1) < 0) then Some (Inr (w, s))
         else case putch (if alt \<and> (sint ch < 0x20 \<or> 0x7e < sint ch) then 0x3f else scast ch) s of
                Inl e \<Rightarrow> Some (Inl e)
              | Inr s \<Rightarrow>
                  put_string rd putch alt (p + 1) (if sint prec < 0 then prec else prec - 1) (w - 1) s)"

definition convert_s ::
    "('s \<Rightarrow> bmem) \<Rightarrow> (string \<Rightarrow> u32) \<Rightarrow> (u32 \<Rightarrow> 's \<Rightarrow> 's res) \<Rightarrow> fmt_flags \<Rightarrow> u32 \<Rightarrow> 's \<Rightarrow>
     's res option" where
  "convert_s rd lit putch fl arg s =
     (let p = (if arg = NULL then lit ''(null)'' else arg);
          left = 0 < sint (width fl) \<and> padc fl \<noteq> 0x2d;
          w = (if left then width fl - strnlen (rd s) p (precision fl) else width fl)
      in case (if left then putch_times putch (nat (sint w)) (ucast (padc fl)) s else Inr s) of
           Inl e \<Rightarrow> Some (Inl e)
         | Inr s \<Rightarrow>
             map_option (\<lambda>r. bind_res r (\<lambda>(w, s). putch_times putch (nat (sint w)) 0x20 s))
               (put_string rd putch (altflag fl) p (precision fl)
                  (if left \<and> 0 < sint w then 0 else w) s))"

text \<open>An unrecognized escape: back to just behind its \<^verbatim>\<open>%\<close>.\<close>

partial_function (option) back_up :: "bmem \<Rightarrow> u32 \<Rightarrow> u32 option" where
  "back_up m fmt = (if m (fmt - 1) \<noteq> 0x25 then back_up m (fmt - 1) else Some fmt)"

definition number ::
    "(u32 \<Rightarrow> 's \<Rightarrow> 's res) \<Rightarrow> fmt_flags \<Rightarrow> u32 \<Rightarrow> u64 \<Rightarrow> 's res \<Rightarrow> 's res option" where
  "number putch fl base num r =
     (case r of Inl e \<Rightarrow> Some (Inl e)
      | Inr s \<Rightarrow> printnum putch num base (width fl) (ucast (padc fl)) s)"

text \<open>One conversion other than \<^verbatim>\<open>%e\<close>: the format pointer and arguments to go on
  with, and the state.\<close>

definition with_arg :: "('a \<times> u32 list) res \<Rightarrow> ('a \<Rightarrow> 's res option) \<Rightarrow> u32 \<Rightarrow>
    (u32 \<times> u32 list \<times> 's) res option" where
  "with_arg r f fmt =
     (case r of Inl e \<Rightarrow> Some (Inl e)
      | Inr (v, ap) \<Rightarrow> map_option (\<lambda>r. bind_res r (\<lambda>s. Inr (fmt, ap, s))) (f v))"

definition convert ::
    "('s \<Rightarrow> bmem) \<Rightarrow> (string \<Rightarrow> u32) \<Rightarrow> (u32 \<Rightarrow> 's \<Rightarrow> 's res) \<Rightarrow> u8 \<Rightarrow> u32 \<Rightarrow> u32 list \<Rightarrow>
     fmt_flags \<Rightarrow> 's \<Rightarrow> (u32 \<times> u32 list \<times> 's) res option" where
  "convert rd lit putch ch fmt ap fl s =
     (if ch = 0x63 then with_arg (va_arg ap) (\<lambda>v. Some (putch v s)) fmt
      else if ch = 0x73 then with_arg (va_arg ap) (\<lambda>p. convert_s rd lit putch fl p s) fmt
      else if ch = 0x64 then
        with_arg (getint ap (lflag fl)) (\<lambda>num.
          if sint num < 0 then number putch fl 10 (- num) (putch 0x2d s)
          else number putch fl 10 num (Inr s)) fmt
      else if ch = 0x75 then
        with_arg (getuint ap (lflag fl)) (\<lambda>num. number putch fl 10 num (Inr s)) fmt
      else if ch = 0x6f then
        with_arg (getuint ap (lflag fl)) (\<lambda>num. number putch fl 8 num (Inr s)) fmt
      else if ch = 0x70 then
        (case bind_res (putch 0x30 s) (putch 0x78) of
           Inl e \<Rightarrow> Some (Inl e)
         | Inr s \<Rightarrow> with_arg (va_arg ap) (\<lambda>p. number putch fl 16 (ucast p) (Inr s)) fmt)
      else if ch = 0x78 then
        with_arg (getuint ap (lflag fl)) (\<lambda>num. number putch fl 16 num (Inr s)) fmt
      else if ch = 0x25 then Some (bind_res (putch 0x25 s) (\<lambda>s. Inr (fmt, ap, s)))
      else (case putch 0x25 s of
              Inl e \<Rightarrow> Some (Inl e)
            | Inr s \<Rightarrow> map_option (\<lambda>fmt. Inr (fmt, ap, s)) (back_up (rd s) (fmt - 1))))"

text \<open>\<^verbatim>\<open>error_string[err]\<close>, at byte offset \<open>4 * err\<close> of the table as the
  hardware computes it: the only negative \<open>err\<close> left, \<open>-2 ^ 31\<close>, reads entry 0.\<close>

definition error_string :: "(string \<Rightarrow> u32) \<Rightarrow> u32 \<Rightarrow> u32" where
  "error_string lit err =
     (let off = 4 * err
      in if off = 4 then lit ''unspecified error'' else if off = 8 then lit ''bad process''
         else if off = 12 then lit ''invalid parameter'' else if off = 16 then lit ''out of memory''
         else if off = 20 then lit ''out of processes'' else if off = 24 then lit ''segmentation fault''
         else NULL)"

text \<open>The format and the argument of the nested \<^verbatim>\<open>printfmt\<close> of \<^verbatim>\<open>%e\<close>.\<close>

definition abs_err :: "u32 \<Rightarrow> u32" where
  "abs_err err = (if sint err < 0 then - err else err)"

definition no_message :: "(string \<Rightarrow> u32) \<Rightarrow> u32 \<Rightarrow> bool" where
  "no_message lit err \<longleftrightarrow> 6 < sint (abs_err err) \<or> error_string lit (abs_err err) = NULL"

definition error_fmt :: "(string \<Rightarrow> u32) \<Rightarrow> u32 \<Rightarrow> u32" where
  "error_fmt lit err = (if no_message lit err then lit ''error %d'' else lit ''%s'')"

definition error_args :: "(string \<Rightarrow> u32) \<Rightarrow> u32 \<Rightarrow> u32 list" where
  "error_args lit err = [if no_message lit err then abs_err err else error_string lit (abs_err err)]"

section \<open>vprintfmt\<close>

text \<open>\<^verbatim>\<open>%e\<close> formats its message by a nested \<^verbatim>\<open>printfmt\<close>.\<close>

partial_function (option) vprintfmt ::
    "('s \<Rightarrow> bmem) \<Rightarrow> (string \<Rightarrow> u32) \<Rightarrow> (u32 \<Rightarrow> 's \<Rightarrow> 's res) \<Rightarrow> u32 \<Rightarrow> u32 list \<Rightarrow> 's \<Rightarrow>
     's res option" where
  "vprintfmt rd lit putch fmt ap s =
     (let ch = rd s fmt; fmt = fmt + 1
      in if ch \<noteq> 0x25 then
           (if ch = 0 then Some (Inr s)
            else case putch (ucast ch) s of
                   Inl e \<Rightarrow> Some (Inl e)
                 | Inr s \<Rightarrow> vprintfmt rd lit putch fmt ap s)
         else
           Option.bind (reswitch (rd s) fmt ap init_flags) (\<lambda>r. case r of
               Inl e \<Rightarrow> Some (Inl e)
             | Inr (ch, fmt, ap, fl) \<Rightarrow>
                 if ch = 0x65 then
                   (case va_arg ap of
                      Inl e \<Rightarrow> Some (Inl e)
                    | Inr (err, ap) \<Rightarrow>
                        Option.bind
                          (vprintfmt rd lit putch (error_fmt lit err) (error_args lit err) s)
                          (\<lambda>r. case r of
                               Inl e \<Rightarrow> Some (Inl e)
                             | Inr s \<Rightarrow> vprintfmt rd lit putch fmt ap s))
                 else
                   Option.bind (convert rd lit putch ch fmt ap fl s) (\<lambda>r. case r of
                       Inl e \<Rightarrow> Some (Inl e)
                     | Inr (fmt, ap, s) \<Rightarrow> vprintfmt rd lit putch fmt ap s)))"

definition printfmt ::
    "('s \<Rightarrow> bmem) \<Rightarrow> (string \<Rightarrow> u32) \<Rightarrow> (u32 \<Rightarrow> 's \<Rightarrow> 's res) \<Rightarrow> u32 \<Rightarrow> u32 list \<Rightarrow> 's \<Rightarrow>
     's res option" where
  "printfmt rd lit putch fmt args s = vprintfmt rd lit putch fmt args s"

section \<open>Printing to a buffer\<close>

record sprintbuf =
  buf :: u32
  ebuf :: u32
  cnt :: u32
  smem :: bmem

definition sprintputch :: "u32 \<Rightarrow> sprintbuf \<Rightarrow> sprintbuf res" where
  "sprintputch ch b =
     (let b = b\<lparr>cnt := cnt b + 1\<rparr>
      in if buf b < ebuf b then Inr (b\<lparr>smem := (smem b)(buf b := ucast ch), buf := buf b + 1\<rparr>)
         else Inr b)"

text \<open>The result and the memory; \<^verbatim>\<open>-E_INVAL\<close> is \<open>- 3\<close>.\<close>

definition vsnprintf ::
    "(string \<Rightarrow> u32) \<Rightarrow> u32 \<Rightarrow> u32 \<Rightarrow> u32 \<Rightarrow> u32 list \<Rightarrow> bmem \<Rightarrow> (u32 \<times> bmem) res option" where
  "vsnprintf lit str sz fmt ap m =
     (let b = \<lparr>buf = str, ebuf = str + sz - 1, cnt = 0, smem = m\<rparr>
      in if str = NULL \<or> buf b > ebuf b then Some (Inr (- 3, m))
         else map_option (\<lambda>r. bind_res r (\<lambda>b. Inr (cnt b, (smem b)(buf b := 0))))
                (vprintfmt smem lit sprintputch fmt ap b))"

definition snprintf ::
    "(string \<Rightarrow> u32) \<Rightarrow> u32 \<Rightarrow> u32 \<Rightarrow> u32 \<Rightarrow> u32 list \<Rightarrow> bmem \<Rightarrow> (u32 \<times> bmem) res option" where
  "snprintf lit str sz fmt args m = vsnprintf lit str sz fmt args m"

section \<open>The 64-bit division\<close>

lemma unat_u32_u64 [simp]: "unat (ucast (x :: u32) :: u64) = unat x"
proof -
  have "unat x < 2 ^ 64" using unat_u32_less [of x] by simp
  then show ?thesis by (simp add: unsigned_ucast_eq take_bit_nat_eq_self)
qed

lemma unat_join:
  "unat (push_bit 32 (ucast (h :: u32)) OR ucast (l :: u32) :: u64) = unat h * 2 ^ 32 + unat l"
proof -
  have "push_bit 32 (ucast h) OR ucast l = (push_bit 32 (ucast h) + ucast l :: u64)"
    by (rule disjunctive_add [symmetric]) (auto simp: bit_simps dest: bit_imp_le_length)
  moreover have "unat (push_bit 32 (ucast h) :: u64) = unat h * 2 ^ 32"
  proof -
    have "unat h * 2 ^ 32 < 2 ^ 64" using unat_u32_less [of h] by simp
    then show ?thesis by (simp add: push_bit_eq_mult unat_word_ariths mult.commute)
  qed
  ultimately show ?thesis
  proof -
    have "unat h * 2 ^ 32 + unat l < 2 ^ 64" using unat_u32_less [of h] unat_u32_less [of l] by simp
    then show ?thesis
      using \<open>unat (push_bit 32 (ucast h) :: u64) = unat h * 2 ^ 32\<close>
        \<open>push_bit 32 (ucast h) OR ucast l = (push_bit 32 (ucast h) + ucast l :: u64)\<close>
      by (simp add: unat_word_ariths)
  qed
qed

lemma unat_low_high:
  fixes n :: u64
  shows "unat n = unat (ucast (drop_bit 32 n) :: u32) * 2 ^ 32 + unat (ucast n :: u32)"
proof -
  have "unat n < 2 ^ 64" using unsigned_less [of n] by simp
  then have "unat (drop_bit 32 n) < 2 ^ 32"
    by (simp add: unat_drop_bit_eq drop_bit_eq_div unat_div less_mult_imp_div_less)
  then have "unat (ucast (drop_bit 32 n) :: u32) = unat n div 2 ^ 32"
    by (simp add: unsigned_ucast_eq unat_drop_bit_eq drop_bit_eq_div unat_div take_bit_eq_mod)
  moreover have "unat (ucast n :: u32) = unat n mod 2 ^ 32" by (simp add: unsigned_ucast_eq take_bit_eq_mod)
  ultimately show ?thesis by simp
qed

lemma divl_eq:
  assumes "edx < d"
  shows "\<exists>q r. divl edx eax d = Inr (q, r) \<and>
    unat q = (unat edx * 2 ^ 32 + unat eax) div unat d \<and> unat r = (unat edx * 2 ^ 32 + unat eax) mod unat d"
proof -
  let ?n = "push_bit 32 (ucast edx) OR (ucast eax :: u64)"
  define N where "N = unat edx * 2 ^ 32 + unat eax"
  have d0: "0 < unat d" "d \<noteq> 0" using assms by (auto simp: word_less_nat_alt)
  have n: "unat ?n = N" unfolding N_def by (rule unat_join)
  have d: "unat (ucast d :: u64) = unat d" by (simp add: unat_u32_u64)
  have "N < unat d * 2 ^ 32"
  proof -
    have "(unat edx + 1) * 2 ^ 32 \<le> unat d * 2 ^ 32" using assms by (simp add: word_less_nat_alt)
    then show ?thesis using unat_u32_less [of eax] unfolding N_def by simp
  qed
  then have q: "N div unat d < 2 ^ 32" by (simp add: less_mult_imp_div_less mult.commute)
  have nd: "unat (?n div ucast d) = N div unat d" by (simp only: unat_div n d)
  have nm: "unat (?n mod ucast d) = N mod unat d" by (simp only: unat_mod n d)
  have m: "N mod unat d < 2 ^ 32" using mod_less_divisor [OF d0(1), of N] unat_u32_less [of d] by linarith
  have "\<not> 2 ^ 32 \<le> ?n div ucast d"
  proof -
    have "unat (2 ^ 32 :: u64) = 2 ^ 32" by simp
    then show ?thesis using q nd by (simp only: word_le_nat_alt)
  qed
  then have "divl edx eax d = Inr (ucast (?n div ucast d), ucast (?n mod ucast d))"
    using d0 by (simp add: divl_def Let_def)
  moreover have "unat (ucast (?n div ucast d) :: u32) = N div unat d"
    using q by (simp only: unsigned_ucast_eq nd) (simp add: take_bit_nat_eq_self)
  moreover have "unat (ucast (?n mod ucast d) :: u32) = N mod unat d"
    using m by (simp only: unsigned_ucast_eq nm) (simp add: take_bit_nat_eq_self)
  ultimately show ?thesis unfolding N_def by blast
qed

lemma do_div_unat:
  assumes "base \<noteq> 0"
  shows "\<exists>q r. do_div n base = Inr (q, r) \<and>
    unat q = unat n div unat base \<and> unat r = unat n mod unat base"
proof -
  define hi where "hi = (ucast (drop_bit 32 n) :: u32)"
  define lo where "lo = (ucast n :: u32)"
  have b: "0 < unat base" using assms by (simp add: unat_gt_0)
  have n: "unat n = unat hi * 2 ^ 32 + unat lo" unfolding hi_def lo_def by (rule unat_low_high)
  have up: "hi mod base < base" "hi = 0 \<Longrightarrow> hi mod base = hi" "hi = 0 \<Longrightarrow> hi div base = hi"
    using assms by (simp_all add: word_less_nat_alt unat_mod b unat_div)
  obtain q r where d: "divl (hi mod base) lo base = Inr (q, r)"
    "unat q = (unat (hi mod base) * 2 ^ 32 + unat lo) div unat base"
    "unat r = (unat (hi mod base) * 2 ^ 32 + unat lo) mod unat base"
    using divl_eq [OF up(1)] by blast
  have "do_div n base = Inr (push_bit 32 (ucast (hi div base)) OR ucast q, r)"
    using assms d(1) up(2,3) by (cases "hi = 0") (simp_all add: do_div_def Let_def flip: hi_def lo_def)
  moreover have e: "unat n = (unat hi div unat base) * 2 ^ 32 * unat base + (unat (hi mod base) * 2 ^ 32 + unat lo)"
  proof -
    have "unat hi = unat hi div unat base * unat base + unat (hi mod base)" by (simp add: unat_mod)
    then have "unat hi * 2 ^ 32 = (unat hi div unat base * unat base + unat (hi mod base)) * 2 ^ 32" by simp
    then show ?thesis using n by (simp only: add_mult_distrib) simp
  qed
  have "unat (push_bit 32 (ucast (hi div base)) OR ucast q :: u64) = unat n div unat base"
    unfolding unat_join d(2) e using b by (simp add: unat_div)
  moreover have "unat r = unat n mod unat base" unfolding d(3) e by simp
  ultimately show ?thesis by blast
qed

lemma do_div_eq:
  assumes "base \<noteq> 0"
  shows "do_div n base = Inr (n div ucast base, ucast (n mod ucast base))"
proof -
  obtain q r where d: "do_div n base = Inr (q, r)" "unat q = unat n div unat base" "unat r = unat n mod unat base"
    using do_div_unat [OF assms] by blast
  have t: "unat (ucast x :: u32) = take_bit 32 (unat x)" for x :: u64 by (simp add: unsigned_ucast_eq)
  have b: "unat (ucast base :: u64) = unat base" by (simp add: unat_u32_u64)
  have "unat n mod unat base < 2 ^ 32"
    by (rule order.strict_trans [OF mod_less_divisor unat_u32_less]) (use assms in \<open>simp add: unat_gt_0\<close>)
  then have "unat (ucast (n mod ucast base) :: u32) = unat r"
    unfolding d(3) t unat_mod b by (simp add: take_bit_nat_eq_self)
  moreover have "unat (n div ucast base) = unat q" unfolding d(2) by (simp only: unat_div b)
  ultimately show ?thesis unfolding d(1) by (metis of_nat_unat_id)
qed

section \<open>What printnum prints\<close>

primrec emit :: "('a \<Rightarrow> 's \<Rightarrow> 's res) \<Rightarrow> 'a list \<Rightarrow> 's \<Rightarrow> 's res" where
  "emit putch [] s = Inr s"
| "emit putch (c # cs) s = bind_res (putch c s) (emit putch cs)"

lemma emit_append: "emit putch (xs @ ys) s = bind_res (emit putch xs s) (emit putch ys)"
proof (induction xs arbitrary: s)
  case (Cons x xs)
  then show ?case by (cases "putch x s") simp_all
qed simp

lemma putch_times_emit: "putch_times putch n c s = emit putch (replicate n c) s"
proof (induction n arbitrary: s)
  case (Suc n)
  then show ?case by (cases "putch c s") simp_all
qed simp

text \<open>The digits of a number, most significant first.\<close>

fun digits :: "nat \<Rightarrow> nat \<Rightarrow> nat list" where
  "digits b n = (if b < 2 \<or> n < b then [n] else digits b (n div b) @ [n mod b])"

declare digits.simps [simp del]

definition digit_codes :: "nat list \<Rightarrow> u32 list" where
  "digit_codes ds = map (\<lambda>d. hex_digits ! d) ds"

lemma digits_small: "n < b \<Longrightarrow> digits b n = [n]"
  by (subst digits.simps) simp

lemma digits_bound: "2 \<le> b \<Longrightarrow> d \<in> set (digits b n) \<Longrightarrow> d < b"
proof (induction b n rule: digits.induct)
  case (1 b n)
  then show ?case by (subst (asm) (2) digits.simps) (auto split: if_splits)
qed

lemma digits_value_nat: "2 \<le> b \<Longrightarrow> foldl (\<lambda>v d. v * b + d) 0 (digits b n) = n"
proof (induction b n rule: digits.induct)
  case (1 b n)
  then show ?case by (subst digits.simps) (auto simp: not_less)
qed

lemma digits_not_Nil [simp]: "digits b n \<noteq> []"
  by (subst digits.simps) simp

lemma digits_leading: "2 \<le> b \<Longrightarrow> b \<le> n \<Longrightarrow> hd (digits b n) \<noteq> 0"
proof (induction b n rule: digits.induct)
  case (1 b n)
  then have d: "digits b n = digits b (n div b) @ [n mod b]" by (subst digits.simps) simp
  show ?case
  proof (cases "b \<le> n div b")
    case True
    then show ?thesis using "1.IH" 1(2,3) d by simp
  next
    case False
    then have "digits b (n div b) = [n div b]" by (subst digits.simps) simp
    moreover have "0 < n div b" using 1(2,3) by (simp add: div_greater_zero_iff)
    ultimately show ?thesis using d by simp
  qed
qed

definition pad_count :: "u32 \<Rightarrow> nat \<Rightarrow> nat" where
  "pad_count w k = nat (sint (w - of_nat k))"

lemma printnum_eq:
  assumes "2 \<le> unat base" "unat base \<le> 16"
  shows "printnum putch num base w pc s =
    Some (emit putch (replicate (pad_count w (length (digits (unat base) (unat num)))) pc @
                      digit_codes (digits (unat base) (unat num))) s)"
proof (induction "unat num" arbitrary: num w rule: less_induct)
  case less
  have b0: "base \<noteq> 0" using assms(1) by auto
  have ub: "unat (ucast base :: u64) = unat base" by simp
  let ?q = "num div ucast base"
  let ?r = "ucast (num mod ucast base) :: u32"
  have q: "unat ?q = unat num div unat base" by (simp only: unat_div ub)
  have r: "unat ?r = unat num mod unat base"
  proof -
    have "unat num mod unat base < 2 ^ 32" by (rule order.strict_trans [OF mod_less_divisor unat_u32_less]) (use assms in simp)
    moreover have "unat ?r = take_bit 32 (unat (num mod ucast base))" by (simp add: unsigned_ucast_eq)
    ultimately show ?thesis unfolding unat_mod ub by (simp add: take_bit_nat_eq_self)
  qed
  have r16: "unat num mod unat base < 16"
    using assms mod_less_divisor [of "unat base" "unat num"] by linarith
  then have dc: "digit_char ?r = Inr (hex_digits ! (unat num mod unat base))"
    by (simp add: digit_char_def r hex_digits_def)
  show ?case
  proof (cases "unat base \<le> unat num")
    case True
    then have ge: "ucast base \<le> num" by (simp only: word_le_nat_alt ub)
    have "unat ?q < unat num" unfolding q using True assms(1) by (intro div_less_dividend) auto
    note IH = less [OF this, of "w - 1"]
    have ds: "digits (unat base) (unat num) = digits (unat base) (unat ?q) @ [unat num mod unat base]"
      using True assms(1) unfolding q by (subst digits.simps) simp
    have p: "pad_count (w - 1) (length (digits (unat base) (unat ?q))) =
        pad_count w (length (digits (unat base) (unat num)))"
      unfolding ds by (simp add: pad_count_def diff_diff_eq)
    show ?thesis
      by (subst printnum.simps)
        (simp add: do_div_eq [OF b0] ge IH dc p ds digit_codes_def emit_append bind_res_def split: sum.splits)
  next
    case False
    then have ge: "\<not> ucast base \<le> num" unfolding word_le_nat_alt ub .
    have ds: "digits (unat base) (unat num) = [unat num]" by (rule digits_small) (use False in linarith)
    have "unat num mod unat base = unat num" by (rule mod_less) (use False in linarith)
    then show ?thesis
      by (subst printnum.simps)
        (simp add: do_div_eq [OF b0] ge dc ds digit_codes_def emit_append bind_res_def putch_times_emit
          pad_count_def split: sum.splits)
  qed
qed

end
