(* ===== verification/Printf_Spec.thy ===== *)
theory Printf_Spec
  imports Printf
begin

text \<open>
  What the formatter of \<^verbatim>\<open>kernel/printfmt.c\<close> promises: a format string is the
  text of a list of directives, and \<^verbatim>\<open>vprintfmt\<close> hands the callback exactly the
  characters the directives stand for, for every callback that leaves the strings it reads alone.
  The buffer printers are then a truncation of that output.
\<close>

section \<open>What vprintfmt prints\<close>

text \<open>A format string as a list of directives. A \<open>spec\<close> is the part between
  \<^verbatim>\<open>%\<close> and the conversion character: one pad flag, a width, a precision (both
  without leading zeros) and a number of \<^verbatim>\<open>l\<close>s.\<close>

datatype pad = Pad_space | Pad_zero | Pad_minus

record spec =
  sp_pad :: pad
  sp_width :: "nat option"
  sp_prec :: "nat option"
  sp_long :: nat

datatype conv = Signed | Unsigned | Octal | Hex

datatype directive =
  Plain u8
| Percent
| Char_arg spec u32
| Number_arg conv spec u64
| Pointer_arg spec u32
| String_arg spec u32 "u8 list"

definition dec_text :: "nat \<Rightarrow> u8 list" where
  "dec_text n = map (\<lambda>d. 0x30 + of_nat d) (digits 10 n)"

definition pad_text :: "pad \<Rightarrow> u8 list" where
  "pad_text p = (case p of Pad_space \<Rightarrow> [] | Pad_zero \<Rightarrow> [0x30] | Pad_minus \<Rightarrow> [0x2d])"

definition spec_text :: "spec \<Rightarrow> u8 list" where
  "spec_text sp = pad_text (sp_pad sp) @
     (case sp_width sp of None \<Rightarrow> [] | Some w \<Rightarrow> dec_text w) @
     (case sp_prec sp of None \<Rightarrow> [] | Some p \<Rightarrow> 0x2e # dec_text p) @
     replicate (sp_long sp) 0x6c"

definition spec_ok :: "spec \<Rightarrow> bool" where
  "spec_ok sp \<longleftrightarrow>
     (case sp_width sp of None \<Rightarrow> True | Some w \<Rightarrow> 0 < w \<and> w < 2 ^ 31) \<and>
     (case sp_prec sp of None \<Rightarrow> True | Some p \<Rightarrow> 0 < p \<and> p < 2 ^ 31) \<and> sp_long sp < 2 ^ 31"

definition pad_char :: "pad \<Rightarrow> u8" where
  "pad_char p = (case p of Pad_space \<Rightarrow> 0x20 | Pad_zero \<Rightarrow> 0x30 | Pad_minus \<Rightarrow> 0x2d)"

definition spec_flags :: "spec \<Rightarrow> fmt_flags" where
  "spec_flags sp =
     \<lparr>padc = pad_char (sp_pad sp),
      width = (case sp_width sp of Some w \<Rightarrow> of_nat w
               | None \<Rightarrow> if sp_prec sp = None then - 1 else 0),
      precision = (case sp_prec sp of None \<Rightarrow> - 1 | Some p \<Rightarrow> of_nat p),
      lflag = of_nat (sp_long sp), altflag = False\<rparr>"

subsection \<open>Parsing the flags\<close>

definition is_digit :: "u8 \<Rightarrow> bool" where
  "is_digit c \<longleftrightarrow> 0x30 \<le> sint c \<and> sint c \<le> 0x39"

lemma digit_code: "d < 10 \<Longrightarrow> sint (0x30 + of_nat d :: u8) = 0x30 + int d"
proof -
  assume "d < 10"
  then have "d \<in> set [0..<10]" by simp
  then show ?thesis by (auto simp: upt_rec)
qed

lemma digit_ucast: "d < 10 \<Longrightarrow> ucast (0x30 + of_nat d :: u8) - 0x30 = (of_nat d :: u32)"
proof -
  assume "d < 10"
  then have "d \<in> set [0..<10]" by simp
  then show ?thesis by (auto simp: upt_rec)
qed

lemma parse_number_digits:
  assumes "\<forall>d \<in> set ds. d < 10" "c < 10"
    and "bytes m fmt (length ds) = map (\<lambda>d. 0x30 + of_nat d) ds"
    and "\<not> is_digit (m (fmt + of_nat (length ds)))"
  shows "parse_number m fmt (0x30 + of_nat c) (of_nat v) =
    Some (of_nat (foldl (\<lambda>v d. v * 10 + d) v (c # ds)), fmt + of_nat (length ds))"
  using assms
proof (induction ds arbitrary: fmt c v)
  case Nil
  then have "of_nat v * 10 + ucast (0x30 + of_nat c :: u8) - 0x30 = (of_nat (v * 10 + c) :: u32)"
    using digit_ucast [of c] by (simp add: algebra_simps)
  then show ?case using Nil by (subst parse_number.simps) (auto simp: is_digit_def Let_def)
next
  case (Cons d ds)
  have e: "of_nat v * 10 + ucast (0x30 + of_nat c :: u8) - 0x30 = (of_nat (v * 10 + c) :: u32)"
    using digit_ucast [of c] Cons.prems(2) by (simp add: algebra_simps)
  have d: "m fmt = 0x30 + of_nat d" "bytes m (fmt + 1) (length ds) = map (\<lambda>d. 0x30 + of_nat d) ds"
    using Cons.prems(3) by (simp_all add: bytes_Suc)
  have sd: "sint (m fmt) = 0x30 + int d" unfolding d(1) using Cons.prems(1) by (intro digit_code) simp
  have "d < 10" using Cons.prems(1) by simp
  then have nd: "\<not> (sint (m fmt) < 0x30 \<or> 0x39 < sint (m fmt))" by (simp add: sd)
  have "parse_number m fmt (0x30 + of_nat c) (of_nat v) =
      parse_number m (fmt + 1) (0x30 + of_nat d) (of_nat (v * 10 + c))"
    by (subst parse_number.simps) (simp only: Let_def e nd if_False d(1) [symmetric])
  also have "\<dots> = Some (of_nat (foldl (\<lambda>v d. v * 10 + d) (v * 10 + c) (d # ds)),
      fmt + 1 + of_nat (length ds))"
    by (rule Cons.IH) (use Cons.prems d in \<open>simp_all add: algebra_simps\<close>)
  finally show ?case by (simp add: add.assoc)
qed

lemma dec_text_eq:
  assumes "0 < n"
  obtains c ds where "dec_text n = (0x30 + of_nat c) # map (\<lambda>d. 0x30 + of_nat d) ds"
    "0 < c" "c < 10" "\<forall>d \<in> set ds. d < 10" "foldl (\<lambda>v d. v * 10 + d) 0 (c # ds) = n"
proof -
  obtain c ds where d: "digits 10 n = c # ds" by (cases "digits 10 n") auto
  have "0 < c"
  proof (cases "10 \<le> n")
    case True
    then show ?thesis using digits_leading [of 10 n] d by simp
  next
    case False
    then show ?thesis using d assms by (simp add: digits_small)
  qed
  moreover have "\<forall>x \<in> set (c # ds). x < 10" using digits_bound [of 10 _ n] d by auto
  moreover have "foldl (\<lambda>v d. v * 10 + d) 0 (c # ds) = n" using digits_value_nat [of 10 n] d by simp
  ultimately show thesis using d by (intro that [of c ds]) (auto simp: dec_text_def)
qed

lemma code_range:
  "d < 10 \<Longrightarrow> 0 < d \<Longrightarrow> 0x31 \<le> (0x30 + of_nat d :: u8) \<and> (0x30 + of_nat d :: u8) \<le> 0x39"
proof -
  assume "d < 10" "0 < d"
  then have "d \<in> set [1..<10]" by simp
  then show ?thesis by (auto simp: upt_rec)
qed

text \<open>One number in the flags: a width when none was given yet, else a precision.\<close>

lemma reswitch_number:
  assumes "0 < n" "bytes m fmt (length (dec_text n)) = dec_text n"
    and "\<not> is_digit (m (fmt + of_nat (length (dec_text n))))"
  shows "reswitch m fmt ap fl =
    reswitch m (fmt + of_nat (length (dec_text n))) ap (process_precision (of_nat n) fl)"
proof -
  obtain c ds where d: "dec_text n = (0x30 + of_nat c) # map (\<lambda>d. 0x30 + of_nat d) ds"
    "0 < c" "c < 10" "\<forall>d \<in> set ds. d < 10" "foldl (\<lambda>v d. v * 10 + d) 0 (c # ds) = n"
    using assms(1) by (rule dec_text_eq)
  have c: "m fmt = 0x30 + of_nat c" "bytes m (fmt + 1) (length ds) = map (\<lambda>d. 0x30 + of_nat d) ds"
    using assms(2) unfolding d(1) by (simp_all add: bytes_Suc)
  have len: "fmt + of_nat (length (dec_text n)) = fmt + 1 + of_nat (length ds)" by (simp add: d(1))
  have "parse_number m (fmt + 1) (0x30 + of_nat c) (of_nat 0) =
      Some (of_nat (foldl (\<lambda>v d. v * 10 + d) 0 (c # ds)), fmt + 1 + of_nat (length ds))"
    by (rule parse_number_digits) (use d c assms(3) len in \<open>simp_all add: add.assoc\<close>)
  then have p: "parse_number m (fmt + 1) (m fmt) 0 = Some (of_nat n, fmt + 1 + of_nat (length ds))"
    using d(5) c(1) by simp
  have r: "0x31 \<le> m fmt" "m fmt \<le> 0x39" using code_range d(2,3) c(1) by simp_all
  then have "m fmt \<noteq> 0x2d" "m fmt \<noteq> 0x30" by auto
  then show ?thesis using r p unfolding len by (subst reswitch.simps) (simp add: Let_def)
qed

definition conv_chars :: "u8 list" where
  "conv_chars = [0x63, 0x73, 0x64, 0x75, 0x6f, 0x70, 0x78, 0x25, 0x65]"

lemma conv_char_stops:
  "ch \<in> set conv_chars \<Longrightarrow> m fmt = ch \<Longrightarrow> reswitch m fmt ap fl = Some (Inr (ch, fmt + 1, ap, fl))"
  by (subst reswitch.simps) (auto simp: conv_chars_def Let_def)

lemma not_digit_chars: "ch \<in> set (0x2e # 0x6c # conv_chars) \<Longrightarrow> \<not> is_digit ch"
  by (auto simp: conv_chars_def is_digit_def)

lemma reswitch_long:
  assumes "bytes m fmt (n + 1) = replicate n 0x6c @ [ch]" "ch \<in> set conv_chars"
  shows "reswitch m fmt ap fl =
    Some (Inr (ch, fmt + of_nat (n + 1), ap, fl\<lparr>lflag := lflag fl + of_nat n\<rparr>))"
  using assms(1)
proof (induction n arbitrary: fmt fl)
  case 0
  then have "m fmt = ch" by simp
  then show ?case by (simp add: conv_char_stops [OF assms(2)])
next
  case (Suc n)
  then have "m fmt = 0x6c" "bytes m (fmt + 1) (n + 1) = replicate n 0x6c @ [ch]"
    by (simp_all add: bytes_Suc)
  then have "reswitch m fmt ap fl = reswitch m (fmt + 1) ap (fl\<lparr>lflag := lflag fl + 1\<rparr>)"
    by (subst reswitch.simps) (simp add: Let_def)
  then show ?case
    using Suc.IH [OF \<open>bytes m (fmt + 1) (n + 1) = _\<close>] by (simp add: algebra_simps)
qed

lemma bytes_split:
  assumes "bytes m p (length (xs @ ys)) = xs @ ys"
  shows "bytes m p (length xs) = xs" "bytes m (p + of_nat (length xs)) (length ys) = ys"
  using assms by (simp_all only: bytes_append_iff)

lemma bytes_hd: "bytes m p (length ys) = ys \<Longrightarrow> ys \<noteq> [] \<Longrightarrow> m p = hd ys"
  by (cases ys) (simp_all add: bytes_Suc)

lemma long_hd: "hd (replicate n 0x6c @ [ch]) \<in> {0x6c, ch}"
  by (cases n) auto

text \<open>The three parts of the flags, from the last to the first.\<close>

lemma reswitch_prec:
  assumes b: "bytes m fmt (length (pt @ lt)) = pt @ lt"
    and pt: "pt = (case q of None \<Rightarrow> [] | Some p \<Rightarrow> 0x2e # dec_text p)"
    and lt: "lt = replicate n 0x6c @ [ch]" and ch: "ch \<in> set conv_chars"
    and q: "case q of None \<Rightarrow> True | Some p \<Rightarrow> 0 < p"
    and fl: "sint (width fl) < 0 \<longrightarrow> width fl = - 1"
  shows "reswitch m fmt ap fl =
    Some (Inr (ch, fmt + of_nat (length (pt @ lt)), ap,
      case q of None \<Rightarrow> fl\<lparr>lflag := lflag fl + of_nat n\<rparr>
      | Some p \<Rightarrow> fl\<lparr>width := if sint (width fl) < 0 then 0 else width fl, precision := of_nat p,
                     lflag := lflag fl + of_nat n\<rparr>))"
proof (cases q)
  case None
  have "bytes m fmt (n + 1) = replicate n 0x6c @ [ch]" using b None by (simp add: pt lt)
  then show ?thesis using None ch by (simp add: reswitch_long pt lt)
next
  case (Some p)
  let ?fl = "fl\<lparr>width := if sint (width fl) < 0 then 0 else width fl\<rparr>"
  have b': "bytes m fmt (length ([0x2e] @ dec_text p @ lt)) = [0x2e] @ dec_text p @ lt"
    using b Some by (simp add: pt)
  have dot: "m fmt = 0x2e" using bytes_hd [OF bytes_split(1) [OF b']] by simp
  have b1: "bytes m (fmt + 1) (length (dec_text p @ lt)) = dec_text p @ lt"
    using bytes_split(2) [OF b'] by simp
  have "0 < p" using q Some by simp
  have nd: "\<not> is_digit (m (fmt + 1 + of_nat (length (dec_text p))))"
    using bytes_hd [OF bytes_split(2) [OF b1]] long_hd [of n ch] ch not_digit_chars [of "0x6c"]
      not_digit_chars [of ch] by (auto simp: lt)
  have "reswitch m fmt ap fl = reswitch m (fmt + 1) ap ?fl"
    by (subst reswitch.simps) (simp add: Let_def dot)
  also have "\<dots> = reswitch m (fmt + 1 + of_nat (length (dec_text p))) ap (process_precision (of_nat p) ?fl)"
    by (rule reswitch_number [OF \<open>0 < p\<close> bytes_split(1) [OF b1] nd])
  also have "process_precision (of_nat p) ?fl = ?fl\<lparr>precision := of_nat p\<rparr>"
    by (simp add: process_precision_def)
  also have "reswitch m (fmt + 1 + of_nat (length (dec_text p))) ap (?fl\<lparr>precision := of_nat p\<rparr>) =
      Some (Inr (ch, fmt + 1 + of_nat (length (dec_text p)) + of_nat (n + 1), ap,
        ?fl\<lparr>precision := of_nat p, lflag := lflag fl + of_nat n\<rparr>))"
    using bytes_split(2) [OF b1] ch by (subst reswitch_long) (simp_all add: lt)
  finally show ?thesis using Some by (simp add: pt lt algebra_simps)
qed

lemma reswitch_spec:
  assumes b: "bytes m fmt (length (spec_text sp @ [ch])) = spec_text sp @ [ch]"
    and ok: "spec_ok sp" and ch: "ch \<in> set conv_chars"
  shows "reswitch m fmt ap init_flags =
    Some (Inr (ch, fmt + of_nat (length (spec_text sp @ [ch])), ap, spec_flags sp))"
proof -
  let ?pad = "pad_text (sp_pad sp)"
  let ?w = "case sp_width sp of None \<Rightarrow> [] | Some w \<Rightarrow> dec_text w"
  let ?p = "case sp_prec sp of None \<Rightarrow> [] | Some p \<Rightarrow> 0x2e # dec_text p"
  let ?l = "replicate (sp_long sp) 0x6c @ [ch]"
  let ?fmt1 = "fmt + of_nat (length ?pad)"
  let ?fl1 = "init_flags\<lparr>padc := pad_char (sp_pad sp)\<rparr>"
  have t: "spec_text sp @ [ch] = ?pad @ (?w @ (?p @ ?l))" by (simp add: spec_text_def)
  have b1: "bytes m ?fmt1 (length (?w @ (?p @ ?l))) = ?w @ (?p @ ?l)"
    using bytes_split(2) b unfolding t by blast
  have b2: "bytes m (?fmt1 + of_nat (length ?w)) (length (?p @ ?l)) = ?p @ ?l"
    by (rule bytes_split(2) [OF b1])
  have bp: "bytes m fmt (length ?pad) = ?pad"
    using bytes_split(1) b unfolding t by blast
  have 1: "reswitch m fmt ap init_flags = reswitch m ?fmt1 ap ?fl1"
  proof (cases "sp_pad sp")
    case Pad_space
    then show ?thesis by (simp add: pad_text_def pad_char_def init_flags_def)
  next
    case Pad_zero
    then have "m fmt = 0x30" using bp by (simp add: pad_text_def)
    then show ?thesis using Pad_zero
      by (subst reswitch.simps) (simp add: pad_text_def pad_char_def Let_def)
  next
    case Pad_minus
    then have "m fmt = 0x2d" using bp by (simp add: pad_text_def)
    then show ?thesis using Pad_minus
      by (subst reswitch.simps) (simp add: pad_text_def pad_char_def Let_def)
  qed
  define fl2 where "fl2 = ?fl1\<lparr>width := (case sp_width sp of None \<Rightarrow> - 1 | Some w \<Rightarrow> of_nat w)\<rparr>"
  have 2: "reswitch m ?fmt1 ap ?fl1 = reswitch m (?fmt1 + of_nat (length ?w)) ap fl2"
  proof (cases "sp_width sp")
    case None
    then show ?thesis by (simp add: fl2_def init_flags_def)
  next
    case (Some w)
    have "0 < w" using ok Some by (simp add: spec_ok_def)
    have "hd (?p @ ?l) \<in> set (0x2e # 0x6c # conv_chars)"
      using ch long_hd [of "sp_long sp" ch] by (cases "sp_prec sp") auto
    moreover have "m (?fmt1 + of_nat (length ?w)) = hd (?p @ ?l)" using bytes_hd [OF b2] by simp
    ultimately have nd: "\<not> is_digit (m (?fmt1 + of_nat (length (dec_text w))))"
      using not_digit_chars Some by simp
    have "bytes m ?fmt1 (length (dec_text w)) = dec_text w"
      using bytes_split(1) [OF b1] Some by simp
    from reswitch_number [OF \<open>0 < w\<close> this nd]
    show ?thesis using Some by (simp add: fl2_def process_precision_def init_flags_def)
  qed
  have s2: "sint (width fl2) < 0 \<longleftrightarrow> sp_width sp = None"
    using ok by (auto simp: fl2_def spec_ok_def sint_of_nat split: option.splits)
  have "reswitch m (?fmt1 + of_nat (length ?w)) ap fl2 =
    Some (Inr (ch, ?fmt1 + of_nat (length ?w) + of_nat (length (?p @ ?l)), ap,
      case sp_prec sp of None \<Rightarrow> fl2\<lparr>lflag := lflag fl2 + of_nat (sp_long sp)\<rparr>
      | Some p \<Rightarrow> fl2\<lparr>width := if sint (width fl2) < 0 then 0 else width fl2, precision := of_nat p,
                     lflag := lflag fl2 + of_nat (sp_long sp)\<rparr>))"
    by (rule reswitch_prec [OF b2 refl refl ch])
      (use ok s2 in \<open>auto simp: spec_ok_def fl2_def split: option.splits\<close>)
  moreover have "(case sp_prec sp of None \<Rightarrow> fl2\<lparr>lflag := lflag fl2 + of_nat (sp_long sp)\<rparr>
      | Some p \<Rightarrow> fl2\<lparr>width := if sint (width fl2) < 0 then 0 else width fl2, precision := of_nat p,
                     lflag := lflag fl2 + of_nat (sp_long sp)\<rparr>) = spec_flags sp"
    unfolding s2 by (auto simp: fl2_def init_flags_def spec_flags_def split: option.splits)
  moreover have "?fmt1 + of_nat (length ?w) + of_nat (length (?p @ ?l)) =
      fmt + of_nat (length (spec_text sp @ [ch]))"
    unfolding t by (simp only: length_append of_nat_add add.assoc)
  ultimately show ?thesis using 1 2 by simp
qed

subsection \<open>Directives\<close>

definition conv_char :: "conv \<Rightarrow> u8" where
  "conv_char k = (case k of Signed \<Rightarrow> 0x64 | Unsigned \<Rightarrow> 0x75 | Octal \<Rightarrow> 0x6f | Hex \<Rightarrow> 0x78)"

definition conv_base :: "conv \<Rightarrow> nat" where
  "conv_base k = (case k of Signed \<Rightarrow> 10 | Unsigned \<Rightarrow> 10 | Octal \<Rightarrow> 8 | Hex \<Rightarrow> 16)"

primrec text_of :: "directive \<Rightarrow> u8 list" where
  "text_of (Plain c) = [c]"
| "text_of Percent = [0x25, 0x25]"
| "text_of (Char_arg sp v) = 0x25 # spec_text sp @ [0x63]"
| "text_of (Number_arg k sp v) = 0x25 # spec_text sp @ [conv_char k]"
| "text_of (Pointer_arg sp v) = 0x25 # spec_text sp @ [0x70]"
| "text_of (String_arg sp p cs) = 0x25 # spec_text sp @ [0x73]"

text \<open>The stack slots a directive consumes: one, or two for a \<^verbatim>\<open>long long\<close>.\<close>

primrec slots_of :: "directive \<Rightarrow> u32 list" where
  "slots_of (Plain c) = []"
| "slots_of Percent = []"
| "slots_of (Char_arg sp v) = [v]"
| "slots_of (Number_arg k sp v) =
     (if 2 \<le> sp_long sp then [ucast v, ucast (drop_bit 32 v)] else [ucast v])"
| "slots_of (Pointer_arg sp v) = [v]"
| "slots_of (String_arg sp p cs) = [p]"

text \<open>The digits of a number, with the pad character before them for every flag: with \<^verbatim>\<open>-\<close>, which
  the code calls the flag to pad on the right, they are dashes in front of the digits. The width counts the digits without
  the sign, and the pad comes between the two.\<close>

definition number_out :: "spec \<Rightarrow> nat \<Rightarrow> nat \<Rightarrow> u32 list" where
  "number_out sp b n =
     replicate (pad_count (width (spec_flags sp)) (length (digits b n))) (ucast (pad_char (sp_pad sp))) @
     digit_codes (digits b n)"

text \<open>The argument value: below \<^verbatim>\<open>ll\<close> only the low 32 bits are passed.\<close>

definition arg_value :: "conv \<Rightarrow> spec \<Rightarrow> u64 \<Rightarrow> u64" where
  "arg_value k sp v =
     (if 2 \<le> sp_long sp then v
      else if k = Signed then scast (ucast v :: u32) else ucast (ucast v :: u32))"

definition shown :: "spec \<Rightarrow> u8 list \<Rightarrow> u8 list" where
  "shown sp cs = (case sp_prec sp of None \<Rightarrow> cs | Some p \<Rightarrow> take p cs)"

text \<open>A string is padded with spaces on the right for \<^verbatim>\<open>-\<close>.\<close>

definition string_out :: "spec \<Rightarrow> u8 list \<Rightarrow> u32 list" where
  "string_out sp cs =
     (let n = length (shown sp cs);
          gap = nat (sint (width (spec_flags sp)) - int n);
          chars = map scast (shown sp cs)
      in if sp_pad sp = Pad_minus then chars @ replicate gap 0x20
         else replicate gap (ucast (pad_char (sp_pad sp))) @ chars)"

primrec out_of :: "directive \<Rightarrow> u32 list" where
  "out_of (Plain c) = [ucast c]"
| "out_of Percent = [0x25]"
| "out_of (Char_arg sp v) = [v]"
| "out_of (Number_arg k sp v) =
     (let x = arg_value k sp v
      in if k = Signed \<and> sint x < 0 then 0x2d # number_out sp 10 (unat (- x))
         else number_out sp (conv_base k) (unat x))"
| "out_of (Pointer_arg sp v) = [0x30, 0x78] @ number_out sp 16 (unat v)"
| "out_of (String_arg sp p cs) = string_out sp cs"

text \<open>\<open>A\<close> is the part of memory that holds the strings; the callback must leave it alone, in the
  states with the property \<open>I\<close> that it keeps.\<close>

primrec directive_ok :: "bmem \<Rightarrow> u32 set \<Rightarrow> directive \<Rightarrow> bool" where
  "directive_ok m A (Plain c) \<longleftrightarrow> c \<noteq> 0x25"
| "directive_ok m A Percent \<longleftrightarrow> True"
| "directive_ok m A (Char_arg sp v) \<longleftrightarrow> spec_ok sp"
| "directive_ok m A (Number_arg k sp v) \<longleftrightarrow> spec_ok sp"
| "directive_ok m A (Pointer_arg sp v) \<longleftrightarrow> spec_ok sp"
| "directive_ok m A (String_arg sp p cs) \<longleftrightarrow> spec_ok sp \<and> p \<noteq> NULL \<and> cstring m p cs \<and>
     span p (Suc (length cs)) \<subseteq> A \<and> length cs < 2 ^ 30"

definition keeps ::
    "('s \<Rightarrow> bmem) \<Rightarrow> (u32 \<Rightarrow> 's \<Rightarrow> 's res) \<Rightarrow> u32 set \<Rightarrow> ('s \<Rightarrow> bool) \<Rightarrow> bool" where
  "keeps rd putch A I \<longleftrightarrow>
     (\<forall>c s s'. I s \<longrightarrow> putch c s = Inr s' \<longrightarrow> I s' \<and> (\<forall>a \<in> A. rd s' a = rd s a))"

lemma emit_keeps:
  "keeps rd putch A I \<Longrightarrow> I s \<Longrightarrow> emit putch cs s = Inr s' \<Longrightarrow>
   I s' \<and> (\<forall>a \<in> A. rd s' a = rd s a)"
proof (induction cs arbitrary: s)
  case (Cons c cs)
  from Cons.prems(3) obtain t where t: "putch c s = Inr t" "emit putch cs t = Inr s'"
    by (auto simp: bind_res_Inr_iff)
  then have "I t \<and> (\<forall>a \<in> A. rd t a = rd s a)" using Cons.prems(1,2) unfolding keeps_def by blast
  then show ?case using Cons.IH [OF Cons.prems(1) _ t(2)] by auto
qed simp

lemma number_eq:
  assumes "2 \<le> unat base" "unat base \<le> 16"
  shows "number putch (spec_flags sp) base num (Inr s) =
    Some (emit putch (number_out sp (unat base) (unat num)) s)"
  by (simp add: number_def printnum_eq [OF assms] number_out_def spec_flags_def)

lemma bind_res_assoc: "bind_res (bind_res r f) g = bind_res r (\<lambda>x. bind_res (f x) g)"
  by (cases r) simp_all

lemma bind_res_Inr_id [simp]: "bind_res r Inr = r"
  by (cases r) simp_all

subsection \<open>Strings\<close>

text \<open>How many characters a precision lets through.\<close>

definition cut :: "u32 \<Rightarrow> u8 list \<Rightarrow> u8 list" where
  "cut prec cs = (if sint prec < 0 then cs else take (nat (sint prec)) cs)"

lemma put_string_eq:
  assumes "cstring (rd s) p cs" "span p (Suc (length cs)) \<subseteq> A" "keeps rd putch A I" "I s"
  shows "put_string rd putch False p prec w s =
    Some (bind_res (emit putch (map scast (cut prec cs)) s)
      (\<lambda>s. Inr (w - of_nat (length (cut prec cs)), s)))"
  using assms(1,2,4)
proof (induction cs arbitrary: p prec w s)
  case Nil
  then show ?case by (subst put_string.simps) (simp add: Let_def cut_def)
next
  case (Cons c cs)
  then have c: "rd s p = c" "c \<noteq> 0" by auto
  show ?case
  proof (cases "0 \<le> sint prec \<and> sint (prec - 1) < 0")
    case True
    then have "sint prec = 0" using sint_pred_u32 [of prec] by linarith
    then show ?thesis using True by (subst put_string.simps) (simp add: Let_def cut_def)
  next
    case False
    let ?prec = "if sint prec < 0 then prec else prec - 1"
    have cut: "cut prec (c # cs) = c # cut ?prec cs"
    proof (cases "sint prec < 0")
      case True
      then show ?thesis by (simp add: cut_def)
    next
      case F: False
      then have "0 \<le> sint prec" by simp
      then have "sint (prec - 1) = sint prec - 1" by (rule sint_pred_u32)
      moreover from this have "nat (sint prec) = Suc (nat (sint (prec - 1)))" using False F by simp
      ultimately show ?thesis using False F by (simp add: cut_def)
    qed
    show ?thesis
    proof (cases "putch (scast c) s")
      case (Inl e)
      then show ?thesis unfolding cut using False c by (subst put_string.simps) (simp add: Let_def)
    next
      case (Inr t)
      have sp: "span (p + 1) (Suc (length cs)) \<subseteq> A" using Cons.prems(2) by (auto simp: span_Suc)
      have t: "I t" "\<And>a. a \<in> A \<Longrightarrow> rd t a = rd s a"
        using assms(3) Inr Cons.prems(3) unfolding keeps_def by blast+
      then have "cstring (rd t) (p + 1) cs"
        using Cons.prems(1) sp t(2) by (subst cstring_cong [where m = "rd s"]) auto
      then have "put_string rd putch False (p + 1) ?prec (w - 1) t =
        Some (bind_res (emit putch (map scast (cut ?prec cs)) t)
          (\<lambda>s. Inr (w - 1 - of_nat (length (cut ?prec cs)), s)))"
        using sp t(1) by (rule Cons.IH)
      moreover have "put_string rd putch False p prec w s = put_string rd putch False (p + 1) ?prec (w - 1) t"
        using False c Inr by (subst put_string.simps) (auto simp: Let_def)
      ultimately show ?thesis unfolding cut using Inr by (simp add: diff_diff_eq)
    qed
  qed
qed

lemma strnlen_cstring:
  assumes "cstring m s cs"
  shows "strnlen m s n = of_nat (min (unat n) (length cs))"
proof -
  let ?r = "strnlen m s n"
  have r: "unat ?r \<le> unat n" "\<And>i. i < unat ?r \<Longrightarrow> m (s + of_nat i) \<noteq> 0" "unat ?r < unat n \<Longrightarrow> m (s + ?r) = 0"
    using strnlen_loop_spec [of 0 n m s] by (auto simp: strnlen_def word_le_nat_alt word_less_nat_alt)
  have "unat ?r = min (unat n) (length cs)"
  proof (cases "unat ?r < length cs")
    case True
    then have "m (s + ?r) \<noteq> 0" using cstring_nth_nonzero [OF assms True] by simp
    then show ?thesis using r(1,3) True by linarith
  next
    case False
    have "\<not> length cs < unat ?r" using r(2) cstring_end [OF assms] by auto
    then show ?thesis using False r(1) by linarith
  qed
  then show ?thesis by (metis of_nat_unat_id)
qed

lemma cut_spec:
  assumes "spec_ok sp" "length cs < 2 ^ 30"
  shows "cut (precision (spec_flags sp)) cs = shown sp cs"
    and "min (unat (precision (spec_flags sp))) (length cs) = length (shown sp cs)"
proof -
  show "cut (precision (spec_flags sp)) cs = shown sp cs"
    using assms(1) by (auto simp: cut_def shown_def spec_flags_def spec_ok_def sint_of_nat split: option.splits)
  show "min (unat (precision (spec_flags sp))) (length cs) = length (shown sp cs)"
  proof (cases "sp_prec sp")
    case None
    have "unat (- 1 :: u32) = 2 ^ 32 - 1" by (simp add: unsigned_minus_1_eq_mask mask_eq_exp_minus_1)
    then show ?thesis using None assms(2) by (simp add: shown_def spec_flags_def)
  next
    case (Some q)
    then have "q < 2 ^ 32" using assms(1) by (simp add: spec_ok_def)
    then have "unat (of_nat q :: u32) = q" by (simp add: unat_of_nat)
    then show ?thesis using Some by (simp add: shown_def spec_flags_def min.commute)
  qed
qed

lemma convert_s_eq:
  assumes "cstring (rd s) p cs" "span p (Suc (length cs)) \<subseteq> A" "keeps rd putch A I" and I: "I s"
    and ok: "spec_ok sp" and p: "p \<noteq> NULL" and len: "length cs < 2 ^ 30"
  shows "convert_s rd lit putch (spec_flags sp) p s = Some (emit putch (string_out sp cs) s)"
proof -
  let ?fl = "spec_flags sp"
  let ?n = "length (shown sp cs)"
  let ?chars = "map scast (shown sp cs) :: u32 list"
  have n: "?n < 2 ^ 30" using len by (auto simp: shown_def split: option.splits)
  have sn: "strnlen (rd s) p (precision ?fl) = of_nat ?n"
    using strnlen_cstring [OF assms(1)] cut_spec(2) [OF ok len] by simp
  have alt: "altflag ?fl = False" "padc ?fl = pad_char (sp_pad sp)" by (simp_all add: spec_flags_def)
  have minus: "padc ?fl \<noteq> 0x2d \<longleftrightarrow> sp_pad sp \<noteq> Pad_minus"
    by (cases "sp_pad sp") (simp_all add: spec_flags_def pad_char_def)
  have w: "- 1 \<le> sint (width ?fl)"
    using ok by (auto simp: spec_flags_def spec_ok_def sint_of_nat split: option.splits)
  have si: "sint (of_nat ?n :: u32) = int ?n" by (rule sint_of_nat) (use n in simp)
  have sd: "sint (width ?fl - of_nat ?n) = sint (width ?fl) - int ?n"
    using sint_diff_u32 [of "width ?fl" "of_nat ?n"] w n sint_u32_range(2) [of "width ?fl"] by (simp add: si)
  have put: "put_string rd putch False p (precision ?fl) v t =
      Some (bind_res (emit putch ?chars t) (\<lambda>s. Inr (v - of_nat ?n, s)))"
    if t: "I t \<and> (\<forall>a \<in> A. rd t a = rd s a)" for v t
  proof -
    have "cstring (rd t) p cs" using assms(1,2) t by (subst cstring_cong [where m = "rd s"]) auto
    from put_string_eq [OF this assms(2,3)] t show ?thesis by (simp add: cut_spec(1) [OF ok len])
  qed
  show ?thesis
  proof (cases "0 < sint (width ?fl) \<and> sp_pad sp \<noteq> Pad_minus")
    case True
    let ?w = "width ?fl - of_nat ?n"
    let ?v = "if 0 < sint ?w then 0 else ?w"
    let ?gap = "replicate (nat (sint ?w)) (ucast (pad_char (sp_pad sp)))"
    have diff: "sint (x - of_nat ?n) = sint x - int ?n" if "- (2 ^ 30) \<le> sint x" "sint x \<le> 0" for x :: u32
      using sint_diff_u32 [of x "of_nat ?n"] that n by (simp add: si)
    have v: "sint (?v - of_nat ?n) \<le> 0"
    proof -
      have b: "sint ?v \<le> 0" "- (2 ^ 30) \<le> sint ?v" using w n sd by auto
      have "sint (?v - of_nat ?n) = sint ?v - int ?n"
        by (rule diff) (use b in auto)
      then show ?thesis using b by linarith
    qed
    have out: "string_out sp cs = ?gap @ ?chars" using True sd by (simp add: string_out_def Let_def)
    have "convert_s rd lit putch ?fl p s =
      (case emit putch ?gap s of Inl e \<Rightarrow> Some (Inl e)
       | Inr t \<Rightarrow> map_option (\<lambda>r. bind_res r (\<lambda>(w, s). putch_times putch (nat (sint w)) 0x20 s))
           (put_string rd putch False p (precision ?fl) ?v t))"
      using True p minus unfolding convert_s_def alt(1) by (simp add: Let_def sn alt(2) putch_times_emit)
    also have "\<dots> = Some (bind_res (emit putch ?gap s) (emit putch ?chars))"
    proof (cases "emit putch ?gap s")
      case (Inr t)
      have "I t \<and> (\<forall>a \<in> A. rd t a = rd s a)" by (rule emit_keeps [OF assms(3) I Inr])
      then have "map_option (\<lambda>r. bind_res r (\<lambda>(w, s). putch_times putch (nat (sint w)) 0x20 s))
           (put_string rd putch False p (precision ?fl) ?v t) = Some (emit putch ?chars t)"
        using v put [of t ?v] by (simp add: bind_res_assoc putch_times_emit)
      then show ?thesis using Inr by simp
    qed simp
    finally show ?thesis by (simp add: out emit_append)
  next
    case False
    have out: "string_out sp cs = ?chars @ replicate (nat (sint (width ?fl - of_nat ?n))) 0x20"
      using False w sd by (auto simp: string_out_def Let_def)
    have "convert_s rd lit putch ?fl p s =
       map_option (\<lambda>r. bind_res r (\<lambda>(w, s). putch_times putch (nat (sint w)) 0x20 s))
           (put_string rd putch False p (precision ?fl) (width ?fl) s)"
      using False p minus unfolding convert_s_def alt(1) by (auto simp: Let_def)
    then show ?thesis by (subst (asm) put) (simp_all add: I bind_res_assoc out emit_append putch_times_emit)
  qed
qed

subsection \<open>Conversions\<close>

lemma emit_Nil_fun [simp]: "emit putch [] = Inr"
  by (rule ext) simp

lemma emit_single_fun [simp]: "emit putch [c] = putch c"
  by (rule ext) simp

lemma join_halves:
  fixes v :: u64
  shows "push_bit 32 (ucast (ucast (drop_bit 32 v) :: u32)) OR ucast (ucast v :: u32) = v"
  by (rule bit_word_eqI) (auto simp: bit_simps)

lemma va_arg_simps [simp]: "va_arg (v # ap) = Inr (v, ap)"
  by (simp add: va_arg_def)

lemma va_arg64_halves: "va_arg64 (ucast v # ucast (drop_bit 32 v) # ap) = Inr (v, ap)"
  by (simp add: va_arg64_def join_halves)

lemma lflag_long: "spec_ok sp \<Longrightarrow> 2 \<le> sint (lflag (spec_flags sp)) \<longleftrightarrow> 2 \<le> sp_long sp"
  by (simp add: spec_flags_def spec_ok_def sint_of_nat)

lemma getint_slots:
  "spec_ok sp \<Longrightarrow> getint (slots_of (Number_arg k sp v) @ rest) (lflag (spec_flags sp)) =
    Inr (arg_value Signed sp v, rest)"
  by (simp add: getint_def lflag_long va_arg64_halves arg_value_def)

lemma getuint_slots:
  "spec_ok sp \<Longrightarrow> k \<noteq> Signed \<Longrightarrow>
   getuint (slots_of (Number_arg k sp v) @ rest) (lflag (spec_flags sp)) = Inr (arg_value k sp v, rest)"
  by (simp add: getuint_def lflag_long va_arg64_halves arg_value_def)

lemma with_arg_Some [simp]:
  "with_arg (Inr (v, ap)) f fmt = map_option (\<lambda>r. bind_res r (\<lambda>s. Inr (fmt, ap, s))) (f v)"
  by (simp add: with_arg_def)

lemma number_base:
  "number putch (spec_flags sp) 10 num (Inr s) = Some (emit putch (number_out sp 10 (unat num)) s)"
  "number putch (spec_flags sp) 8 num (Inr s) = Some (emit putch (number_out sp 8 (unat num)) s)"
  "number putch (spec_flags sp) 16 num (Inr s) = Some (emit putch (number_out sp 16 (unat num)) s)"
  using number_eq [of 10] number_eq [of 8] number_eq [of 16] by simp_all

lemma number_after:
  "number putch (spec_flags sp) 10 num (putch c s) = Some (emit putch (c # number_out sp 10 (unat num)) s)"
proof (cases "putch c s")
  case (Inl e)
  then show ?thesis by (simp add: number_def)
next
  case (Inr t)
  then show ?thesis using number_base(1) [of putch sp num t] by simp
qed

lemma convert_number:
  assumes "spec_ok sp"
  shows "convert rd lit putch (conv_char k) fmt (slots_of (Number_arg k sp v) @ rest) (spec_flags sp) s =
    Some (bind_res (emit putch (out_of (Number_arg k sp v)) s) (\<lambda>t. Inr (fmt, rest, t)))"
proof (cases k)
  case Signed
  let ?x = "arg_value Signed sp v"
  have "convert rd lit putch 0x64 fmt (slots_of (Number_arg k sp v) @ rest) (spec_flags sp) s =
    with_arg (getint (slots_of (Number_arg k sp v) @ rest) (lflag (spec_flags sp))) (\<lambda>num.
          if sint num < 0 then number putch (spec_flags sp) 10 (- num) (putch 0x2d s)
          else number putch (spec_flags sp) 10 num (Inr s)) fmt"
    by (simp add: convert_def del: slots_of.simps)
  then show ?thesis
    using Signed getint_slots [OF assms, of k v rest]
    by (simp add: conv_char_def conv_base_def number_after number_base Let_def del: slots_of.simps)
next
  case Unsigned
  then show ?thesis using getuint_slots [OF assms, of k v rest]
    by (simp add: conv_char_def conv_base_def convert_def number_base Let_def del: slots_of.simps)
next
  case Octal
  then show ?thesis using getuint_slots [OF assms, of k v rest]
    by (simp add: conv_char_def conv_base_def convert_def number_base Let_def del: slots_of.simps)
next
  case Hex
  then show ?thesis using getuint_slots [OF assms, of k v rest]
    by (simp add: conv_char_def conv_base_def convert_def number_base Let_def del: slots_of.simps)
qed

lemma convert_char:
  "convert rd lit putch 0x63 fmt (v # rest) fl s =
   Some (bind_res (emit putch [v] s) (\<lambda>t. Inr (fmt, rest, t)))"
  by (simp add: convert_def)

lemma convert_percent:
  "convert rd lit putch 0x25 fmt rest fl s = Some (bind_res (emit putch [0x25] s) (\<lambda>t. Inr (fmt, rest, t)))"
  by (simp add: convert_def)

lemma convert_pointer:
  "convert rd lit putch 0x70 fmt (v # rest) (spec_flags sp) s =
   Some (bind_res (emit putch (out_of (Pointer_arg sp v)) s) (\<lambda>t. Inr (fmt, rest, t)))"
proof (cases "bind_res (putch 0x30 s) (putch 0x78)")
  case (Inl e)
  then have "emit putch ([0x30, 0x78] @ number_out sp 16 (unat v)) s = Inl e"
    unfolding emit_append by simp
  then show ?thesis using Inl by (simp add: convert_def)
next
  case (Inr t)
  then have "emit putch ([0x30, 0x78] @ number_out sp 16 (unat v)) s =
      emit putch (number_out sp 16 (unat v)) t"
    unfolding emit_append by simp
  then show ?thesis using Inr by (simp add: convert_def number_base)
qed

lemma convert_string:
  assumes "directive_ok (rd s) A (String_arg sp p cs)" "keeps rd putch A I" "I s"
  shows "convert rd lit putch 0x73 fmt (p # rest) (spec_flags sp) s =
    Some (bind_res (emit putch (string_out sp cs) s) (\<lambda>t. Inr (fmt, rest, t)))"
proof -
  have "convert_s rd lit putch (spec_flags sp) p s = Some (emit putch (string_out sp cs) s)"
    by (rule convert_s_eq [OF _ _ assms(2,3)]) (use assms(1) in simp_all)
  then show ?thesis by (simp add: convert_def)
qed

text \<open>One directive, then the rest of the format.\<close>

lemma escape_step:
  assumes m: "bytes (rd s) fmt (length (0x25 # spec_text sp @ [ch])) = 0x25 # spec_text sp @ [ch]"
    and ok: "spec_ok sp" and ch: "ch \<in> set conv_chars" "ch \<noteq> 0x65"
    and conv: "\<And>fmt. convert rd lit putch ch fmt ap (spec_flags sp) s =
      Some (bind_res (emit putch out s) (\<lambda>t. Inr (fmt, rest, t)))"
  shows "vprintfmt rd lit putch fmt ap s =
    (case emit putch out s of Inl e \<Rightarrow> Some (Inl e)
     | Inr t \<Rightarrow> vprintfmt rd lit putch (fmt + of_nat (length (0x25 # spec_text sp @ [ch]))) rest t)"
proof -
  have c: "rd s fmt = 0x25" "bytes (rd s) (fmt + 1) (length (spec_text sp @ [ch])) = spec_text sp @ [ch]"
    using m by (simp_all add: bytes_Suc)
  have "vprintfmt rd lit putch fmt ap s =
    Option.bind (convert rd lit putch ch (fmt + 1 + of_nat (length (spec_text sp @ [ch]))) ap (spec_flags sp) s)
      (\<lambda>r. case r of Inl e \<Rightarrow> Some (Inl e) | Inr (fmt, ap, s) \<Rightarrow> vprintfmt rd lit putch fmt ap s)"
    by (subst vprintfmt.simps) (simp add: c(1) reswitch_spec [OF c(2) ok ch(1)] ch(2) Let_def del: length_append)
  then show ?thesis by (simp add: conv bind_res_def add.assoc split: sum.splits)
qed

lemma plain_step:
  assumes "rd s fmt = c" "c \<noteq> 0" "c \<noteq> 0x25"
  shows "vprintfmt rd lit putch fmt ap s =
    (case emit putch [ucast c] s of Inl e \<Rightarrow> Some (Inl e)
     | Inr t \<Rightarrow> vprintfmt rd lit putch (fmt + 1) ap t)"
  using assms by (subst vprintfmt.simps) (simp add: Let_def)

definition no_spec :: spec where
  "no_spec = \<lparr>sp_pad = Pad_space, sp_width = None, sp_prec = None, sp_long = 0\<rparr>"

lemma no_spec [simp]: "spec_text no_spec = []" "spec_ok no_spec"
  by (simp_all add: no_spec_def spec_text_def pad_text_def spec_ok_def)

lemma directive_step:
  assumes m: "bytes (rd s) fmt (length (text_of d)) = text_of d" and nz: "0 \<notin> set (text_of d)"
    and ok: "directive_ok (rd s) A d" and k: "keeps rd putch A I" "I s"
  shows "vprintfmt rd lit putch fmt (slots_of d @ rest) s =
    (case emit putch (out_of d) s of Inl e \<Rightarrow> Some (Inl e)
     | Inr t \<Rightarrow> vprintfmt rd lit putch (fmt + of_nat (length (text_of d))) rest t)"
proof (cases d)
  case (Plain c)
  show ?thesis
    using m nz ok plain_step [of rd s fmt c lit putch rest] unfolding Plain
    by (simp cong del: sum.case_cong_weak)
next
  case Percent
  have "bytes (rd s) fmt (length (0x25 # spec_text no_spec @ [0x25])) = 0x25 # spec_text no_spec @ [0x25]"
    using m Percent by simp
  moreover have "convert rd lit putch 0x25 f rest (spec_flags no_spec) s =
      Some (bind_res (emit putch [0x25] s) (\<lambda>t. Inr (f, rest, t)))" for f
    by (rule convert_percent)
  ultimately show ?thesis unfolding Percent
    using escape_step [of rd s fmt no_spec "0x25" lit putch rest "[0x25]" rest]
    by (simp add: conv_chars_def cong del: sum.case_cong_weak)
next
  case (Char_arg sp v)
  have "convert rd lit putch 0x63 f (v # rest) (spec_flags sp) s =
      Some (bind_res (emit putch [v] s) (\<lambda>t. Inr (f, rest, t)))" for f
    by (rule convert_char)
  then show ?thesis
    using escape_step [of rd s fmt sp "0x63" lit putch "v # rest" "[v]" rest] m ok unfolding Char_arg
    by (simp add: conv_chars_def cong del: sum.case_cong_weak)
next
  case (Number_arg k sp v)
  have "conv_char k \<in> set conv_chars" "conv_char k \<noteq> 0x65"
    by (cases k; simp add: conv_char_def conv_chars_def)+
  then show ?thesis
    using escape_step [of rd s fmt sp "conv_char k" lit putch "slots_of d @ rest" "out_of d" rest] m ok
      convert_number [of sp rd lit putch k _ v rest s] unfolding Number_arg
    by (simp del: slots_of.simps out_of.simps cong del: sum.case_cong_weak)
next
  case (Pointer_arg sp v)
  then show ?thesis
    using escape_step [of rd s fmt sp "0x70" lit putch "v # rest" "out_of d" rest] m ok
      convert_pointer [of rd lit putch _ v rest sp s]
    by (simp add: conv_chars_def del: out_of.simps cong del: sum.case_cong_weak)
next
  case (String_arg sp p cs)
  have "convert rd lit putch 0x73 f (p # rest) (spec_flags sp) s =
      Some (bind_res (emit putch (string_out sp cs) s) (\<lambda>t. Inr (f, rest, t)))" for f
    using ok k unfolding String_arg by (rule convert_string)
  then show ?thesis
    using escape_step [of rd s fmt sp "0x73" lit putch "p # rest" "string_out sp cs" rest] m ok
    unfolding String_arg by (simp add: conv_chars_def cong del: sum.case_cong_weak)
qed

lemma directive_ok_cong:
  assumes "\<And>a. a \<in> A \<Longrightarrow> m' a = m a" "directive_ok m A d"
  shows "directive_ok m' A d"
proof (cases d)
  case (String_arg sp p cs)
  then show ?thesis using assms by (auto simp: subset_iff intro: cstring_cong [THEN iffD2, where m1 = m])
qed (use assms in auto)

lemma cstring_append_right: "cstring m p (xs @ ys) \<Longrightarrow> cstring m (p + of_nat (length xs)) ys"
  by (simp add: cstring_append)

lemma vprintfmt_eq:
  assumes "cstring (rd s) fmt (concat (map text_of ds))"
    and "span fmt (Suc (length (concat (map text_of ds)))) \<subseteq> A"
    and "\<forall>d \<in> set ds. directive_ok (rd s) A d" and "keeps rd putch A I" and "I s"
  shows "vprintfmt rd lit putch fmt (concat (map slots_of ds) @ rest) s =
    Some (emit putch (concat (map out_of ds)) s)"
  using assms(1-3,5)
proof (induction ds arbitrary: fmt s)
  case Nil
  then show ?case by (subst vprintfmt.simps) (simp add: Let_def)
next
  case (Cons d ds)
  let ?fmt = "fmt + of_nat (length (text_of d))"
  have cs: "cstring (rd s) fmt (text_of d @ concat (map text_of ds))" using Cons.prems(1) by simp
  then have b: "bytes (rd s) fmt (length (text_of d)) = text_of d" "0 \<notin> set (text_of d)"
    and c': "cstring (rd s) ?fmt (concat (map text_of ds))"
    unfolding cstring_append by blast+
  have sp: "span ?fmt (Suc (length (concat (map text_of ds)))) \<subseteq> A"
    by (rule order_trans [OF span_shift Cons.prems(2)]) simp
  have ok: "directive_ok (rd s) A d" using Cons.prems(3) by simp
  note step = directive_step [OF b ok assms(4) Cons.prems(4), of lit "concat (map slots_of ds) @ rest"]
  show ?case
  proof (cases "emit putch (out_of d) s")
    case (Inl e)
    then show ?thesis using step by (simp add: emit_append del: slots_of.simps)
  next
    case (Inr t)
    have e: "I t" "\<And>a. a \<in> A \<Longrightarrow> rd t a = rd s a"
      using emit_keeps [OF assms(4) Cons.prems(4) Inr] by auto
    have "cstring (rd t) ?fmt (concat (map text_of ds))"
      using c' sp e(2) by (subst cstring_cong [where m = "rd s"]) auto
    moreover have "\<forall>d \<in> set ds. directive_ok (rd t) A d"
      using Cons.prems(3) directive_ok_cong [OF e(2)] by auto
    ultimately have "vprintfmt rd lit putch ?fmt (concat (map slots_of ds) @ rest) t =
        Some (emit putch (concat (map out_of ds)) t)"
      using sp e(1) by (intro Cons.IH)
    then show ?thesis using step Inr by (simp add: emit_append del: slots_of.simps)
  qed
qed

section \<open>Printing to a buffer\<close>

definition room :: "sprintbuf \<Rightarrow> nat" where
  "room b = unat (ebuf b) - unat (buf b)"

lemma emit_sprintputch:
  assumes "buf b \<le> ebuf b"
  shows "\<exists>b'. emit sprintputch cs b = Inr b' \<and>
    buf b' = buf b + of_nat (min (length cs) (room b)) \<and> ebuf b' = ebuf b \<and>
    cnt b' = cnt b + of_nat (length cs) \<and>
    bytes (smem b') (buf b) (min (length cs) (room b)) = map ucast (take (room b) cs) \<and>
    (\<forall>a. a \<notin> span (buf b) (min (length cs) (room b)) \<longrightarrow> smem b' a = smem b a)"
  using assms
proof (induction cs arbitrary: b)
  case Nil
  then show ?case by simp
next
  case (Cons c cs)
  show ?case
  proof (cases "buf b < ebuf b")
    case True
    let ?b = "b\<lparr>cnt := cnt b + 1, smem := (smem b)(buf b := ucast c), buf := buf b + 1\<rparr>"
    have S: "unat (buf b + 1) = Suc (unat (buf b))" using True by (rule unat_Suc_nowrap)
    then have le: "buf ?b \<le> ebuf ?b" using True by (simp add: word_le_nat_alt word_less_nat_alt)
    have room: "room b = Suc (room ?b)" using True S by (simp add: room_def word_less_nat_alt)
    have step: "emit sprintputch (c # cs) b = emit sprintputch cs ?b"
      using True by (simp add: sprintputch_def Let_def)
    let ?k = "min (length cs) (room ?b)"
    obtain b' where b': "emit sprintputch cs ?b = Inr b'"
      "buf b' = buf b + 1 + of_nat ?k" "ebuf b' = ebuf b" "cnt b' = cnt b + 1 + of_nat (length cs)"
      "bytes (smem b') (buf b + 1) ?k = map ucast (take (room ?b) cs)"
      "\<forall>a. a \<notin> span (buf b + 1) ?k \<longrightarrow> smem b' a = ((smem b)(buf b := ucast c)) a"
      using Cons.IH [OF le] by auto
    have "buf b \<notin> span (buf b + 1) ?k"
    proof -
      have "?k \<le> 2 ^ 32" using unat_u32_le [of "ebuf b"] unfolding room_def by simp
      moreover have "\<not> unat (buf b - (buf b + 1)) < ?k"
      proof -
        have "?k < 2 ^ 32 - 1 \<or> ?k = 0"
          using unat_u32_less [of "ebuf b"] S unfolding room_def by auto
        then show ?thesis by (auto simp only: unat_m1)
      qed
      ultimately show ?thesis by (simp only: in_span_iff) simp
    qed
    then have "smem b' (buf b) = ucast c" using b'(6) by simp
    then show ?thesis
      unfolding step using b' by (intro exI [of _ b']) (auto simp: room bytes_Suc span_Suc algebra_simps)
  next
    case False
    then have r: "room b = 0" "room (b\<lparr>cnt := cnt b + 1\<rparr>) = 0" using Cons.prems by (simp_all add: room_def)
    have step: "emit sprintputch (c # cs) b = emit sprintputch cs (b\<lparr>cnt := cnt b + 1\<rparr>)"
      using False by (simp add: sprintputch_def Let_def)
    show ?thesis using Cons.IH [of "b\<lparr>cnt := cnt b + 1\<rparr>"] Cons.prems unfolding step by (auto simp: r)
  qed
qed

text \<open>The callback writes the buffer only.\<close>

definition in_buffer :: "u32 \<Rightarrow> u32 \<Rightarrow> sprintbuf \<Rightarrow> bool" where
  "in_buffer str e b \<longleftrightarrow> str \<le> buf b \<and> buf b \<le> ebuf b \<and> ebuf b = e"

lemma sprintputch_keeps:
  assumes "A \<inter> {str..<e} = {}"
  shows "keeps smem sprintputch A (in_buffer str e)"
  unfolding keeps_def
proof (intro allI impI)
  fix c and b b' :: sprintbuf
  assume I: "in_buffer str e b" and p: "sprintputch c b = Inr b'"
  show "in_buffer str e b' \<and> (\<forall>a \<in> A. smem b' a = smem b a)"
  proof (cases "buf b < ebuf b")
    case True
    then have "unat (buf b + 1) = Suc (unat (buf b))" by (rule unat_Suc_nowrap)
    moreover have "buf b \<notin> A" using assms I True by (auto simp: in_buffer_def)
    ultimately show ?thesis using p I True
      by (auto simp: sprintputch_def Let_def in_buffer_def word_le_nat_alt word_less_nat_alt)
  qed (use p I in \<open>auto simp: sprintputch_def Let_def in_buffer_def\<close>)
qed

lemma vsnprintf_eq:
  assumes fmt: "cstring m fmt (concat (map text_of ds))"
      "span fmt (Suc (length (concat (map text_of ds)))) \<inter> {str..<str + sz - 1} = {}"
    and ds: "\<forall>d \<in> set ds. directive_ok m (- {str..<str + sz - 1}) d"
    and str: "str \<noteq> NULL" "0 < sz" "unat str + unat sz \<le> 2 ^ 32"
  defines "out \<equiv> concat (map out_of ds)"
  shows "\<exists>m'. vsnprintf lit str sz fmt (concat (map slots_of ds) @ rest) m =
      Some (Inr (of_nat (length out), m')) \<and>
    bytes m' str (min (length out) (unat sz - 1)) = map ucast (take (unat sz - 1) out) \<and>
    m' (str + of_nat (min (length out) (unat sz - 1))) = 0 \<and>
    (\<forall>a. a \<notin> span str (unat sz) \<longrightarrow> m' a = m a)"
proof -
  let ?b = "\<lparr>buf = str, ebuf = str + sz - 1, cnt = 0, smem = m\<rparr>"
  have sz: "unat (sz - 1) = unat sz - 1" using str(2) by (simp add: unat_minus_one word_neq_0_conv)
  have szpos: "0 < unat sz" using str(2) by (simp add: unat_gt_0 word_neq_0_conv)
  have ue: "unat (str + sz - 1) = unat str + (unat sz - 1)"
  proof -
    have "unat (str + (sz - 1)) = unat str + unat (sz - 1)"
      by (rule unat_add_nowrap) (use str(3) szpos in \<open>simp only: sz, simp\<close>)
    then show ?thesis by (simp only: sz add_diff_eq)
  qed
  have le: "str \<le> str + sz - 1" by (simp only: word_le_nat_alt ue)
  then have leb: "buf ?b \<le> ebuf ?b" by simp
  have room: "room ?b = unat sz - 1" by (simp add: room_def ue)
  let ?A = "- {str..<str + sz - 1}"
  have I: "in_buffer str (str + sz - 1) ?b" using le by (simp add: in_buffer_def)
  have kp: "keeps smem sprintputch ?A (in_buffer str (str + sz - 1))" by (rule sprintputch_keeps) auto
  have v: "vprintfmt smem lit sprintputch fmt (concat (map slots_of ds) @ rest) ?b =
      Some (emit sprintputch out ?b)"
    unfolding out_def by (rule vprintfmt_eq [OF _ _ _ kp I]) (use fmt ds in auto)
  let ?k = "min (length out) (unat sz - 1)"
  obtain b' where b': "emit sprintputch out ?b = Inr b'" "buf b' = str + of_nat ?k"
    "cnt b' = of_nat (length out)" "bytes (smem b') str ?k = map ucast (take (unat sz - 1) out)"
    "\<forall>a. a \<notin> span str ?k \<longrightarrow> smem b' a = m a"
    using emit_sprintputch [OF leb, of out] unfolding room by auto
  let ?m = "(smem b')(buf b' := 0)"
  have k: "?k < unat sz" using szpos by simp
  have "vsnprintf lit str sz fmt (concat (map slots_of ds) @ rest) m =
      Some (Inr (of_nat (length out), ?m))"
    using str(1) le by (simp add: vsnprintf_def Let_def v b'(1,3) not_less [symmetric])
  moreover have "bytes ?m str ?k = bytes (smem b') str ?k"
  proof (rule bytes_cong)
    fix a assume "a \<in> span str ?k"
    then obtain i where i: "i < ?k" "a = str + of_nat i" by (auto simp: span_def)
    have "a \<noteq> str + of_nat ?k"
    proof
      assume "a = str + of_nat ?k"
      then have e: "str + of_nat i = str + of_nat ?k" using i(2) by simp
      have "?k < 2 ^ 32" "i < 2 ^ 32" using i(1) k unat_u32_less [of sz] by linarith+
      then have "i = ?k" using add_of_nat_inj [OF e] by simp
      then show False using i(1) by simp
    qed
    then show "?m a = smem b' a" using b'(2) by simp
  qed
  moreover have "?m a = m a" if "a \<notin> span str (unat sz)" for a
  proof -
    have "a \<notin> span str ?k" using that span_mono [of ?k "unat sz" str] k by auto
    moreover have "a \<noteq> str + of_nat ?k" using that in_spanI [OF k] by auto
    ultimately show ?thesis using b'(2,5) by simp
  qed
  ultimately show ?thesis using b'(2,4) by (intro exI [of _ ?m]) simp
qed

section \<open>Reading a printed number back\<close>

lemma digit_of_code:
  "d < 16 \<Longrightarrow> digit_of (ucast (hex_digits ! d)) = Some (of_nat d) \<and> ucast (hex_digits ! d) \<noteq> (0 :: u8)"
proof -
  assume "d < 16"
  then have "d \<in> set [0..<16]" by simp
  then show ?thesis by (auto simp: upt_rec hex_digits_def digit_of_def)
qed

lemma base_digit_code:
  "d < b \<Longrightarrow> b \<le> 16 \<Longrightarrow> base_digit (of_nat b) (ucast (hex_digits ! d)) = Some (of_nat d)"
  by (simp add: base_digit_def digit_of_code sint_of_nat)

lemma digits_value_codes:
  assumes "\<forall>d \<in> set ds. d < b" "b \<le> 16"
  shows "digits_value (of_nat b) (map ucast (digit_codes ds)) = of_nat (foldl (\<lambda>v d. v * b + d) 0 ds)"
proof -
  have "foldl (\<lambda>v c. v * of_nat b + the (base_digit (of_nat b) c)) (of_nat v) (map ucast (digit_codes ds)) =
      (of_nat (foldl (\<lambda>v d. v * b + d) v ds) :: u32)" for v
    using assms(1)
  proof (induction ds arbitrary: v)
    case (Cons d ds)
    have "of_nat v * of_nat b + of_nat d = (of_nat (v * b + d) :: u32)" by simp
    then show ?case using Cons.IH [of "v * b + d"] Cons.prems
      by (simp add: digit_codes_def base_digit_code assms(2))
  qed (simp add: digit_codes_def)
  from this [of 0] show ?thesis by (simp add: digits_value_def)
qed

lemma length_digits: "2 \<le> b \<Longrightarrow> n < b ^ Suc k \<Longrightarrow> length (digits b n) \<le> Suc k"
proof (induction k arbitrary: n)
  case 0
  then show ?case by (simp add: digits_small)
next
  case (Suc k)
  show ?case
  proof (cases "n < b")
    case False
    have "n div b < b ^ Suc k" using Suc.prems by (simp add: less_mult_imp_div_less mult.commute)
    then have "length (digits b (n div b)) \<le> Suc k" using Suc.prems(1) by (rule Suc.IH [rotated])
    then show ?thesis using False Suc.prems(1) by (subst digits.simps) simp
  qed (simp add: digits_small)
qed

lemma number_out_plain:
  assumes "length (digits b n) < 2 ^ 30"
  shows "number_out no_spec b n = digit_codes (digits b n)"
proof -
  have "sint (- 1 - of_nat (length (digits b n)) :: u32) = - 1 - int (length (digits b n))"
    using assms by (subst sint_diff_u32) (simp_all add: sint_of_nat)
  then show ?thesis by (simp add: number_out_def pad_count_def spec_flags_def no_spec_def)
qed

lemma sint_scast_u64: "sint (scast (v :: u32) :: u64) = sint v"
proof -
  have "signed_take_bit 63 (sint v) = sint v"
    using sint_u32_range [of v] by (intro signed_take_bit_int_eq_self) simp_all
  then show ?thesis by (simp add: signed_scast_eq)
qed

lemma scast_nonneg_u64: "0 \<le> sint (v :: u32) \<Longrightarrow> (scast v :: u64) = ucast v"
proof -
  assume "0 \<le> sint v"
  then have "\<not> bit v 31" using bit_last_iff [of v] by simp
  then have lt: "n < 31" if "bit v n" for n
    using that bit_imp_le_length [OF that] by (cases "n = 31") auto
  then show ?thesis using \<open>\<not> bit v 31\<close>
    by (intro bit_word_eqI) (auto simp: bit_simps min_def dest: lt)
qed

definition short_text :: "conv \<Rightarrow> u32 \<Rightarrow> u8 list" where
  "short_text k v = map ucast (out_of (Number_arg k no_spec (ucast v)))"

text \<open>What is printed: a minus for a negative \<^verbatim>\<open>%d\<close>, then the digits.\<close>

lemma short_text_eq:
  obtains sg n where "short_text k v = sg @ map ucast (digit_codes (digits (conv_base k) n))"
    "is_sign sg" "n < 2 ^ 32" "(if sg = [0x2d] then - of_nat n else of_nat n) = v" "length sg \<le> 1"
    "sg = [] \<or> k = Signed"
proof -
  have len: "length (digits b n) < 2 ^ 30" if "n < 2 ^ 32" "8 \<le> b" for b n
  proof -
    have "(2 :: nat) ^ 32 \<le> 8 ^ Suc 10" by simp
    also have "\<dots> \<le> b ^ Suc 10" by (rule power_mono) (use that in auto)
    finally have "length (digits b n) \<le> Suc 10" by (intro length_digits) (use that in auto)
    then show ?thesis by simp
  qed
  have b: "8 \<le> conv_base k" by (cases k) (auto simp: conv_base_def)
  have low: "(ucast (ucast v :: u64) :: u32) = v" by (rule bit_word_eqI) (auto simp: bit_simps)
  show thesis
  proof (cases "k = Signed \<and> sint v < 0")
    case True
    let ?x = "scast v :: u64"
    have sx: "sint ?x = sint v" by (rule sint_scast_u64)
    define n where "n = nat (- sint v)"
    have n: "n \<le> 2 ^ 31" using sint_u32_range(1) [of v] by (simp add: n_def)
    have "- ?x = word_of_int (- sint v)"
      by (simp flip: sx)
    also have "\<dots> = of_nat n" using True by (simp add: n_def)
    finally have "unat (- ?x) = n" using n by (simp add: unat_of_nat)
    then have "out_of (Number_arg k no_spec (ucast v)) = 0x2d # digit_codes (digits 10 n)"
      using True sx number_out_plain [OF len, of n 10] n
      by (simp add: arg_value_def no_spec_def low Let_def)
    moreover have "- of_nat n = v"
    proof -
      have "(of_nat n :: u32) = word_of_int (- sint v)" using True by (simp add: n_def)
      also have "\<dots> = - v" by simp
      finally show ?thesis by simp
    qed
    ultimately show thesis
      using True n by (intro that [of "[0x2d]" n]) (simp_all add: short_text_def conv_base_def is_sign_def)
  next
    case False
    have "unat (arg_value k no_spec (ucast v)) = unat v"
    proof (cases "k = Signed")
      case True
      then have "0 \<le> sint v" using False by simp
      then have "scast v = (ucast v :: u64)" by (rule scast_nonneg_u64)
      then show ?thesis using True by (simp add: arg_value_def no_spec_def low)
    qed (simp add: arg_value_def no_spec_def low)
    moreover have "\<not> (k = Signed \<and> sint (arg_value k no_spec (ucast v)) < 0)"
      using False by (auto simp: arg_value_def no_spec_def low sint_scast_u64)
    ultimately have "out_of (Number_arg k no_spec (ucast v)) = digit_codes (digits (conv_base k) (unat v))"
      using number_out_plain [OF len [OF unat_u32_less b], of v] by (auto simp: Let_def)
    then show thesis
      using unat_u32_less [of v] by (intro that [of "[]" "unat v"]) (simp_all add: short_text_def is_sign_def)
  qed
qed

lemma short_text_codes:
  assumes "is_sign sg" "\<forall>d \<in> set ds. d < 16"
  shows "0 \<notin> set (sg @ map ucast (digit_codes ds))"
  using assms digit_of_code by (auto simp: is_sign_def digit_codes_def)

lemma conv_base_range: "8 \<le> conv_base k" "conv_base k \<le> 16"
  by (cases k; simp add: conv_base_def)+

text \<open>The text of a 32-bit number is at most eleven characters, and \<^verbatim>\<open>strtol\<close> in
  the same base gives the number back.\<close>

lemma short_text_length: "length (short_text k v) \<le> 11"
proof -
  obtain sg n where t: "short_text k v = sg @ map ucast (digit_codes (digits (conv_base k) n))"
    "n < 2 ^ 32" "length sg \<le> 1" "sg = [] \<or> k = Signed" "is_sign sg"
    by (rule short_text_eq)
  show ?thesis
  proof (cases "k = Octal \<or> k = Hex")
    case True
    have "(2 :: nat) ^ 32 \<le> 8 ^ Suc 10" by simp
    also have "\<dots> \<le> conv_base k ^ Suc 10" by (rule power_mono) (use conv_base_range in auto)
    finally have "length (digits (conv_base k) n) \<le> Suc 10"
      using t(2) conv_base_range(1) [of k] by (intro length_digits) auto
    moreover have "sg = []" using True t(4) by auto
    ultimately show ?thesis using t(1) by (simp add: digit_codes_def)
  next
    case False
    then have "conv_base k = 10" by (cases k) (simp_all add: conv_base_def)
    moreover have "n < 10 ^ Suc 9" using t(2) by simp
    ultimately have "length (digits (conv_base k) n) \<le> Suc 9" using length_digits [of 10 n 9] by simp
    then show ?thesis using t(1,3) by (simp add: digit_codes_def)
  qed
qed

section \<open>Properties\<close>

text \<open>\<^verbatim>\<open>do_div\<close>, which splits a 64-bit division into two steps of 32-bit
  hardware division, computes quotient and remainder for every dividend and every non-zero divisor;
  the second \<^verbatim>\<open>divl\<close> never overflows.\<close>

theorem do_div_exact:
  assumes "base \<noteq> 0"
  shows "do_div n base = Inr (n div ucast base, ucast (n mod ucast base))"
  using assms by (rule do_div_eq)

theorem do_div_exact_witness: "do_div 0x123456789a 10 = Inr (0x123456789a div 10, ucast (0x123456789a mod 10 :: u64))"
  using do_div_exact [of 10 "0x123456789a"] by simp



definition sample_fmt :: bmem where
  "sample_fmt = placed 0x100 [0x25, 0x34, 0x64, 0x3a, 0x25, 0x73, 0, 0x6f, 0x6b, 0]"

definition sample_directives :: "directive list" where
  "sample_directives =
     [Number_arg Signed (no_spec\<lparr>sp_width := Some 4\<rparr>) (- 42), Plain 0x3a,
      String_arg no_spec 0x107 [0x6f, 0x6b]]"

lemma sample_dec_text: "dec_text 4 = [0x34]"
  by (simp add: dec_text_def digits_small)

lemma digits_42: "digits 10 42 = [4, 2]"
  by (simp add: digits.simps [of 10 42] digits_small)

lemma sample_text: "concat (map text_of sample_directives) = [0x25, 0x34, 0x64, 0x3a, 0x25, 0x73]"
  by (simp add: sample_directives_def no_spec_def spec_text_def pad_text_def sample_dec_text conv_char_def)

lemma sample_number: "number_out (no_spec\<lparr>sp_width := Some 4\<rparr>) 10 42 = [0x20, 0x20, 0x34, 0x32]"
  by (simp add: number_out_def pad_count_def spec_flags_def no_spec_def pad_char_def digits_42 digit_codes_def
      hex_digits_def replicate_num)

lemma sample_string: "string_out no_spec [0x6f, 0x6b] = [0x6f, 0x6b]"
  by (simp add: string_out_def shown_def spec_flags_def no_spec_def Let_def)

lemma sample_value: "arg_value Signed (no_spec\<lparr>sp_width := Some 4\<rparr>) (- 42) = - 42"
  by (simp add: arg_value_def no_spec_def)

lemma sample_out:
  "concat (map out_of sample_directives) = [0x2d, 0x20, 0x20, 0x34, 0x32, 0x3a, 0x6f, 0x6b]"
  by (simp add: sample_directives_def sample_value sample_number sample_string)





text \<open>C26. \<^verbatim>\<open>vsnprintf\<close> never leaves its buffer: it stores the output cut to
  \<open>sz - 1\<close> characters and a null byte, changes no byte outside the \<open>sz\<close> bytes of the buffer, and
  returns the number of characters of the whole output.\<close>

theorem vsnprintf_truncates:
  assumes "cstring m fmt (concat (map text_of ds))"
      "span fmt (Suc (length (concat (map text_of ds)))) \<inter> {str..<str + sz - 1} = {}"
    and "\<forall>d \<in> set ds. directive_ok m (- {str..<str + sz - 1}) d"
    and "str \<noteq> NULL" "0 < sz" "unat str + unat sz \<le> 2 ^ 32"
  shows "\<exists>m'. vsnprintf lit str sz fmt (concat (map slots_of ds) @ rest) m =
      Some (Inr (of_nat (length (concat (map out_of ds))), m')) \<and>
    bytes m' str (min (length (concat (map out_of ds))) (unat sz - 1)) =
      map ucast (take (unat sz - 1) (concat (map out_of ds))) \<and>
    m' (str + of_nat (min (length (concat (map out_of ds))) (unat sz - 1))) = 0 \<and>
    (\<forall>a. a \<notin> span str (unat sz) \<longrightarrow> m' a = m a)"
  using assms by (rule vsnprintf_eq)

theorem vsnprintf_truncates_witness:
  "\<exists>m'. vsnprintf (\<lambda>_. 0) 0x200 4 0x100 [- 42, 0x107] sample_fmt = Some (Inr (8, m')) \<and>
     bytes m' 0x200 4 = [0x2d, 0x20, 0x20, 0]"
proof -
  have dj: "a \<notin> {0x200..<0x200 + 4 - 1}" if "a \<in> {0x100..0x109}" for a :: u32
    using that by (auto simp: word_le_nat_alt word_less_nat_alt)
  have "span 0x100 7 \<subseteq> {0x100..0x109}" "span 0x107 3 \<subseteq> {0x100..0x109}" by simp_all
  then have sp: "span 0x100 7 \<inter> {0x200..<0x200 + 4 - 1} = {}"
    "span 0x107 3 \<subseteq> - {0x200..<0x200 + 4 - 1}"
    using dj by blast+
  have "\<forall>d \<in> set sample_directives. directive_ok sample_fmt (- {0x200..<0x200 + 4 - 1}) d"
    using sp(2) by (simp add: sample_directives_def spec_ok_def no_spec_def sample_fmt_def placed_def span_Suc)
  moreover have "cstring sample_fmt 0x100 (concat (map text_of sample_directives))"
    unfolding sample_text by (simp add: sample_fmt_def placed_def)
  moreover have "concat (map slots_of sample_directives) = [- 42, 0x107]"
    by (simp add: sample_directives_def no_spec_def)
  ultimately obtain m' where m': "vsnprintf (\<lambda>_. 0) 0x200 4 0x100 [- 42, 0x107] sample_fmt =
      Some (Inr (of_nat 8, m'))" "bytes m' 0x200 3 = [0x2d, 0x20, 0x20]" "m' 0x203 = 0"
    using vsnprintf_truncates [of sample_fmt "0x100" sample_directives "0x200" 4 "\<lambda>_. 0" "[]"] sp(1)
    by (auto simp: sample_text sample_out bytes_Suc span_Suc)
  then show ?thesis by (intro exI [of _ m']) simp
qed

lemma short_text_strtol:
  assumes "bytes m str (length (short_text k v)) = short_text k v" "m (str + of_nat (length (short_text k v))) = 0"
  shows "strtol m str (of_nat (conv_base k)) = Some (v, str + of_nat (length (short_text k v)))"
proof -
  obtain sg n where t: "short_text k v = sg @ map ucast (digit_codes (digits (conv_base k) n))"
    and sg: "is_sign sg" and v: "(if sg = [0x2d] then - of_nat n else of_nat n) = v"
    by (rule short_text_eq)
  let ?ds = "digits (conv_base k) n"
  let ?cs = "map ucast (digit_codes ?ds) :: u8 list"
  have d: "\<forall>d \<in> set ?ds. d < conv_base k" using digits_bound [of "conv_base k"] conv_base_range(1) [of k] by auto
  have dv: "digits_value (of_nat (conv_base k)) ?cs = of_nat n"
    using digits_value_codes [OF d conv_base_range(2)] digits_value_nat [of "conv_base k" n] conv_base_range(1) [of k]
    by simp
  have t': "short_text k v = [] @ sg @ ?cs" using t by simp
  have "\<forall>c \<in> set ?cs. base_digit (of_nat (conv_base k)) c \<noteq> None"
    using d base_digit_code [OF _ conv_base_range(2)] by (auto simp: digit_codes_def)
  moreover have "base_digit (of_nat (conv_base k)) 0 = None" by (simp add: base_digit_def digit_of_def)
  moreover have "2 \<le> sint (of_nat (conv_base k) :: u32)" using conv_base_range [of k] by (subst sint_of_nat) auto
  ultimately show ?thesis
    using strtol_eq [of m str "[]" sg ?cs "of_nat (conv_base k)"] assms sg v dv unfolding t'
    by (auto simp: digit_codes_def split: if_splits)
qed

text \<open>C27. Printing and reading back: for every 32-bit number and each of
  \<^verbatim>\<open>%d %u %o %x\<close>, \<^verbatim>\<open>snprintf\<close> into a buffer of at least
  twelve bytes followed by \<^verbatim>\<open>strtol\<close> in the matching base returns the number,
  and \<^verbatim>\<open>strtol\<close> stops exactly at the end of what was printed.\<close>

theorem snprintf_strtol:
  assumes "cstring m fmt [0x25, conv_char k]" "span fmt 3 \<inter> {str..<str + sz - 1} = {}"
    and "str \<noteq> NULL" "12 \<le> unat sz" "unat str + unat sz \<le> 2 ^ 32"
  shows "\<exists>n m'. snprintf lit str sz fmt [v] m = Some (Inr (n, m')) \<and>
    strtol m' str (of_nat (conv_base k)) = Some (v, str + n)"
proof -
  let ?d = "Number_arg k no_spec (ucast v)"
  let ?len = "length (short_text k v)"
  have ft: "concat (map text_of [?d]) = [0x25, conv_char k]" by simp
  have "(ucast (ucast v :: u64) :: u32) = v" by (rule bit_word_eqI) (auto simp: bit_simps)
  then have slots: "concat (map slots_of [?d]) @ [] = [v]" by (simp add: no_spec_def)
  have out: "map ucast (concat (map out_of [?d])) = short_text k v" by (simp add: short_text_def)
  have l: "length (concat (map out_of [?d])) = ?len" by (metis length_map out)
  have k: "min ?len (unat sz - 1) = ?len" using short_text_length [of k v] assms(4) by simp
  have sz: "0 < sz" using assms(4) by (auto simp: word_less_nat_alt)
  have fmt: "cstring m fmt (concat (map text_of [?d]))"
    "span fmt (Suc (length (concat (map text_of [?d])))) \<inter> {str..<str + sz - 1} = {}"
    unfolding ft using assms(1,2) by (simp_all add: span_Suc)
  obtain m' where m': "vsnprintf lit str sz fmt [v] m = Some (Inr (of_nat ?len, m'))"
    "bytes m' str ?len = map ucast (take (unat sz - 1) (concat (map out_of [?d])))"
    "m' (str + of_nat ?len) = 0"
    using vsnprintf_eq [OF fmt _ assms(3) sz assms(5), of lit "[]"] unfolding slots l k
    by (auto simp del: out_of.simps)
  have "take (unat sz - 1) (concat (map out_of [?d])) = concat (map out_of [?d])"
    using k l by (intro take_all) linarith
  then have "bytes m' str ?len = short_text k v" using m'(2) out by simp
  then show ?thesis
    using m'(1) short_text_strtol [of m' str k v] m'(3) by (intro exI [of _ "of_nat ?len"] exI [of _ m']) (simp add: snprintf_def)
qed

theorem snprintf_strtol_witness:
  "\<exists>n m'. snprintf (\<lambda>_. 0) 0x200 16 0x100 [- 42] (placed 0x100 [0x25, 0x64, 0]) = Some (Inr (n, m')) \<and>
     strtol m' 0x200 10 = Some (- 42, 0x200 + n)"
proof -
  have "span 0x100 3 \<inter> {0x200..<0x200 + 16 - 1} = {}"
    by (auto simp: span_Suc word_le_nat_alt word_less_nat_alt)
  moreover have "cstring (placed 0x100 [0x25, 0x64, 0]) 0x100 [0x25, conv_char Signed]"
    by (simp add: conv_char_def placed_def)
  moreover have "of_nat (conv_base Signed) = (10 :: u32)" by (simp add: conv_base_def)
  ultimately show ?thesis
    using snprintf_strtol [of "placed 0x100 [0x25, 0x64, 0]" "0x100" Signed "0x200" 16 "\<lambda>_. 0" "- 42"] by simp
qed

end
