(* ===== verification/Paging.thy ===== *)
theory Paging
  imports Lists Strings
begin

text \<open>
  The memory the kernel code sees: the bytes of the address space, and the words of the page
  directory and page tables that the directory maps into its own last four megabytes (the
  recursive mapping of \<^verbatim>\<open>kernel/mem.c\<close>). The page table words are a component
  of their own, keyed by the virtual address of the word. Both describe the active address space;
  what a newly mapped page holds is left as it was, its users clear it.
\<close>

section \<open>State\<close>

record vstate = lstate +
  mem :: bmem
  pt :: "u32 \<Rightarrow> u32"

text \<open>A 32-bit store and load of the byte memory, least significant byte first.\<close>

definition write32 :: "u32 \<Rightarrow> u32 \<Rightarrow> bmem \<Rightarrow> bmem" where
  "write32 a v m =
     m(a := ucast v, a + 1 := ucast (drop_bit 8 v), a + 2 := ucast (drop_bit 16 v),
       a + 3 := ucast (drop_bit 24 v))"

definition read32 :: "bmem \<Rightarrow> u32 \<Rightarrow> u32" where
  "read32 m a =
     ucast (m a) OR push_bit 8 (ucast (m (a + 1))) OR push_bit 16 (ucast (m (a + 2))) OR
     push_bit 24 (ucast (m (a + 3)))"

section \<open>Page table addresses (kernel/mem.c, include/mem.h)\<close>

definition PDE_IDX :: "u32 \<Rightarrow> u32" where
  "PDE_IDX addr = drop_bit 22 (addr AND 0xffc00000)"

definition PTE_IDX :: "u32 \<Rightarrow> u32" where
  "PTE_IDX addr = drop_bit 12 (addr AND 0x003ff000)"

definition pte_addr :: "u32 \<Rightarrow> u32" where
  "pte_addr vaddr = 0xffc00000 + drop_bit 10 (vaddr AND 0xffc00000) + PTE_IDX vaddr * 4"

definition pde_addr :: "u32 \<Rightarrow> u32" where
  "pde_addr vaddr = 0xfffff000 + PDE_IDX vaddr * 4"

definition addr_v2p :: "u32 \<Rightarrow> 'a vstate_scheme \<Rightarrow> u32" where
  "addr_v2p vaddr s = (pt s (pte_addr vaddr) AND 0xfffff000) + (vaddr AND 0x00000fff)"

definition remove_page_table :: "u32 \<Rightarrow> 'a vstate_scheme \<Rightarrow> 'a vstate_scheme" where
  "remove_page_table vaddr s =
     s\<lparr>pt := (pt s)(pte_addr vaddr := pt s (pte_addr vaddr) AND NOT 1)\<rparr>"

section \<open>Facts\<close>

text \<open>The page number of an address: the page table word depends on nothing else, and different
  pages have different words.\<close>

definition page_of :: "u32 \<Rightarrow> u32" where
  "page_of a = drop_bit 12 a"

lemma bit_u32_mask_eq: "(\<And>n. n < 32 \<Longrightarrow> bit (a :: u32) n = bit b n) \<Longrightarrow> a = b"
  by (rule bit_word_eqI) simp

lemma page_mask_bit: "bit (0xfffff000 :: u32) n \<longleftrightarrow> 12 \<le> n \<and> n < 32"
proof -
  have e: "(0xfffff000 :: u32) = NOT (mask 12)" by (simp add: mask_eq_exp_minus_1)
  show ?thesis unfolding e by (auto simp: bit_simps)
qed

lemma pt_index: "pte_addr a = 0xffc00000 + push_bit 2 (page_of a)"
proof -
  have m1: "(0xffc00000 :: u32) = NOT (mask 22)" "(0x003ff000 :: u32) = push_bit 12 (mask 10)"
    by (simp_all add: mask_eq_exp_minus_1)
  have "drop_bit 10 (a AND 0xffc00000) + PTE_IDX a * 4 = drop_bit 10 (a AND 0xffc00000) OR push_bit 2 (PTE_IDX a)"
  proof -
    have "PTE_IDX a * 4 = push_bit 2 (PTE_IDX a)" by (simp add: push_bit_eq_mult)
    moreover have "drop_bit 10 (a AND 0xffc00000) + push_bit 2 (PTE_IDX a) =
        drop_bit 10 (a AND 0xffc00000) OR push_bit 2 (PTE_IDX a)"
      unfolding PTE_IDX_def m1
      by (rule disjunctive_add) (auto simp: bit_simps)
    ultimately show ?thesis by simp
  qed
  also have "\<dots> = push_bit 2 (page_of a)"
    unfolding PTE_IDX_def page_of_def m1
    by (rule bit_word_eqI) (auto simp: bit_simps dest: bit_imp_le_length)
  finally show ?thesis by (simp add: pte_addr_def add.assoc)
qed


lemma unat_page_of: "unat (page_of a) = unat a div 4096"
  by (simp add: page_of_def unat_drop_bit_eq drop_bit_eq_div unat_div)

lemma page_of_le: "unat (page_of a) < 2 ^ 20"
proof -
  have "unat a < 2 ^ 32" by (rule unat_u32_less)
  then show ?thesis by (simp add: page_of_def unat_drop_bit_eq drop_bit_eq_div unat_div less_mult_imp_div_less)
qed

lemma unat_page_word: "unat (push_bit 2 (page_of a)) = 4 * unat (page_of a)"
  using page_of_le [of a] by (simp add: push_bit_eq_mult unat_word_ariths)

lemma pte_addr_inj: "pte_addr a = pte_addr b \<longleftrightarrow> page_of a = page_of b"
proof
  assume "pte_addr a = pte_addr b"
  then have "push_bit 2 (page_of a) = push_bit 2 (page_of b)" by (simp add: pt_index)
  then have "4 * unat (page_of a) = 4 * unat (page_of b)" by (metis unat_page_word)
  then have "unat (page_of a) = unat (page_of b)" by simp
  then show "page_of a = page_of b" by (metis of_nat_unat_id)
qed (simp add: pt_index)

lemma pde_addr_pte: "pde_addr a = pte_addr (pte_addr a)"
proof -
  have "page_of (pte_addr a) = 0xffc00 + PDE_IDX a"
  proof -
    have n: "unat (0xffc00000 + push_bit 2 (page_of a)) = 0xffc00000 + 4 * unat (page_of a)"
      using page_of_le [of a] by (subst unat_add_nowrap) (simp_all add: unat_page_word)
    have p: "unat (PDE_IDX a) = unat (page_of a) div 1024"
    proof -
      have "PDE_IDX a = drop_bit 10 (page_of a)"
      proof -
        have m: "(0xffc00000 :: u32) = NOT (mask 22)" by (simp add: mask_eq_exp_minus_1)
        show ?thesis unfolding PDE_IDX_def page_of_def m
          by (rule bit_word_eqI) (auto simp: bit_simps dest: bit_imp_le_length)
      qed
      then show ?thesis by (simp add: unat_drop_bit_eq drop_bit_eq_div unat_div)
    qed
    have "unat (page_of (pte_addr a)) = (0xffc00000 + 4 * unat (page_of a)) div 4096"
      unfolding pt_index by (simp only: unat_page_of n)
    also have "\<dots> = 0xffc00 + unat (PDE_IDX a)" using page_of_le [of a] p by simp
    finally have e: "unat (page_of (pte_addr a)) = 0xffc00 + unat (PDE_IDX a)" .
    have "unat (0xffc00 + PDE_IDX a) = 0xffc00 + unat (PDE_IDX a)"
      using page_of_le [of a] p by (subst unat_add_nowrap) simp_all
    then show ?thesis using e by (metis of_nat_unat_id)
  qed
  then have "pte_addr (pte_addr a) = 0xffc00000 + push_bit 2 (0xffc00 + PDE_IDX a)"
    by (simp add: pt_index)
  then show ?thesis by (simp add: pde_addr_def push_bit_eq_mult algebra_simps)
qed


lemma read_write32 [mem_simps]: "read32 (write32 a v m) a = v"
proof -
  have e: "read32 (write32 a v m) a =
      ucast (ucast v :: u8) OR push_bit 8 (ucast (ucast (drop_bit 8 v) :: u8)) OR
      push_bit 16 (ucast (ucast (drop_bit 16 v) :: u8)) OR push_bit 24 (ucast (ucast (drop_bit 24 v) :: u8))"
    by (simp add: read32_def write32_def)
  show ?thesis unfolding e
  proof (rule bit_word_eqI)
    fix n assume "n < LENGTH(32)"
    then have "n < 8 \<or> (8 \<le> n \<and> n < 16) \<or> (16 \<le> n \<and> n < 24) \<or> (24 \<le> n \<and> n < 32)" by auto
    then show "bit (ucast (ucast v :: u8) OR push_bit 8 (ucast (ucast (drop_bit 8 v) :: u8)) OR
      push_bit 16 (ucast (ucast (drop_bit 16 v) :: u8)) OR push_bit 24 (ucast (ucast (drop_bit 24 v) :: u8)) :: u32) n = bit v n"
      by (elim disjE) (auto simp: bit_simps)
  qed
qed

end
