(* ===== verification/Threads.thy ===== *)
theory Threads
  imports Paging Bitmap
begin

text \<open>
  \<^verbatim>\<open>kernel/thread.c\<close> and the scheduling half of \<^verbatim>\<open>kernel/clock.c\<close>, with the address space
  switch of \<^verbatim>\<open>kernel/proc.c\<close> and the register switch of \<^verbatim>\<open>kernel/switch.S\<close> that
  \<^verbatim>\<open>schedule\<close> calls. A \<^verbatim>\<open>struct thread_struct\<close> stands at the start of its
  page and is a record keyed by that page address; the list entries inside it belong to the heap of
  entries. \<^verbatim>\<open>schedule\<close> ends with the registers of the next thread loaded: what the code does
  after \<^verbatim>\<open>schedule\<close> returns runs when the thread is switched to again, and is a definition of its
  own (\<open>..._resume\<close>). The addresses at which the linker places globals and code are components of the
  state that nothing changes.
\<close>

section \<open>State\<close>

datatype task_status =
  TASK_RUNNING | TASK_READY | TASK_BLOCKED | TASK_WAITING | TASK_HANGING | TASK_DIED

text \<open>The enumeration is ordered as its C values are.\<close>

definition status_code :: "task_status \<Rightarrow> nat" where
  "status_code st = (case st of TASK_RUNNING \<Rightarrow> 0 | TASK_READY \<Rightarrow> 1 | TASK_BLOCKED \<Rightarrow> 2
     | TASK_WAITING \<Rightarrow> 3 | TASK_HANGING \<Rightarrow> 4 | TASK_DIED \<Rightarrow> 5)"

lemma status_code_inj [simp]: "status_code a = status_code b \<longleftrightarrow> a = b"
  by (cases a; cases b) (simp_all add: status_code_def)

instantiation task_status :: linorder
begin

definition less_eq_task_status :: "task_status \<Rightarrow> task_status \<Rightarrow> bool" where
  "less_eq_task_status a b \<longleftrightarrow> status_code a \<le> status_code b"

definition less_task_status :: "task_status \<Rightarrow> task_status \<Rightarrow> bool" where
  "less_task_status a b \<longleftrightarrow> status_code a < status_code b"

instance
  by standard (auto simp: less_eq_task_status_def less_task_status_def)

end

record thread_context =
  ctx_eip :: u32
  ctx_esp :: u32
  ctx_ebx :: u32
  ctx_ecx :: u32
  ctx_edx :: u32
  ctx_esi :: u32
  ctx_edi :: u32
  ctx_ebp :: u32

record virtual_addr =
  vaddr_bitmap :: bitmap
  vaddr_start :: u32

text \<open>The \<^verbatim>\<open>free_list\<close> of a descriptor is in the heap of entries.\<close>

record mem_block_desc =
  block_size :: u32
  block_per_arena :: u32

record thread_struct =
  self_kstack :: u32
  status :: task_status
  context_of :: thread_context
  func :: u32
  func_arg :: u32
  tf :: u32
  priority :: u8
  ticks_left :: u8
  elapsed_ticks :: u32
  fd_table :: "u32 list"
  pgdir :: u32
  tname :: "u8 list"
  userprog_vaddr :: virtual_addr
  u_block_desc :: "mem_block_desc list"
  stack_magic :: u32

record tstate = vstate +
  threads :: "u32 \<Rightarrow> thread_struct"
  regs :: thread_context
  cr3 :: u32
  tss_esp0 :: u32
  ticks :: u32
  main_thread :: u32
  idle_thread :: u32
  thread_tag :: u32
  ready_list :: u32
  all_list :: u32
  entry_code :: u32

definition upd_thread ::
    "u32 \<Rightarrow> (thread_struct \<Rightarrow> thread_struct) \<Rightarrow> 'a tstate_scheme \<Rightarrow> 'a tstate_scheme" where
  "upd_thread p f s = s\<lparr>threads := (threads s)(p := f (threads s p))\<rparr>"

text \<open>The offsets of \<^verbatim>\<open>general_tag\<close> and \<^verbatim>\<open>all_list_tag\<close>.\<close>

definition general_tag :: "u32 \<Rightarrow> u32" where
  "general_tag p = p + 92"

definition all_list_tag :: "u32 \<Rightarrow> u32" where
  "all_list_tag p = p + 100"

definition thread_of_tag :: "u32 \<Rightarrow> u32" where
  "thread_of_tag e = e - 92"

definition running_thread :: "'a tstate_scheme \<Rightarrow> u32" where
  "running_thread s = ctx_esp (regs s) AND 0xfffff000"

section \<open>Creating threads\<close>

definition zero_desc :: mem_block_desc where
  "zero_desc = \<lparr>block_size = 0, block_per_arena = 0\<rparr>"

definition zero_thread :: thread_struct where
  "zero_thread =
     \<lparr>self_kstack = 0, status = TASK_RUNNING,
      context_of = \<lparr>ctx_eip = 0, ctx_esp = 0, ctx_ebx = 0, ctx_ecx = 0, ctx_edx = 0, ctx_esi = 0,
                    ctx_edi = 0, ctx_ebp = 0\<rparr>,
      func = 0, func_arg = 0, tf = 0, priority = 0, ticks_left = 0, elapsed_ticks = 0,
      fd_table = replicate 8 0, pgdir = 0, tname = replicate 16 0,
      userprog_vaddr = \<lparr>vaddr_bitmap = \<lparr>bitmap_len = 0, bitmap_bits = 0\<rparr>, vaddr_start = 0\<rparr>,
      u_block_desc = replicate 7 zero_desc, stack_magic = 0\<rparr>"

text \<open>The list entries inside the structure: the two tags, and header and tailer of each
  descriptor's free list.\<close>

definition inner_entries :: "u32 \<Rightarrow> u32 list" where
  "inner_entries p = general_tag p # all_list_tag p #
     concat (map (\<lambda>i. [p + 148 + 24 * of_nat i, p + 156 + 24 * of_nat i]) [0..<7])"

definition clear_thread :: "u32 \<Rightarrow> 'a tstate_scheme \<Rightarrow> 'a tstate_scheme" where
  "clear_thread p s =
     fold (\<lambda>e s. set_next e 0 (set_prev e 0 s)) (inner_entries p) (upd_thread p (\<lambda>_. zero_thread) s)"

text \<open>\<^verbatim>\<open>pthread->fd_table[i] = v\<close> at word \<open>i\<close> from the start of
  \<^verbatim>\<open>fd_table\<close>: the table has eight words, what follows are the tags, \<^verbatim>\<open>pgdir\<close>,
  \<^verbatim>\<open>name\<close>, \<^verbatim>\<open>userprog_vaddr\<close> and the first descriptors.\<close>

definition word_bytes :: "u32 \<Rightarrow> u8 list" where
  "word_bytes v = [ucast v, ucast (drop_bit 8 v), ucast (drop_bit 16 v), ucast (drop_bit 24 v)]"

definition store_desc :: "nat \<Rightarrow> nat \<Rightarrow> u32 \<Rightarrow> u32 \<Rightarrow> 'a tstate_scheme \<Rightarrow> 'a tstate_scheme" where
  "store_desc k j p v s =
     (let upd = (\<lambda>f. upd_thread p (\<lambda>t. t\<lparr>u_block_desc := (u_block_desc t)[k := f (u_block_desc t ! k)]\<rparr>) s);
          header = p + 148 + 24 * of_nat k
      in if j = 0 then upd (block_size_update (\<lambda>_. v))
         else if j = 1 then upd (block_per_arena_update (\<lambda>_. v))
         else if j = 2 then set_prev header v s
         else if j = 3 then set_next header v s
         else if j = 4 then set_prev (header + 8) v s
         else set_next (header + 8) v s)"

definition store_fd :: "u32 \<Rightarrow> nat \<Rightarrow> u32 \<Rightarrow> 'a tstate_scheme \<Rightarrow> 'a tstate_scheme" where
  "store_fd p i v s =
     (if i < 8 then upd_thread p (\<lambda>t. t\<lparr>fd_table := (fd_table t)[i := v]\<rparr>) s
      else if i = 8 then set_prev (general_tag p) v s
      else if i = 9 then set_next (general_tag p) v s
      else if i = 10 then set_prev (all_list_tag p) v s
      else if i = 11 then set_next (all_list_tag p) v s
      else if i = 12 then upd_thread p (\<lambda>t. t\<lparr>pgdir := v\<rparr>) s
      else if i < 17 then
        upd_thread p (\<lambda>t. t\<lparr>tname := take (4 * (i - 13)) (tname t) @ word_bytes v @ drop (4 * (i - 12)) (tname t)\<rparr>) s
      else if i = 17 then
        upd_thread p (\<lambda>t. t\<lparr>userprog_vaddr := (userprog_vaddr t)\<lparr>vaddr_bitmap :=
          (vaddr_bitmap (userprog_vaddr t))\<lparr>bitmap_len := v\<rparr>\<rparr>\<rparr>) s
      else if i = 18 then
        upd_thread p (\<lambda>t. t\<lparr>userprog_vaddr := (userprog_vaddr t)\<lparr>vaddr_bitmap :=
          (vaddr_bitmap (userprog_vaddr t))\<lparr>bitmap_bits := v\<rparr>\<rparr>\<rparr>) s
      else if i = 19 then
        upd_thread p (\<lambda>t. t\<lparr>userprog_vaddr := (userprog_vaddr t)\<lparr>vaddr_start := v\<rparr>\<rparr>) s
      else store_desc ((i - 20) div 6) ((i - 20) mod 6) p v s)"

text \<open>\<^verbatim>\<open>strcpy\<close> into the 16 bytes of \<^verbatim>\<open>name\<close>, all zero before the call. A longer
  name overruns the field, which is undefined in C and a \<open>Fault\<close> here.\<close>

definition copy_name :: "u32 \<Rightarrow> u32 \<Rightarrow> 'a tstate_scheme \<Rightarrow> 'a tstate_scheme res" where
  "copy_name p name s =
     bind_res (of_loop (strlen (mem s) name)) (\<lambda>n.
       if unat n < 16 then
         Inr (upd_thread p (\<lambda>t. t\<lparr>tname := bytes (mem s) name (unat n) @ drop (unat n) (tname t)\<rparr>) s)
       else Inl Fault)"

text \<open>\<^verbatim>\<open>MAX_FILE_OPEN_PER_PROC\<close> is 32.\<close>

definition Thread_init :: "u32 \<Rightarrow> u32 \<Rightarrow> u32 \<Rightarrow> 'a tstate_scheme \<Rightarrow> 'a tstate_scheme res" where
  "Thread_init p name prio s =
     bind_res (copy_name p name (clear_thread p s)) (\<lambda>s.
       let s = upd_thread p (\<lambda>t. t\<lparr>status := if p = main_thread s then TASK_RUNNING else TASK_READY\<rparr>) s;
           s = upd_thread p (\<lambda>t. t\<lparr>self_kstack := p + 4096, priority := ucast prio, ticks_left := ucast prio,
                 elapsed_ticks := 0, pgdir := NULL, stack_magic := 0x19870916\<rparr>) s;
           s = store_fd p 0 0 s;
           s = store_fd p 1 1 s;
           s = store_fd p 1 2 s
       in Inr (fold (\<lambda>i. store_fd p i (- 1)) [3..<32] s))"

text \<open>\<^verbatim>\<open>sizeof(struct trapframe)\<close> is 76, \<^verbatim>\<open>sizeof(struct thread_parameter)\<close> 8.\<close>

definition Thread_create :: "u32 \<Rightarrow> u32 \<Rightarrow> u32 \<Rightarrow> 'a tstate_scheme \<Rightarrow> 'a tstate_scheme" where
  "Thread_create p fn arg s =
     (let sp = self_kstack (threads s p) - 76;
          s = upd_thread p (\<lambda>t. t\<lparr>tf := sp\<rparr>) s;
          sp = sp - 8;
          s = s\<lparr>mem := write32 (sp + 4) arg (write32 sp fn (mem s))\<rparr>;
          sp = sp - 4
      in upd_thread p (\<lambda>t. t\<lparr>self_kstack := sp,
           context_of := (context_of t)\<lparr>ctx_eip := entry_code s, ctx_esp := sp\<rparr>\<rparr>) s)"

section \<open>Switching\<close>

text \<open>\<^verbatim>\<open>tss.c\<close> and \<^verbatim>\<open>proc.c\<close>: the kernel stack of the next user thread and its page
  directory. \<open>cr3\<close> records the directory; the user half of an address space is not modelled.\<close>

definition update_tss_esp :: "u32 \<Rightarrow> 'a tstate_scheme \<Rightarrow> 'a tstate_scheme" where
  "update_tss_esp p s = s\<lparr>tss_esp0 := p + 4096\<rparr>"

definition page_dir_activate :: "u32 \<Rightarrow> 'a tstate_scheme \<Rightarrow> 'a tstate_scheme" where
  "page_dir_activate p s =
     (let pagedir_phy_addr = (if pgdir (threads s p) \<noteq> NULL then addr_v2p (pgdir (threads s p)) s
                              else 0x100000)
      in s\<lparr>cr3 := pagedir_phy_addr\<rparr>)"

definition process_activate :: "u32 \<Rightarrow> 'a tstate_scheme \<Rightarrow> 'a tstate_scheme" where
  "process_activate p s =
     (let s = page_dir_activate p s
      in if pgdir (threads s p) \<noteq> NULL then update_tss_esp p s else s)"

text \<open>\<^verbatim>\<open>switch_to(&from->context, &to->context)\<close>: save, then load. \<open>regs\<close> is what the
  callee sees: the return address and the stack pointer of the caller.\<close>

definition switch_to :: "u32 \<Rightarrow> u32 \<Rightarrow> 'a tstate_scheme \<Rightarrow> 'a tstate_scheme" where
  "switch_to from to s =
     (let s = upd_thread from (\<lambda>t. t\<lparr>context_of := regs s\<rparr>) s
      in s\<lparr>regs := context_of (threads s to)\<rparr>)"

section \<open>Scheduling\<close>

definition asleep :: "task_status \<Rightarrow> bool" where
  "asleep st \<longleftrightarrow> st = TASK_BLOCKED \<or> st = TASK_WAITING \<or> st = TASK_HANGING"

definition thread_unblock :: "u32 \<Rightarrow> 'a tstate_scheme \<Rightarrow> 'a tstate_scheme res" where
  "thread_unblock p s =
     (let (old_status, s) = intr_disable s
      in assert_res ''(pthread->status == TASK_BLOCKED) || (pthread->status == TASK_WAITING) || (pthread->status == TASK_HANGING)''
           (asleep (status (threads s p)))
           (bind_res
             (if status (threads s p) \<noteq> TASK_READY then
                bind_res (of_loop (list_find (ready_list s) (general_tag p) s)) (\<lambda>found.
                assert_res ''!list_find(&thread_ready_list, &pthread->general_tag)'' (\<not> found)
                  (if found then Inl (Panic ''thread_unblock: blocked thread in ready list'')
                   else Inr (upd_thread p (\<lambda>t. t\<lparr>status := TASK_READY\<rparr>)
                          (list_push (ready_list s) (general_tag p) s))))
              else Inr s)
             (\<lambda>s. Inr (snd (set_intr_status old_status s)))))"

lemma asleep_range: "asleep st \<longleftrightarrow> TASK_BLOCKED \<le> st \<and> st \<le> TASK_HANGING"
  by (cases st) (simp_all add: asleep_def less_eq_task_status_def status_code_def)

text \<open>\<^verbatim>\<open>schedule\<close> up to the switch.\<close>

definition requeue :: "u32 \<Rightarrow> 'a tstate_scheme \<Rightarrow> 'a tstate_scheme res" where
  "requeue cur s =
     (if status (threads s cur) = TASK_RUNNING then
        bind_res (of_loop (list_find (ready_list s) (general_tag cur) s)) (\<lambda>found.
        assert_res ''!list_find(&thread_ready_list, &cur->general_tag)'' (\<not> found)
          (Inr (upd_thread cur (\<lambda>t. t\<lparr>ticks_left := priority t, status := TASK_READY\<rparr>)
             (list_append (ready_list s) (general_tag cur) s))))
      else Inr s)"

definition dispatch :: "u32 \<Rightarrow> 'a tstate_scheme \<Rightarrow> 'a tstate_scheme" where
  "dispatch cur s =
     (let (tag, s) = list_pop (ready_list s) (s\<lparr>thread_tag := NULL\<rparr>);
          s = s\<lparr>thread_tag := tag\<rparr>;
          nxt = thread_of_tag tag;
          s = upd_thread nxt (\<lambda>t. t\<lparr>status := TASK_RUNNING\<rparr>) s
      in switch_to cur nxt (process_activate nxt s))"

definition schedule :: "'a tstate_scheme \<Rightarrow> 'a tstate_scheme res" where
  "schedule s =
     assert_res ''get_intr_status() == INTR_OFF'' (get_intr_status s = INTR_OFF)
       (let cur = running_thread s
        in bind_res (requeue cur s) (\<lambda>s.
           bind_res (if list_empty (ready_list s) s then thread_unblock (idle_thread s) s else Inr s) (\<lambda>s.
           Inr (dispatch cur s))))"

text \<open>A blocking call returns the interrupt status it found, which its stack frame keeps until it
  is resumed, and the state in which another thread runs.\<close>

definition thread_block :: "task_status \<Rightarrow> 'a tstate_scheme \<Rightarrow> (intr_status \<times> 'a tstate_scheme) res" where
  "thread_block stat s =
     assert_res ''(stat == TASK_BLOCKED) || (stat == TASK_WAITING) || (stat == TASK_HANGING)'' (asleep stat)
       (let (old_status, s) = intr_disable s;
            s = upd_thread (running_thread s) (\<lambda>t. t\<lparr>status := stat\<rparr>) s
        in bind_res (schedule s) (\<lambda>s. Inr (old_status, s)))"

definition thread_block_resume :: "intr_status \<Rightarrow> 'a tstate_scheme \<Rightarrow> 'a tstate_scheme" where
  "thread_block_resume old_status s = snd (set_intr_status old_status s)"

definition thread_yield :: "'a tstate_scheme \<Rightarrow> (intr_status \<times> 'a tstate_scheme) res" where
  "thread_yield s =
     (let cur = running_thread s;
          (old_status, s) = intr_disable s
      in bind_res (of_loop (list_find (ready_list s) (general_tag cur) s)) (\<lambda>found.
         assert_res ''!list_find(&thread_ready_list, &cur->general_tag)'' (\<not> found)
           (let s = list_append (ready_list s) (general_tag cur) s;
                s = upd_thread cur (\<lambda>t. t\<lparr>status := TASK_READY\<rparr>) s
            in bind_res (schedule s) (\<lambda>s. Inr (old_status, s)))))"

definition thread_yield_resume :: "intr_status \<Rightarrow> 'a tstate_scheme \<Rightarrow> 'a tstate_scheme" where
  "thread_yield_resume old_status s = snd (set_intr_status old_status s)"

text \<open>One round of the idle thread: it blocks; resumed, it enables interrupts and halts.\<close>

definition idle :: "'a tstate_scheme \<Rightarrow> (intr_status \<times> 'a tstate_scheme) res" where
  "idle s = thread_block TASK_BLOCKED s"

definition idle_resume :: "intr_status \<Rightarrow> 'a tstate_scheme \<Rightarrow> 'a tstate_scheme" where
  "idle_resume old_status s = sti (thread_block_resume old_status s)"

section \<open>The clock\<close>

definition timer_intr_handler :: "'a tstate_scheme \<Rightarrow> 'a tstate_scheme res" where
  "timer_intr_handler s =
     (let cur = running_thread s
      in assert_res ''cur_thread->stack_magic == 0x19870916'' (stack_magic (threads s cur) = 0x19870916)
           (let s = upd_thread cur (\<lambda>t. t\<lparr>elapsed_ticks := elapsed_ticks t + 1\<rparr>) s;
                s = s\<lparr>ticks := ticks s + 1\<rparr>
            in if ticks_left (threads s cur) = 0 then schedule s
               else Inr (upd_thread cur (\<lambda>t. t\<lparr>ticks_left := ticks_left t - 1\<rparr>) s)))"

text \<open>\<^verbatim>\<open>mtime_sleep\<close>: the number of ticks to wait for, and one turn of the waiting loop, which
  yields (\<open>Some\<close>) or is over (\<open>None\<close>).\<close>

definition mtime_sleep :: "u32 \<Rightarrow> 'a tstate_scheme \<Rightarrow> (u32 \<times> u32) res" where
  "mtime_sleep m_seconds s =
     (let sleep_ticks = DIV_ROUND_UP m_seconds 10
      in assert_res ''sleep_ticks > 0'' (0 < sleep_ticks) (Inr (ticks s, sleep_ticks)))"

definition ticks_to_sleep :: "u32 \<Rightarrow> u32 \<Rightarrow> 'a tstate_scheme \<Rightarrow>
    (intr_status option \<times> 'a tstate_scheme) res" where
  "ticks_to_sleep start_tick sleep_ticks s =
     (if ticks s - start_tick < sleep_ticks
      then bind_res (thread_yield s) (\<lambda>(old_status, s). Inr (Some old_status, s))
      else Inr (None, s))"

definition set_timer_frequency ::
    "u8 \<Rightarrow> u8 \<Rightarrow> u8 \<Rightarrow> u8 \<Rightarrow> u16 \<Rightarrow> 'a cpu_scheme \<Rightarrow> 'a cpu_scheme" where
  "set_timer_frequency port no rwl mode value s =
     outb 0x40 (ucast (drop_bit 8 (ucast (ucast value :: u8) :: u32)))
       (outb 0x40 (ucast value)
         (outb 0x43 (ucast (push_bit 6 (ucast no :: u32) OR push_bit 4 (ucast rwl) OR push_bit 1 (ucast mode))) s))"

end
