(* ===== verification/Scheduler.thy ===== *)
theory Scheduler
  imports Threads
begin

text \<open>
  What the scheduler of \<^verbatim>\<open>kernel/thread.c\<close> promises. The abstract scheduler is a
  running thread and a queue; \<open>sched_inv\<close> ties it to the links, statuses and saved registers of the
  concrete state. Every operation succeeds on such a state, does what the abstract scheduler does
  (\<open>pick\<close>), and gives such a state again.
\<close>

section \<open>Field by field\<close>

lemma threads_upd [simp]: "threads (upd_thread p f s) q = (if q = p then f (threads s p) else threads s q)"
  by (simp add: upd_thread_def)

lemma upd_thread_other [simp]:
  "entries (upd_thread p f s) = entries s" "eflags (upd_thread p f s) = eflags s"
  "port_writes (upd_thread p f s) = port_writes s" "port_inputs (upd_thread p f s) = port_inputs s"
  "mem (upd_thread p f s) = mem s" "pt (upd_thread p f s) = pt s" "regs (upd_thread p f s) = regs s"
  "cr3 (upd_thread p f s) = cr3 s" "ticks (upd_thread p f s) = ticks s"
  "main_thread (upd_thread p f s) = main_thread s" "idle_thread (upd_thread p f s) = idle_thread s"
  "ready_list (upd_thread p f s) = ready_list s" "all_list (upd_thread p f s) = all_list s"
  "tss_esp0 (upd_thread p f s) = tss_esp0 s" "thread_tag (upd_thread p f s) = thread_tag s"
  "entry_code (upd_thread p f s) = entry_code s"
  by (simp_all add: upd_thread_def)

lemma running_upd [simp]: "running_thread (upd_thread p f s) = running_thread s"
  by (simp add: running_thread_def)

lemma get_intr_upd [simp]: "get_intr_status (upd_thread p f s) = get_intr_status s"
  by (simp add: get_intr_status_def)

lemma holds_upd [simp]: "holds q (upd_thread p f s) xs = holds q s xs"
  by (simp add: holds_def)

lemma list_append_eq: "list_append p e s = s\<lparr>entries := entries (list_append p e s)\<rparr>"
  by (simp add: list_append_def list_insert_before_eq)

lemma list_push_eq: "list_push p e s = s\<lparr>entries := entries (list_push p e s)\<rparr>"
  by (simp add: list_push_def list_insert_before_eq)

lemma list_pop_eq: "snd (list_pop p s) = s\<lparr>entries := entries (snd (list_pop p s))\<rparr>"
  by (simp add: list_pop_def list_remove_eq Let_def)

lemma list_op_fields [simp]:
  "eflags (list_append p e s) = eflags s" "eflags (list_push p e s) = eflags s"
  "eflags (snd (list_pop p s)) = eflags s"
  by (simp_all add: list_append_def list_push_def list_pop_def list_insert_before_eq list_remove_eq Let_def)

lemma list_op_threads [simp]:
  "threads (list_append p e s) = threads s" "threads (list_push p e s) = threads s"
  "threads (snd (list_pop p s)) = threads s"
  "regs (list_append p e s) = regs s" "regs (list_push p e s) = regs s" "regs (snd (list_pop p s)) = regs s"
  "ready_list (list_append p e s) = ready_list s" "ready_list (list_push p e s) = ready_list s"
  "ready_list (snd (list_pop p s)) = ready_list s"
  "idle_thread (list_append p e s) = idle_thread s" "idle_thread (list_push p e s) = idle_thread s"
  "idle_thread (snd (list_pop p s)) = idle_thread s"
  "ticks (list_append p e s) = ticks s" "ticks (list_push p e s) = ticks s"
  "ticks (snd (list_pop p s)) = ticks s"
  by (simp_all add: list_append_def list_push_def list_pop_def list_insert_before_eq list_remove_eq Let_def)

lemma running_list_op [simp]:
  "running_thread (list_append p e s) = running_thread s" "running_thread (list_push p e s) = running_thread s"
  by (simp_all add: running_thread_def)

lemma holds_entries: "entries s' = entries s \<Longrightarrow> holds q s' xs = holds q s xs"
  by (simp add: holds_def)

lemma general_tag_inj [simp]: "general_tag p = general_tag q \<longleftrightarrow> p = q"
  by (simp add: general_tag_def)

lemma thread_of_general_tag [simp]: "thread_of_tag (general_tag p) = p"
  by (simp add: thread_of_tag_def general_tag_def)

lemma general_tag_image: "general_tag p \<in> set (map general_tag q) \<longleftrightarrow> p \<in> set q"
  by auto

section \<open>The ready queue\<close>

text \<open>\<open>ready s q\<close>: the ready list holds the threads \<open>q\<close>, first one next to run. \<open>queueable s p\<close>:
  the tag of \<open>p\<close> is not the header or the tailer of the ready list.\<close>

definition ready :: "'a tstate_scheme \<Rightarrow> u32 list \<Rightarrow> bool" where
  "ready s q \<longleftrightarrow> holds (ready_list s) s (map general_tag q)"

definition queueable :: "'a tstate_scheme \<Rightarrow> u32 \<Rightarrow> bool" where
  "queueable s p \<longleftrightarrow> slot (ready_list s) (general_tag p)"

lemma ready_find: "ready s q \<Longrightarrow> list_find (ready_list s) (general_tag p) s = Some (p \<in> set q)"
  unfolding ready_def using find_holds [of "ready_list s" s "map general_tag q" "general_tag p"]
  by (auto simp: general_tag_image simp del: set_map)

lemma ready_append:
  "ready s q \<Longrightarrow> queueable s p \<Longrightarrow> p \<notin> set q \<Longrightarrow> ready (list_append (ready_list s) (general_tag p) s) (q @ [p])"
  unfolding ready_def queueable_def using holds_append [of "ready_list s" s "map general_tag q" "general_tag p"]
  by (auto simp: general_tag_image simp del: set_map)

lemma ready_push:
  "ready s q \<Longrightarrow> queueable s p \<Longrightarrow> p \<notin> set q \<Longrightarrow> ready (list_push (ready_list s) (general_tag p) s) (p # q)"
  unfolding ready_def queueable_def using holds_push [of "ready_list s" s "map general_tag q" "general_tag p"]
  by (auto simp: general_tag_image simp del: set_map)

lemma ready_pop: "ready s (p # q) \<Longrightarrow> ready (snd (list_pop (ready_list s) s)) q"
  unfolding ready_def using holds_pop [of "ready_list s" s "general_tag p" "map general_tag q"] by simp

lemma ready_pop_fst: "ready s (p # q) \<Longrightarrow> fst (list_pop (ready_list s) s) = general_tag p"
  unfolding ready_def using pop_fst [of "ready_list s" s "general_tag p" "map general_tag q"] by simp

lemma ready_empty: "ready s q \<Longrightarrow> list_empty (ready_list s) s \<longleftrightarrow> q = []"
  unfolding ready_def using list_empty_holds [of "ready_list s" s "map general_tag q"] by simp

lemma ready_upd [simp]: "ready (upd_thread p f s) q = ready s q"
  by (simp add: ready_def)

lemma queueable_upd [simp]: "queueable (upd_thread p f s) q = queueable s q"
  by (simp add: queueable_def)

lemma queueable_list_op [simp]:
  "queueable (list_append l e s) p = queueable s p" "queueable (list_push l e s) p = queueable s p"
  by (simp_all add: queueable_def)

lemma ready_queueable: "ready s q \<Longrightarrow> p \<in> set q \<Longrightarrow> queueable s p"
  unfolding ready_def queueable_def holds_def using dlist_slots by fastforce

lemma ready_distinct: "ready s q \<Longrightarrow> distinct q"
  unfolding ready_def holds_def using dlist_distinct [of "entries s" "ready_list s" "map general_tag q"]
  by (simp add: distinct_map)

lemma ready_cong: "entries s' = entries s \<Longrightarrow> ready_list s' = ready_list s \<Longrightarrow> ready s' q = ready s q"
  by (simp add: ready_def holds_def)

section \<open>What the operations do\<close>

lemma intr_disable_eq: "intr_disable s = (get_intr_status s, s\<lparr>eflags := eflags (snd (intr_disable s))\<rparr>)"
  by (simp add: intr_disable_def cli_def get_intr_status_def)

lemma thread_unblock_eq:
  assumes "ready s q" "p \<notin> set q" "asleep (status (threads s p))"
  shows "thread_unblock p s =
    Inr (upd_thread p (\<lambda>t. t\<lparr>status := TASK_READY\<rparr>) (list_push (ready_list s) (general_tag p) s))"
proof -
  define d where "d = snd (intr_disable s)"
  have d: "intr_disable s = (get_intr_status s, d)" by (simp add: d_def prod_eq_iff)
  have de: "d = s\<lparr>eflags := eflags d\<rparr>" unfolding d_def by (metis intr_disable_eq snd_conv)
  have "ready d q" using assms(1) by (subst de) (simp add: ready_def holds_def)
  then have f: "list_find (ready_list d) (general_tag p) d = Some False" using assms(2) by (simp add: ready_find)
  have th: "threads d = threads s" "ready_list d = ready_list s" "entries d = entries s"
    by (subst de, simp)+
  have nr: "status (threads s p) \<noteq> TASK_READY" using assms(3) by (auto simp: asleep_def)
  let ?t = "upd_thread p (\<lambda>t. t\<lparr>status := TASK_READY\<rparr>) (list_push (ready_list s) (general_tag p) d)"
  have "eflags ?t = eflags (snd (intr_disable s))" by (simp add: d)
  then have "snd (set_intr_status (get_intr_status s) ?t) = ?t\<lparr>eflags := eflags s\<rparr>"
    by (rule set_intr_status_restore)
  moreover have "?t\<lparr>eflags := eflags s\<rparr> =
      upd_thread p (\<lambda>t. t\<lparr>status := TASK_READY\<rparr>) (list_push (ready_list s) (general_tag p) s)"
    by (subst de) (simp add: upd_thread_def list_push_def list_insert_before_eq)
  ultimately show ?thesis using assms(3) nr f by (simp add: thread_unblock_def d th Let_def)
qed

lemma requeue_eq:
  assumes "ready s q" "status (threads s cur) = TASK_RUNNING \<longrightarrow> cur \<notin> set q"
  shows "requeue cur s =
    Inr (if status (threads s cur) = TASK_RUNNING
         then upd_thread cur (\<lambda>t. t\<lparr>ticks_left := priority t, status := TASK_READY\<rparr>)
                (list_append (ready_list s) (general_tag cur) s)
         else s)"
  using assms by (simp add: requeue_def ready_find)

text \<open>A thread that is not running was switched away from inside its own page.\<close>

definition at_home :: "'a tstate_scheme \<Rightarrow> u32 \<Rightarrow> bool" where
  "at_home s p \<longleftrightarrow> ctx_esp (context_of (threads s p)) AND 0xfffff000 = p"

lemma dispatch_eq:
  assumes "ready s (nxt # q)" "cur = running_thread s" "nxt \<noteq> cur \<longrightarrow> at_home s nxt"
  shows "running_thread (dispatch cur s) = nxt" "ready (dispatch cur s) q"
    "eflags (dispatch cur s) = eflags s" "ready_list (dispatch cur s) = ready_list s"
    "idle_thread (dispatch cur s) = idle_thread s" "ticks (dispatch cur s) = ticks s"
    "threads (dispatch cur s) cur =
       (threads s cur)\<lparr>context_of := regs s, status := if nxt = cur then TASK_RUNNING else status (threads s cur)\<rparr>"
    "nxt \<noteq> cur \<Longrightarrow> threads (dispatch cur s) nxt = (threads s nxt)\<lparr>status := TASK_RUNNING\<rparr>"
    "p \<noteq> cur \<Longrightarrow> p \<noteq> nxt \<Longrightarrow> threads (dispatch cur s) p = threads s p"
    "regs (dispatch cur s) = (if nxt = cur then regs s else context_of (threads s nxt))"
proof -
  let ?s0 = "s\<lparr>thread_tag := NULL\<rparr>"
  have r0: "ready ?s0 (nxt # q)" using assms(1) by (simp add: ready_def holds_def)
  define s1 where "s1 = snd (list_pop (ready_list s) ?s0)"
  have p: "list_pop (ready_list s) ?s0 = (general_tag nxt, s1)"
    using ready_pop_fst [OF r0] by (simp add: s1_def prod_eq_iff)
  have r1: "ready s1 q" using ready_pop [OF r0] by (simp add: s1_def)
  have s1: "threads s1 = threads s" "regs s1 = regs s" "eflags s1 = eflags s" "ready_list s1 = ready_list s"
    "idle_thread s1 = idle_thread s" "ticks s1 = ticks s"
    by (simp_all add: s1_def)
  define a where "a = upd_thread nxt (\<lambda>t. t\<lparr>status := TASK_RUNNING\<rparr>) (s1\<lparr>thread_tag := general_tag nxt\<rparr>)"
  define b where "b = process_activate nxt a"
  have d: "dispatch cur s = switch_to cur nxt b" by (simp add: dispatch_def p a_def b_def)
  have b: "threads b = threads a" "regs b = regs a" "eflags b = eflags a" "ready_list b = ready_list a"
    "idle_thread b = idle_thread a" "entries b = entries a" "ticks b = ticks a"
    by (simp_all add: b_def process_activate_def page_dir_activate_def update_tss_esp_def Let_def)
  have a: "regs a = regs s" "eflags a = eflags s" "ready_list a = ready_list s" "entries a = entries s1"
    "threads a p = (if p = nxt then (threads s nxt)\<lparr>status := TASK_RUNNING\<rparr> else threads s p)"
    "idle_thread a = idle_thread s" "ticks a = ticks s" for p
    by (simp_all add: a_def s1)
  show "ready (dispatch cur s) q" using r1 by (simp add: d switch_to_def Let_def ready_def holds_def b a s1)
  show "eflags (dispatch cur s) = eflags s" "ready_list (dispatch cur s) = ready_list s"
    "idle_thread (dispatch cur s) = idle_thread s" "ticks (dispatch cur s) = ticks s"
    by (simp_all add: d switch_to_def Let_def b a)
  show "threads (dispatch cur s) cur =
       (threads s cur)\<lparr>context_of := regs s, status := if nxt = cur then TASK_RUNNING else status (threads s cur)\<rparr>"
    "nxt \<noteq> cur \<Longrightarrow> threads (dispatch cur s) nxt = (threads s nxt)\<lparr>status := TASK_RUNNING\<rparr>"
    "p \<noteq> cur \<Longrightarrow> p \<noteq> nxt \<Longrightarrow> threads (dispatch cur s) p = threads s p"
    by (simp_all add: d switch_to_def Let_def b a)
  show rg: "regs (dispatch cur s) = (if nxt = cur then regs s else context_of (threads s nxt))"
    by (simp add: d switch_to_def Let_def b a)
  show "running_thread (dispatch cur s) = nxt"
    using assms(2,3) unfolding running_thread_def rg by (auto simp: at_home_def)
qed

section \<open>The scheduler\<close>

text \<open>The abstract scheduler is the running thread and the queue. A thread that stops running goes
  to the end of the queue when it can go on; when nothing can run, the idle thread is woken.\<close>

definition pick :: "bool \<Rightarrow> u32 \<Rightarrow> u32 \<Rightarrow> u32 list \<Rightarrow> u32 \<times> u32 list" where
  "pick goes_on idle_p cur q =
     (case q @ (if goes_on then [cur] else []) of [] \<Rightarrow> (idle_p, []) | p # ps \<Rightarrow> (p, ps))"

text \<open>\<open>T\<close> are the threads of the system; the running one has status \<open>st\<close>.\<close>

definition sched_inv :: "u32 set \<Rightarrow> task_status \<Rightarrow> 'a tstate_scheme \<Rightarrow> u32 list \<Rightarrow> bool" where
  "sched_inv T st s q \<longleftrightarrow>
     ready s q \<and> running_thread s \<in> T \<and> set q \<subseteq> T \<and> idle_thread s \<in> T \<and>
     (\<forall>p \<in> T. queueable s p) \<and> running_thread s \<notin> set q \<and>
     (\<forall>p \<in> T. p \<noteq> running_thread s \<longrightarrow> at_home s p) \<and>
     status (threads s (running_thread s)) = st \<and>
     (\<forall>p \<in> set q. status (threads s p) = TASK_READY) \<and>
     (\<forall>p \<in> T. p \<noteq> running_thread s \<longrightarrow> p \<notin> set q \<longrightarrow> asleep (status (threads s p)))"

lemma running_page: "running_thread s AND 0xfffff000 = running_thread s"
  by (simp add: running_thread_def and.assoc)

lemma not_asleep [simp]: "\<not> asleep TASK_RUNNING" "\<not> asleep TASK_READY"
  by (simp_all add: asleep_def)

text \<open>Switching from a queue that is not empty.\<close>

definition between :: "u32 set \<Rightarrow> 'a tstate_scheme \<Rightarrow> u32 list \<Rightarrow> bool" where
  "between T s q \<longleftrightarrow>
     ready s q \<and> running_thread s \<in> T \<and> set q \<subseteq> T \<and> idle_thread s \<in> T \<and>
     (\<forall>p \<in> T. queueable s p) \<and>
     (\<forall>p \<in> T. p \<noteq> running_thread s \<longrightarrow> at_home s p) \<and>
     (\<forall>p \<in> set q. status (threads s p) = TASK_READY) \<and>
     (\<forall>p \<in> T. p \<notin> set q \<longrightarrow> asleep (status (threads s p)))"

lemma dispatch_inv:
  assumes "between T s (nxt # q)"
  shows "running_thread (dispatch (running_thread s) s) = nxt"
    and "sched_inv T TASK_RUNNING (dispatch (running_thread s) s) q"
proof -
  let ?cur = "running_thread s" and ?d = "dispatch (running_thread s) s"
  from assms have r: "ready s (nxt # q)" and h: "nxt \<noteq> ?cur \<longrightarrow> at_home s nxt" and nT: "nxt \<in> T"
    by (auto simp: between_def)
  note d = dispatch_eq [OF r refl h]
  show run: "running_thread ?d = nxt" by (rule d(1))
  have dist: "nxt \<notin> set q" using ready_distinct [OF r] by simp
  have st: "status (threads ?d p) = (if p = nxt then TASK_RUNNING else status (threads s p))" for p
    using d(7,8) d(9) [of p] by (cases "p = ?cur"; cases "p = nxt") auto
  have "at_home ?d p" if "p \<in> T" "p \<noteq> nxt" for p
  proof (cases "p = ?cur")
    case True
    then show ?thesis using d(7) running_page [of s] by (simp add: at_home_def running_thread_def and.assoc)
  next
    case False
    then show ?thesis using d(9) [of p] that assms by (simp add: at_home_def between_def)
  qed
  moreover have "queueable ?d p" if "p \<in> T" for p using assms that d(4) by (simp add: between_def queueable_def)
  ultimately show "sched_inv T TASK_RUNNING ?d q"
    using assms d(2,5) dist run st nT by (auto simp: sched_inv_def between_def)
qed

lemma schedule_dispatch:
  assumes "get_intr_status s = INTR_OFF" "ready s (nxt # q)"
    and "status (threads s (running_thread s)) \<noteq> TASK_RUNNING"
  shows "schedule s = Inr (dispatch (running_thread s) s)"
  using assms ready_empty [OF assms(2)] by (simp add: schedule_def requeue_def Let_def)

lemma schedule_eq:
  assumes off: "get_intr_status s = INTR_OFF" and inv: "sched_inv T st s q"
    and st: "st = TASK_RUNNING \<or> asleep st"
  defines "nx \<equiv> pick (st = TASK_RUNNING) (idle_thread s) (running_thread s) q"
  shows "\<exists>s'. schedule s = Inr s' \<and> running_thread s' = fst nx \<and> sched_inv T TASK_RUNNING s' (snd nx) \<and>
    eflags s' = eflags s \<and> ticks s' = ticks s"
proof -
  let ?cur = "running_thread s"
  from inv have r: "ready s q" and cq: "?cur \<notin> set q" and stc: "status (threads s ?cur) = st"
    by (auto simp: sched_inv_def)
  consider (run) "st = TASK_RUNNING" | (sleep) "asleep st" "q \<noteq> []" | (idle) "asleep st" "q = []"
    using st by auto
  then show ?thesis
  proof cases
    case run
    let ?s = "upd_thread ?cur (\<lambda>t. t\<lparr>ticks_left := priority t, status := TASK_READY\<rparr>)
                (list_append (ready_list s) (general_tag ?cur) s)"
    have qn: "queueable s ?cur" using inv by (auto simp: sched_inv_def)
    have r': "ready ?s (q @ [?cur])" using ready_append [OF r qn cq] by simp
    obtain nxt q' where e: "q @ [?cur] = nxt # q'" by (cases "q @ [?cur]") auto
    have nx: "nx = (nxt, q')" using run e by (simp add: nx_def pick_def)
    have "between T ?s (q @ [?cur])" using inv r' run
      by (auto simp: sched_inv_def between_def at_home_def)
    then have b: "between T ?s (nxt # q')" using e by simp
    have "ready ?s (nxt # q')" using r' e by simp
    then have ne: "\<not> list_empty (ready_list ?s) ?s" using ready_empty by blast
    have "schedule s = Inr (dispatch ?cur ?s)"
      using off ne requeue_eq [OF r, of ?cur] cq stc run by (simp add: schedule_def Let_def)
    moreover have "running_thread ?s = ?cur" by simp
    moreover have "eflags (dispatch ?cur ?s) = eflags s" "ticks (dispatch ?cur ?s) = ticks s"
      using dispatch_eq(3,6) [of ?s nxt q' ?cur] b by (auto simp: between_def)
    ultimately show ?thesis using dispatch_inv [OF b] nx by simp
  next
    case sleep
    obtain nxt q' where e: "q = nxt # q'" using sleep by (cases q) auto
    have nx: "nx = (nxt, q')" using sleep e by (auto simp: nx_def pick_def)
    have nr: "status (threads s ?cur) \<noteq> TASK_RUNNING" using sleep stc by auto
    have b: "between T s (nxt # q')" using inv sleep stc e by (auto simp: sched_inv_def between_def)
    then have "schedule s = Inr (dispatch ?cur s)" using off nr by (intro schedule_dispatch) (auto simp: between_def)
    moreover have "eflags (dispatch ?cur s) = eflags s" "ticks (dispatch ?cur s) = ticks s"
      using dispatch_eq(3,6) [of s nxt q' ?cur] b by (auto simp: between_def)
    ultimately show ?thesis using dispatch_inv [OF b] nx by simp
  next
    case idle
    let ?id = "idle_thread s"
    have nx: "nx = (?id, [])" using idle by (auto simp: nx_def pick_def)
    have nr: "status (threads s ?cur) \<noteq> TASK_RUNNING" using idle stc by auto
    have sl: "asleep (status (threads s ?id))" using inv idle stc
      by (cases "?id = ?cur") (auto simp: sched_inv_def)
    have r0: "ready s []" using r idle by simp
    let ?s = "upd_thread ?id (\<lambda>t. t\<lparr>status := TASK_READY\<rparr>) (list_push (ready_list s) (general_tag ?id) s)"
    have ub: "thread_unblock ?id s = Inr ?s" by (rule thread_unblock_eq [OF r0]) (use sl in simp_all)
    have qn: "queueable s ?id" using inv by (auto simp: sched_inv_def)
    have r': "ready ?s [?id]" using ready_push [OF r0 qn] by simp
    have b: "between T ?s [?id]" using inv idle stc r'
      by (auto simp: sched_inv_def between_def at_home_def)
    have "schedule s = Inr (dispatch ?cur ?s)"
      using off nr ub ready_empty [OF r0] by (simp add: schedule_def requeue_def Let_def)
    moreover have "eflags (dispatch ?cur ?s) = eflags s" "ticks (dispatch ?cur ?s) = ticks s"
      using dispatch_eq(3,6) [of ?s ?id "[]" ?cur] b by (auto simp: between_def)
    moreover have "running_thread ?s = ?cur" by simp
    ultimately show ?thesis using dispatch_inv [OF b] nx by simp
  qed
qed

section \<open>The operations keep the scheduler invariant\<close>

text \<open>Nothing of the invariant is about the interrupt flag.\<close>

lemma sched_inv_eflags [simp]: "sched_inv T st (s\<lparr>eflags := e\<rparr>) q = sched_inv T st s q"
  by (simp add: sched_inv_def ready_def holds_def queueable_def running_thread_def at_home_def)

lemma intr_disable_cases:
  obtains e where "intr_disable s = (get_intr_status s, s\<lparr>eflags := e\<rparr>)"
    "get_intr_status (s\<lparr>eflags := e\<rparr>) = INTR_OFF"
  using intr_disable_eq [of s] intr_disable_simps(2) [of s] by (metis snd_conv)

lemma running_eflags [simp]: "running_thread (s\<lparr>eflags := e\<rparr>) = running_thread s"
  by (simp add: running_thread_def)

lemma running_ticks [simp]: "running_thread (s\<lparr>ticks := t\<rparr>) = running_thread s"
  by (simp add: running_thread_def)

lemma sched_inv_ticks [simp]: "sched_inv T st (s\<lparr>ticks := t\<rparr>) q = sched_inv T st s q"
  by (simp add: sched_inv_def ready_def holds_def queueable_def at_home_def)

lemma sched_inv_cur:
  assumes "sched_inv T st s q"
    and "\<And>t. context_of (f t) = context_of t" "status (f (threads s (running_thread s))) = st'"
  shows "sched_inv T st' (upd_thread (running_thread s) f s) q"
  using assms by (auto simp: sched_inv_def at_home_def)

lemma thread_block_eq:
  assumes "sched_inv T TASK_RUNNING s q" "asleep stat"
  defines "nx \<equiv> pick False (idle_thread s) (running_thread s) q"
  shows "\<exists>s'. thread_block stat s = Inr (get_intr_status s, s') \<and> running_thread s' = fst nx \<and>
    sched_inv T TASK_RUNNING s' (snd nx) \<and> get_intr_status s' = INTR_OFF"
proof -
  obtain e where d: "intr_disable s = (get_intr_status s, s\<lparr>eflags := e\<rparr>)"
    "get_intr_status (s\<lparr>eflags := e\<rparr>) = INTR_OFF"
    by (rule intr_disable_cases)
  let ?s = "upd_thread (running_thread s) (\<lambda>t. t\<lparr>status := stat\<rparr>) (s\<lparr>eflags := e\<rparr>)"
  have off: "get_intr_status ?s = INTR_OFF" using d(2) by simp
  have "sched_inv T stat (upd_thread (running_thread (s\<lparr>eflags := e\<rparr>)) (\<lambda>t. t\<lparr>status := stat\<rparr>) (s\<lparr>eflags := e\<rparr>)) q"
    by (rule sched_inv_cur [where st = TASK_RUNNING]) (use assms(1) in simp_all)
  then have i: "sched_inv T stat ?s q" by simp
  have nr: "(stat = TASK_RUNNING) = False" using assms(2) by auto
  from schedule_eq [OF off i disjI2 [OF assms(2)]] obtain s' where
    "schedule ?s = Inr s'" "running_thread s' = fst nx" "sched_inv T TASK_RUNNING s' (snd nx)" "eflags s' = eflags ?s"
    using nr by (auto simp: nx_def)
  then show ?thesis using d assms(2) by (auto simp: thread_block_def Let_def get_intr_status_def)
qed

lemma thread_yield_eq:
  assumes "sched_inv T TASK_RUNNING s q"
  defines "nx \<equiv> pick True (idle_thread s) (running_thread s) q"
  shows "\<exists>s'. thread_yield s = Inr (get_intr_status s, s') \<and> running_thread s' = fst nx \<and>
    sched_inv T TASK_RUNNING s' (snd nx) \<and> get_intr_status s' = INTR_OFF"
proof -
  let ?cur = "running_thread s"
  obtain e where d: "intr_disable s = (get_intr_status s, s\<lparr>eflags := e\<rparr>)"
    "get_intr_status (s\<lparr>eflags := e\<rparr>) = INTR_OFF"
    by (rule intr_disable_cases)
  define u where "u = s\<lparr>eflags := e\<rparr>"
  have i: "sched_inv T TASK_RUNNING u q" "running_thread u = ?cur" "get_intr_status u = INTR_OFF"
    using assms(1) d(2) by (simp_all add: u_def)
  then have r: "ready u q" and cq: "?cur \<notin> set q" and qn: "queueable u ?cur"
    by (auto simp: sched_inv_def)
  let ?s = "upd_thread ?cur (\<lambda>t. t\<lparr>status := TASK_READY\<rparr>) (list_append (ready_list u) (general_tag ?cur) u)"
  obtain nxt q' where eq: "q @ [?cur] = nxt # q'" by (cases "q @ [?cur]") auto
  have nx: "nx = (nxt, q')" using eq by (simp add: nx_def pick_def)
  have "ready ?s (q @ [?cur])" using ready_append [OF r qn cq] by simp
  moreover from this have "between T ?s (q @ [?cur])" using i by (auto simp: sched_inv_def between_def at_home_def)
  ultimately have b: "between T ?s (nxt # q')" "ready ?s (nxt # q')" using eq by simp_all
  have run: "running_thread ?s = ?cur" using i(2) by simp
  have off: "get_intr_status ?s = INTR_OFF" using i(3) by (simp add: get_intr_status_def)
  have sch: "schedule ?s = Inr (dispatch ?cur ?s)"
    using schedule_dispatch [OF off b(2)] run by simp
  have d': "intr_disable s = (get_intr_status s, u)" using d(1) by (simp add: u_def)
  have "list_find (ready_list u) (general_tag ?cur) u = Some False" using ready_find [OF r, of ?cur] cq by simp
  then have "thread_yield s = Inr (get_intr_status s, dispatch ?cur ?s)"
    using sch by (simp add: thread_yield_def Let_def d')
  moreover have "get_intr_status (dispatch ?cur ?s) = INTR_OFF"
  proof -
    have h: "nxt \<noteq> ?cur \<longrightarrow> at_home ?s nxt" using b(1) run by (auto simp: between_def)
    have "eflags (dispatch ?cur ?s) = eflags ?s" by (rule dispatch_eq(3) [OF b(2) run [symmetric] h])
    then show ?thesis using off by (simp only: get_intr_status_def)
  qed
  ultimately show ?thesis
    using dispatch_inv [OF b(1)] run nx by simp
qed

lemma thread_unblock_inv:
  assumes "sched_inv T st s q" "p \<in> T" "p \<noteq> running_thread s" "p \<notin> set q"
  shows "\<exists>s'. thread_unblock p s = Inr s' \<and> running_thread s' = running_thread s \<and> sched_inv T st s' (p # q) \<and>
    eflags s' = eflags s \<and> idle_thread s' = idle_thread s"
proof -
  have sl: "asleep (status (threads s p))" and r: "ready s q" and qn: "queueable s p"
    using assms by (auto simp: sched_inv_def)
  let ?s = "upd_thread p (\<lambda>t. t\<lparr>status := TASK_READY\<rparr>) (list_push (ready_list s) (general_tag p) s)"
  have "thread_unblock p s = Inr ?s" by (rule thread_unblock_eq [OF r assms(4) sl])
  moreover have "ready ?s (p # q)" using ready_push [OF r qn assms(4)] by simp
  then have "sched_inv T st ?s (p # q)" using assms by (auto simp: sched_inv_def at_home_def)
  ultimately show ?thesis by simp
qed

lemma timer_eq:
  assumes "sched_inv T TASK_RUNNING s q" "get_intr_status s = INTR_OFF"
    and "stack_magic (threads s (running_thread s)) = 0x19870916"
  defines "nx \<equiv> if ticks_left (threads s (running_thread s)) = 0
                then pick True (idle_thread s) (running_thread s) q else (running_thread s, q)"
  shows "\<exists>s'. timer_intr_handler s = Inr s' \<and> running_thread s' = fst nx \<and>
    sched_inv T TASK_RUNNING s' (snd nx) \<and> ticks s' = ticks s + 1"
proof -
  let ?cur = "running_thread s"
  let ?u = "(upd_thread ?cur (\<lambda>t. t\<lparr>elapsed_ticks := elapsed_ticks t + 1\<rparr>) s)\<lparr>ticks := ticks s + 1\<rparr>"
  have i: "sched_inv T TASK_RUNNING ?u q"
    using sched_inv_cur [OF assms(1), of "\<lambda>t. t\<lparr>elapsed_ticks := elapsed_ticks t + 1\<rparr>"] assms(1)
    by (simp add: sched_inv_def [of T TASK_RUNNING s])
  have off: "get_intr_status ?u = INTR_OFF" using assms(2) by (simp add: get_intr_status_def)
  have t: "timer_intr_handler s = (if ticks_left (threads s ?cur) = 0 then schedule ?u
      else Inr (upd_thread ?cur (\<lambda>t. t\<lparr>ticks_left := ticks_left t - 1\<rparr>) ?u))"
    using assms(3) by (simp add: timer_intr_handler_def Let_def)
  show ?thesis
  proof (cases "ticks_left (threads s ?cur) = 0")
    case True
    from schedule_eq [OF off i disjI1 [OF refl]]
    show ?thesis using True t by (auto simp: nx_def)
  next
    case False
    have "sched_inv T TASK_RUNNING (upd_thread (running_thread ?u) (\<lambda>t. t\<lparr>ticks_left := ticks_left t - 1\<rparr>) ?u) q"
      by (rule sched_inv_cur [OF i]) (use i in \<open>simp_all add: sched_inv_def\<close>)
    then show ?thesis using False t by (simp add: nx_def)
  qed
qed

primrec yields :: "nat \<Rightarrow> 'a tstate_scheme \<Rightarrow> 'a tstate_scheme res" where
  "yields 0 s = Inr s"
| "yields (Suc n) s = bind_res (thread_yield s) (\<lambda>(old, s). yields n s)"

lemma pick_True: "pick True i cur q = (hd (q @ [cur]), tl (q @ [cur]))"
  by (cases q) (simp_all add: pick_def)

lemma yields_eq:
  assumes "sched_inv T TASK_RUNNING s q"
  shows "\<exists>s'. yields n s = Inr s' \<and> sched_inv T TASK_RUNNING s' (tl (rotate n (running_thread s # q))) \<and>
    running_thread s' = hd (rotate n (running_thread s # q))"
  using assms
proof (induction n arbitrary: s q)
  case (Suc n)
  obtain t where t: "thread_yield s = Inr (get_intr_status s, t)"
    "running_thread t = hd (q @ [running_thread s])"
    "sched_inv T TASK_RUNNING t (tl (q @ [running_thread s]))"
    using thread_yield_eq [OF Suc.prems] by (auto simp: pick_True)
  have "running_thread t # tl (q @ [running_thread s]) = rotate1 (running_thread s # q)"
    using t(2) by (cases q) simp_all
  then have "rotate n (running_thread t # tl (q @ [running_thread s])) = rotate (Suc n) (running_thread s # q)"
    by (simp only: rotate1_rotate_swap rotate_Suc)
  then show ?case using Suc.IH [OF t(3)] t(1) by simp
qed simp

section \<open>The system of threads\<close>

text \<open>Any order of the operations, from any of the threads.\<close>

inductive kstep :: "u32 set \<Rightarrow> 'a tstate_scheme \<Rightarrow> 'a tstate_scheme \<Rightarrow> bool" for T where
  kblock: "asleep stat \<Longrightarrow> thread_block stat s = Inr (old, s') \<Longrightarrow> kstep T s s'"
| kyield: "thread_yield s = Inr (old, s') \<Longrightarrow> kstep T s s'"
| ktick: "get_intr_status s = INTR_OFF \<Longrightarrow> timer_intr_handler s = Inr s' \<Longrightarrow> kstep T s s'"
| kunblock: "p \<in> T \<Longrightarrow> p \<noteq> running_thread s \<Longrightarrow> status (threads s p) \<noteq> TASK_READY \<Longrightarrow>
    thread_unblock p s = Inr s' \<Longrightarrow> kstep T s s'"
| kresume: "kstep T s (thread_block_resume old s)"

inductive_cases kstepE: "kstep T s s'"

lemma set_intr_status_eflags: "\<exists>e. snd (set_intr_status st s) = s\<lparr>eflags := e\<rparr>"
proof -
  have e: "\<exists>e. s = s\<lparr>eflags := e\<rparr>" by (rule exI [of _ "eflags s"]) simp
  show ?thesis
    by (cases st) (auto simp: set_intr_status_def intr_enable_def intr_disable_def sti_def cli_def intro: e)
qed

lemma timer_magic:
  "timer_intr_handler s = Inr s' \<Longrightarrow> stack_magic (threads s (running_thread s)) = 0x19870916"
  by (auto simp: timer_intr_handler_def Let_def res_iffs)

lemma kstep_inv:
  assumes "kstep T s s'" "sched_inv T TASK_RUNNING s q"
  shows "\<exists>q'. sched_inv T TASK_RUNNING s' q'"
  using assms(1)
proof (rule kstepE)
  fix stat old assume "asleep stat" "thread_block stat s = Inr (old, s')"
  then show ?thesis using thread_block_eq [OF assms(2), of stat] by auto
next
  fix old assume "thread_yield s = Inr (old, s')"
  then show ?thesis using thread_yield_eq [OF assms(2)] by auto
next
  assume "get_intr_status s = INTR_OFF" "timer_intr_handler s = Inr s'"
  then show ?thesis using timer_eq [OF assms(2)] timer_magic by fastforce
next
  fix p assume p: "p \<in> T" "p \<noteq> running_thread s" "status (threads s p) \<noteq> TASK_READY"
    and u: "thread_unblock p s = Inr s'"
  have "p \<notin> set q" using assms(2) p(3) by (auto simp: sched_inv_def)
  then show ?thesis using thread_unblock_inv [OF assms(2) p(1,2)] u by auto
next
  fix old assume "s' = thread_block_resume old s"
  then show ?thesis using assms(2) set_intr_status_eflags [of old s] by (auto simp: thread_block_resume_def)
qed

lemma ksteps_inv:
  assumes "(kstep T)\<^sup>*\<^sup>* s s'" "\<exists>q. sched_inv T TASK_RUNNING s q"
  shows "\<exists>q. sched_inv T TASK_RUNNING s' q"
  using assms by (induction rule: rtranclp_induct) (auto dest: kstep_inv)

text \<open>Who runs is settled by the statuses alone.\<close>

lemma sched_inv_running:
  assumes "sched_inv T TASK_RUNNING s q" "p \<in> T"
  shows "status (threads s p) = TASK_RUNNING \<longleftrightarrow> p = running_thread s"
  using assms by (auto simp: sched_inv_def asleep_def)

section \<open>Thread_init\<close>

text \<open>The part of \<open>store_fd\<close> that changes the record.\<close>

definition desc_field :: "nat \<Rightarrow> nat \<Rightarrow> u32 \<Rightarrow> thread_struct \<Rightarrow> thread_struct" where
  "desc_field k j v t =
     (if j = 0 then t\<lparr>u_block_desc := (u_block_desc t)[k := (u_block_desc t ! k)\<lparr>block_size := v\<rparr>]\<rparr>
      else if j = 1 then t\<lparr>u_block_desc := (u_block_desc t)[k := (u_block_desc t ! k)\<lparr>block_per_arena := v\<rparr>]\<rparr>
      else t)"

definition fd_field :: "nat \<Rightarrow> u32 \<Rightarrow> thread_struct \<Rightarrow> thread_struct" where
  "fd_field i v t =
     (if i < 8 then t\<lparr>fd_table := (fd_table t)[i := v]\<rparr>
      else if i = 8 then t else if i = 9 then t else if i = 10 then t else if i = 11 then t
      else if i = 12 then t\<lparr>pgdir := v\<rparr>
      else if i < 17 then
        t\<lparr>tname := take (4 * (i - 13)) (tname t) @ word_bytes v @ drop (4 * (i - 12)) (tname t)\<rparr>
      else if i = 17 then
        t\<lparr>userprog_vaddr := (userprog_vaddr t)\<lparr>vaddr_bitmap := (vaddr_bitmap (userprog_vaddr t))\<lparr>bitmap_len := v\<rparr>\<rparr>\<rparr>
      else if i = 18 then
        t\<lparr>userprog_vaddr := (userprog_vaddr t)\<lparr>vaddr_bitmap := (vaddr_bitmap (userprog_vaddr t))\<lparr>bitmap_bits := v\<rparr>\<rparr>\<rparr>
      else if i = 19 then t\<lparr>userprog_vaddr := (userprog_vaddr t)\<lparr>vaddr_start := v\<rparr>\<rparr>
      else desc_field ((i - 20) div 6) ((i - 20) mod 6) v t)"

lemma set_links_threads [simp]:
  "threads (set_prev e v s) = threads s" "threads (set_next e v s) = threads s"
  by (simp_all add: set_prev_def set_next_def)

lemma store_desc_thread: "threads (store_desc k j p v s) p = desc_field k j v (threads s p)"
  by (simp add: store_desc_def desc_field_def Let_def)

lemma store_fd_thread: "threads (store_fd p i v s) p = fd_field i v (threads s p)"
  unfolding store_fd_def fd_field_def
  by (simp only: if_distrib [of threads] if_distribR threads_upd set_links_threads store_desc_thread if_True refl)

lemma fold_fd_thread:
  "threads (fold (\<lambda>i. store_fd p i v) xs s) p = fold (\<lambda>i. fd_field i v) xs (threads s p)"
  by (induction xs arbitrary: s) (simp_all add: store_fd_thread)

lemma fd_field_keeps [simp]:
  "self_kstack (fd_field i v t) = self_kstack t" "status (fd_field i v t) = status t"
  "context_of (fd_field i v t) = context_of t" "priority (fd_field i v t) = priority t"
  "ticks_left (fd_field i v t) = ticks_left t" "elapsed_ticks (fd_field i v t) = elapsed_ticks t"
  "stack_magic (fd_field i v t) = stack_magic t"
  by (simp_all add: fd_field_def desc_field_def)

lemma fd_field_pgdir: "pgdir (fd_field i v t) = (if i = 12 then v else pgdir t)"
  by (simp add: fd_field_def desc_field_def)

lemma fd_field_table: "fd_table (fd_field i v t) = (if i < 8 then (fd_table t)[i := v] else fd_table t)"
  by (simp add: fd_field_def desc_field_def)

lemma fold_fd_keeps [simp]:
  "self_kstack (fold (\<lambda>i. fd_field i (- 1)) xs t) = self_kstack t" "status (fold (\<lambda>i. fd_field i (- 1)) xs t) = status t"
  "context_of (fold (\<lambda>i. fd_field i (- 1)) xs t) = context_of t" "priority (fold (\<lambda>i. fd_field i (- 1)) xs t) = priority t"
  "ticks_left (fold (\<lambda>i. fd_field i (- 1)) xs t) = ticks_left t" "elapsed_ticks (fold (\<lambda>i. fd_field i (- 1)) xs t) = elapsed_ticks t"
  "stack_magic (fold (\<lambda>i. fd_field i (- 1)) xs t) = stack_magic t"
  by (induction xs arbitrary: t) simp_all

lemma fold_fd_pgdir: "pgdir (fold (\<lambda>i. fd_field i (- 1)) xs t) = (if 12 \<in> set xs then - 1 else pgdir t)"
  by (induction xs arbitrary: t) (auto simp: fd_field_pgdir)

lemma fold_fd_table:
  "fd_table (fold (\<lambda>i. fd_field i (- 1)) xs t) = fold (\<lambda>i tab. if i < 8 then tab[i := - 1] else tab) xs (fd_table t)"
  by (induction xs arbitrary: t) (auto simp: fd_field_table)

lemma clear_thread_thread: "threads (clear_thread p s) p = zero_thread"
proof -
  have "threads (fold (\<lambda>e s. set_next e 0 (set_prev e 0 s)) es u) = threads u" for es and u :: "'a tstate_scheme"
    by (induction es arbitrary: u) simp_all
  then show ?thesis by (simp add: clear_thread_def)
qed

lemma clear_thread_mem: "mem (clear_thread p s) = mem s" "main_thread (clear_thread p s) = main_thread s"
proof -
  have "mem (fold (\<lambda>e s. set_next e 0 (set_prev e 0 s)) es u) = mem u \<and>
    main_thread (fold (\<lambda>e s. set_next e 0 (set_prev e 0 s)) es u) = main_thread u" for es and u :: "'a tstate_scheme"
    by (induction es arbitrary: u) (simp_all add: set_prev_def set_next_def)
  then show "mem (clear_thread p s) = mem s" "main_thread (clear_thread p s) = main_thread s"
    by (simp_all add: clear_thread_def)
qed

lemma fd_values:
  "fold (\<lambda>i tab. if i < 8 then tab[i := - 1] else tab) [3..<32] ((replicate 8 0)[0 := 0, Suc 0 := 1, Suc 0 := 2]) =
    [0, 2, 0, - 1, - 1, - 1, - 1, - 1 :: u32]"
proof -
  have u: "[3..<32::nat] = [3, 4, 5, 6, 7] @ [8..<32]" by (simp add: upt_rec)
  have "fold (\<lambda>i tab. if i < 8 then tab[i := - 1] else tab) xs tab = tab" if "\<forall>i \<in> set xs. 8 \<le> i"
    for xs and tab :: "u32 list"
    using that by (induction xs) auto
  then have "fold (\<lambda>i tab. if i < 8 then tab[i := - 1] else tab) [8..<32] tab = tab" for tab :: "u32 list"
    by simp
  moreover have "(replicate 8 0)[0 := 0, Suc 0 := 1, Suc 0 := 2] = [0, 2, 0, 0, 0, 0, 0, 0 :: u32]"
    by (simp add: numeral_eq_Suc)
  ultimately show ?thesis unfolding u by simp
qed

lemma Thread_init_eq:
  assumes "cstring (mem s) name cs" "length cs < 16"
  shows "\<exists>s' t. Thread_init p name prio s = Inr s' \<and> threads s' p = t \<and>
    status t = (if p = main_thread s then TASK_RUNNING else TASK_READY) \<and> self_kstack t = p + 4096 \<and>
    priority t = ucast prio \<and> ticks_left t = ucast prio \<and> stack_magic t = 0x19870916 \<and>
    fd_table t = [0, 2, 0, - 1, - 1, - 1, - 1, - 1] \<and> pgdir t = - 1"
proof -
  have "unat (of_nat (length cs) :: u32) = length cs" using assms(2) by (simp add: unat_of_nat)
  then have n: "copy_name p name (clear_thread p s) =
      Inr (upd_thread p (\<lambda>t. t\<lparr>tname := bytes (mem s) name (length cs) @ drop (length cs) (tname t)\<rparr>) (clear_thread p s))"
    using assms by (simp add: copy_name_def clear_thread_mem strlen_eq)
  define xs where "xs = [3..<32 :: nat]"
  define u where "u = store_fd p 1 2 (store_fd p 1 1 (store_fd p 0 0
    (upd_thread p (\<lambda>t. t\<lparr>self_kstack := p + 4096, priority := ucast prio, ticks_left := ucast prio,
                 elapsed_ticks := 0, pgdir := NULL, stack_magic := 0x19870916\<rparr>)
      (upd_thread p (\<lambda>t. t\<lparr>status := if p = main_thread s then TASK_RUNNING else TASK_READY\<rparr>)
        (upd_thread p (\<lambda>t. t\<lparr>tname := bytes (mem s) name (length cs) @ drop (length cs) (tname t)\<rparr>)
          (clear_thread p s))))))"
  have r: "Thread_init p name prio s = Inr (fold (\<lambda>i. store_fd p i (- 1)) xs u)"
    unfolding Thread_init_def n bind_res_simps Let_def u_def xs_def
    by (simp only: upd_thread_other clear_thread_mem)
  have u: "status (threads u p) = (if p = main_thread s then TASK_RUNNING else TASK_READY)"
    "self_kstack (threads u p) = p + 4096" "priority (threads u p) = ucast prio"
    "ticks_left (threads u p) = ucast prio" "stack_magic (threads u p) = 0x19870916"
    "fd_table (threads u p) = (replicate 8 0)[0 := 0, Suc 0 := 1, Suc 0 := 2]"
    by (simp_all add: u_def store_fd_def clear_thread_thread zero_thread_def)
  have "12 \<in> set xs" by (simp add: xs_def)
  moreover have "fold (\<lambda>i tab. if i < 8 then tab[i := - 1] else tab) xs (fd_table (threads u p)) =
      [0, 2, 0, - 1, - 1, - 1, - 1, - 1]"
    unfolding u xs_def by (rule fd_values)
  ultimately show ?thesis
    by (simp add: r fold_fd_thread fold_fd_pgdir fold_fd_table u)
qed

section \<open>A new thread's stack\<close>

lemma page_offset:
  fixes p k :: u32
  assumes "p AND 0xfffff000 = p" "k < 0x1000"
  shows "(p + k) AND 0xfffff000 = p"
proof -
  have p: "\<not> bit p n" if "n < 12" for n
  proof -
    have "bit p n = bit (p AND 0xfffff000) n" by (simp only: assms(1))
    then show ?thesis using that unfolding bit_and_iff page_mask_bit by simp
  qed
  have k: "\<not> bit k n" if "12 \<le> n" for n
  proof -
    have "unat (take_bit 12 k) = unat k"
      using assms(2) by (simp add: unsigned_take_bit_eq take_bit_nat_eq_self word_less_nat_alt)
    then have "take_bit 12 k = k" by (metis of_nat_unat_id)
    then show ?thesis using that bit_take_bit_iff [of 12 k n] by auto
  qed
  have e: "p + k = p OR k"
  proof (rule disjunctive_add)
    fix n show "\<not> bit p n \<or> \<not> bit k n" using p [of n] k [of n] by (cases "n < 12") auto
  qed
  show ?thesis unfolding e
  proof (rule bit_word_eqI)
    fix n assume "n < LENGTH(32)"
    then show "bit ((p OR k) AND 0xfffff000) n = bit p n"
      using p [of n] k [of n] unfolding bit_and_iff bit_or_iff page_mask_bit by (cases "n < 12") auto
  qed
qed

lemma read_write32_next: "read32 (write32 (a + 4) v m) a = read32 m a"
  by (simp add: read32_def write32_def add.assoc)

lemma Thread_create_eq:
  fixes p fn arg :: u32 and s :: "'a tstate_scheme"
  assumes "p AND 0xfffff000 = p" "self_kstack (threads s p) = p + 4096"
  defines "s' \<equiv> Thread_create p fn arg s"
  defines "esp \<equiv> ctx_esp (context_of (threads s' p))"
  shows "at_home s' p" "esp = p + 4008" "ctx_eip (context_of (threads s' p)) = entry_code s"
    "read32 (mem s') (esp + 4) = fn" "read32 (mem s') (esp + 8) = arg"
proof -
  show esp: "esp = p + 4008"
    by (simp add: esp_def s'_def Thread_create_def Let_def assms(2))
  show "at_home s' p" using page_offset [OF assms(1), of 4008] esp by (simp add: at_home_def esp_def)
  show "ctx_eip (context_of (threads s' p)) = entry_code s"
    by (simp add: s'_def Thread_create_def Let_def)
  have m: "mem s' = write32 (p + 4016) arg (write32 (p + 4012) fn (mem s))"
    by (simp add: s'_def Thread_create_def Let_def assms(2) add.commute [of _ p])
  show "read32 (mem s') (esp + 8) = arg" unfolding m esp using read_write32 [of "p + 4016" arg] by (simp add: add.commute [of _ p])
  show "read32 (mem s') (esp + 4) = fn"
    unfolding m esp using read_write32 [of "p + 4012" fn] read_write32_next [of "p + 4012"]
    by (simp add: add.commute [of _ p])
qed

subsection \<open>Components the scheduler does not know\<close>

text \<open>Records that extend \<open>tstate\<close>: what comes after its fields is left alone.\<close>

lemma list_more [simp]:
  "tstate.more (list_append l e s) = tstate.more s" "tstate.more (list_push l e s) = tstate.more s"
  "tstate.more (list_remove e s) = tstate.more s" "tstate.more (snd (list_pop l s)) = tstate.more s"
  by (simp_all add: list_append_def list_push_def list_insert_before_eq list_pop_def list_remove_eq Let_def)

lemma flags_more [simp]:
  "tstate.more (snd (intr_disable s)) = tstate.more s" "tstate.more (snd (set_intr_status st s)) = tstate.more s"
  "tstate.more (upd_thread p f s) = tstate.more s" "tstate.more (process_activate p s) = tstate.more s"
  "tstate.more (switch_to p r s) = tstate.more s"
  by (simp_all add: intr_disable_def set_intr_status_def intr_enable_def cli_def sti_def upd_thread_def
      process_activate_def page_dir_activate_def update_tss_esp_def switch_to_def Let_def)

lemma thread_unblock_more:
  assumes "thread_unblock p s = Inr s'"
  shows "tstate.more s' = tstate.more s"
proof -
  obtain e where "intr_disable s = (get_intr_status s, s\<lparr>eflags := e\<rparr>)" by (rule intr_disable_cases)
  then show ?thesis using assms by (auto simp: thread_unblock_def Let_def res_iffs split: if_splits)
qed

lemma schedule_more:
  assumes "schedule s = Inr s'"
  shows "tstate.more s' = tstate.more s"
proof -
  obtain t u where t: "requeue (running_thread s) s = Inr t"
    and u: "(if list_empty (ready_list t) t then thread_unblock (idle_thread t) t else Inr t) = Inr u"
    and s': "s' = dispatch (running_thread s) u"
    using assms by (auto simp: schedule_def Let_def res_iffs)
  have "tstate.more t = tstate.more s" using t by (auto simp: requeue_def res_iffs split: if_splits)
  moreover have "tstate.more u = tstate.more t" using u thread_unblock_more by (auto split: if_splits)
  moreover have "tstate.more s' = tstate.more u"
    by (simp add: s' dispatch_def Let_def split_beta)
  ultimately show ?thesis by simp
qed

lemma thread_block_more:
  assumes "thread_block stat s = Inr (st, s')"
  shows "tstate.more s' = tstate.more s" "st = get_intr_status s"
proof -
  obtain e where "intr_disable s = (get_intr_status s, s\<lparr>eflags := e\<rparr>)" by (rule intr_disable_cases)
  then have "schedule (upd_thread (running_thread s) (\<lambda>t. t\<lparr>status := stat\<rparr>) (s\<lparr>eflags := e\<rparr>)) = Inr s' \<and>
      st = get_intr_status s"
    using assms by (auto simp: thread_block_def Let_def res_iffs)
  then show "tstate.more s' = tstate.more s" "st = get_intr_status s" by (auto dest: schedule_more)
qed

text \<open>Nor does the scheduler touch a device.\<close>

lemma list_ports [simp]:
  "port_writes (list_append l e s) = port_writes s" "port_writes (list_push l e s) = port_writes s"
  "port_writes (list_remove e s) = port_writes s" "port_writes (snd (list_pop l s)) = port_writes s"
  "port_inputs (list_append l e s) = port_inputs s" "port_inputs (list_push l e s) = port_inputs s"
  "port_inputs (list_remove e s) = port_inputs s" "port_inputs (snd (list_pop l s)) = port_inputs s"
  by (simp_all add: list_append_def list_push_def list_insert_before_eq list_pop_def list_remove_eq Let_def)

lemma flags_ports [simp]:
  "port_writes (snd (intr_disable s)) = port_writes s" "port_writes (snd (set_intr_status st s)) = port_writes s"
  "port_writes (process_activate p t) = port_writes t" "port_writes (switch_to p r t) = port_writes t"
  "port_inputs (snd (intr_disable s)) = port_inputs s" "port_inputs (snd (set_intr_status st s)) = port_inputs s"
  "port_inputs (process_activate p t) = port_inputs t" "port_inputs (switch_to p r t) = port_inputs t"
  by (simp_all add: intr_disable_def set_intr_status_def intr_enable_def cli_def sti_def upd_thread_def
      process_activate_def page_dir_activate_def update_tss_esp_def switch_to_def Let_def)

lemma thread_unblock_ports:
  assumes "thread_unblock p s = Inr s'"
  shows "port_writes s' = port_writes s" "port_inputs s' = port_inputs s"
proof -
  obtain e where "intr_disable s = (get_intr_status s, s\<lparr>eflags := e\<rparr>)" by (rule intr_disable_cases)
  then show "port_writes s' = port_writes s" "port_inputs s' = port_inputs s"
    using assms by (auto simp: thread_unblock_def Let_def res_iffs split: if_splits)
qed

lemma schedule_ports:
  assumes "schedule s = Inr s'"
  shows "port_writes s' = port_writes s" "port_inputs s' = port_inputs s"
proof -
  obtain t u where t: "requeue (running_thread s) s = Inr t"
    and u: "(if list_empty (ready_list t) t then thread_unblock (idle_thread t) t else Inr t) = Inr u"
    and s': "s' = dispatch (running_thread s) u"
    using assms by (auto simp: schedule_def Let_def res_iffs)
  have "port_writes t = port_writes s" "port_inputs t = port_inputs s"
    using t by (auto simp: requeue_def res_iffs split: if_splits)
  moreover have "port_writes u = port_writes t" "port_inputs u = port_inputs t"
    using u thread_unblock_ports by (auto split: if_splits)
  moreover have "port_writes s' = port_writes u" "port_inputs s' = port_inputs u"
    by (simp_all add: s' dispatch_def Let_def split_beta)
  ultimately show "port_writes s' = port_writes s" "port_inputs s' = port_inputs s" by simp_all
qed

lemma thread_block_ports:
  assumes "thread_block stat s = Inr (st, s')"
  shows "port_writes s' = port_writes s" "port_inputs s' = port_inputs s"
proof -
  obtain e where "intr_disable s = (get_intr_status s, s\<lparr>eflags := e\<rparr>)" by (rule intr_disable_cases)
  then have "schedule (upd_thread (running_thread s) (\<lambda>t. t\<lparr>status := stat\<rparr>) (s\<lparr>eflags := e\<rparr>)) = Inr s'"
    using assms by (auto simp: thread_block_def Let_def res_iffs)
  then show "port_writes s' = port_writes s" "port_inputs s' = port_inputs s" by (auto dest: schedule_ports)
qed

section \<open>Properties\<close>

text \<open>C5. \<^verbatim>\<open>schedule\<close> refines the abstract scheduler: on every well-formed state
  with interrupts off it returns; the thread \<open>pick\<close> chooses runs (the head of the ready queue, the
  running thread itself when it is alone, the idle thread when nothing can run), the queue is the one
  \<open>pick\<close> leaves, and the state is well formed again.\<close>

theorem schedule_refines_pick:
  assumes "get_intr_status s = INTR_OFF" "sched_inv T st s q" "st = TASK_RUNNING \<or> asleep st"
  shows "\<exists>s'. schedule s = Inr s' \<and>
    running_thread s' = fst (pick (st = TASK_RUNNING) (idle_thread s) (running_thread s) q) \<and>
    sched_inv T TASK_RUNNING s' (snd (pick (st = TASK_RUNNING) (idle_thread s) (running_thread s) q))"
  using schedule_eq [OF assms] by auto

text \<open>Three threads: one runs, the idle thread is asleep, one is ready.\<close>

definition sample_thread :: "task_status \<Rightarrow> u32 \<Rightarrow> thread_struct" where
  "sample_thread st sp = zero_thread\<lparr>status := st, priority := 31, stack_magic := 0x19870916,
     context_of := (context_of zero_thread)\<lparr>ctx_esp := sp\<rparr>\<rparr>"

definition sample_sched :: tstate where
  "sample_sched = list_append 0x100 0x3005c (list_init 0x100
     \<lparr>eflags = 0x002, port_writes = [], port_inputs = (\<lambda>_ _. 0), entries = (\<lambda>_. \<lparr>le_prev = 0, le_next = 0\<rparr>), mem = (\<lambda>_. 0), pt = (\<lambda>_. 0),
      threads = (\<lambda>p. if p = 0x10000 then sample_thread TASK_RUNNING 0
                     else if p = 0x20000 then sample_thread TASK_BLOCKED 0x20f00
                     else sample_thread TASK_READY 0x30f00),
      regs = (context_of zero_thread)\<lparr>ctx_esp := 0x10f00\<rparr>,
      cr3 = 0x100000, tss_esp0 = 0, ticks = 0, main_thread = 0x10000, idle_thread = 0x20000, thread_tag = 0,
      ready_list = 0x100, all_list = 0x200, entry_code = 0\<rparr>)"

lemma sample_sched_fields:
  "get_intr_status sample_sched = INTR_OFF" "ready_list sample_sched = 0x100"
  "running_thread sample_sched = 0x10000" "idle_thread sample_sched = 0x20000"
  "stack_magic (threads sample_sched 0x10000) = 0x19870916" "ticks_left (threads sample_sched 0x10000) = 0"
  by (simp_all add: sample_sched_def list_append_def list_init_eq list_insert_before_eq get_intr_status_def
      EFLAGS_IF_def running_thread_def sample_thread_def zero_thread_def)

lemma sample_sched_inv: "sched_inv {0x10000, 0x20000, 0x30000} TASK_RUNNING sample_sched [0x30000]"
proof -
  have "holds 0x100 sample_sched ([] @ [0x3005c])"
    unfolding sample_sched_def by (rule holds_append [OF holds_init]) (simp_all add: slot_def tailer_def)
  then have "ready sample_sched [0x30000]"
    by (simp add: ready_def sample_sched_fields general_tag_def)
  moreover have "threads sample_sched p = (if p = 0x10000 then sample_thread TASK_RUNNING 0
                     else if p = 0x20000 then sample_thread TASK_BLOCKED 0x20f00
                     else sample_thread TASK_READY 0x30f00)" for p
    by (simp add: sample_sched_def list_append_def list_init_eq list_insert_before_eq)
  ultimately show ?thesis
    by (simp add: sched_inv_def sample_sched_fields queueable_def slot_def tailer_def general_tag_def
        at_home_def sample_thread_def asleep_def)
qed

theorem schedule_refines_pick_witness:
  "\<exists>s'. schedule sample_sched = Inr s' \<and> running_thread s' = 0x30000"
  using schedule_refines_pick [OF sample_sched_fields(1) sample_sched_inv] 
  by (auto simp: pick_def sample_sched_fields)

text \<open>C4. In every state the system reaches from a well-formed one, by any sequence of blocking,
  yielding, clock interrupts, wake-ups and resumptions, the ready list is a well-formed queue of ready
  threads, every other thread is asleep, and exactly the running thread has status
  \<^verbatim>\<open>TASK_RUNNING\<close>.\<close>

theorem scheduler_invariant:
  assumes "(kstep T)\<^sup>*\<^sup>* s s'" "sched_inv T TASK_RUNNING s q"
  shows "\<exists>q'. sched_inv T TASK_RUNNING s' q' \<and>
    (\<forall>p \<in> T. status (threads s' p) = TASK_RUNNING \<longleftrightarrow> p = running_thread s')"
  using ksteps_inv [OF assms(1)] assms(2) sched_inv_running by blast

theorem scheduler_invariant_witness:
  "\<exists>s' q'. thread_yield sample_sched = Inr (INTR_OFF, s') \<and>
     sched_inv {0x10000, 0x20000, 0x30000} TASK_RUNNING s' q'"
proof -
  obtain s' where y: "thread_yield sample_sched = Inr (INTR_OFF, s')"
    using thread_yield_eq [OF sample_sched_inv] sample_sched_fields(1) by auto
  then have "(kstep {0x10000, 0x20000, 0x30000})\<^sup>*\<^sup>* sample_sched s'" by (auto intro: kyield)
  from scheduler_invariant [OF this sample_sched_inv] y show ?thesis by blast
qed

text \<open>C22. Round robin: yielding \<open>n\<close> times always succeeds, and the thread that then runs is the one
  \<open>n\<close> places behind the first running thread, so no ready thread waits for more than a full round.\<close>

theorem yields_round_robin:
  assumes "sched_inv T TASK_RUNNING s q" "n \<le> length q"
  shows "\<exists>s'. yields n s = Inr s' \<and> running_thread s' = (running_thread s # q) ! n"
proof -
  have "hd (rotate n (running_thread s # q)) = (running_thread s # q) ! n"
    using assms(2) by (subst hd_rotate_conv_nth) simp_all
  then show ?thesis using yields_eq [OF assms(1), of n] by auto
qed

theorem yields_round_robin_witness:
  "\<exists>s'. yields 1 sample_sched = Inr s' \<and> running_thread s' = 0x30000"
  using yields_round_robin [OF sample_sched_inv, of 1] by simp

text \<open>A thread that is woken up runs next: after \<^verbatim>\<open>thread_unblock\<close>, which
  changes neither the running thread nor the interrupt flag, the next switch runs the woken thread.\<close>

theorem unblocked_runs_next:
  assumes "sched_inv T TASK_RUNNING s q" "p \<in> T" "p \<noteq> running_thread s" "p \<notin> set q" "asleep stat"
  shows "\<exists>s1 s2. thread_unblock p s = Inr s1 \<and> eflags s1 = eflags s \<and> running_thread s1 = running_thread s \<and>
    thread_block stat s1 = Inr (get_intr_status s, s2) \<and> running_thread s2 = p \<and>
    sched_inv T TASK_RUNNING s2 q"
proof -
  obtain s1 where s1: "thread_unblock p s = Inr s1" "running_thread s1 = running_thread s"
    "sched_inv T TASK_RUNNING s1 (p # q)" "eflags s1 = eflags s"
    using thread_unblock_inv [OF assms(1-4)] by auto
  then have "get_intr_status s1 = get_intr_status s" by (simp add: get_intr_status_def)
  with thread_block_eq [OF s1(3) assms(5)] s1 show ?thesis by (auto simp: pick_def)
qed

theorem unblocked_runs_next_witness:
  "\<exists>s1 s2. thread_unblock 0x20000 sample_sched = Inr s1 \<and>
     thread_block TASK_WAITING s1 = Inr (INTR_OFF, s2) \<and> running_thread s2 = 0x20000"
  using unblocked_runs_next [OF sample_sched_inv, of "0x20000" TASK_WAITING]
  by (auto simp: sample_sched_fields asleep_def)

text \<open>A clock interrupt counts the tick, and takes the processor away from the running thread
  exactly when its time slice is used up; the thread goes to the end of the queue.\<close>

theorem timer_preempts:
  assumes "sched_inv T TASK_RUNNING s q" "get_intr_status s = INTR_OFF"
    and "stack_magic (threads s (running_thread s)) = 0x19870916"
  defines "nx \<equiv> if ticks_left (threads s (running_thread s)) = 0
                then pick True (idle_thread s) (running_thread s) q else (running_thread s, q)"
  shows "\<exists>s'. timer_intr_handler s = Inr s' \<and> ticks s' = ticks s + 1 \<and>
    running_thread s' = fst nx \<and> sched_inv T TASK_RUNNING s' (snd nx)"
  using timer_eq [OF assms(1-3)] unfolding nx_def by blast

theorem timer_preempts_witness:
  "\<exists>s'. timer_intr_handler sample_sched = Inr s' \<and> running_thread s' = 0x30000"
  using timer_preempts [OF sample_sched_inv] by (auto simp: sample_sched_fields pick_def)

text \<open>A new thread starts in \<^verbatim>\<open>kernel_thread_entry\<close> with its function and its
  argument where the C calling convention looks for them, on a stack inside its own page, so that
  \<^verbatim>\<open>running_thread\<close> finds it.\<close>

theorem Thread_create_frame:
  assumes "p AND 0xfffff000 = p" "self_kstack (threads s p) = p + 4096"
  shows "at_home (Thread_create p fn arg s) p \<and>
    ctx_eip (context_of (threads (Thread_create p fn arg s) p)) = entry_code s \<and>
    read32 (mem (Thread_create p fn arg s)) (ctx_esp (context_of (threads (Thread_create p fn arg s) p)) + 4) = fn \<and>
    read32 (mem (Thread_create p fn arg s)) (ctx_esp (context_of (threads (Thread_create p fn arg s) p)) + 8) = arg"
  using Thread_create_eq [OF assms] by simp

theorem Thread_create_frame_witness:
  "at_home (Thread_create 0x10000 0xc0001500 7
     (upd_thread 0x10000 (\<lambda>t. t\<lparr>self_kstack := 0x11000\<rparr>) sample_sched)) 0x10000"
  using Thread_create_frame [of "0x10000" "upd_thread 0x10000 (\<lambda>t. t\<lparr>self_kstack := 0x11000\<rparr>) sample_sched" "0xc0001500" 7]
  by simp

text \<open>\<^verbatim>\<open>Thread_init\<close> overruns \<^verbatim>\<open>fd_table\<close>: its loop runs to
  the file system's limit of 32, the table has 8 slots, and \<^verbatim>\<open>pgdir\<close>, set to
  \<^verbatim>\<open>NULL\<close> a few lines before, ends as \<open>- 1\<close>; descriptor 2 stays 0 because slot 1 is
  set twice.\<close>

theorem Thread_init_overruns:
  assumes "cstring (mem s) name cs" "length cs < 16"
  shows "\<exists>s' t. Thread_init p name prio s = Inr s' \<and> threads s' p = t \<and>
    status t = (if p = main_thread s then TASK_RUNNING else TASK_READY) \<and> self_kstack t = p + 4096 \<and>
    priority t = ucast prio \<and> ticks_left t = ucast prio \<and> stack_magic t = 0x19870916 \<and>
    fd_table t = [0, 2, 0, - 1, - 1, - 1, - 1, - 1] \<and> pgdir t = - 1"
  using assms by (rule Thread_init_eq)

theorem Thread_init_overruns_witness:
  "\<exists>s'. Thread_init 0x40000 0x500 31 (sample_sched\<lparr>mem := placed 0x500 [0x69, 0]\<rparr>) = Inr s' \<and>
     pgdir (threads s' 0x40000) = - 1"
  using Thread_init_overruns [of "sample_sched\<lparr>mem := placed 0x500 [0x69, 0]\<rparr>" "0x500" "[0x69]" "0x40000" 31]
  by (auto simp: placed_def)

end
