(* ===== verification/Sync.thy ===== *)
theory Sync
  imports Scheduler
begin

text \<open>
  \<^verbatim>\<open>kernel/spinlock.c\<close> and \<^verbatim>\<open>kernel/sync.c\<close>: spin locks,
  re-entrant locks and semaphores, keyed by their addresses. A \<^verbatim>\<open>struct lock\<close> starts with
  its spin lock; the waiters of a semaphore are the list at offset 4. There is one processor and the
  spinning loop runs with interrupts off, so a loop that finds the lock taken never ends. A call that blocks
  the running thread returns what its stack frame keeps; the code behind the block is a definition of its own.
\<close>

section \<open>The code\<close>

record lock =
  locked :: u32
  holder :: u32
  number_of :: u32

record sstate = tstate +
  locks :: "u32 \<Rightarrow> lock"
  semas :: "u32 \<Rightarrow> u8"

definition upd_lock :: "u32 \<Rightarrow> (lock \<Rightarrow> lock) \<Rightarrow> 'a sstate_scheme \<Rightarrow> 'a sstate_scheme" where
  "upd_lock lk f s = s\<lparr>locks := (locks s)(lk := f (locks s lk))\<rparr>"

subsection \<open>Spin locks\<close>

definition spinlock_init :: "u32 \<Rightarrow> 'a sstate_scheme \<Rightarrow> 'a sstate_scheme" where
  "spinlock_init lk s = upd_lock lk (\<lambda>l. l\<lparr>locked := 0\<rparr>) s"

definition holding :: "u32 \<Rightarrow> 'a sstate_scheme \<Rightarrow> u32" where
  "holding lk s = locked (locks s lk)"

definition pushcli :: "'a sstate_scheme \<Rightarrow> 'a sstate_scheme" where
  "pushcli s = cli s"

definition popcli :: "'a sstate_scheme \<Rightarrow> 'a sstate_scheme" where
  "popcli s = sti s"

definition xchg_locked :: "u32 \<Rightarrow> u32 \<Rightarrow> 'a sstate_scheme \<Rightarrow> u32 \<times> 'a sstate_scheme" where
  "xchg_locked lk newval s = (locked (locks s lk), upd_lock lk (\<lambda>l. l\<lparr>locked := newval\<rparr>) s)"

definition spinlock_acquire :: "u32 \<Rightarrow> 'a sstate_scheme \<Rightarrow> 'a sstate_scheme res" where
  "spinlock_acquire lk s =
     (let s = pushcli s
      in if holding lk s \<noteq> 0 then Inl (Panic ''acquire'')
         else let (old, s) = xchg_locked lk 1 s
              in if old \<noteq> 0 then Inl Diverge else Inr s)"

definition spinlock_release :: "u32 \<Rightarrow> 'a sstate_scheme \<Rightarrow> 'a sstate_scheme res" where
  "spinlock_release lk s =
     (if holding lk s = 0 then Inl (Panic ''release'')
      else Inr (popcli (snd (xchg_locked lk 0 s))))"

subsection \<open>Locks\<close>

definition lock_init :: "u32 \<Rightarrow> 'a sstate_scheme \<Rightarrow> 'a sstate_scheme" where
  "lock_init lk s = spinlock_init lk (upd_lock lk (\<lambda>l. l\<lparr>holder := NULL, number_of := 0\<rparr>) s)"

definition lock_acquire :: "u32 \<Rightarrow> 'a sstate_scheme \<Rightarrow> 'a sstate_scheme res" where
  "lock_acquire lk s =
     (if holder (locks s lk) \<noteq> running_thread s then
        bind_res (spinlock_acquire lk s) (\<lambda>s.
          let s = upd_lock lk (\<lambda>l. l\<lparr>holder := running_thread s\<rparr>) s
          in assert_res ''lk->number == 0'' (number_of (locks s lk) = 0)
               (Inr (upd_lock lk (\<lambda>l. l\<lparr>number_of := 1\<rparr>) s)))
      else Inr (upd_lock lk (\<lambda>l. l\<lparr>number_of := number_of l + 1\<rparr>) s))"

definition lock_release :: "u32 \<Rightarrow> 'a sstate_scheme \<Rightarrow> 'a sstate_scheme res" where
  "lock_release lk s =
     assert_res ''lk->holder == running_thread()'' (holder (locks s lk) = running_thread s)
       (if 1 < number_of (locks s lk) then Inr (upd_lock lk (\<lambda>l. l\<lparr>number_of := number_of l - 1\<rparr>) s)
        else assert_res ''lk->number == 1'' (number_of (locks s lk) = 1)
               (spinlock_release lk (upd_lock lk (\<lambda>l. l\<lparr>holder := NULL, number_of := 0\<rparr>) s)))"

subsection \<open>Semaphores\<close>

definition waiters :: "u32 \<Rightarrow> u32" where
  "waiters sema = sema + 4"

definition set_sema :: "u32 \<Rightarrow> u8 \<Rightarrow> 'a sstate_scheme \<Rightarrow> 'a sstate_scheme" where
  "set_sema sema v s = s\<lparr>semas := (semas s)(sema := v)\<rparr>"

definition sema_init :: "u32 \<Rightarrow> u8 \<Rightarrow> 'a sstate_scheme \<Rightarrow> 'a sstate_scheme" where
  "sema_init sema value s = list_init (waiters sema) (set_sema sema value s)"

text \<open>The loop of \<^verbatim>\<open>sema_down\<close>: \<open>None\<close> when it returned, \<open>Some st\<close> when the thread
  blocked and \<open>st\<close> is the interrupt status \<^verbatim>\<open>thread_block\<close> will restore.\<close>

definition sema_down_loop :: "u32 \<Rightarrow> intr_status \<Rightarrow> 'a sstate_scheme \<Rightarrow>
    (intr_status option \<times> 'a sstate_scheme) res" where
  "sema_down_loop sema old_status s =
     (if semas s sema = 0 then
        bind_res (of_loop (list_find (waiters sema) (general_tag (running_thread s)) s)) (\<lambda>found.
        assert_res ''!list_find(&sema->waiters, &running_thread()->general_tag)'' (\<not> found)
          (if found then Inl (Panic ''sema_down: thread blocked has been in waiter list'')
           else bind_res (thread_block TASK_BLOCKED
                  (list_append (waiters sema) (general_tag (running_thread s)) s))
                  (\<lambda>(st, s). Inr (Some st, s))))
      else
        let s = set_sema sema (semas s sema - 1) s
        in assert_res ''sema->value == 0'' (semas s sema = 0)
             (Inr (None, snd (set_intr_status old_status s))))"

definition sema_down :: "u32 \<Rightarrow> 'a sstate_scheme \<Rightarrow>
    (intr_status \<times> intr_status option \<times> 'a sstate_scheme) res" where
  "sema_down sema s =
     (let (old_status, s) = intr_disable s
      in bind_res (sema_down_loop sema old_status s) (\<lambda>(blocked, s). Inr (old_status, blocked, s)))"

definition sema_down_resume :: "u32 \<Rightarrow> intr_status \<Rightarrow> intr_status \<Rightarrow> 'a sstate_scheme \<Rightarrow>
    (intr_status option \<times> 'a sstate_scheme) res" where
  "sema_down_resume sema old_status st s = sema_down_loop sema old_status (thread_block_resume st s)"

definition sema_up :: "u32 \<Rightarrow> 'a sstate_scheme \<Rightarrow> 'a sstate_scheme res" where
  "sema_up sema s =
     (let (old_status, s) = intr_disable s
      in assert_res ''sema->value == 0'' (semas s sema = 0)
           (bind_res
             (if \<not> list_empty (waiters sema) s then
                let (tag, s) = list_pop (waiters sema) s in thread_unblock (thread_of_tag tag) s
              else Inr s)
             (\<lambda>s. let s = set_sema sema (semas s sema + 1) s
                   in assert_res ''sema->value == 1'' (semas s sema = 1)
                        (Inr (snd (set_intr_status old_status s))))))"

section \<open>Locks: what they promise\<close>

text \<open>\<open>lock_ok\<close>: the three fields agree. \<open>depth\<close>: how many acquisitions of the running thread are
  not yet released.\<close>

definition lock_ok :: "lock \<Rightarrow> bool" where
  "lock_ok l \<longleftrightarrow> (if locked l = 0 then holder l = NULL \<and> number_of l = 0
                  else locked l = 1 \<and> holder l \<noteq> NULL \<and> number_of l \<noteq> 0)"

definition depth :: "u32 \<Rightarrow> 'a sstate_scheme \<Rightarrow> nat" where
  "depth lk s = (if holder (locks s lk) = running_thread s then unat (number_of (locks s lk)) else 0)"

definition available :: "u32 \<Rightarrow> 'a sstate_scheme \<Rightarrow> bool" where
  "available lk s \<longleftrightarrow> lock_ok (locks s lk) \<and> running_thread s \<noteq> NULL \<and>
     (locked (locks s lk) = 0 \<or> holder (locks s lk) = running_thread s)"

lemma upd_lock_simps [simp]:
  "locks (upd_lock lk f s) l = (if l = lk then f (locks s l) else locks s l)"
  "running_thread (upd_lock lk f s) = running_thread s"
  "threads (upd_lock lk f s) = threads s" "entries (upd_lock lk f s) = entries s"
  "eflags (upd_lock lk f s) = eflags s"
  by (simp_all add: upd_lock_def running_thread_def)

lemma flag_simps [simp]:
  "running_thread (cli s) = running_thread s" "running_thread (sti s) = running_thread s"
  "locks (cli s) = locks s" "locks (sti s) = locks s"
  by (simp_all add: cli_def sti_def running_thread_def)

lemma lock_acquire_free:
  assumes "lock_ok (locks s lk)" "locked (locks s lk) = 0" "running_thread s \<noteq> NULL"
  shows "lock_acquire lk s =
    Inr (upd_lock lk (\<lambda>_. \<lparr>locked = 1, holder = running_thread s, number_of = 1\<rparr>) (cli s))"
proof -
  have "locks s lk = \<lparr>locked = 0, holder = NULL, number_of = 0\<rparr>"
    using assms(1,2) by (cases "locks s lk") (simp add: lock_ok_def)
  then show ?thesis using assms(3)
    by (simp add: lock_acquire_def spinlock_acquire_def holding_def pushcli_def xchg_locked_def Let_def
        upd_lock_def cli_def running_thread_def)
qed

lemma lock_acquire_again:
  "holder (locks s lk) = running_thread s \<Longrightarrow>
   lock_acquire lk s = Inr (upd_lock lk (\<lambda>l. l\<lparr>number_of := number_of l + 1\<rparr>) s)"
  by (simp add: lock_acquire_def)

lemma lock_acquire_contended:
  assumes "lock_ok (locks s lk)" "locked (locks s lk) \<noteq> 0" "holder (locks s lk) \<noteq> running_thread s"
  shows "lock_acquire lk s = Inl (Panic ''acquire'')"
  using assms by (simp add: lock_acquire_def spinlock_acquire_def holding_def pushcli_def Let_def)

lemma lock_release_last:
  assumes "lock_ok (locks s lk)" "holder (locks s lk) = running_thread s" "number_of (locks s lk) = 1"
    "running_thread s \<noteq> NULL"
  shows "lock_release lk s = Inr (sti (upd_lock lk (\<lambda>_. \<lparr>locked = 0, holder = NULL, number_of = 0\<rparr>) s))"
proof -
  have "locks s lk = \<lparr>locked = 1, holder = running_thread s, number_of = 1\<rparr>"
    using assms by (cases "locks s lk") (auto simp: lock_ok_def split: if_splits)
  then show ?thesis
    by (simp add: lock_release_def spinlock_release_def holding_def popcli_def xchg_locked_def upd_lock_def)
qed

lemma lock_release_more:
  assumes "holder (locks s lk) = running_thread s" "1 < number_of (locks s lk)"
  shows "lock_release lk s = Inr (upd_lock lk (\<lambda>l. l\<lparr>number_of := number_of l - 1\<rparr>) s)"
  using assms by (simp add: lock_release_def)

subsection \<open>The interface of a re-entrant lock\<close>

locale reentrant =
  fixes ok :: "'s \<Rightarrow> bool"
    and level :: "'s \<Rightarrow> nat"
    and acquire :: "'s \<Rightarrow> 's res"
    and release :: "'s \<Rightarrow> 's res"
    and limit :: nat
  assumes acquire_ok: "ok s \<Longrightarrow> level s < limit \<Longrightarrow> \<exists>s'. acquire s = Inr s' \<and> ok s' \<and> level s' = Suc (level s)"
    and release_ok: "ok s \<Longrightarrow> 0 < level s \<Longrightarrow> \<exists>s'. release s = Inr s' \<and> ok s' \<and> level s' = level s - 1"
begin

lemma acquires_ok: "ok s \<Longrightarrow> level s + n \<le> limit \<Longrightarrow>
  \<exists>s'. repeat_res n acquire s = Inr s' \<and> ok s' \<and> level s' = level s + n"
proof (induction n arbitrary: s)
  case (Suc n)
  then obtain t where t: "acquire s = Inr t" "ok t" "level t = Suc (level s)" using acquire_ok [of s] by auto
  then have "\<exists>s'. repeat_res n acquire t = Inr s' \<and> ok s' \<and> level s' = level t + n" using Suc.prems by (intro Suc.IH) auto
  then show ?case using t by auto
qed simp

lemma releases_ok: "ok s \<Longrightarrow> n \<le> level s \<Longrightarrow>
  \<exists>s'. repeat_res n release s = Inr s' \<and> ok s' \<and> level s' = level s - n"
proof (induction n arbitrary: s)
  case (Suc n)
  then obtain t where t: "release s = Inr t" "ok t" "level t = level s - 1" using release_ok [of s] by auto
  then have "\<exists>s'. repeat_res n release t = Inr s' \<and> ok s' \<and> level s' = level t - n" using Suc.prems by (intro Suc.IH) auto
  then show ?case using t by auto
qed simp

lemma balanced:
  assumes "ok s" "level s + n \<le> limit"
  shows "\<exists>s'. bind_res (repeat_res n acquire s) (repeat_res n release) = Inr s' \<and> ok s' \<and> level s' = level s"
  using acquires_ok [OF assms] releases_ok [of _ n] by fastforce

end

lemma unat_Suc_u32: "unat (x :: u32) < 2 ^ 32 - 1 \<Longrightarrow> unat (x + 1) = Suc (unat x)"
  using unat_add_nowrap [of x 1] by simp

interpretation lk: reentrant "available lk" "depth lk" "lock_acquire lk" "lock_release lk" "2 ^ 32 - 1"
  for lk :: u32
proof
  fix s :: "'a sstate_scheme"
  assume ok: "available lk s" and lim: "depth lk s < 2 ^ 32 - 1"
  show "\<exists>s'. lock_acquire lk s = Inr s' \<and> available lk s' \<and> depth lk s' = Suc (depth lk s)"
  proof (cases "locked (locks s lk) = 0")
    case True
    then have "holder (locks s lk) = NULL" using ok by (simp add: available_def lock_ok_def)
    then show ?thesis using ok True lock_acquire_free [of s lk]
      by (auto simp: available_def depth_def lock_ok_def)
  next
    case False
    then have h: "holder (locks s lk) = running_thread s" using ok by (simp add: available_def)
    have "unat (number_of (locks s lk) + 1) = Suc (unat (number_of (locks s lk)))"
      using lim h by (intro unat_Suc_u32) (simp add: depth_def)
    moreover from this have "number_of (locks s lk) + 1 \<noteq> 0" by (metis nat.distinct(1) unat_0)
    ultimately show ?thesis
      using ok False h lock_acquire_again [OF h] by (auto simp: available_def depth_def lock_ok_def)
  qed
next
  fix s :: "'a sstate_scheme"
  assume ok: "available lk s" and pos: "0 < depth lk s"
  then have h: "holder (locks s lk) = running_thread s" "number_of (locks s lk) \<noteq> 0"
    by (auto simp: depth_def split: if_splits)
  then have l: "locked (locks s lk) = 1" using ok by (auto simp: available_def lock_ok_def split: if_splits)
  show "\<exists>s'. lock_release lk s = Inr s' \<and> available lk s' \<and> depth lk s' = depth lk s - 1"
  proof (cases "number_of (locks s lk) = 1")
    case True
    then show ?thesis using ok h lock_release_last [of s lk]
      by (auto simp: available_def depth_def lock_ok_def)
  next
    case False
    have n: "unat (number_of (locks s lk) - 1) = unat (number_of (locks s lk)) - 1"
      using h(2) by (simp add: unat_minus_one)
    have "1 < unat (number_of (locks s lk))"
    proof -
      have "unat (number_of (locks s lk)) \<noteq> 0" using h(2) by (simp add: unat_eq_0)
      moreover have "unat (number_of (locks s lk)) \<noteq> 1"
      proof
        assume "unat (number_of (locks s lk)) = 1"
        then have "of_nat (unat (number_of (locks s lk))) = (of_nat 1 :: u32)" by (rule arg_cong)
        then show False using False by simp
      qed
      ultimately show ?thesis by linarith
    qed
    then have "1 < number_of (locks s lk)" by (simp add: word_less_nat_alt)
    moreover from this n have "number_of (locks s lk) - 1 \<noteq> 0" by auto
    ultimately show ?thesis
      using ok h l n lock_release_more [OF h(1)] by (auto simp: available_def depth_def lock_ok_def)
  qed
qed

section \<open>Semaphores: what they promise\<close>

lemma set_sema_simps [simp]:
  "semas (set_sema m v s) l = (if l = m then v else semas s l)"
  "running_thread (set_sema m v s) = running_thread s" "eflags (set_sema m v s) = eflags s"
  "entries (set_sema m v s) = entries s" "threads (set_sema m v s) = threads s"
  "sched_inv T st (set_sema m v s) q = sched_inv T st s q"
  by (simp_all add: set_sema_def running_thread_def sched_inv_def ready_def holds_def queueable_def at_home_def)

lemma semas_flag [simp]:
  "semas (s\<lparr>eflags := e\<rparr>) = semas s" "semas (upd_thread p f s) = semas s" "semas (list_push l e s) = semas s"
  "semas (snd (list_pop l s)) = semas s"
  by (simp_all add: upd_thread_def list_push_def list_insert_before_eq list_pop_def list_remove_eq Let_def)

text \<open>Restoring the flag at the end of a critical section.\<close>

lemma restore_flag:
  assumes "intr_disable s = (get_intr_status s, s\<lparr>eflags := e\<rparr>)" "eflags t = e"
  shows "snd (set_intr_status (get_intr_status s) t) = t\<lparr>eflags := eflags s\<rparr>"
  by (rule set_intr_status_restore) (use assms in simp)

lemma sema_down_free:
  assumes "semas s sema = 1"
  shows "sema_down sema s = Inr (get_intr_status s, None, set_sema sema 0 s)"
proof -
  obtain e where d: "intr_disable s = (get_intr_status s, s\<lparr>eflags := e\<rparr>)"
    by (rule intr_disable_cases)
  have "snd (set_intr_status (get_intr_status s) (set_sema sema 0 (s\<lparr>eflags := e\<rparr>))) = set_sema sema 0 s"
    by (subst restore_flag [OF d]) (simp_all add: set_sema_def)
  then show ?thesis using assms by (simp add: sema_down_def sema_down_loop_def d Let_def)
qed

lemma sema_up_nobody:
  assumes "semas s sema = 0" "holds (waiters sema) s []"
  shows "sema_up sema s = Inr (set_sema sema 1 s)"
proof -
  obtain e where d: "intr_disable s = (get_intr_status s, s\<lparr>eflags := e\<rparr>)"
    by (rule intr_disable_cases)
  have "list_empty (waiters sema) (s\<lparr>eflags := e\<rparr>)"
    using assms(2) list_empty_holds [of "waiters sema" "s\<lparr>eflags := e\<rparr>" "[]"] by (simp add: holds_def)
  moreover have "snd (set_intr_status (get_intr_status s) (set_sema sema 1 (s\<lparr>eflags := e\<rparr>))) = set_sema sema 1 s"
    by (subst restore_flag [OF d]) (simp_all add: set_sema_def)
  ultimately show ?thesis using assms by (simp add: sema_up_def d Let_def)
qed

lemma sched_inv_links:
  fixes s :: "'a tstate_scheme" and s' :: "'b tstate_scheme"
  assumes "sched_inv T st s q" "holds (ready_list s) s' (map general_tag q)"
    and "threads s' = threads s" "regs s' = regs s" "ready_list s' = ready_list s" "idle_thread s' = idle_thread s"
  shows "sched_inv T st s' q"
  using assms by (simp add: sched_inv_def ready_def queueable_def at_home_def running_thread_def)

lemma sched_inv_same:
  fixes s :: "'a tstate_scheme" and s' :: "'b tstate_scheme"
  assumes "sched_inv T st s ql" "entries s' = entries s"
    and "threads s' = threads s" "regs s' = regs s" "ready_list s' = ready_list s" "idle_thread s' = idle_thread s"
  shows "sched_inv T st s' ql"
proof -
  have "holds (ready_list s) s' (map general_tag ql)"
    using assms(1,2) by (simp add: sched_inv_def ready_def holds_def)
  from sched_inv_links [OF assms(1) this assms(3-6)] show ?thesis .
qed

text \<open>What \<^verbatim>\<open>sema_up\<close> leaves alone: the locks, the devices and the components that extend the state.\<close>

lemma more_sstate:
  fixes s s' :: "'a sstate_scheme"
  assumes "tstate.more s' = tstate.more s"
  shows "locks s' = locks s" "semas s' = semas s" "sstate.more s' = sstate.more s"
  using assms by (cases s; cases s'; simp)+

lemma set_sema_rest [simp]:
  "locks (set_sema sema v s) = locks s" "sstate.more (set_sema sema v s) = sstate.more s"
  "port_writes (set_sema sema v s) = port_writes s" "port_inputs (set_sema sema v s) = port_inputs s"
  by (simp_all add: set_sema_def)

lemma sema_up_rest:
  fixes s s' :: "'a sstate_scheme"
  assumes "sema_up sema s = Inr s'"
  shows "locks s' = locks s" "sstate.more s' = sstate.more s" "port_writes s' = port_writes s" "port_inputs s' = port_inputs s"
proof -
  obtain e where d: "intr_disable s = (get_intr_status s, s\<lparr>eflags := e\<rparr>)" by (rule intr_disable_cases)
  define u where "u = s\<lparr>eflags := e\<rparr>"
  obtain x where x: "(if \<not> list_empty (waiters sema) u then
        let (tag, s) = list_pop (waiters sema) u in thread_unblock (thread_of_tag tag) s else Inr u) = Inr x"
    and s': "s' = snd (set_intr_status (get_intr_status s) (set_sema sema (semas x sema + 1) x))"
    using assms by (auto simp: sema_up_def d Let_def res_iffs simp flip: u_def)
  have "tstate.more x = tstate.more u \<and> port_writes x = port_writes u \<and> port_inputs x = port_inputs u"
  proof (cases "list_empty (waiters sema) u")
    case False
    obtain tag v where v: "list_pop (waiters sema) u = (tag, v)" by fastforce
    then have "thread_unblock (thread_of_tag tag) v = Inr x" using x False by simp
    note r = thread_unblock_more [OF this] thread_unblock_ports [OF this]
    have "v = snd (list_pop (waiters sema) u)" using v by simp
    then show ?thesis using r by simp
  qed (use x in simp)
  then have m: "tstate.more x = tstate.more s" "port_writes x = port_writes s" "port_inputs x = port_inputs s" by (simp_all add: u_def)
  have f: "tstate.more s' = tstate.more (set_sema sema (semas x sema + 1) x)"
    "port_writes s' = port_writes x" "port_inputs s' = port_inputs x" by (simp_all add: s')
  show "locks s' = locks s" "sstate.more s' = sstate.more s"
    using more_sstate [OF f(1)] more_sstate [OF m(1)] by simp_all
  show "port_writes s' = port_writes s" "port_inputs s' = port_inputs s" using f m by simp_all
qed

lemma sema_up_wakes_eq:
  assumes inv: "sched_inv T TASK_RUNNING s q" and p: "p \<in> T" "p \<noteq> running_thread s" "p \<notin> set q"
    and sema: "semas s sema = 0" and w: "holds (waiters sema) s (general_tag p # ws)"
    and disj: "set (nodes (waiters sema) (general_tag p # ws)) \<inter> set (nodes (ready_list s) (map general_tag q)) = {}"
  shows "\<exists>s'. sema_up sema s = Inr s' \<and> sched_inv T TASK_RUNNING s' (p # q) \<and> semas s' sema = 1 \<and>
    eflags s' = eflags s \<and> running_thread s' = running_thread s"
proof -
  obtain e where d: "intr_disable s = (get_intr_status s, s\<lparr>eflags := e\<rparr>)"
    by (rule intr_disable_cases)
  define u where "u = s\<lparr>eflags := e\<rparr>"
  have uw: "holds (waiters sema) u (general_tag p # ws)" using w by (simp add: u_def holds_def)
  have ne: "\<not> list_empty (waiters sema) u" using list_empty_holds [OF uw] by simp
  define v where "v = snd (list_pop (waiters sema) u)"
  have pop: "list_pop (waiters sema) u = (general_tag p, v)"
    using pop_fst [OF uw] by (simp add: v_def prod_eq_iff)
  have r: "holds (ready_list s) u (map general_tag q)"
    using inv by (simp add: u_def sched_inv_def ready_def holds_def)
  have vr: "v = list_remove (general_tag p) u" using pop by (auto simp: list_pop_def Let_def)
  have "holds (ready_list s) v (map general_tag q)"
    unfolding vr by (rule remove_frame [OF uw r _ disj]) simp
  then have vi: "sched_inv T TASK_RUNNING v q"
    by (rule sched_inv_links [OF inv]) (simp_all add: v_def u_def)
  have run: "running_thread v = running_thread s" by (simp add: v_def u_def running_thread_def)
  obtain x where x: "thread_unblock p v = Inr x" "sched_inv T TASK_RUNNING x (p # q)"
    "eflags x = eflags v" "running_thread x = running_thread v"
    using thread_unblock_inv [OF vi p(1) _ p(3)] p(2) run by auto
  have sx: "semas x = semas s"
  proof -
    have "ready v q" "asleep (status (threads v p))" using vi p run by (auto simp: sched_inv_def)
    then show ?thesis using thread_unblock_eq [of v q p] p(3) x(1) by (auto simp: v_def u_def)
  qed
  have ex: "eflags x = e" using x(3) by (simp add: v_def u_def)
  have "sema_up sema s = Inr ((set_sema sema 1 x)\<lparr>eflags := eflags s\<rparr>)"
    using sema ne x(1) sx restore_flag [OF d, of "set_sema sema 1 x"] ex
    by (simp add: sema_up_def d Let_def pop flip: u_def) (simp add: u_def)
  then show ?thesis using x(2,4) run by simp
qed

section \<open>Properties\<close>

definition sample_sync :: sstate where
  "sample_sync = tstate.extend sample_sched
     \<lparr>locks = (\<lambda>_. \<lparr>locked = 0, holder = NULL, number_of = 0\<rparr>), semas = (\<lambda>_. 1)\<rparr>"

lemma sample_sync_fields [simp]:
  "running_thread sample_sync = 0x10000" "get_intr_status sample_sync = INTR_OFF" "semas sample_sync l = 1"
  "locks sample_sync l = \<lparr>locked = 0, holder = NULL, number_of = 0\<rparr>"
  using sample_sched_fields by (simp_all add: sample_sync_def tstate.defs running_thread_def get_intr_status_def)

text \<open>C23. A lock that is free or held by the running thread is re-entrant: \<open>n\<close> acquisitions followed
  by \<open>n\<close> releases all succeed, and leave a lock whose fields agree and that is held as often as
  before.\<close>

theorem lock_nesting:
  assumes "available lk s" "depth lk s + n \<le> 2 ^ 32 - 1"
  shows "\<exists>s'. bind_res (repeat_res n (lock_acquire lk) s) (repeat_res n (lock_release lk)) = Inr s' \<and>
    available lk s' \<and> depth lk s' = depth lk s"
  using assms by (rule lk.balanced)

theorem lock_nesting_witness:
  "\<exists>s'. bind_res (repeat_res 2 (lock_acquire 0x900) sample_sync) (repeat_res 2 (lock_release 0x900)) = Inr s' \<and>
     depth 0x900 s' = 0"
  using lock_nesting [of "0x900" sample_sync 2]
  by (auto simp: available_def lock_ok_def depth_def)

text \<open>A lock held by another thread is not waited for: \<^verbatim>\<open>lock_acquire\<close> panics.\<close>

theorem lock_contended_panics:
  assumes "lock_ok (locks s lk)" "locked (locks s lk) \<noteq> 0" "holder (locks s lk) \<noteq> running_thread s"
  shows "lock_acquire lk s = Inl (Panic ''acquire'')"
  using assms by (rule lock_acquire_contended)

theorem lock_contended_panics_witness:
  "lock_acquire 0x900 (upd_lock 0x900 (\<lambda>_. \<lparr>locked = 1, holder = 0x20000, number_of = 1\<rparr>) sample_sync) =
     Inl (Panic ''acquire'')"
  using lock_contended_panics
    [of "upd_lock 0x900 (\<lambda>_. \<lparr>locked = 1, holder = 0x20000, number_of = 1\<rparr>) sample_sync" "0x900"]
  by (simp add: lock_ok_def)

text \<open>Taking and releasing a free lock leaves the lock free, but leaves interrupts on
  whatever they were before.\<close>

theorem lock_release_enables_interrupts:
  assumes "lock_ok (locks s lk)" "locked (locks s lk) = 0" "running_thread s \<noteq> NULL"
  shows "\<exists>s'. bind_res (lock_acquire lk s) (lock_release lk) = Inr s' \<and>
    locks s' lk = locks s lk \<and> get_intr_status s' = INTR_ON"
proof -
  have l: "locks s lk = \<lparr>locked = 0, holder = NULL, number_of = 0\<rparr>"
    using assms(1,2) by (cases "locks s lk") (simp add: lock_ok_def)
  let ?t = "upd_lock lk (\<lambda>_. \<lparr>locked = 1, holder = running_thread s, number_of = 1\<rparr>) (cli s)"
  have "lock_release lk ?t = Inr (sti (upd_lock lk (\<lambda>_. \<lparr>locked = 0, holder = NULL, number_of = 0\<rparr>) ?t))"
    by (rule lock_release_last) (use assms(3) in \<open>simp_all add: lock_ok_def\<close>)
  then show ?thesis using lock_acquire_free [OF assms] l by simp
qed

theorem lock_release_enables_interrupts_witness:
  "\<exists>s'. get_intr_status sample_sync = INTR_OFF \<and>
     bind_res (lock_acquire 0x900 sample_sync) (lock_release 0x900) = Inr s' \<and> get_intr_status s' = INTR_ON"
  using lock_release_enables_interrupts [of sample_sync "0x900"] by (auto simp: lock_ok_def)

text \<open>C24. \<^verbatim>\<open>sema_up\<close> wakes the thread that has waited longest: the first waiter
  becomes ready and is next to run, the semaphore is 1, and the running thread and the interrupt flag
  stay.\<close>

theorem sema_up_wakes_first:
  assumes "sched_inv T TASK_RUNNING s q" "p \<in> T" "p \<noteq> running_thread s" "p \<notin> set q"
    and "semas s sema = 0" "holds (waiters sema) s (general_tag p # ws)"
    and "set (nodes (waiters sema) (general_tag p # ws)) \<inter> set (nodes (ready_list s) (map general_tag q)) = {}"
  shows "\<exists>s'. sema_up sema s = Inr s' \<and> sched_inv T TASK_RUNNING s' (p # q) \<and> semas s' sema = 1 \<and>
    eflags s' = eflags s \<and> running_thread s' = running_thread s"
  using assms by (rule sema_up_wakes_eq)

text \<open>The idle thread waits at the semaphore.\<close>

definition sample_waiting :: sstate where
  "sample_waiting = list_append (waiters 0x800) 0x2005c (list_init (waiters 0x800) (set_sema 0x800 0 sample_sync))"

theorem sema_up_wakes_first_witness:
  "\<exists>s'. sema_up 0x800 sample_waiting = Inr s' \<and> semas s' 0x800 = 1 \<and>
     sched_inv {0x10000, 0x20000, 0x30000} TASK_RUNNING s' [0x20000, 0x30000]"
proof -
  let ?i = "list_init (waiters 0x800) (set_sema 0x800 0 sample_sync)"
  have w: "holds (waiters 0x800) sample_waiting ([] @ [0x2005c])"
    unfolding sample_waiting_def
    by (rule holds_append [OF holds_init]) (simp_all add: slot_def tailer_def waiters_def)
  have r0: "holds 0x100 sample_sched [0x3005c]"
    using sample_sched_inv by (simp add: sched_inv_def ready_def sample_sched_fields general_tag_def)
  have "dlist (entries ?i) 0x100 [0x3005c]"
    by (rule dlist_frame [of "entries sample_sched"])
      (use r0 in \<open>auto simp: holds_def list_init_eq init_heap_def nodes_def tailer_def waiters_def
        sample_sync_def tstate.defs set_sema_def\<close>)
  then have i: "holds 0x100 ?i [0x3005c]" by (simp add: holds_def)
  have "holds 0x100 sample_waiting [0x3005c]"
    unfolding sample_waiting_def
    by (rule append_frame [OF holds_init i]) (simp_all add: slot_def tailer_def nodes_def waiters_def)
  moreover have "ready_list sample_waiting = 0x100" "threads sample_waiting = threads sample_sched"
    "regs sample_waiting = regs sample_sched" "idle_thread sample_waiting = idle_thread sample_sched"
    using sample_sched_fields(2)
    by (simp_all add: sample_waiting_def list_append_def list_init_eq list_insert_before_eq set_sema_def
        sample_sync_def tstate.defs)
  ultimately have inv: "sched_inv {0x10000, 0x20000, 0x30000} TASK_RUNNING sample_waiting [0x30000]"
    by (intro sched_inv_links [OF sample_sched_inv]) (simp_all add: sample_sched_fields(2) general_tag_def)
  have "running_thread sample_waiting = 0x10000" using \<open>regs sample_waiting = regs sample_sched\<close> sample_sched_fields(3)
    by (simp add: running_thread_def)
  moreover have "semas sample_waiting 0x800 = 0"
    by (simp add: sample_waiting_def list_append_def list_init_eq list_insert_before_eq)
  ultimately show ?thesis
    using sema_up_wakes_first [OF inv, of "0x20000" "0x800" "[]"] w \<open>ready_list sample_waiting = 0x100\<close>
    by (auto simp: general_tag_def nodes_def tailer_def waiters_def)
qed

end
