(* ===== verification/Console.thy ===== *)
theory Console
  imports Sync Printf_Spec
begin

text \<open>
  \<^verbatim>\<open>kernel/console.c\<close> and \<^verbatim>\<open>kernel/stdio.c\<close>: the text screen and
  formatted output to it. The screen is the 2000 16-bit cells at \<open>crt_buf\<close> in memory. \<open>lit str\<close> is where
  the linker placed the string literal \<open>str\<close>, \<open>console_lock\<close> the address of the lock. The functions
  are refined to a screen that is a list of cells and a cursor position.
\<close>

section \<open>The code\<close>

record ostate = sstate +
  crt_buf :: u32
  crt_pos :: u16
  addr_6845 :: u16
  console_lock :: u32
  lit :: "string \<Rightarrow> u32"

definition write16 :: "u32 \<Rightarrow> u16 \<Rightarrow> bmem \<Rightarrow> bmem" where
  "write16 a v m = m(a := ucast v, a + 1 := ucast (drop_bit 8 v))"

definition read16 :: "bmem \<Rightarrow> u32 \<Rightarrow> u16" where
  "read16 m a = ucast (m a) OR push_bit 8 (ucast (m (a + 1)))"

subsection \<open>console.c\<close>

definition vga_init :: "'a ostate_scheme \<Rightarrow> 'a ostate_scheme" where
  "vga_init s =
     (let s = s\<lparr>crt_buf := 0xc00b8000, addr_6845 := 0x03d4\<rparr>;
          s = outb (addr_6845 s) 0xe s;
          (hi, s) = inb (addr_6845 s + 1) s;
          s = outb (addr_6845 s) 0xf s;
          (lo, s) = inb (addr_6845 s + 1) s
      in s\<lparr>crt_pos := push_bit 8 (ucast hi) OR ucast lo\<rparr>)"

text \<open>\<^verbatim>\<open>crt_buf[i] = v\<close>.\<close>

definition set_cell :: "u16 \<Rightarrow> u16 \<Rightarrow> 'a ostate_scheme \<Rightarrow> 'a ostate_scheme" where
  "set_cell i v s = s\<lparr>mem := write16 (crt_buf s + 2 * ucast i) v (mem s)\<rparr>"

definition vga_char :: "u32 \<Rightarrow> 'a ostate_scheme \<Rightarrow> 'a ostate_scheme" where
  "vga_char c s =
     (let ch = c AND 0xff
      in if ch = 8 then
           (if 0 < crt_pos s then
              let s = s\<lparr>crt_pos := crt_pos s - 1\<rparr> in set_cell (crt_pos s) (ucast ((c AND NOT 0xff) OR 0x20)) s
            else s)
         else if ch = 10 then
           let s = s\<lparr>crt_pos := crt_pos s + 80\<rparr> in s\<lparr>crt_pos := crt_pos s - crt_pos s mod 80\<rparr>
         else if ch = 13 then s\<lparr>crt_pos := crt_pos s - crt_pos s mod 80\<rparr>
         else let s = set_cell (crt_pos s) (ucast c) s in s\<lparr>crt_pos := crt_pos s + 1\<rparr>)"

definition roll :: "'a ostate_scheme \<Rightarrow> 'a ostate_scheme" where
  "roll s =
     (if 2000 \<le> crt_pos s then
        let s = s\<lparr>mem := snd (memmove (crt_buf s) (crt_buf s + 160) 3840 (mem s))\<rparr>;
            s = fold (\<lambda>i. set_cell (of_nat i) 0x0720) [1920..<2000] s
        in s\<lparr>crt_pos := crt_pos s - 80\<rparr>
      else s)"

definition move_cursor :: "'a ostate_scheme \<Rightarrow> 'a ostate_scheme" where
  "move_cursor s =
     outb (addr_6845 s + 1) (ucast (crt_pos s))
       (outb (addr_6845 s) 15
         (outb (addr_6845 s + 1) (ucast (drop_bit 8 (crt_pos s)))
           (outb (addr_6845 s) 14 s)))"

definition vga_putc :: "u32 \<Rightarrow> 'a ostate_scheme \<Rightarrow> 'a ostate_scheme" where
  "vga_putc c s =
     (let c = (if c AND NOT 0xff = 0 then c OR 0x0200 else c)
      in move_cursor (roll (vga_char c s)))"

definition cons_init :: "'a ostate_scheme \<Rightarrow> 'a ostate_scheme" where
  "cons_init s = (let s = vga_init s in lock_init (console_lock s) s)"

definition cons_putc :: "u32 \<Rightarrow> 'a ostate_scheme \<Rightarrow> 'a ostate_scheme" where
  "cons_putc c s = vga_putc c s"

definition cons_putc_lock :: "u32 \<Rightarrow> 'a ostate_scheme \<Rightarrow> 'a ostate_scheme res" where
  "cons_putc_lock c s =
     bind_res (lock_acquire (console_lock s) s) (\<lambda>s. lock_release (console_lock s) (vga_putc c s))"

subsection \<open>stdio.c\<close>

text \<open>The callbacks count in \<^verbatim>\<open>*cnt\<close>, beside the kernel state.\<close>

definition cputch :: "u32 \<Rightarrow> 'a ostate_scheme \<times> u32 \<Rightarrow> ('a ostate_scheme \<times> u32) res" where
  "cputch c sc = (let (s, cnt) = sc in Inr (cons_putc c s, cnt + 1))"

definition cputch_lock :: "u32 \<Rightarrow> 'a ostate_scheme \<times> u32 \<Rightarrow> ('a ostate_scheme \<times> u32) res" where
  "cputch_lock c sc =
     (let (s, cnt) = sc
      in bind_res (lock_acquire (console_lock s) s) (\<lambda>s.
         bind_res (lock_release (console_lock s) (cons_putc c s)) (\<lambda>s. Inr (s, cnt + 1))))"

definition kvprintf :: "u32 \<Rightarrow> u32 list \<Rightarrow> 'a ostate_scheme \<Rightarrow> ('a ostate_scheme \<times> u32) res" where
  "kvprintf fmt ap s =
     bind_res (of_loop (vprintfmt (\<lambda>sc. mem (fst sc)) (lit s) cputch fmt ap (s, 0))) (\<lambda>r. r)"

definition kvprintf_lock :: "u32 \<Rightarrow> u32 list \<Rightarrow> 'a ostate_scheme \<Rightarrow> ('a ostate_scheme \<times> u32) res" where
  "kvprintf_lock fmt ap s =
     bind_res (of_loop (vprintfmt (\<lambda>sc. mem (fst sc)) (lit s) cputch_lock fmt ap (s, 0))) (\<lambda>r. r)"

definition kprintf :: "u32 \<Rightarrow> u32 list \<Rightarrow> 'a ostate_scheme \<Rightarrow> ('a ostate_scheme \<times> u32) res" where
  "kprintf fmt args s = kvprintf fmt args s"

definition kprintf_lock :: "u32 \<Rightarrow> u32 list \<Rightarrow> 'a ostate_scheme \<Rightarrow> ('a ostate_scheme \<times> u32) res" where
  "kprintf_lock fmt args s = kvprintf_lock fmt args s"

definition kputchar :: "u32 \<Rightarrow> 'a ostate_scheme \<Rightarrow> 'a ostate_scheme" where
  "kputchar c s = cons_putc c s"

definition kputchar_lock :: "u32 \<Rightarrow> 'a ostate_scheme \<Rightarrow> 'a ostate_scheme res" where
  "kputchar_lock c s = cons_putc_lock c s"

partial_function (option) kputs_loop ::
    "u32 \<Rightarrow> 'a ostate_scheme \<times> u32 \<Rightarrow> ('a ostate_scheme \<times> u32) res option" where
  "kputs_loop str sc =
     (let c = mem (fst sc) str
      in if c = 0 then Some (Inr sc)
         else case cputch (scast c) sc of
                Inl e \<Rightarrow> Some (Inl e)
              | Inr sc \<Rightarrow> kputs_loop (str + 1) sc)"

definition kputs :: "u32 \<Rightarrow> 'a ostate_scheme \<Rightarrow> ('a ostate_scheme \<times> u32) res" where
  "kputs str s =
     bind_res (of_loop (kputs_loop str (s, 0))) (\<lambda>r. bind_res r (cputch 10))"

definition kputs_lock :: "u32 \<Rightarrow> 'a ostate_scheme \<Rightarrow> ('a ostate_scheme \<times> u32) res" where
  "kputs_lock str s =
     bind_res (lock_acquire (console_lock s) s) (\<lambda>s.
     bind_res (of_loop (kputs_loop str (s, 0))) (\<lambda>r.
     bind_res (bind_res r (cputch 10)) (\<lambda>(s, cnt).
     bind_res (lock_release (console_lock s) s) (\<lambda>s. Inr (s, cnt)))))"

text \<open>The kernel's own messages: \<^verbatim>\<open>kprintf\<close> of a literal without arguments.\<close>

definition say :: "string \<Rightarrow> 'a ostate_scheme \<Rightarrow> 'a ostate_scheme res" where
  "say msg s = bind_res (kprintf (lit s msg) [] s) (\<lambda>(s, _). Inr s)"

section \<open>The screen\<close>

text \<open>What the functions promise: a list of 2000 cells and a cursor inside it.\<close>

definition cell :: "bmem \<Rightarrow> u32 \<Rightarrow> nat \<Rightarrow> u16" where
  "cell m b i = read16 m (b + of_nat (2 * i))"

definition screen :: "'a ostate_scheme \<Rightarrow> u16 list \<times> nat" where
  "screen s = (map (cell (mem s) (crt_buf s)) [0..<2000], unat (crt_pos s))"

definition screen_ok :: "'a ostate_scheme \<Rightarrow> bool" where
  "screen_ok s \<longleftrightarrow> unat (crt_pos s) < 2000 \<and> unat (crt_buf s) + 4000 \<le> 2 ^ 32"

definition screen_char :: "u32 \<Rightarrow> u16 list \<times> nat \<Rightarrow> u16 list \<times> nat" where
  "screen_char c sp =
     (let (cells, pos) = sp; ch = c AND 0xff
      in if ch = 8 then
           (if 0 < pos then (cells[pos - 1 := ucast ((c AND NOT 0xff) OR 0x20)], pos - 1) else (cells, pos))
         else if ch = 10 then (cells, 80 * (pos div 80 + 1))
         else if ch = 13 then (cells, 80 * (pos div 80))
         else (cells[pos := ucast c], pos + 1))"

definition screen_roll :: "u16 list \<times> nat \<Rightarrow> u16 list \<times> nat" where
  "screen_roll sp =
     (let (cells, pos) = sp
      in if 2000 \<le> pos then (drop 80 cells @ replicate 80 0x0720, pos - 80) else (cells, pos))"

definition screen_put :: "u32 \<Rightarrow> u16 list \<times> nat \<Rightarrow> u16 list \<times> nat" where
  "screen_put c sp = screen_roll (screen_char (if c AND NOT 0xff = 0 then c OR 0x0200 else c) sp)"

lemma screen_iff:
  "screen s = (cells, pos) \<longleftrightarrow> unat (crt_pos s) = pos \<and> length cells = 2000 \<and>
     (\<forall>i < 2000. cell (mem s) (crt_buf s) i = cells ! i)"
  by (auto simp: screen_def list_eq_iff_nth_eq)

lemma read_write16 [mem_simps]: "read16 (write16 a v m) a = v"
proof -
  have e: "read16 (write16 a v m) a = ucast (ucast v :: u8) OR push_bit 8 (ucast (ucast (drop_bit 8 v) :: u8))"
    by (simp add: read16_def write16_def)
  show ?thesis unfolding e
  proof (rule bit_word_eqI)
    fix n assume "n < LENGTH(16)"
    then have "n < 8 \<or> (8 \<le> n \<and> n < 16)" by auto
    then show "bit (ucast (ucast v :: u8) OR push_bit 8 (ucast (ucast (drop_bit 8 v) :: u8)) :: u16) n = bit v n"
      by (elim disjE) (auto simp: bit_simps)
  qed
qed

lemma offset_eq:
  fixes b :: u32
  assumes "i < 2 ^ 32" "j < 2 ^ 32"
  shows "b + of_nat i = b + of_nat j \<longleftrightarrow> i = j"
  using add_of_nat_inj [of b i j] assms by auto

lemma cell_write:
  assumes "i < 2000" "j < 2000"
  shows "cell (write16 (b + of_nat (2 * i)) v m) b j = (if i = j then v else cell m b j)"
proof (cases "i = j")
  case True
  then show ?thesis by (simp add: cell_def read_write16 del: of_nat_mult)
next
  case False
  have o: "b + of_nat n + 1 = b + of_nat (Suc n)" for n by simp
  have "b + of_nat (2 * j) \<noteq> b + of_nat (2 * i)" "b + of_nat (2 * j) \<noteq> b + of_nat (2 * i) + 1"
    "b + of_nat (2 * j) + 1 \<noteq> b + of_nat (2 * i)" "b + of_nat (2 * j) + 1 \<noteq> b + of_nat (2 * i) + 1"
    using assms False unfolding o by (subst offset_eq; force)+
  then show ?thesis using False unfolding cell_def read16_def write16_def by (simp only: fun_upd_apply if_False)
qed

text \<open>The memory of the screen.\<close>

definition vram :: "u32 \<Rightarrow> u32 set" where
  "vram b = span b 4000"

lemma write16_other:
  assumes "a \<notin> vram b" "i < 2000"
  shows "write16 (b + of_nat (2 * i)) v m a = m a"
proof -
  have "b + of_nat (2 * i) \<in> vram b" "b + of_nat (Suc (2 * i)) \<in> vram b"
    unfolding vram_def by (rule in_spanI; use assms(2) in simp)+
  moreover have "b + of_nat (2 * i) + 1 = b + of_nat (Suc (2 * i))" by simp
  ultimately have "a \<noteq> b + of_nat (2 * i)" "a \<noteq> b + of_nat (2 * i) + 1" using assms(1) by metis+
  then show ?thesis unfolding write16_def by (simp only: fun_upd_apply if_False)
qed

subsection \<open>The code on the screen\<close>

lemma cell_offset: "2 * ucast (i :: u16) = (of_nat (2 * unat i) :: u32)"
  by simp

lemma screen_set_cell:
  assumes "screen s = (cells, pos)" "unat i < 2000"
  shows "screen (set_cell i v s) = (cells[unat i := v], pos)"
  using assms cell_write [OF assms(2)] unfolding screen_iff set_cell_def cell_offset
  by (auto simp: nth_list_update)

lemma set_cell_simps [simp]:
  "crt_pos (set_cell i v s) = crt_pos s" "crt_buf (set_cell i v s) = crt_buf s"
  by (simp_all add: set_cell_def)

lemma set_cell_frame:
  assumes "unat i < 2000" "a \<notin> vram (crt_buf s)"
  shows "mem (set_cell i v s) a = mem s a"
  using write16_other [OF assms(2,1)] unfolding set_cell_def cell_offset by simp

lemma unat_mult80:
  fixes p :: u16
  shows "unat (p - p mod 80) = 80 * (unat p div 80)"
proof -
  have "p mod 80 \<le> p" by (simp add: word_le_nat_alt unat_mod)
  then have "unat (p - p mod 80) = unat p - unat (p mod 80)" by (rule unat_sub)
  also have "\<dots> = unat p - unat p mod 80" by (simp add: unat_mod)
  also have "\<dots> = 80 * (unat p div 80)" by (rule minus_mod_eq_mult_div)
  finally show ?thesis .
qed

lemma unat_pos_add:
  fixes p :: u16
  assumes "unat p < 2000" "k \<le> 80"
  shows "unat (p + of_nat k) = unat p + k"
  using assms by (subst unat_add_nowrap) (simp_all add: unat_of_nat)

text \<open>What the console changes: the memory of the screen, the cursor and the ports.\<close>

definition console_frame :: "'a ostate_scheme \<Rightarrow> 'a ostate_scheme \<Rightarrow> bool" where
  "console_frame s s' \<longleftrightarrow>
     (\<exists>m p w. s' = s\<lparr>mem := m, crt_pos := p, port_writes := w\<rparr> \<and> (\<forall>a. a \<notin> vram (crt_buf s) \<longrightarrow> m a = mem s a))"

lemma frame_fields:
  assumes "console_frame s s'"
  shows "crt_buf s' = crt_buf s" "a \<notin> vram (crt_buf s) \<Longrightarrow> mem s' a = mem s a"
    "locks s' = locks s" "lit s' = lit s" "eflags s' = eflags s" "console_lock s' = console_lock s"
    "running_thread s' = running_thread s" "threads s' = threads s" "entries s' = entries s"
  using assms by (auto simp: console_frame_def running_thread_def)

lemma frame_refl [simp]: "console_frame s s"
  unfolding console_frame_def by (intro exI [of _ "mem s"] exI [of _ "crt_pos s"] exI [of _ "port_writes s"]) simp

lemma frame_trans:
  assumes "console_frame s t" "console_frame t u"
  shows "console_frame s u"
proof -
  obtain m p w where t: "t = s\<lparr>mem := m, crt_pos := p, port_writes := w\<rparr>" "\<forall>a. a \<notin> vram (crt_buf s) \<longrightarrow> m a = mem s a"
    using assms(1) unfolding console_frame_def by blast
  obtain n q v where u: "u = t\<lparr>mem := n, crt_pos := q, port_writes := v\<rparr>" "\<forall>a. a \<notin> vram (crt_buf t) \<longrightarrow> n a = mem t a"
    using assms(2) unfolding console_frame_def by blast
  have "u = s\<lparr>mem := n, crt_pos := q, port_writes := v\<rparr>" "\<forall>a. a \<notin> vram (crt_buf s) \<longrightarrow> n a = mem s a"
    using t u by simp_all
  then show ?thesis unfolding console_frame_def by blast
qed

lemma frame_mem:
  assumes "\<forall>a. a \<notin> vram (crt_buf s) \<longrightarrow> m a = mem s a"
  shows "console_frame s (s\<lparr>mem := m\<rparr>)"
  unfolding console_frame_def
  by (intro exI [of _ m] exI [of _ "crt_pos s"] exI [of _ "port_writes s"]) (simp add: assms)

lemma frame_move:
  assumes "console_frame s t"
  shows "console_frame s (t\<lparr>crt_pos := p\<rparr>)"
proof -
  obtain m q w where t: "t = s\<lparr>mem := m, crt_pos := q, port_writes := w\<rparr>" "\<forall>a. a \<notin> vram (crt_buf s) \<longrightarrow> m a = mem s a"
    using assms unfolding console_frame_def by blast
  have "t\<lparr>crt_pos := p\<rparr> = s\<lparr>mem := m, crt_pos := p, port_writes := w\<rparr>" by (simp add: t)
  with t(2) show ?thesis unfolding console_frame_def by blast
qed

lemma frame_set_cell: "unat i < 2000 \<Longrightarrow> console_frame s (set_cell i v s)"
  using set_cell_frame [of i _ s v] unfolding set_cell_def by (intro frame_mem) simp

lemma screen_move [simp]: "screen (s\<lparr>crt_pos := p\<rparr>) = (fst (screen s), unat p)"
  by (simp add: screen_def)

lemma vga_char_screen:
  assumes ok: "screen_ok s"
  shows "screen (vga_char c s) = screen_char c (screen s)" "unat (crt_pos (vga_char c s)) < 2080"
    "console_frame s (vga_char c s)"
proof -
  obtain cells pos where sc: "screen s = (cells, pos)" by fastforce
  then have p: "unat (crt_pos s) = pos" "pos < 2000" using ok by (auto simp: screen_iff screen_ok_def)
  have up: "unat (crt_pos s + 80) = pos + 80" "unat (crt_pos s + 1) = pos + 1"
    using unat_pos_add [of "crt_pos s" 80] unat_pos_add [of "crt_pos s" 1] p by simp_all
  have down: "0 < crt_pos s \<longleftrightarrow> 0 < pos" "0 < pos \<Longrightarrow> unat (crt_pos s - 1) = pos - 1"
    using p unat_minus_one [of "crt_pos s"] by (force simp: word_less_nat_alt)+
  have nl: "unat (crt_pos s + 80 - (crt_pos s + 80) mod 80) = 80 * (pos div 80 + 1)"
  proof -
    have "(pos + 80) div 80 = pos div 80 + 1" by simp
    then show ?thesis by (subst unat_mult80) (simp only: up)
  qed
  have cr: "unat (crt_pos s - crt_pos s mod 80) = 80 * (pos div 80)"
    by (subst unat_mult80) (simp add: p)
  have b: "80 * (pos div 80) \<le> pos" "pos div 80 < 25" using p(2) by (simp_all add: less_mult_imp_div_less)
  let ?t = "s\<lparr>crt_pos := crt_pos s - 1\<rparr>"
  have "screen ?t = (cells, pos - 1)" if "0 < pos" using down(2) [OF that] sc by simp
  then have bs: "screen (set_cell (crt_pos s - 1) v ?t) = (cells[pos - 1 := v], pos - 1)"
    "console_frame s (set_cell (crt_pos s - 1) v ?t)" if "0 < pos" for v
    using screen_set_cell [of ?t cells "pos - 1" "crt_pos s - 1" v] down(2) [OF that] that p
      frame_trans [OF frame_move [OF frame_refl] frame_set_cell [of "crt_pos s - 1" ?t v]] by simp_all
  have pc: "screen (set_cell (crt_pos s) v s) = (cells[pos := v], pos)" "console_frame s (set_cell (crt_pos s) v s)" for v
    using screen_set_cell [OF sc, of "crt_pos s" v] frame_set_cell [of "crt_pos s" s v] p by simp_all
  show "screen (vga_char c s) = screen_char c (screen s)"
    using bs pc sc nl cr up down by (simp add: vga_char_def screen_char_def Let_def)
  show "unat (crt_pos (vga_char c s)) < 2080"
    using p b nl cr up down less_imp_diff_less [of pos 2080 1] by (simp add: vga_char_def Let_def)
  show "console_frame s (vga_char c s)"
    using bs pc down by (simp add: vga_char_def Let_def frame_move)
qed

lemma fold_set_cell:
  assumes "\<forall>i \<in> set ks. i < 2000" "screen s = (cells, pos)"
  shows "screen (fold (\<lambda>i. set_cell (of_nat i) v) ks s) = (fold (\<lambda>i cs. cs[i := v]) ks cells, pos) \<and>
    console_frame s (fold (\<lambda>i. set_cell (of_nat i) v) ks s)"
  using assms
proof (induction ks arbitrary: s cells)
  case (Cons k ks)
  then have k: "unat (of_nat k :: u16) = k" by (simp add: unat_of_nat)
  have "screen (set_cell (of_nat k) v s) = (cells[k := v], pos)"
    using screen_set_cell [OF Cons.prems(2), of "of_nat k" v] Cons.prems(1) k by simp
  then have "screen (fold (\<lambda>i. set_cell (of_nat i) v) ks (set_cell (of_nat k) v s)) =
      (fold (\<lambda>i cs. cs[i := v]) ks (cells[k := v]), pos) \<and>
    console_frame (set_cell (of_nat k) v s) (fold (\<lambda>i. set_cell (of_nat i) v) ks (set_cell (of_nat k) v s))"
    using Cons.prems(1) by (intro Cons.IH) simp_all
  moreover have "console_frame s (set_cell (of_nat k) v s)"
    using Cons.prems(1) k by (intro frame_set_cell) simp
  ultimately show ?case by (auto intro: frame_trans)
qed simp

lemma nth_fold_update:
  "j < length xs \<Longrightarrow> fold (\<lambda>i cs. cs[i := v]) ks xs ! j = (if j \<in> set ks then v else xs ! j)"
  "length (fold (\<lambda>i cs. cs[i := v]) ks xs) = length xs"
  by (induction ks arbitrary: xs) (auto simp: nth_list_update)

lemma cells_moved:
  fixes m :: bmem
  assumes "unat b + 4000 \<le> 2 ^ 32"
  defines "m' \<equiv> snd (memmove b (b + 160) 3840 m)"
  shows "i < 1920 \<Longrightarrow> cell m' b i = cell m b (i + 80)" "a \<notin> vram b \<Longrightarrow> m' a = m a"
proof -
  have u: "unat (b + 160) = unat b + 160" using assms(1) by (subst unat_add_nowrap) simp_all
  define w :: u32 where "w = 3840"
  define n :: nat where "n = unat w"
  have n: "n = 3840" by (simp add: n_def w_def)
  have le: "unat (b + 160) + unat w \<le> 2 ^ 32" "unat b + unat w \<le> 2 ^ 32"
    using assms(1) u by (simp_all add: w_def)
  have mv: "bytes m' b n = bytes m (b + 160) n" "\<forall>a. a \<notin> span b n \<longrightarrow> m' a = m a"
    using memmove_moves [OF le, of m] unfolding n_def m'_def w_def [symmetric] by blast+
  have byte: "m' (b + of_nat k) = m (b + of_nat (k + 160))" if "k < n" for k
  proof -
    have "bytes m' b n ! k = bytes m (b + 160) n ! k" using mv(1) by simp
    then show ?thesis using that by (simp add: ac_simps)
  qed
  show "cell m' b i = cell m b (i + 80)" if "i < 1920"
  proof -
    have e: "b + of_nat (2 * i) + 1 = b + of_nat (Suc (2 * i))"
      "b + of_nat (2 * (i + 80)) + 1 = b + of_nat (Suc (2 * i) + 160)"
      "b + of_nat (2 * (i + 80)) = b + of_nat (2 * i + 160)" by (simp_all add: algebra_simps)
    have "2 * i < n" "Suc (2 * i) < n" using that n by simp_all
    moreover have "b + of_nat (2 * i + 160) + 1 = b + of_nat (Suc (2 * i) + 160)" by simp
    ultimately show ?thesis unfolding cell_def read16_def e by (simp only: byte)
  qed
  show "m' a = m a" if "a \<notin> vram b"
  proof -
    have "n \<le> 4000" by (simp add: n)
    from span_mono [OF this, of b] show ?thesis using mv(2) that unfolding vram_def by blast
  qed
qed

lemma roll_screen:
  assumes "unat (crt_pos s) < 2080" "unat (crt_buf s) + 4000 \<le> 2 ^ 32"
  shows "screen (roll s) = screen_roll (screen s)" "screen_ok (roll s)" "console_frame s (roll s)"
proof -
  obtain cells pos where sc: "screen s = (cells, pos)" by fastforce
  then have p: "unat (crt_pos s) = pos" "length cells = 2000" by (simp_all add: screen_iff)
  define t where "t = s\<lparr>mem := snd (memmove (crt_buf s) (crt_buf s + 160) 3840 (mem s))\<rparr>"
  define u where "u = fold (\<lambda>i. set_cell (of_nat i) 0x0720) [1920..<2000] t"
  define cs where "cs = map (cell (mem t) (crt_buf s)) [0..<2000]"
  have "screen t = (cs, pos)" by (simp add: screen_def t_def cs_def p)
  then have u: "screen u = (fold (\<lambda>i cs. cs[i := 0x0720]) [1920..<2000] cs, pos)" "console_frame t u"
    using fold_set_cell [of "[1920..<2000]" t cs pos] unfolding u_def by simp_all
  have "fold (\<lambda>i cs. cs[i := 0x0720]) [1920..<2000] cs = drop 80 cells @ replicate 80 0x0720"
  proof (rule nth_equalityI)
    show "length (fold (\<lambda>i cs. cs[i := 0x0720]) [1920..<2000] cs) = length (drop 80 cells @ replicate 80 0x0720)"
      using p by (simp only: nth_fold_update(2)) (simp add: cs_def)
    fix j assume "j < length (fold (\<lambda>i cs. cs[i := 0x0720]) [1920..<2000] cs)"
    then have j: "j < length cs" "j < 2000" by (simp_all only: nth_fold_update(2)) (simp add: cs_def)
    have "cell (mem t) (crt_buf s) j = cells ! (j + 80)" if "j < 1920"
      using cells_moved(1) [OF assms(2) that, of "mem s"] sc that by (simp add: t_def screen_iff)
    then show "fold (\<lambda>i cs. cs[i := 0x0720]) [1920..<2000] cs ! j = (drop 80 cells @ replicate 80 0x0720) ! j"
      unfolding nth_fold_update(1) [OF j(1)] set_upt atLeastLessThan_iff
      using j p by (auto simp: nth_append cs_def add.commute)
  qed
  then have us: "screen u = (drop 80 cells @ replicate 80 0x0720, pos)" using u by simp
  have t: "console_frame s t"
    using cells_moved(2) [OF assms(2)] unfolding t_def by (intro frame_mem) simp
  have up: "crt_pos u = crt_pos s" using us p by (simp add: screen_iff word_unat_eq_iff)
  have le: "2000 \<le> crt_pos s \<longleftrightarrow> 2000 \<le> pos" using p by (simp add: word_le_nat_alt)
  have sub: "unat (crt_pos s - 80) = pos - 80" if "2000 \<le> pos"
    using p that by (subst unat_sub) (simp_all add: word_le_nat_alt)
  have r: "roll s = (if 2000 \<le> crt_pos s then u\<lparr>crt_pos := crt_pos s - 80\<rparr> else s)"
    unfolding roll_def Let_def up [symmetric] by (simp only: u_def t_def)
  show "screen (roll s) = screen_roll (screen s)"
    using us sc sub le by (simp add: r screen_roll_def)
  show fr: "console_frame s (roll s)"
    using frame_trans [OF t u(2)] by (simp add: r frame_move)
  show "screen_ok (roll s)"
  proof -
    have "pos - 80 < 2000" if "2000 \<le> pos" using assms(1) p that by arith
    then show ?thesis using assms p sub le frame_fields(1) [OF fr] unfolding screen_ok_def by (simp add: r)
  qed
qed

lemma move_cursor_simps [simp]:
  "screen (move_cursor s) = screen s" "screen_ok (move_cursor s) = screen_ok s"
  by (simp_all add: move_cursor_def outb_def screen_def screen_ok_def)

lemma frame_cursor: "console_frame s (move_cursor s)"
  unfolding console_frame_def move_cursor_def outb_def
  by (rule exI [of _ "mem s"], rule exI [of _ "crt_pos s"], rule exI) simp

text \<open>What goes to other devices than the screen controller.\<close>

definition other_writes :: "'a ostate_scheme \<Rightarrow> (u16 \<times> port_data) list" where
  "other_writes s = filter (\<lambda>w. fst w \<noteq> addr_6845 s \<and> fst w \<noteq> addr_6845 s + 1) (port_writes s)"

lemma vga_char_ports [simp]: "port_writes (vga_char c s) = port_writes s" "addr_6845 (vga_char c s) = addr_6845 s"
  by (simp_all add: vga_char_def set_cell_def Let_def)

lemma fold_cells_ports:
  "port_writes (fold (\<lambda>i. set_cell (f i) v) ks s) = port_writes s" "addr_6845 (fold (\<lambda>i. set_cell (f i) v) ks s) = addr_6845 s"
  by (induction ks arbitrary: s) (simp_all add: set_cell_def)

lemma roll_ports [simp]: "port_writes (roll s) = port_writes s" "addr_6845 (roll s) = addr_6845 s"
  by (simp_all add: roll_def Let_def fold_cells_ports del: upt_rec_numeral upt_conv_Cons)

lemma other_writes_putc: "other_writes (vga_putc c s) = other_writes s"
  by (simp add: vga_putc_def other_writes_def move_cursor_def outb_def Let_def)

lemma vga_putc_screen:
  assumes "screen_ok s"
  shows "screen (vga_putc c s) = screen_put c (screen s)" "screen_ok (vga_putc c s)"
    "console_frame s (vga_putc c s)"
proof -
  define d where "d = (if c AND NOT 0xff = 0 then c OR 0x0200 else c)"
  have v: "vga_putc c s = move_cursor (roll (vga_char d s))" by (simp add: vga_putc_def d_def Let_def)
  note ch = vga_char_screen [OF assms, of d]
  have "unat (crt_buf (vga_char d s)) + 4000 \<le> 2 ^ 32"
    using frame_fields(1) [OF ch(3)] assms by (simp add: screen_ok_def)
  note ro = roll_screen [OF ch(2) this]
  show "screen (vga_putc c s) = screen_put c (screen s)"
    unfolding v screen_put_def d_def [symmetric] move_cursor_simps ro(1) ch(1) ..
  show "screen_ok (vga_putc c s)" unfolding v move_cursor_simps by (rule ro(2))
  show "console_frame s (vga_putc c s)"
    unfolding v by (rule frame_trans [OF frame_trans [OF ch(3) ro(3)] frame_cursor])
qed

text \<open>Printing a list of characters.\<close>

definition screen_puts :: "u32 list \<Rightarrow> u16 list \<times> nat \<Rightarrow> u16 list \<times> nat" where
  "screen_puts cs sp = fold screen_put cs sp"

lemma emit_cputch:
  assumes "screen_ok s"
  shows "\<exists>s'. emit cputch cs (s, n) = Inr (s', n + of_nat (length cs)) \<and> screen s' = screen_puts cs (screen s) \<and>
    screen_ok s' \<and> console_frame s s' \<and> other_writes s' = other_writes s"
  using assms
proof (induction cs arbitrary: s n)
  case Nil
  then show ?case by (simp add: screen_puts_def)
next
  case (Cons c cs)
  note v = vga_putc_screen [OF Cons.prems, of c]
  obtain s' where s': "emit cputch cs (vga_putc c s, n + 1) = Inr (s', n + 1 + of_nat (length cs))"
    "screen s' = screen_puts cs (screen (vga_putc c s))" "screen_ok s'" "console_frame (vga_putc c s) s'"
    "other_writes s' = other_writes (vga_putc c s)"
    using Cons.IH [OF v(2), of "n + 1"] by blast
  then show ?case
    using v frame_trans [OF v(3) s'(4)] frame_fields(4) [OF v(3)]
    by (intro exI [of _ s']) (simp add: cputch_def [of c] cons_putc_def screen_puts_def add.assoc other_writes_putc)
qed

subsection \<open>Formatted output to the screen\<close>

abbreviation (input) prints_on ::
    "u32 list \<Rightarrow> 'a ostate_scheme \<Rightarrow> 'a ostate_scheme \<Rightarrow> bool" where
  "prints_on cs s s' \<equiv> screen s' = screen_puts cs (screen s) \<and> screen_ok s' \<and> console_frame s s' \<and> other_writes s' = other_writes s"

lemma cputch_keeps:
  "keeps (\<lambda>sc. mem (fst sc)) cputch (- vram b) (\<lambda>sc. screen_ok (fst sc) \<and> crt_buf (fst sc) = b)"
  using vga_putc_screen(2,3) frame_fields(1,2)
  by (fastforce simp: keeps_def cputch_def cons_putc_def)

lemma kprintf_eq:
  assumes "screen_ok s" "cstring (mem s) fmt (concat (map text_of ds))"
    and "span fmt (Suc (length (concat (map text_of ds)))) \<inter> vram (crt_buf s) = {}"
    and "\<forall>d \<in> set ds. directive_ok (mem s) (- vram (crt_buf s)) d"
  shows "\<exists>s'. kprintf fmt (concat (map slots_of ds) @ rest) s = Inr (s', of_nat (length (concat (map out_of ds)))) \<and>
    prints_on (concat (map out_of ds)) s s'"
proof -
  have "vprintfmt (\<lambda>sc. mem (fst sc)) (lit s) cputch fmt (concat (map slots_of ds) @ rest) (s, 0) =
      Some (emit cputch (concat (map out_of ds)) (s, 0))"
    using assms by (intro vprintfmt_eq [OF _ _ _ cputch_keeps [of "crt_buf s"]]) auto
  moreover obtain s' where "emit cputch (concat (map out_of ds)) (s, 0) =
      Inr (s', of_nat (length (concat (map out_of ds))))" "prints_on (concat (map out_of ds)) s s'"
    using emit_cputch [OF assms(1), of "concat (map out_of ds)" 0] by auto
  ultimately show ?thesis by (simp add: kprintf_def kvprintf_def)
qed

lemma kputs_loop_eq:
  assumes "screen_ok s" "cstring (mem s) str cs" "span str (Suc (length cs)) \<inter> vram (crt_buf s) = {}"
  shows "kputs_loop str (s, n) = Some (emit cputch (map scast cs) (s, n))"
  using assms
proof (induction cs arbitrary: s str n)
  case Nil
  then show ?case by (subst kputs_loop.simps) simp
next
  case (Cons c cs)
  note v = vga_putc_screen [OF Cons.prems(1), of "scast c"]
  have sp: "span (str + 1) (Suc (length cs)) \<inter> vram (crt_buf s) = {}"
    using Cons.prems(3) by (auto simp: span_Suc [of str "Suc (length cs)"])
  have "cstring (mem s) (str + 1) cs" using Cons.prems(2) by simp
  moreover have "mem (vga_putc (scast c) s) a = mem s a" if "a \<in> span (str + 1) (Suc (length cs))" for a
    using that sp frame_fields(2) [OF v(3), of a] by blast
  ultimately have "cstring (mem (vga_putc (scast c) s)) (str + 1) cs" by (subst cstring_cong)
  then have "kputs_loop (str + 1) (vga_putc (scast c) s, n + 1) =
      Some (emit cputch (map scast cs) (vga_putc (scast c) s, n + 1))"
    using sp by (intro Cons.IH v(2)) (simp_all add: frame_fields(1) [OF v(3)])
  then show ?case
    using Cons.prems(2) by (subst kputs_loop.simps) (simp add: cputch_def [of "scast c"] cons_putc_def)
qed

lemma kputs_eq:
  assumes "screen_ok s" "cstring (mem s) str cs" "span str (Suc (length cs)) \<inter> vram (crt_buf s) = {}"
  shows "\<exists>s'. kputs str s = Inr (s', of_nat (length cs) + 1) \<and> prints_on (map scast cs @ [10]) s s'"
proof -
  obtain s' where "emit cputch (map scast cs @ [10]) (s, 0) = Inr (s', 0 + of_nat (length (map scast cs @ [10])))"
    "prints_on (map scast cs @ [10]) s s'"
    using emit_cputch [OF assms(1), of "map scast cs @ [10]" 0] by (elim exE conjE) auto
  then show ?thesis
    unfolding kputs_def kputs_loop_eq [OF assms] by (auto simp: emit_append add.commute)
qed

text \<open>The kernel's own messages.\<close>

definition literal :: "'a ostate_scheme \<Rightarrow> string \<Rightarrow> bool" where
  "literal s msg \<longleftrightarrow> cstring (mem s) (lit s msg) (map of_char msg) \<and> of_char CHR ''%'' \<notin> (of_char ` set msg :: u8 set) \<and>
     span (lit s msg) (Suc (length msg)) \<inter> vram (crt_buf s) = {}"

lemma cstring_nonzero: "cstring m p cs \<Longrightarrow> c \<in> set cs \<Longrightarrow> c \<noteq> 0"
  by (induction cs arbitrary: p) auto

lemma say_eq:
  assumes "screen_ok s" "literal s msg"
  shows "\<exists>s'. say msg s = Inr s' \<and> prints_on (map (\<lambda>c. ucast (of_char c :: u8)) msg) s s'"
proof -
  let ?ds = "map (\<lambda>c. Plain (of_char c)) msg"
  have t: "concat (map text_of ?ds) = map of_char msg" "concat (map slots_of ?ds) = []"
    "concat (map out_of ?ds) = map (\<lambda>c. ucast (of_char c :: u8)) msg"
    by (induction msg) simp_all
  have "\<forall>d \<in> set ?ds. directive_ok (mem s) (- vram (crt_buf s)) d"
    using assms(2) cstring_nonzero by (fastforce simp: literal_def)
  then obtain s' where "kprintf (lit s msg) ([] @ []) s = Inr (s', of_nat (length (map (\<lambda>c. ucast (of_char c :: u8) :: u32) msg)))"
    "prints_on (map (\<lambda>c. ucast (of_char c :: u8)) msg) s s'"
    using kprintf_eq [of s "lit s msg" ?ds "[]", unfolded t] assms by (auto simp: literal_def)
  then show ?thesis by (simp add: say_def)
qed

section \<open>Properties\<close>

definition sample_console :: ostate where
  "sample_console = sstate.extend (sample_sync\<lparr>mem := sample_fmt\<rparr>)
     \<lparr>crt_buf = 0xc00b8000, crt_pos = 1999, addr_6845 = 0x3d4, console_lock = 0x900, lit = (\<lambda>_. 0x107)\<rparr>"

lemma sample_console_fields [simp]:
  "mem sample_console = sample_fmt" "crt_buf sample_console = 0xc00b8000" "crt_pos sample_console = 1999"
  "running_thread sample_console = 0x10000" "console_lock sample_console = 0x900"
  "locks sample_console l = \<lparr>locked = 0, holder = NULL, number_of = 0\<rparr>" "lit sample_console msg = 0x107"
proof -
  have "running_thread sample_console = running_thread sample_sync"
    by (simp add: sample_console_def sstate.defs running_thread_def)
  then show "running_thread sample_console = 0x10000" by simp
  have "locks sample_console l = locks sample_sync l" by (simp add: sample_console_def sstate.defs)
  then show "locks sample_console l = \<lparr>locked = 0, holder = NULL, number_of = 0\<rparr>" by simp
qed (simp_all add: sample_console_def sstate.defs)

lemma sample_console_ok [simp]: "screen_ok sample_console"
  by (simp add: screen_ok_def)

text \<open>C11. \<^verbatim>\<open>vga_putc\<close> implements a screen of 25 rows of 80 cells with a cursor: on every
  character (backspace, line feed and carriage return included) the cells and the cursor change as
  \<open>screen_put\<close> says, scrolling up by a row when the cursor leaves the last one; the cursor stays on the
  screen, and outside the 4000 bytes of the screen memory nothing changes.\<close>

theorem vga_putc_refines_screen:
  assumes "screen_ok s"
  shows "screen (vga_putc c s) = screen_put c (screen s) \<and> screen_ok (vga_putc c s) \<and>
    (\<forall>a. a \<notin> vram (crt_buf s) \<longrightarrow> mem (vga_putc c s) a = mem s a) \<and>
    locks (vga_putc c s) = locks s \<and> threads (vga_putc c s) = threads s \<and> eflags (vga_putc c s) = eflags s"
  using vga_putc_screen [OF assms, of c] frame_fields by auto

theorem vga_putc_refines_screen_witness:
  "snd (screen (vga_putc 0x41 sample_console)) = 1920"
proof -
  have "snd (screen_put 0x41 (screen sample_console)) = 1920"
    by (simp add: screen_def screen_put_def screen_roll_def screen_char_def Let_def)
  then show ?thesis using vga_putc_refines_screen [OF sample_console_ok, of "0x41"] by simp
qed

text \<open>C25. \<^verbatim>\<open>kprintf\<close> prints: on the text of any list of directives with the matching arguments
  it returns the number of characters, and the screen is what putting exactly the characters of the
  directives on it, in order, gives; outside the screen memory nothing changes. The strings must not
  be in the screen memory.\<close>

theorem kprintf_prints:
  assumes "screen_ok s" "cstring (mem s) fmt (concat (map text_of ds))"
    and "span fmt (Suc (length (concat (map text_of ds)))) \<inter> vram (crt_buf s) = {}"
    and "\<forall>d \<in> set ds. directive_ok (mem s) (- vram (crt_buf s)) d"
  shows "\<exists>s'. kprintf fmt (concat (map slots_of ds) @ rest) s = Inr (s', of_nat (length (concat (map out_of ds)))) \<and>
    screen s' = screen_puts (concat (map out_of ds)) (screen s) \<and>
    (\<forall>a. a \<notin> vram (crt_buf s) \<longrightarrow> mem s' a = mem s a) \<and> screen_ok s'"
  using kprintf_eq [OF assms, of rest] frame_fields(2) by blast

theorem kprintf_prints_witness:
  "\<exists>s'. kprintf 0x100 [- 42, 0x107] sample_console = Inr (s', 8) \<and>
     screen s' = screen_puts [0x2d, 0x20, 0x20, 0x34, 0x32, 0x3a, 0x6f, 0x6b] (screen sample_console)"
proof -
  have sp: "span 0x100 7 \<inter> vram 0xc00b8000 = {}" "span 0x107 3 \<inter> vram 0xc00b8000 = {}"
    unfolding vram_def by (rule span_below; simp)+
  have "\<forall>d \<in> set sample_directives. directive_ok sample_fmt (- vram 0xc00b8000) d"
    using sp(2) by (auto simp: sample_directives_def spec_ok_def no_spec_def sample_fmt_def placed_def span_Suc)
  moreover have "cstring sample_fmt 0x100 (concat (map text_of sample_directives))"
    unfolding sample_text by (simp add: sample_fmt_def placed_def)
  moreover have "concat (map slots_of sample_directives) = [- 42, 0x107]"
    by (simp add: sample_directives_def no_spec_def)
  ultimately show ?thesis
    using kprintf_prints [of sample_console "0x100" sample_directives "[]"] sp(1)
    by (auto simp: sample_out sample_text span_Suc)
qed

text \<open>\<^verbatim>\<open>kputs\<close> prints the string and a line feed and returns the number of characters
  printed, for every null-terminated string outside the screen memory.\<close>

theorem kputs_prints:
  assumes "screen_ok s" "cstring (mem s) str cs" "span str (Suc (length cs)) \<inter> vram (crt_buf s) = {}"
  shows "\<exists>s'. kputs str s = Inr (s', of_nat (length cs) + 1) \<and>
    screen s' = screen_puts (map scast cs @ [10]) (screen s) \<and> screen_ok s'"
  using kputs_eq [OF assms] by blast

theorem kputs_prints_witness:
  "\<exists>s'. kputs 0x107 sample_console = Inr (s', 3) \<and>
     screen s' = screen_puts [0x6f, 0x6b, 10] (screen sample_console)"
proof -
  have "span 0x107 3 \<inter> vram 0xc00b8000 = {}" unfolding vram_def by (rule span_below) simp_all
  moreover have "cstring sample_fmt 0x107 [0x6f, 0x6b]" by (simp add: sample_fmt_def placed_def)
  ultimately show ?thesis
    using kputs_prints [of sample_console "0x107" "[0x6f, 0x6b]"] by (auto simp: span_Suc)
qed

text \<open>\<^verbatim>\<open>cons_putc_lock\<close> with the console lock free puts the character on the screen and
  leaves the lock free, but always with interrupts enabled; with the lock held by another thread it
  panics instead of waiting.\<close>

theorem cons_putc_lock_cases:
  assumes "screen_ok s" "lock_ok (locks s (console_lock s))" "running_thread s \<noteq> NULL"
  shows "if locked (locks s (console_lock s)) = 0
    then \<exists>s'. cons_putc_lock c s = Inr s' \<and> screen s' = screen_put c (screen s) \<and>
      locked (locks s' (console_lock s)) = 0 \<and> get_intr_status s' = INTR_ON
    else holder (locks s (console_lock s)) \<noteq> running_thread s \<longrightarrow>
      cons_putc_lock c s = Inl (Panic ''acquire'')"
proof (cases "locked (locks s (console_lock s)) = 0")
  case True
  let ?lk = "console_lock s"
  define t where "t = upd_lock ?lk (\<lambda>_. \<lparr>locked = 1, holder = running_thread s, number_of = 1\<rparr>) (cli s)"
  have a: "lock_acquire ?lk s = Inr t" unfolding t_def by (rule lock_acquire_free) (use assms True in auto)
  have t: "screen_ok t" "screen t = screen s" "console_lock t = ?lk" "running_thread t = running_thread s"
    "locks t ?lk = \<lparr>locked = 1, holder = running_thread s, number_of = 1\<rparr>"
    using assms(1) by (simp_all add: t_def screen_ok_def screen_def upd_lock_def cli_def running_thread_def)
  note v = vga_putc_screen [OF t(1), of c] note f = frame_fields [OF v(3)]
  have "lock_release ?lk (vga_putc c t) =
      Inr (sti (upd_lock ?lk (\<lambda>_. \<lparr>locked = 0, holder = NULL, number_of = 0\<rparr>) (vga_putc c t)))"
    by (rule lock_release_last) (use t f assms(3) in \<open>simp_all add: lock_ok_def\<close>)
  then show ?thesis using True a v(1) f(6) t(2,3)
    by (simp add: cons_putc_lock_def) (simp add: screen_def upd_lock_def sti_def)
next
  case False
  then show ?thesis using lock_acquire_contended [OF assms(2) False] by (simp add: cons_putc_lock_def)
qed

theorem cons_putc_lock_cases_witness:
  "\<exists>s'. cons_putc_lock 0x41 sample_console = Inr s' \<and> screen s' = screen_put 0x41 (screen sample_console) \<and>
     get_intr_status s' = INTR_ON"
  using cons_putc_lock_cases [of sample_console "0x41"] by (auto simp: lock_ok_def)

end
