(* ===== verification/IoQueue.thy ===== *)
theory IoQueue
  imports Console "HOL-Library.Signed_Division"
begin

text \<open>
  \<^verbatim>\<open>ds/ioqueue.c\<close>: a character queue in a ring of 64 cells, between one reader and one
  writer that block on it. A \<^verbatim>\<open>struct ioqueue\<close> is a record keyed by its address, where
  its lock also stands. A call that finds the queue empty (or full) blocks the running thread: it returns
  the interrupt status its stack frame keeps, and the rest of the call is a definition of its own. The queue
  is refined to a list of at most 63 characters, through an interface of a bounded first-in first-out
  queue.
\<close>

section \<open>The code\<close>

record ioqueue =
  producer :: u32
  consumer :: u32
  io_buf :: "u8 list"
  head :: u32
  tail :: u32

record qstate = ostate +
  ioqs :: "u32 \<Rightarrow> ioqueue"

definition upd_ioq :: "u32 \<Rightarrow> (ioqueue \<Rightarrow> ioqueue) \<Rightarrow> 'a qstate_scheme \<Rightarrow> 'a qstate_scheme" where
  "upd_ioq q f s = s\<lparr>ioqs := (ioqs s)(q := f (ioqs s q))\<rparr>"

definition ioqueue_init :: "u32 \<Rightarrow> 'a qstate_scheme \<Rightarrow> 'a qstate_scheme" where
  "ioqueue_init q s = upd_ioq q (\<lambda>r. r\<lparr>consumer := NULL, producer := NULL, tail := 0, head := 0\<rparr>) (lock_init q s)"

text \<open>The remainder of a signed division, truncated as C does.\<close>

definition next_pos :: "u32 \<Rightarrow> u32" where
  "next_pos pos = word_of_int (sint (pos + 1) smod 64)"

definition ioqueue_empty :: "u32 \<Rightarrow> 'a qstate_scheme \<Rightarrow> bool res" where
  "ioqueue_empty q s =
     assert_res ''get_intr_status() == INTR_OFF'' (get_intr_status s = INTR_OFF)
       (Inr (head (ioqs s q) = tail (ioqs s q)))"

definition ioqueue_full :: "u32 \<Rightarrow> 'a qstate_scheme \<Rightarrow> bool res" where
  "ioqueue_full q s =
     assert_res ''get_intr_status() == INTR_OFF'' (get_intr_status s = INTR_OFF)
       (Inr (next_pos (head (ioqs s q)) = tail (ioqs s q)))"

text \<open>The waiter is the field \<^verbatim>\<open>consumer\<close> or \<^verbatim>\<open>producer\<close>, given by its
  selector and update. Its address is never null.\<close>

definition ioqueue_wait ::
    "(ioqueue \<Rightarrow> u32) \<Rightarrow> ((u32 \<Rightarrow> u32) \<Rightarrow> ioqueue \<Rightarrow> ioqueue) \<Rightarrow> u32 \<Rightarrow> 'a qstate_scheme \<Rightarrow>
     (intr_status \<times> 'a qstate_scheme) res" where
  "ioqueue_wait waiter set_waiter q s =
     assert_res ''*waiter == NULL && waiter != NULL'' (waiter (ioqs s q) = NULL)
       (thread_block TASK_BLOCKED (upd_ioq q (set_waiter (\<lambda>_. running_thread s)) s))"

definition ioqueue_wakeup ::
    "(ioqueue \<Rightarrow> u32) \<Rightarrow> ((u32 \<Rightarrow> u32) \<Rightarrow> ioqueue \<Rightarrow> ioqueue) \<Rightarrow> u32 \<Rightarrow> 'a qstate_scheme \<Rightarrow>
     'a qstate_scheme res" where
  "ioqueue_wakeup waiter set_waiter q s =
     assert_res ''*waiter != NULL'' (waiter (ioqs s q) \<noteq> NULL)
       (bind_res (thread_unblock (waiter (ioqs s q)) s) (\<lambda>s. Inr (upd_ioq q (set_waiter (\<lambda>_. NULL)) s)))"

text \<open>\<open>Inl st\<close>: the caller is blocked; \<open>Inr c\<close>: it returned the character. An index outside the
  buffer is undefined in C and a \<open>Fault\<close> here.\<close>

definition getchar_loop :: "u32 \<Rightarrow> 'a qstate_scheme \<Rightarrow> ((intr_status + u8) \<times> 'a qstate_scheme) res" where
  "getchar_loop q s =
     bind_res (ioqueue_empty q s) (\<lambda>e.
       if e then
         bind_res (lock_acquire q s) (\<lambda>s.
         bind_res (ioqueue_wait consumer consumer_update q s) (\<lambda>(st, s). Inr (Inl st, s)))
       else
         let r = ioqs s q
         in if unat (tail r) < length (io_buf r) then
              let c = io_buf r ! unat (tail r);
                  s = upd_ioq q (\<lambda>r. r\<lparr>tail := next_pos (tail r)\<rparr>) s
              in bind_res
                   (if producer (ioqs s q) \<noteq> NULL then ioqueue_wakeup producer producer_update q s else Inr s)
                   (\<lambda>s. Inr (Inr c, s))
            else Inl Fault)"

definition ioqueue_getchar :: "u32 \<Rightarrow> 'a qstate_scheme \<Rightarrow> ((intr_status + u8) \<times> 'a qstate_scheme) res" where
  "ioqueue_getchar q s =
     assert_res ''get_intr_status() == INTR_OFF'' (get_intr_status s = INTR_OFF) (getchar_loop q s)"

definition ioqueue_getchar_resume ::
    "u32 \<Rightarrow> intr_status \<Rightarrow> 'a qstate_scheme \<Rightarrow> ((intr_status + u8) \<times> 'a qstate_scheme) res" where
  "ioqueue_getchar_resume q st s =
     bind_res (lock_release q (thread_block_resume st s)) (getchar_loop q)"

text \<open>\<open>Some st\<close>: the caller is blocked; \<open>None\<close>: it returned.\<close>

definition putchar_loop :: "u32 \<Rightarrow> u8 \<Rightarrow> 'a qstate_scheme \<Rightarrow> (intr_status option \<times> 'a qstate_scheme) res" where
  "putchar_loop q c s =
     bind_res (ioqueue_full q s) (\<lambda>f.
       if f then
         bind_res (lock_acquire q s) (\<lambda>s.
         bind_res (ioqueue_wait producer producer_update q s) (\<lambda>(st, s). Inr (Some st, s)))
       else
         let r = ioqs s q
         in if unat (head r) < length (io_buf r) then
              let s = upd_ioq q (\<lambda>r. r\<lparr>io_buf := (io_buf r)[unat (head r) := c]\<rparr>) s;
                  s = upd_ioq q (\<lambda>r. r\<lparr>head := next_pos (head r)\<rparr>) s
              in bind_res
                   (if consumer (ioqs s q) \<noteq> NULL then ioqueue_wakeup consumer consumer_update q s else Inr s)
                   (\<lambda>s. Inr (None, s))
            else Inl Fault)"

definition ioqueue_putchar :: "u32 \<Rightarrow> u8 \<Rightarrow> 'a qstate_scheme \<Rightarrow> (intr_status option \<times> 'a qstate_scheme) res" where
  "ioqueue_putchar q c s =
     assert_res ''get_intr_status() == INTR_OFF'' (get_intr_status s = INTR_OFF) (putchar_loop q c s)"

definition ioqueue_putchar_resume ::
    "u32 \<Rightarrow> u8 \<Rightarrow> intr_status \<Rightarrow> 'a qstate_scheme \<Rightarrow> (intr_status option \<times> 'a qstate_scheme) res" where
  "ioqueue_putchar_resume q c st s =
     bind_res (lock_release q (thread_block_resume st s)) (putchar_loop q c)"

section \<open>The queue as a list\<close>

definition ring_ok :: "ioqueue \<Rightarrow> bool" where
  "ring_ok r \<longleftrightarrow> length (io_buf r) = 64 \<and> unat (head r) < 64 \<and> unat (tail r) < 64"

definition ring_len :: "ioqueue \<Rightarrow> nat" where
  "ring_len r = (unat (head r) + 64 - unat (tail r)) mod 64"

definition ring_list :: "ioqueue \<Rightarrow> u8 list" where
  "ring_list r = map (\<lambda>i. io_buf r ! ((unat (tail r) + i) mod 64)) [0..<ring_len r]"

lemma next_pos_unat: "unat p < 64 \<Longrightarrow> unat (next_pos p) = (unat p + 1) mod 64"
proof -
  assume p: "unat p < 64"
  have u: "unat (p + 1) = unat p + 1" using p by (subst unat_add_nowrap) simp_all
  have "p + 1 = of_nat (unat p + 1)" by (simp add: u [symmetric])
  then have s: "sint (p + 1) = int (unat p + 1)" using p sint_of_nat [of "unat p + 1"] by (simp add: add.commute)
  have "int (unat p + 1) smod 64 = int ((unat p + 1) mod 64)"
  proof -
    have "sgn (int (unat p + 1)) = 1" by (rule sgn_pos) linarith
    then show ?thesis by (simp only: signed_modulo_int_def zmod_int abs_of_nat mult_1) simp
  qed
  then have "next_pos p = of_nat ((unat p + 1) mod 64)" by (simp add: next_pos_def s)
  moreover have "(unat p + 1) mod 64 < 64" by simp
  ultimately show ?thesis by (simp add: unat_of_nat take_bit_nat_eq_self)
qed

lemma ring_len_less: "ring_len r < 64"
  by (simp add: ring_len_def)

lemma ring_dist:
  fixes t h :: nat
  assumes "h < 64" "t < 64"
  shows "(h + 64 - t) mod 64 = (if t \<le> h then h - t else h + 64 - t)"
  using assms by (auto simp: mod_if)

lemma ring_pos:
  fixes t h i :: nat
  assumes "t < 64" "h < 64"
  shows "(t + (if t \<le> h then h - t else h + 64 - t)) mod 64 = h"
    "i < (if t \<le> h then h - t else h + 64 - t) \<Longrightarrow> (t + i) mod 64 \<noteq> h"
proof -
  show "(t + (if t \<le> h then h - t else h + 64 - t)) mod 64 = h" using assms by auto
  assume i: "i < (if t \<le> h then h - t else h + 64 - t)"
  then have "t + i < 128" using assms by (simp split: if_splits)
  then have "(t + i) mod 64 = (if t + i < 64 then t + i else t + i - 64)" by (auto simp: mod_if)
  then show "(t + i) mod 64 \<noteq> h" using i assms by (auto split: if_splits)
qed

lemma length_ring_list [simp]: "length (ring_list r) = ring_len r"
  by (simp add: ring_list_def)

lemma ring_empty_iff: "ring_ok r \<Longrightarrow> head r = tail r \<longleftrightarrow> ring_list r = []"
proof -
  assume r: "ring_ok r"
  have "ring_len r = 0 \<longleftrightarrow> unat (head r) = unat (tail r)"
    using r unfolding ring_len_def ring_ok_def by (cases "unat (tail r) \<le> unat (head r)") (auto simp: mod_if)
  then show ?thesis by (simp add: word_unat_eq_iff ring_list_def)
qed

lemma ring_full_iff: "ring_ok r \<Longrightarrow> next_pos (head r) = tail r \<longleftrightarrow> ring_len r = 63"
proof -
  assume r: "ring_ok r"
  then have "unat (next_pos (head r)) = (unat (head r) + 1) mod 64" by (simp add: ring_ok_def next_pos_unat)
  then have "next_pos (head r) = tail r \<longleftrightarrow> (unat (head r) + 1) mod 64 = unat (tail r)"
    by (simp add: word_unat_eq_iff)
  also have "\<dots> \<longleftrightarrow> ring_len r = 63"
    using r unfolding ring_len_def ring_ok_def by (auto simp: mod_if split: if_splits)
  finally show ?thesis .
qed

text \<open>Writing a character behind the last and reading the first.\<close>

definition ring_put :: "u8 \<Rightarrow> ioqueue \<Rightarrow> ioqueue" where
  "ring_put c r = r\<lparr>io_buf := (io_buf r)[unat (head r) := c], head := next_pos (head r)\<rparr>"

lemma ring_put_list:
  assumes r: "ring_ok r" and n: "ring_len r < 63"
  shows "ring_ok (ring_put c r)" "ring_list (ring_put c r) = ring_list r @ [c]"
proof -
  have h: "unat (next_pos (head r)) = (unat (head r) + 1) mod 64" using r by (simp add: ring_ok_def next_pos_unat)
  show ok: "ring_ok (ring_put c r)" using r h by (simp add: ring_ok_def ring_put_def)
  have len: "ring_len (ring_put c r) = Suc (ring_len r)"
    using r n h unfolding ring_len_def ring_ok_def ring_put_def by (auto simp: mod_if split: if_splits)
  have at: "(unat (tail r) + ring_len r) mod 64 = unat (head r)"
    using r ring_pos(1) [of "unat (tail r)" "unat (head r)"] by (simp add: ring_len_def ring_ok_def ring_dist)
  have ne: "(unat (tail r) + i) mod 64 \<noteq> unat (head r)" if "i < ring_len r" for i
    using r that ring_pos(2) [of "unat (tail r)" "unat (head r)"] by (simp add: ring_len_def ring_ok_def ring_dist)
  show "ring_list (ring_put c r) = ring_list r @ [c]"
    using r ne [THEN not_sym] at unfolding ring_list_def len by (simp add: ring_put_def ring_ok_def)
qed

lemma ring_get_list:
  assumes r: "ring_ok r" and n: "ring_list r = c # cs"
  shows "io_buf r ! unat (tail r) = c" "ring_ok (r\<lparr>tail := next_pos (tail r)\<rparr>)"
    "ring_list (r\<lparr>tail := next_pos (tail r)\<rparr>) = cs"
proof -
  have pos: "0 < ring_len r" using n length_ring_list [of r] by auto
  have t: "unat (next_pos (tail r)) = (unat (tail r) + 1) mod 64" using r by (simp add: ring_ok_def next_pos_unat)
  have "ring_list r ! 0 = c" using n by simp
  then show "io_buf r ! unat (tail r) = c" using pos r by (simp add: ring_list_def ring_ok_def)
  show "ring_ok (r\<lparr>tail := next_pos (tail r)\<rparr>)" using r t by (simp add: ring_ok_def)
  have len: "ring_len r = Suc (ring_len (r\<lparr>tail := next_pos (tail r)\<rparr>))"
    using r pos t unfolding ring_len_def ring_ok_def by (auto simp: mod_if split: if_splits)
  have m: "(Suc (unat (tail r)) mod 64 + i) mod 64 = Suc (unat (tail r) + i) mod 64" for i
    by (simp only: mod_add_left_eq add_Suc)
  have "ring_list (r\<lparr>tail := next_pos (tail r)\<rparr>) = tl (ring_list r)"
    unfolding ring_list_def len upt_conv_Cons [OF zero_less_Suc] map_Suc_upt [symmetric]
    by (simp add: t m)
  then show "ring_list (r\<lparr>tail := next_pos (tail r)\<rparr>) = cs" using n by simp
qed

section \<open>The interface of a bounded queue\<close>

text \<open>Calling \<open>f\<close> \<open>n\<close> times and keeping the results.\<close>

primrec collect :: "('s \<Rightarrow> ('a \<times> 's) res) \<Rightarrow> nat \<Rightarrow> 's \<Rightarrow> ('a list \<times> 's) res" where
  "collect f 0 s = Inr ([], s)"
| "collect f (Suc n) s = bind_res (f s) (\<lambda>(a, s). bind_res (collect f n s) (\<lambda>(as, s). Inr (a # as, s)))"

locale fifo =
  fixes ok :: "'s \<Rightarrow> bool"
    and contents :: "'s \<Rightarrow> 'a list"
    and enq :: "'a \<Rightarrow> 's \<Rightarrow> 's res"
    and deq :: "'s \<Rightarrow> ('a \<times> 's) res"
    and capacity :: nat
  assumes enq_ok: "ok s \<Longrightarrow> length (contents s) < capacity \<Longrightarrow>
      \<exists>s'. enq a s = Inr s' \<and> ok s' \<and> contents s' = contents s @ [a]"
    and deq_ok: "ok s \<Longrightarrow> contents s = a # as \<Longrightarrow> \<exists>s'. deq s = Inr (a, s') \<and> ok s' \<and> contents s' = as"
begin

lemma enqs_ok:
  "ok s \<Longrightarrow> length (contents s) + length as \<le> capacity \<Longrightarrow>
   \<exists>s'. emit enq as s = Inr s' \<and> ok s' \<and> contents s' = contents s @ as"
proof (induction as arbitrary: s)
  case (Cons a as)
  then obtain t where t: "enq a s = Inr t" "ok t" "contents t = contents s @ [a]"
    using enq_ok [of s a] by auto
  then show ?case using Cons.IH [of t] Cons.prems by simp
qed simp

lemma deqs_ok:
  "ok s \<Longrightarrow> contents s = as @ bs \<Longrightarrow>
   \<exists>s'. collect deq (length as) s = Inr (as, s') \<and> ok s' \<and> contents s' = bs"
proof (induction as arbitrary: s)
  case (Cons a as)
  then obtain t where t: "deq s = Inr (a, t)" "ok t" "contents t = as @ bs" using deq_ok [of s a] by auto
  then show ?case using Cons.IH [of t] by auto
qed simp

lemma in_order:
  assumes "ok s" "length (contents s) + length as \<le> capacity"
  shows "\<exists>s'. bind_res (emit enq as s) (collect deq (length (contents s) + length as)) = Inr (contents s @ as, s') \<and>
    ok s' \<and> contents s' = []"
proof -
  obtain t where t: "emit enq as s = Inr t" "ok t" "contents t = contents s @ as" using enqs_ok [OF assms] by blast
  then show ?thesis using deqs_ok [of t "contents s @ as" "[]"] by simp
qed

end

text \<open>The calls that do not block.\<close>

definition put_now :: "u32 \<Rightarrow> u8 \<Rightarrow> 'a qstate_scheme \<Rightarrow> 'a qstate_scheme res" where
  "put_now q c s =
     bind_res (ioqueue_putchar q c s) (\<lambda>(blocked, s). if blocked = None then Inr s else Inl Diverge)"

definition get_now :: "u32 \<Rightarrow> 'a qstate_scheme \<Rightarrow> (u8 \<times> 'a qstate_scheme) res" where
  "get_now q s =
     bind_res (ioqueue_getchar q s) (\<lambda>(r, s). case r of Inl st \<Rightarrow> Inl Diverge | Inr c \<Rightarrow> Inr (c, s))"

definition quiet :: "u32 \<Rightarrow> 'a qstate_scheme \<Rightarrow> bool" where
  "quiet q s \<longleftrightarrow> get_intr_status s = INTR_OFF \<and> ring_ok (ioqs s q) \<and>
     consumer (ioqs s q) = NULL \<and> producer (ioqs s q) = NULL"

lemma upd_ioq_simps [simp]:
  "ioqs (upd_ioq q f s) p = (if p = q then f (ioqs s p) else ioqs s p)"
  "get_intr_status (upd_ioq q f s) = get_intr_status s" "locks (upd_ioq q f s) = locks s"
  "running_thread (upd_ioq q f s) = running_thread s" "eflags (upd_ioq q f s) = eflags s"
  "threads (upd_ioq q f s) = threads s" "entries (upd_ioq q f s) = entries s"
  "ready_list (upd_ioq q f s) = ready_list s" "idle_thread (upd_ioq q f s) = idle_thread s"
  "regs (upd_ioq q f s) = regs s"
  by (simp_all add: upd_ioq_def get_intr_status_def running_thread_def)

lemma upd_ioq_twice [simp]: "upd_ioq q f (upd_ioq q g s) = upd_ioq q (\<lambda>r. f (g r)) s"
  by (simp add: upd_ioq_def)

lemma putchar_eq:
  assumes "get_intr_status s = INTR_OFF" "ring_ok (ioqs s q)" "length (ring_list (ioqs s q)) < 63"
  shows "ioqueue_putchar q c s = bind_res
    (if consumer (ioqs s q) \<noteq> NULL then ioqueue_wakeup consumer consumer_update q (upd_ioq q (ring_put c) s)
     else Inr (upd_ioq q (ring_put c) s)) (\<lambda>s. Inr (None, s))"
proof -
  have "(\<lambda>r. r\<lparr>io_buf := (io_buf r)[unat (head r) := c], head := next_pos (head r)\<rparr>) = ring_put c"
    by (simp add: fun_eq_iff ring_put_def)
  then show ?thesis using assms ring_full_iff [OF assms(2)]
    by (simp add: ioqueue_putchar_def putchar_loop_def ioqueue_full_def ring_ok_def)
qed

lemma getchar_eq:
  assumes "get_intr_status s = INTR_OFF" "ring_ok (ioqs s q)" "ring_list (ioqs s q) = c # cs"
  defines "t \<equiv> upd_ioq q (\<lambda>r. r\<lparr>tail := next_pos (tail r)\<rparr>) s"
  shows "ioqueue_getchar q s = bind_res
    (if producer (ioqs s q) \<noteq> NULL then ioqueue_wakeup producer producer_update q t else Inr t)
    (\<lambda>s. Inr (Inr c, s))"
  using assms ring_empty_iff [OF assms(2)] ring_get_list(1) [OF assms(2,3)]
  by (simp add: ioqueue_getchar_def getchar_loop_def ioqueue_empty_def ring_ok_def)

interpretation ioq: fifo "quiet q" "\<lambda>s. ring_list (ioqs s q)" "put_now q" "get_now q" 63
  for q :: u32
proof
  fix s :: "'a qstate_scheme" and c
  assume s: "quiet q s" "length (ring_list (ioqs s q)) < 63"
  then show "\<exists>s'. put_now q c s = Inr s' \<and> quiet q s' \<and> ring_list (ioqs s' q) = ring_list (ioqs s q) @ [c]"
    using putchar_eq [of s q c] ring_put_list [of "ioqs s q" c]
    by (auto simp: quiet_def put_now_def ring_put_def)
next
  fix s :: "'a qstate_scheme" and c cs
  assume s: "quiet q s" "ring_list (ioqs s q) = c # cs"
  then show "\<exists>s'. get_now q s = Inr (c, s') \<and> quiet q s' \<and> ring_list (ioqs s' q) = cs"
    using getchar_eq [of s q c cs] ring_get_list [of "ioqs s q" c cs]
    by (auto simp: quiet_def get_now_def)
qed

subsection \<open>Blocking on the queue\<close>

lemma more_fields:
  fixes s s' :: "'a qstate_scheme"
  assumes "tstate.more s' = tstate.more s"
  shows "locks s' = locks s" "ioqs s' = ioqs s"
  using assms by (cases s; cases s'; simp)+

lemma wait_blocks:
  assumes inv: "sched_inv T TASK_RUNNING s ql" and off: "get_intr_status s = INTR_OFF"
    and free: "lock_ok (locks s q)" "locked (locks s q) = 0" "running_thread s \<noteq> NULL"
    and w: "waiter (ioqs s q) = NULL"
  shows "\<exists>s'. bind_res (lock_acquire q s) (ioqueue_wait waiter set_waiter q) = Inr (INTR_OFF, s') \<and>
    running_thread s' = fst (pick False (idle_thread s) (running_thread s) ql) \<and>
    sched_inv T TASK_RUNNING s' (snd (pick False (idle_thread s) (running_thread s) ql)) \<and>
    ioqs s' = (ioqs s)(q := set_waiter (\<lambda>_. running_thread s) (ioqs s q)) \<and>
    locks s' q = \<lparr>locked = 1, holder = running_thread s, number_of = 1\<rparr>"
proof -
  let ?l = "\<lparr>locked = 1, holder = running_thread s, number_of = 1\<rparr>"
  define t where "t = upd_ioq q (set_waiter (\<lambda>_. running_thread s)) (upd_lock q (\<lambda>_. ?l) (cli s))"
  have t: "entries t = entries s" "threads t = threads s" "regs t = regs s" "ready_list t = ready_list s"
    "idle_thread t = idle_thread s" "running_thread t = running_thread s" "get_intr_status t = INTR_OFF"
    "locks t q = ?l" "ioqs t = (ioqs s)(q := set_waiter (\<lambda>_. running_thread s) (ioqs s q))"
    using status_cli [of s] by (simp_all add: t_def upd_ioq_def upd_lock_def cli_def running_thread_def get_intr_status_def)
  have eq: "bind_res (lock_acquire q s) (ioqueue_wait waiter set_waiter q) = thread_block TASK_BLOCKED t"
    using lock_acquire_free [OF free] w by (simp add: ioqueue_wait_def t_def upd_lock_def cli_def running_thread_def)
  have "sched_inv T TASK_RUNNING t ql" by (rule sched_inv_same [OF inv]) (use t in auto)
  from thread_block_eq [OF this] obtain s' where s': "thread_block TASK_BLOCKED t = Inr (INTR_OFF, s')"
    "running_thread s' = fst (pick False (idle_thread s) (running_thread s) ql)"
    "sched_inv T TASK_RUNNING s' (snd (pick False (idle_thread s) (running_thread s) ql))"
    using t by (auto simp: asleep_def)
  from more_fields [OF thread_block_more(1) [OF s'(1)]] show ?thesis using s' t by (simp add: eq)
qed

lemma getchar_blocks:
  assumes "sched_inv T TASK_RUNNING s ql" "get_intr_status s = INTR_OFF"
    and "lock_ok (locks s q)" "locked (locks s q) = 0" "running_thread s \<noteq> NULL"
    and "ring_ok (ioqs s q)" "ring_list (ioqs s q) = []" "consumer (ioqs s q) = NULL"
  shows "\<exists>s'. ioqueue_getchar q s = Inr (Inl INTR_OFF, s') \<and>
    running_thread s' = fst (pick False (idle_thread s) (running_thread s) ql) \<and>
    sched_inv T TASK_RUNNING s' (snd (pick False (idle_thread s) (running_thread s) ql)) \<and>
    ioqs s' = (ioqs s)(q := (ioqs s q)\<lparr>consumer := running_thread s\<rparr>) \<and>
    locks s' q = \<lparr>locked = 1, holder = running_thread s, number_of = 1\<rparr>"
proof -
  have "ioqueue_getchar q s = bind_res (bind_res (lock_acquire q s) (ioqueue_wait consumer consumer_update q))
      (\<lambda>(st, s). Inr (Inl st, s))"
    using assms(2,6,7) ring_empty_iff [OF assms(6)]
    by (simp add: ioqueue_getchar_def getchar_loop_def ioqueue_empty_def bind_res_assoc)
  then show ?thesis using wait_blocks [where waiter = consumer and set_waiter = consumer_update, OF assms(1-5,8)] by auto
qed

lemma putchar_blocks:
  assumes "sched_inv T TASK_RUNNING s ql" "get_intr_status s = INTR_OFF"
    and "lock_ok (locks s q)" "locked (locks s q) = 0" "running_thread s \<noteq> NULL"
    and "ring_ok (ioqs s q)" "length (ring_list (ioqs s q)) = 63" "producer (ioqs s q) = NULL"
  shows "\<exists>s'. ioqueue_putchar q c s = Inr (Some INTR_OFF, s') \<and>
    running_thread s' = fst (pick False (idle_thread s) (running_thread s) ql) \<and>
    ioqs s' = (ioqs s)(q := (ioqs s q)\<lparr>producer := running_thread s\<rparr>)"
proof -
  have "ioqueue_putchar q c s = bind_res (bind_res (lock_acquire q s) (ioqueue_wait producer producer_update q))
      (\<lambda>(st, s). Inr (Some st, s))"
    using assms(2,6,7) ring_full_iff [OF assms(6)]
    by (simp add: ioqueue_putchar_def putchar_loop_def ioqueue_full_def bind_res_assoc)
  then show ?thesis using wait_blocks [where waiter = producer and set_waiter = producer_update, OF assms(1-5,8)] by auto
qed

text \<open>A resumed call releases the lock, which enables interrupts, and then asserts that they are off.\<close>

lemma getchar_resume_panics:
  assumes "locks s q = \<lparr>locked = 1, holder = running_thread s, number_of = 1\<rparr>" "running_thread s \<noteq> NULL"
  shows "ioqueue_getchar_resume q st s = Inl (Panic ''get_intr_status() == INTR_OFF'')"
proof -
  let ?t = "thread_block_resume st s"
  have "locks ?t = locks s" "running_thread ?t = running_thread s"
    by (simp_all add: thread_block_resume_def set_intr_status_def intr_enable_def intr_disable_def cli_def sti_def running_thread_def)
  then have "lock_release q ?t = Inr (sti (upd_lock q (\<lambda>_. \<lparr>locked = 0, holder = NULL, number_of = 0\<rparr>) ?t))"
    using assms by (intro lock_release_last) (simp_all add: lock_ok_def)
  then show ?thesis
    by (simp add: ioqueue_getchar_resume_def getchar_loop_def ioqueue_empty_def)
qed

lemma putchar_wakes:
  assumes inv: "sched_inv T TASK_RUNNING s ql" and off: "get_intr_status s = INTR_OFF"
    and r: "ring_ok (ioqs s q)" "length (ring_list (ioqs s q)) < 63"
    and p: "p \<in> T" "p \<noteq> running_thread s" "p \<notin> set ql" "consumer (ioqs s q) = p" "p \<noteq> NULL"
  shows "\<exists>s'. ioqueue_putchar q c s = Inr (None, s') \<and> sched_inv T TASK_RUNNING s' (p # ql) \<and>
    running_thread s' = running_thread s \<and> consumer (ioqs s' q) = NULL \<and>
    ring_list (ioqs s' q) = ring_list (ioqs s q) @ [c]"
proof -
  define t where "t = upd_ioq q (ring_put c) s"
  have it: "sched_inv T TASK_RUNNING t ql" by (rule sched_inv_same [OF inv]) (simp_all add: t_def)
  obtain u where u: "thread_unblock p t = Inr u" "running_thread u = running_thread t" "sched_inv T TASK_RUNNING u (p # ql)"
    using thread_unblock_inv [OF it p(1) _ p(3)] p(2) by (auto simp: t_def)
  define s' where "s' = upd_ioq q (consumer_update (\<lambda>_. NULL)) u"
  have cp: "consumer (ring_put c (ioqs s q)) = p" using p(4) by (simp add: ring_put_def)
  have iq: "ioqs u = ioqs t" using thread_unblock_more [OF u(1)] by (rule more_fields)
  have "ioqueue_putchar q c s = Inr (None, s')"
    using putchar_eq [OF off r, of c] p(4,5) u(1) cp by (simp add: ioqueue_wakeup_def t_def s'_def)
  moreover have "sched_inv T TASK_RUNNING s' (p # ql)" by (rule sched_inv_same [OF u(3)]) (simp_all add: s'_def)
  moreover have "ring_list (ioqs s' q) = ring_list (ring_put c (ioqs s q))"
    by (simp add: s'_def iq t_def ring_list_def ring_len_def)
  ultimately show ?thesis using ring_put_list(2) [OF r(1), of c] r(2) u(2) by (simp add: s'_def t_def)
qed


section \<open>Properties\<close>

definition sample_queue :: qstate where
  "sample_queue = ostate.extend sample_console
     \<lparr>ioqs = (\<lambda>_. \<lparr>producer = NULL, consumer = NULL, io_buf = replicate 64 0, head = 0, tail = 0\<rparr>)\<rparr>"

lemma sample_queue_fields [simp]:
  "ioqs sample_queue q = \<lparr>producer = NULL, consumer = NULL, io_buf = replicate 64 0, head = 0, tail = 0\<rparr>"
  "running_thread sample_queue = 0x10000" "idle_thread sample_queue = 0x20000"
  "get_intr_status sample_queue = INTR_OFF"
  "locks sample_queue l = \<lparr>locked = 0, holder = NULL, number_of = 0\<rparr>"
proof -
  have "running_thread sample_queue = running_thread sample_console" "idle_thread sample_queue = idle_thread sample_sched"
    "get_intr_status sample_queue = get_intr_status sample_sched" "locks sample_queue l = locks sample_console l"
    by (simp_all add: sample_queue_def ostate.defs running_thread_def get_intr_status_def sample_console_def
        sstate.defs sample_sync_def tstate.defs)
  then show "running_thread sample_queue = 0x10000" "idle_thread sample_queue = 0x20000"
    "get_intr_status sample_queue = INTR_OFF" "locks sample_queue l = \<lparr>locked = 0, holder = NULL, number_of = 0\<rparr>"
    by (simp_all add: sample_sched_fields)
qed (simp add: sample_queue_def ostate.defs)

lemma sample_ring [simp]:
  "ring_list \<lparr>producer = p, consumer = c, io_buf = b, head = 0, tail = 0\<rparr> = []"
  "ring_ok \<lparr>producer = p, consumer = c, io_buf = replicate 64 0, head = 0, tail = 0\<rparr>"
  by (simp_all add: ring_list_def ring_len_def ring_ok_def)

lemma sample_queue_inv: "sched_inv {0x10000, 0x20000, 0x30000} TASK_RUNNING sample_queue [0x30000]"
  by (rule sched_inv_same [OF sample_sched_inv])
    (simp_all add: sample_queue_def ostate.defs sample_console_def sstate.defs sample_sync_def tstate.defs)

text \<open>C19. The ring of \<^verbatim>\<open>ds/ioqueue.c\<close> is a first-in first-out queue: on a queue nobody waits for,
  putting characters that fit (63 in all) and then taking all that are there returns, without blocking,
  the old characters followed by the new ones, in order, and leaves the queue empty.\<close>

theorem ioqueue_fifo:
  assumes "quiet q s" "length (ring_list (ioqs s q)) + length cs \<le> 63"
  shows "\<exists>s'. bind_res (emit (put_now q) cs s) (collect (get_now q) (length (ring_list (ioqs s q)) + length cs)) =
      Inr (ring_list (ioqs s q) @ cs, s') \<and> quiet q s' \<and> ring_list (ioqs s' q) = []"
  by (rule ioq.in_order [OF assms])

theorem ioqueue_fifo_witness:
  "\<exists>s'. bind_res (emit (put_now 0x900) [7, 8, 9] sample_queue) (collect (get_now 0x900) 3) = Inr ([7, 8, 9], s')"
  using ioqueue_fifo [of "0x900" sample_queue "[7, 8, 9]"] by (auto simp: quiet_def numeral_3_eq_3 simp del: emit.simps)

text \<open>C20. \<^verbatim>\<open>ioqueue_getchar\<close> on an empty queue registers the running thread as the
  consumer and blocks it: the thread the scheduler picks runs next, and the lock of the queue stays
  taken. When the blocked thread runs again the call panics: releasing the lock enables interrupts,
  and the loop asserts that they are off.\<close>

theorem ioqueue_getchar_never_resumes:
  assumes "sched_inv T TASK_RUNNING s ql" "get_intr_status s = INTR_OFF"
    and "lock_ok (locks s q)" "locked (locks s q) = 0" "running_thread s \<noteq> NULL"
    and "ring_ok (ioqs s q)" "ring_list (ioqs s q) = []" "consumer (ioqs s q) = NULL"
  shows "\<exists>st s'. ioqueue_getchar q s = Inr (Inl st, s') \<and> consumer (ioqs s' q) = running_thread s \<and>
    running_thread s' = fst (pick False (idle_thread s) (running_thread s) ql) \<and>
    (\<forall>t. running_thread t = running_thread s \<longrightarrow> locks t q = locks s' q \<longrightarrow>
      ioqueue_getchar_resume q st t = Inl (Panic ''get_intr_status() == INTR_OFF''))"
  using getchar_blocks [OF assms] assms(5) by (fastforce intro!: getchar_resume_panics)

theorem ioqueue_getchar_never_resumes_witness:
  "\<exists>st s'. ioqueue_getchar 0x900 sample_queue = Inr (Inl st, s') \<and> running_thread s' = 0x30000"
  using ioqueue_getchar_never_resumes [OF sample_queue_inv, of "0x900"] by (auto simp: lock_ok_def pick_def)

text \<open>C21. The ring holds 63 of its 64 cells: with 63 characters in it
  \<^verbatim>\<open>ioqueue_putchar\<close> registers the running thread as the producer and blocks it, and the
  characters stay as they are.\<close>

theorem ioqueue_capacity:
  assumes "sched_inv T TASK_RUNNING s ql" "get_intr_status s = INTR_OFF"
    and "lock_ok (locks s q)" "locked (locks s q) = 0" "running_thread s \<noteq> NULL"
    and "ring_ok (ioqs s q)" "length (ring_list (ioqs s q)) = 63" "producer (ioqs s q) = NULL"
  shows "\<exists>s'. ioqueue_putchar q c s = Inr (Some INTR_OFF, s') \<and> producer (ioqs s' q) = running_thread s \<and>
    running_thread s' = fst (pick False (idle_thread s) (running_thread s) ql) \<and>
    ring_list (ioqs s' q) = ring_list (ioqs s q)"
  using putchar_blocks [OF assms, of c] by (auto simp: ring_list_def ring_len_def)

theorem ioqueue_capacity_witness:
  "\<exists>s'. ioqueue_putchar 0x900 7 (upd_ioq 0x900 (\<lambda>r. r\<lparr>head := 63\<rparr>) sample_queue) = Inr (Some INTR_OFF, s') \<and>
     running_thread s' = 0x30000"
proof -
  let ?s = "upd_ioq 0x900 (\<lambda>r. r\<lparr>head := 63\<rparr>) sample_queue"
  have "sched_inv {0x10000, 0x20000, 0x30000} TASK_RUNNING ?s [0x30000]"
    by (rule sched_inv_same [OF sample_queue_inv]) simp_all
  moreover have "ring_ok (ioqs ?s 0x900)" "length (ring_list (ioqs ?s 0x900)) = 63"
    by (simp_all add: ring_ok_def ring_len_def)
  ultimately show ?thesis using ioqueue_capacity [of _ ?s "[0x30000]" "0x900" 7]
    by (auto simp: lock_ok_def pick_def)
qed

text \<open>\<^verbatim>\<open>ioqueue_putchar\<close> wakes the consumer: when a thread waits for characters, the
  character is stored, the thread is the next to run, and nobody is registered as waiting.\<close>

theorem ioqueue_putchar_wakes:
  assumes "sched_inv T TASK_RUNNING s ql" "get_intr_status s = INTR_OFF"
    and "ring_ok (ioqs s q)" "length (ring_list (ioqs s q)) < 63"
    and "p \<in> T" "p \<noteq> running_thread s" "p \<notin> set ql" "consumer (ioqs s q) = p" "p \<noteq> NULL"
  shows "\<exists>s'. ioqueue_putchar q c s = Inr (None, s') \<and> sched_inv T TASK_RUNNING s' (p # ql) \<and>
    consumer (ioqs s' q) = NULL \<and> ring_list (ioqs s' q) = ring_list (ioqs s q) @ [c]"
  using putchar_wakes [OF assms] by blast

theorem ioqueue_putchar_wakes_witness:
  "\<exists>s'. ioqueue_putchar 0x900 7 (upd_ioq 0x900 (\<lambda>r. r\<lparr>consumer := 0x20000\<rparr>) sample_queue) = Inr (None, s') \<and>
     sched_inv {0x10000, 0x20000, 0x30000} TASK_RUNNING s' [0x20000, 0x30000]"
proof -
  let ?s = "upd_ioq 0x900 (\<lambda>r. r\<lparr>consumer := 0x20000\<rparr>) sample_queue"
  have "sched_inv {0x10000, 0x20000, 0x30000} TASK_RUNNING ?s [0x30000]"
    by (rule sched_inv_same [OF sample_queue_inv]) simp_all
  from ioqueue_putchar_wakes [OF this, of "0x900" "0x20000" 7] show ?thesis by auto
qed

end
