(* ===== verification/Memory.thy ===== *)
theory Memory
  imports Console
begin

text \<open>
  \<^verbatim>\<open>kernel/mem.c\<close>: the pools of physical pages and of kernel and user virtual pages
  (each a bitmap), the page tables, and the blocks that \<^verbatim>\<open>sys_malloc\<close> cuts pages
  into. A \<^verbatim>\<open>struct pool\<close> is keyed by its address, where its lock stands at offset 16.
  Arena headers are words of memory; the list entries inside free blocks belong to the heap of entries.
  Access to a descriptor outside \<^verbatim>\<open>k_block_descs\<close> is undefined in C and a
  \<open>Fault\<close> here.
\<close>

section \<open>State\<close>

datatype pool_flags = PF_KERNEL | PF_USER

record pool =
  pool_bitmap :: bitmap
  paddr_start :: u32
  pool_size :: u32

record mstate = ostate +
  pools :: "u32 \<Rightarrow> pool"
  kernel_pool :: u32
  user_pool :: u32
  kernel_vaddr :: virtual_addr
  descs_at :: u32
  k_block_descs :: "mem_block_desc list"

definition upd_pool :: "u32 \<Rightarrow> (pool \<Rightarrow> pool) \<Rightarrow> 'a mstate_scheme \<Rightarrow> 'a mstate_scheme" where
  "upd_pool p f s = s\<lparr>pools := (pools s)(p := f (pools s p))\<rparr>"

definition pool_lk :: "u32 \<Rightarrow> u32" where
  "pool_lk p = p + 16"

definition free_list :: "u32 \<Rightarrow> u32" where
  "free_list d = d + 8"

text \<open>Clearing memory clears the list entries in it.\<close>

definition clear_range :: "u32 \<Rightarrow> u32 \<Rightarrow> 'a vstate_scheme \<Rightarrow> 'a vstate_scheme" where
  "clear_range a n s =
     s\<lparr>mem := snd (memset a 0 n (mem s)),
       entries := (\<lambda>e. if e - a < n then \<lparr>le_prev = 0, le_next = 0\<rparr> else entries s e)\<rparr>"

text \<open>An update of the memory by a bitmap operation.\<close>

definition on_mem :: "(bmem \<Rightarrow> bmem res) \<Rightarrow> 'a vstate_scheme \<Rightarrow> 'a vstate_scheme res" where
  "on_mem f s = bind_res (f (mem s)) (\<lambda>m. Inr (s\<lparr>mem := m\<rparr>))"

section \<open>Pages\<close>

definition alloc_physical_pages :: "u32 \<Rightarrow> 'a mstate_scheme \<Rightarrow> (u32 \<times> 'a mstate_scheme) res" where
  "alloc_physical_pages m_pool s =
     (let btmp = pool_bitmap (pools s m_pool)
      in bind_res (bitmap_scan (mem s) btmp 1) (\<lambda>bit_idx.
         if bit_idx = - 1 then Inr (NULL, s)
         else bind_res (on_mem (bitmap_set btmp bit_idx 1) s) (\<lambda>s.
                Inr (bit_idx * 4096 + paddr_start (pools s m_pool), s))))"

text \<open>The loops that set or clear the bits of consecutive pages.\<close>

primrec set_run :: "nat \<Rightarrow> bitmap \<Rightarrow> u32 \<Rightarrow> u8 \<Rightarrow> bmem \<Rightarrow> bmem res" where
  "set_run 0 btmp i v m = Inr m"
| "set_run (Suc n) btmp i v m = bind_res (bitmap_set btmp i v m) (set_run n btmp (i + 1) v)"

definition get_virtual_pages :: "pool_flags \<Rightarrow> u32 \<Rightarrow> 'a mstate_scheme \<Rightarrow> (u32 \<times> 'a mstate_scheme) res" where
  "get_virtual_pages pf pg_cnt s =
     (if pf = PF_KERNEL then
        let va = kernel_vaddr s
        in bind_res (bitmap_scan (mem s) (vaddr_bitmap va) pg_cnt) (\<lambda>bit_idx_start.
           if bit_idx_start = - 1 then Inr (NULL, s)
           else bind_res (on_mem (set_run (unat pg_cnt) (vaddr_bitmap va) bit_idx_start 1) s) (\<lambda>s.
                Inr (vaddr_start va + bit_idx_start * 4096, s)))
      else
        let va = userprog_vaddr (threads s (running_thread s))
        in bind_res (bitmap_scan (mem s) (vaddr_bitmap va) pg_cnt) (\<lambda>bit_idx_start.
           if bit_idx_start = - 1 then Inr (NULL, s)
           else bind_res (on_mem (set_run (unat pg_cnt) (vaddr_bitmap va) bit_idx_start 1) s) (\<lambda>s.
                let vaddr = vaddr_start va + bit_idx_start * 4096
                in assert_res ''(uint32_t)vaddr_start < (0xc0000000 - PAGE_SIZE)'' (vaddr < 0xc0000000 - 4096)
                     (Inr (vaddr, s)))))"

text \<open>A page table entry: the physical address, present, writable, for user mode.\<close>

definition entry_of :: "u32 \<Rightarrow> u32" where
  "entry_of paddr = paddr OR 4 OR 2 OR 1"

definition insert_page_table :: "u32 \<Rightarrow> u32 \<Rightarrow> 'a mstate_scheme \<Rightarrow> 'a mstate_scheme res" where
  "insert_page_table vaddr paddr s =
     (let pde = pde_addr vaddr; pte = pte_addr vaddr
      in if pt s pde AND 1 \<noteq> 0 then Inr (s\<lparr>pt := (pt s)(pte := entry_of paddr)\<rparr>)
         else bind_res (alloc_physical_pages (kernel_pool s) s) (\<lambda>(pde_paddr, s).
           let s = s\<lparr>pt := (pt s)(pde := entry_of pde_paddr)\<rparr>;
               s = s\<lparr>pt := (\<lambda>a. if a - (pte AND 0xfffff000) < 4096 then 0 else pt s a)\<rparr>
           in Inr (s\<lparr>pt := (pt s)(pte := entry_of paddr)\<rparr>)))"

definition remove_virtual_pages :: "pool_flags \<Rightarrow> u32 \<Rightarrow> u32 \<Rightarrow> 'a mstate_scheme \<Rightarrow> 'a mstate_scheme res" where
  "remove_virtual_pages pf vaddr pg_cnt s =
     (let va = (if pf = PF_KERNEL then kernel_vaddr s else userprog_vaddr (threads s (running_thread s)));
          bit_idx_start = (vaddr - vaddr_start va) div 4096
      in on_mem (set_run (unat pg_cnt) (vaddr_bitmap va) bit_idx_start 0) s)"

definition free_physical_pages :: "u32 \<Rightarrow> 'a mstate_scheme \<Rightarrow> 'a mstate_scheme res" where
  "free_physical_pages pg_phy_addr s =
     (let mem_pool = (if paddr_start (pools s (user_pool s)) \<le> pg_phy_addr then user_pool s else kernel_pool s);
          bit_idx = (pg_phy_addr - paddr_start (pools s mem_pool)) div 4096
      in on_mem (bitmap_set (pool_bitmap (pools s mem_pool)) bit_idx 0) s)"

text \<open>\<open>False\<close>: no physical page was left, and \<^verbatim>\<open>malloc_pages\<close> returns NULL.\<close>

primrec map_pages :: "nat \<Rightarrow> u32 \<Rightarrow> u32 \<Rightarrow> 'a mstate_scheme \<Rightarrow> (bool \<times> 'a mstate_scheme) res" where
  "map_pages 0 mem_pool vaddr s = Inr (True, s)"
| "map_pages (Suc n) mem_pool vaddr s =
     bind_res (alloc_physical_pages mem_pool s) (\<lambda>(page_paddr, s).
       if page_paddr = NULL then Inr (False, s)
       else bind_res (insert_page_table vaddr page_paddr s) (map_pages n mem_pool (vaddr + 4096)))"

definition pool_of :: "pool_flags \<Rightarrow> 'a mstate_scheme \<Rightarrow> u32" where
  "pool_of pf s = (if pf = PF_KERNEL then kernel_pool s else user_pool s)"

definition malloc_pages :: "pool_flags \<Rightarrow> u32 \<Rightarrow> 'a mstate_scheme \<Rightarrow> (u32 \<times> 'a mstate_scheme) res" where
  "malloc_pages pf pg_cnt s =
     bind_res (get_virtual_pages pf pg_cnt s) (\<lambda>(vaddr_start, s).
       if vaddr_start = NULL then Inr (NULL, s)
       else bind_res (map_pages (unat pg_cnt) (pool_of pf s) vaddr_start s) (\<lambda>(ok, s).
              Inr (if ok then vaddr_start else NULL, s)))"

text \<open>The two loops of \<^verbatim>\<open>free_pages\<close> differ in their assertion only.\<close>

primrec unmap_pages :: "nat \<Rightarrow> bool \<Rightarrow> u32 \<Rightarrow> 'a mstate_scheme \<Rightarrow> 'a mstate_scheme res" where
  "unmap_pages 0 user vaddr s = Inr s"
| "unmap_pages (Suc n) user vaddr s =
     (let pg_phy_addr = addr_v2p vaddr s;
          kstart = paddr_start (pools s (kernel_pool s));
          ustart = paddr_start (pools s (user_pool s))
      in (if user then
            assert_res ''(pg_phy_addr % PAGE_SIZE) == 0 && pg_phy_addr >= user_pool.paddr_start''
              (pg_phy_addr mod 4096 = 0 \<and> ustart \<le> pg_phy_addr)
          else
            assert_res ''(pg_phy_addr % PAGE_SIZE) == 0 && pg_phy_addr >= kernel_pool.paddr_start && pg_phy_addr < user_pool.paddr_start''
              (pg_phy_addr mod 4096 = 0 \<and> kstart \<le> pg_phy_addr \<and> pg_phy_addr < ustart))
         (bind_res (free_physical_pages pg_phy_addr s) (\<lambda>s.
            unmap_pages n user (vaddr + 4096) (remove_page_table vaddr s))))"

definition free_pages :: "pool_flags \<Rightarrow> u32 \<Rightarrow> u32 \<Rightarrow> 'a mstate_scheme \<Rightarrow> 'a mstate_scheme res" where
  "free_pages pf vaddr pg_cnt s =
     assert_res ''pg_cnt >= 1 && vaddr % PAGE_SIZE == 0'' (1 \<le> pg_cnt \<and> vaddr mod 4096 = 0)
       (let pg_phy_addr = addr_v2p vaddr s
        in assert_res ''(pg_phy_addr % PAGE_SIZE) == 0 && pg_phy_addr >= 0x102000''
             (pg_phy_addr mod 4096 = 0 \<and> 0x102000 \<le> pg_phy_addr)
             (bind_res (unmap_pages (unat pg_cnt) (paddr_start (pools s (user_pool s)) \<le> pg_phy_addr) vaddr s)
               (remove_virtual_pages pf vaddr pg_cnt)))"

definition get_kernel_pages :: "u32 \<Rightarrow> 'a mstate_scheme \<Rightarrow> (u32 \<times> 'a mstate_scheme) res" where
  "get_kernel_pages pg_cnt s =
     bind_res (malloc_pages PF_KERNEL pg_cnt s) (\<lambda>(vaddr, s).
       Inr (vaddr, if vaddr \<noteq> NULL then clear_range vaddr (pg_cnt * 4096) s else s))"

definition get_user_pages :: "u32 \<Rightarrow> 'a mstate_scheme \<Rightarrow> (u32 \<times> 'a mstate_scheme) res" where
  "get_user_pages pg_cnt s =
     bind_res (lock_acquire (pool_lk (user_pool s)) s) (\<lambda>s.
     bind_res (malloc_pages PF_USER pg_cnt s) (\<lambda>(vaddr, s).
     bind_res (lock_release (pool_lk (user_pool s)) (clear_range vaddr (pg_cnt * 4096) s)) (\<lambda>s.
       Inr (vaddr, s))))"

definition get_a_page :: "pool_flags \<Rightarrow> u32 \<Rightarrow> 'a mstate_scheme \<Rightarrow> (u32 \<times> 'a mstate_scheme) res" where
  "get_a_page pf vaddr s =
     bind_res (lock_acquire (pool_lk (pool_of pf s)) s) (\<lambda>s.
       let cur = threads s (running_thread s);
           mark = (\<lambda>va. let bit_idx = (vaddr - vaddr_start va) div 4096
                        in assert_res ''bit_idx > 0'' (0 < sint bit_idx)
                             (on_mem (bitmap_set (vaddr_bitmap va) bit_idx 1) s))
       in bind_res
            (if pgdir cur \<noteq> NULL \<and> pf = PF_USER then mark (userprog_vaddr cur)
             else if pgdir cur = NULL \<and> pf = PF_KERNEL then mark (kernel_vaddr s)
             else Inl (Panic ''get_a_page: not allow kernel alloc userspace or user alloc kernelspac by get_a_page''))
            (\<lambda>s. bind_res (alloc_physical_pages (pool_of pf s) s) (\<lambda>(page_phyaddr, s).
               if page_phyaddr = NULL then Inr (NULL, s)
               else bind_res (insert_page_table vaddr page_phyaddr s) (\<lambda>s.
                    bind_res (lock_release (pool_lk (pool_of pf s)) s) (\<lambda>s. Inr (vaddr, s))))))"

section \<open>Blocks\<close>

text \<open>\<^verbatim>\<open>struct arena\<close>: the words \<^verbatim>\<open>desc\<close>,
  \<^verbatim>\<open>cnt\<close> and \<^verbatim>\<open>large\<close> at the start of a page.\<close>

definition arena_desc :: "u32 \<Rightarrow> 'a vstate_scheme \<Rightarrow> u32" where
  "arena_desc a s = read32 (mem s) a"

definition arena_cnt :: "u32 \<Rightarrow> 'a vstate_scheme \<Rightarrow> u32" where
  "arena_cnt a s = read32 (mem s) (a + 4)"

definition arena_large :: "u32 \<Rightarrow> 'a vstate_scheme \<Rightarrow> u32" where
  "arena_large a s = read32 (mem s) (a + 8)"

definition store32 :: "u32 \<Rightarrow> u32 \<Rightarrow> 'a vstate_scheme \<Rightarrow> 'a vstate_scheme" where
  "store32 a v s = s\<lparr>mem := write32 a v (mem s)\<rparr>"

text \<open>The descriptor a pointer points to.\<close>

definition desc_at :: "u32 \<Rightarrow> 'a mstate_scheme \<Rightarrow> mem_block_desc res" where
  "desc_at d s =
     (let i = unat (d - descs_at s)
      in if i mod 24 = 0 \<and> i div 24 < length (k_block_descs s) then Inr (k_block_descs s ! (i div 24))
         else Inl Fault)"

definition arena_to_block :: "u32 \<Rightarrow> u32 \<Rightarrow> 'a mstate_scheme \<Rightarrow> u32 res" where
  "arena_to_block a idx s =
     bind_res (desc_at (arena_desc a s) s) (\<lambda>d. Inr (a + 12 + idx * block_size d))"

definition block_to_arena :: "u32 \<Rightarrow> u32" where
  "block_to_arena b = b AND 0xfffff000"

definition init_desc :: "u32 \<Rightarrow> nat \<Rightarrow> 'a lstate_scheme \<Rightarrow> 'a lstate_scheme" where
  "init_desc desc_array i s = list_init (free_list (desc_array + 24 * of_nat i)) s"

definition block_desc_init :: "u32 \<Rightarrow> 'a lstate_scheme \<Rightarrow> mem_block_desc list \<times> 'a lstate_scheme" where
  "block_desc_init desc_array s =
     (map (\<lambda>i. let sz = push_bit i (16 :: u16)
               in \<lparr>block_size = ucast sz, block_per_arena = (4096 - 12) div ucast sz\<rparr>) [0..<7],
      fold (init_desc desc_array) [0..<7] s)"

text \<open>Cutting a fresh arena into free blocks.\<close>

primrec add_blocks :: "nat \<Rightarrow> u32 \<Rightarrow> u32 \<Rightarrow> 'a mstate_scheme \<Rightarrow> 'a mstate_scheme res" where
  "add_blocks 0 a block_idx s = Inr s"
| "add_blocks (Suc n) a block_idx s =
     bind_res (arena_to_block a block_idx s) (\<lambda>b.
     bind_res (of_loop (list_find (free_list (arena_desc a s)) b s)) (\<lambda>found.
     assert_res ''!list_find(&a->desc->free_list, &b->free_elem)'' (\<not> found)
       (add_blocks n a (block_idx + 1) (list_append (free_list (arena_desc a s)) b s))))"

definition new_arena :: "pool_flags \<Rightarrow> u32 \<Rightarrow> mem_block_desc \<Rightarrow> 'a mstate_scheme \<Rightarrow>
    (bool \<times> 'a mstate_scheme) res" where
  "new_arena pf d desc s =
     bind_res (malloc_pages pf 1 s) (\<lambda>(a, s).
       if a = NULL then Inr (False, s)
       else
         let s = clear_range a 4096 s;
             s = store32 a d s;
             s = store32 (a + 8) 0 s;
             s = store32 (a + 4) (block_per_arena desc) s;
             (old_status, s) = intr_disable s
         in bind_res (add_blocks (unat (block_per_arena desc)) a 0 s) (\<lambda>s.
              Inr (True, snd (set_intr_status old_status s))))"

definition malloc_large :: "pool_flags \<Rightarrow> u32 \<Rightarrow> u32 \<Rightarrow> 'a mstate_scheme \<Rightarrow> (u32 \<times> 'a mstate_scheme) res" where
  "malloc_large pf mem_pool sz s =
     (let page_cnt = DIV_ROUND_UP (sz + 12) 4096
      in bind_res (malloc_pages pf page_cnt s) (\<lambda>(a, s).
           if a \<noteq> NULL then
             let s = store32 (a + 8) 1 (store32 (a + 4) page_cnt (store32 a NULL (clear_range a (page_cnt * 4096) s)))
             in bind_res (lock_release (pool_lk mem_pool) s) (\<lambda>s. Inr (a + 12, s))
           else bind_res (lock_release (pool_lk mem_pool) s) (\<lambda>s. Inr (NULL, s))))"

text \<open>The first descriptor with \<^verbatim>\<open>size < block_size\<close>, or 7.\<close>

definition desc_index :: "u32 \<Rightarrow> mem_block_desc list \<Rightarrow> nat" where
  "desc_index sz ds = length (takeWhile (\<lambda>d. \<not> sz < block_size d) ds)"

definition malloc_small :: "pool_flags \<Rightarrow> u32 \<Rightarrow> u32 \<Rightarrow> 'a mstate_scheme \<Rightarrow> (u32 \<times> 'a mstate_scheme) res" where
  "malloc_small pf mem_pool sz s =
     (let d = descs_at s + 24 * of_nat (desc_index sz (k_block_descs s))
      in bind_res (desc_at d s) (\<lambda>desc.
         bind_res (if list_empty (free_list d) s then new_arena pf d desc s else Inr (True, s)) (\<lambda>(ok, s).
           if \<not> ok then bind_res (lock_release (pool_lk mem_pool) s) (\<lambda>s. Inr (NULL, s))
           else
             let (b, s) = list_pop (free_list d) s;
                 s = clear_range b (block_size desc) s;
                 a = block_to_arena b;
                 s = store32 (a + 4) (arena_cnt a s - 1) s
             in bind_res (lock_release (pool_lk mem_pool) s) (\<lambda>s. Inr (b, s)))))"

definition sys_malloc :: "u32 \<Rightarrow> 'a mstate_scheme \<Rightarrow> (u32 \<times> 'a mstate_scheme) res" where
  "sys_malloc sz s =
     (let pf = (if pgdir (threads s (running_thread s)) = NULL then PF_KERNEL else PF_USER);
          mem_pool = pool_of pf s
      in if \<not> (0 < sz \<and> sz < pool_size (pools s mem_pool)) then Inr (NULL, s)
         else bind_res (lock_acquire (pool_lk mem_pool) s) (\<lambda>s.
                if 1024 < sz then malloc_large pf mem_pool sz s else malloc_small pf mem_pool sz s))"

text \<open>Taking the blocks of an empty arena off their free list.\<close>

primrec drop_blocks :: "nat \<Rightarrow> u32 \<Rightarrow> u32 \<Rightarrow> 'a mstate_scheme \<Rightarrow> 'a mstate_scheme res" where
  "drop_blocks 0 a block_idx s = Inr s"
| "drop_blocks (Suc n) a block_idx s =
     bind_res (arena_to_block a block_idx s) (\<lambda>b.
     bind_res (of_loop (list_find (free_list (arena_desc a s)) b s)) (\<lambda>found.
     assert_res ''list_find(&a->desc->free_list, &b->free_elem)'' found
       (drop_blocks n a (block_idx + 1) (list_remove b s))))"

definition free_small :: "pool_flags \<Rightarrow> u32 \<Rightarrow> u32 \<Rightarrow> 'a mstate_scheme \<Rightarrow> 'a mstate_scheme res" where
  "free_small pf a b s =
     (let s = list_append (free_list (arena_desc a s)) b s;
          s = store32 (a + 4) (arena_cnt a s + 1) s
      in bind_res (desc_at (arena_desc a s) s) (\<lambda>desc.
           if arena_cnt a s = block_per_arena desc then
             bind_res (drop_blocks (unat (block_per_arena desc)) a 0 s) (remove_virtual_pages pf a 1)
           else Inr s))"

definition sys_free :: "u32 \<Rightarrow> 'a mstate_scheme \<Rightarrow> 'a mstate_scheme res" where
  "sys_free ptr s =
     assert_res ''ptr != NULL'' (ptr \<noteq> NULL)
       (let pf = (if pgdir (threads s (running_thread s)) = NULL then PF_KERNEL else PF_USER)
        in assert_res ''(uint32_t)ptr >= KERNEL_HEAP_START'' (pf = PF_KERNEL \<longrightarrow> 0xc0100000 \<le> ptr)
          (bind_res (lock_acquire (pool_lk (pool_of pf s)) s) (\<lambda>s.
             let a = block_to_arena ptr
             in assert_res ''a->large == 0 || a->large == 1'' (arena_large a s = 0 \<or> arena_large a s = 1)
                  (bind_res
                    (if arena_desc a s = NULL \<and> arena_large a s = 1
                     then remove_virtual_pages pf a (arena_cnt a s) s
                     else free_small pf a ptr s)
                    (lock_release (pool_lk (pool_of pf s)))))))"

section \<open>Initialisation\<close>

text \<open>The line feed that ends a message.\<close>

definition line :: "string \<Rightarrow> string" where
  "line msg = msg @ [CHR 0x0A]"

definition kernel_free_pages :: "u32 \<Rightarrow> u16" where
  "kernel_free_pages all_mem = ucast ((all_mem - 0x200000) div 4096) div 2"

definition user_free_pages :: "u32 \<Rightarrow> u16" where
  "user_free_pages all_mem = ucast ((all_mem - 0x200000) div 4096) - kernel_free_pages all_mem"

definition set_pools :: "u32 \<Rightarrow> 'a mstate_scheme \<Rightarrow> 'a mstate_scheme" where
  "set_pools all_mem s =
     (let kpages = ucast (kernel_free_pages all_mem); upages = ucast (user_free_pages all_mem);
          kbm_length = kpages div 8; ubm_length = upages div 8;
          kp_start = 0x200000; up_start = kp_start + kpages * 4096;
          s = upd_pool (kernel_pool s) (\<lambda>_. \<lparr>pool_bitmap = \<lparr>bitmap_len = kbm_length, bitmap_bits = 0xc009a000\<rparr>,
                paddr_start = kp_start, pool_size = kpages * 4096\<rparr>) s
      in upd_pool (user_pool s) (\<lambda>_. \<lparr>pool_bitmap = \<lparr>bitmap_len = ubm_length, bitmap_bits = 0xc009a000 + kbm_length\<rparr>,
           paddr_start = up_start, pool_size = upages * 4096\<rparr>) s)"

definition set_kernel_vaddr :: "u32 \<Rightarrow> 'a mstate_scheme \<Rightarrow> 'a mstate_scheme" where
  "set_kernel_vaddr all_mem s =
     (let kbm_length = ucast (kernel_free_pages all_mem) div 8; ubm_length = ucast (user_free_pages all_mem) div 8;
          s = s\<lparr>kernel_vaddr := \<lparr>vaddr_bitmap = \<lparr>bitmap_len = kbm_length, bitmap_bits = 0xc009a000 + kbm_length + ubm_length\<rparr>,
                  vaddr_start = 0xc0100000\<rparr>\<rparr>
      in s\<lparr>mem := bitmap_init (vaddr_bitmap (kernel_vaddr s)) (mem s)\<rparr>)"

definition init_pool_bitmap :: "u32 \<Rightarrow> 'a mstate_scheme \<Rightarrow> 'a mstate_scheme" where
  "init_pool_bitmap p s = s\<lparr>mem := bitmap_init (pool_bitmap (pools s p)) (mem s)\<rparr>"

definition mem_pool_init :: "u32 \<Rightarrow> 'a mstate_scheme \<Rightarrow> 'a mstate_scheme res" where
  "mem_pool_init all_mem s =
     bind_res (say (line ''mem_pool_init start'') s) (\<lambda>s.
     let s = set_pools all_mem s; kp = pools s (kernel_pool s)
     in bind_res (kprintf (lit s (line ''kernel_pool_bitmap_start: %x'')) [bitmap_bits (pool_bitmap kp)] s) (\<lambda>(s, _).
        bind_res (kprintf (lit s (line ''kernel_pool_paddr_start: %x'')) [paddr_start kp] s) (\<lambda>(s, _).
        let s = init_pool_bitmap (user_pool s) (init_pool_bitmap (kernel_pool s) s);
            s = set_kernel_vaddr all_mem s;
            s = lock_init (pool_lk (user_pool s)) (lock_init (pool_lk (kernel_pool s)) s)
        in say (line ''mem_pool_init done'') s)))"

definition mem_init :: "'a mstate_scheme \<Rightarrow> 'a mstate_scheme res" where
  "mem_init s =
     bind_res (say (line ''mem_init start'') s) (\<lambda>s.
     bind_res (mem_pool_init (read32 (mem s) 0xd00) s) (\<lambda>s.
     let (ds, s) = block_desc_init (descs_at s) s;
         s = s\<lparr>k_block_descs := ds\<rparr>;
         s = lock_init (pool_lk (user_pool s)) (lock_init (pool_lk (kernel_pool s)) s)
     in say (line ''mem_init done'') s))"

section \<open>Physical pages\<close>

lemma low_mask_bit: "bit (0xfff :: u32) n \<longleftrightarrow> n < 12"
proof -
  have m: "(0xfff :: u32) = mask 12" by (simp add: mask_eq_exp_minus_1)
  show ?thesis unfolding m by (auto simp: bit_simps)
qed

lemma unat_low: "unat (a AND 0xfff :: u32) = unat a mod 4096"
proof -
  have m: "(0xfff :: u32) = mask 12" by (simp add: mask_eq_exp_minus_1)
  have "a AND 0xfff = take_bit 12 a" unfolding m by (simp add: take_bit_eq_mask)
  then show ?thesis by (simp add: take_bit_eq_mod unat_mod)
qed

definition pool_bits :: "u32 \<Rightarrow> 'a mstate_scheme \<Rightarrow> bitmap" where
  "pool_bits p s = pool_bitmap (pools s p)"

definition frame :: "u32 \<Rightarrow> 'a mstate_scheme \<Rightarrow> nat \<Rightarrow> u32" where
  "frame p s n = paddr_start (pools s p) + of_nat n * 4096"

text \<open>A pool whose pages, page aligned and not at 0, fit into the address space.\<close>

definition pool_ok :: "u32 \<Rightarrow> 'a mstate_scheme \<Rightarrow> bool" where
  "pool_ok p s \<longleftrightarrow> bm_size (pool_bits p s) \<le> 2 ^ 20 \<and> 0 < paddr_start (pools s p) \<and>
     unat (paddr_start (pools s p)) + 4096 * bm_size (pool_bits p s) \<le> 2 ^ 32 \<and>
     4096 dvd unat (paddr_start (pools s p))"

lemma pool_ok_size: "pool_ok p s \<Longrightarrow> bm_size (pool_bits p s) \<le> 2 ^ 32"
  by (simp add: pool_ok_def)

lemma unat_frame:
  assumes "pool_ok p s" "n < bm_size (pool_bits p s)"
  shows "unat (frame p s n) = unat (paddr_start (pools s p)) + 4096 * n"
proof -
  have b: "unat (paddr_start (pools s p)) + 4096 * n < 2 ^ 32" "n < 2 ^ 20"
    using assms by (auto simp: pool_ok_def)
  then have "unat (of_nat n * 4096 :: u32) = 4096 * n"
    by (simp add: unat_word_ariths unat_of_nat)
  then show ?thesis using b unfolding frame_def by (subst unat_add_nowrap) simp_all
qed

lemma frame_inj:
  assumes "pool_ok p s" "n < bm_size (pool_bits p s)" "k < bm_size (pool_bits p s)"
  shows "frame p s n = frame p s k \<longleftrightarrow> n = k"
  using unat_frame [OF assms(1)] assms(2,3) by (metis add_left_cancel mult_left_cancel zero_neq_numeral)

lemma frame_aligned:
  assumes "pool_ok p s" "n < bm_size (pool_bits p s)"
  shows "frame p s n AND 0xfff = 0" "frame p s n \<noteq> NULL"
proof -
  have "4096 dvd unat (frame p s n)" using unat_frame [OF assms] assms(1) by (auto simp: pool_ok_def)
  then have "unat (frame p s n) mod 4096 = 0" by simp
  then have "unat (frame p s n AND 0xfff) = 0" by (simp only: unat_low)
  then show "frame p s n AND 0xfff = 0" by (simp add: unat_eq_0)
  have "0 < unat (frame p s n)" using unat_frame [OF assms] assms(1) by (simp add: pool_ok_def word_less_nat_alt)
  then show "frame p s n \<noteq> NULL" by auto
qed

lemma alloc_eq:
  assumes "pool_ok p s"
  shows "alloc_physical_pages p s =
    bind_res (bm.claim (pool_bits p s) (mem s)) (\<lambda>(n, m). Inr (frame p s n, s\<lparr>mem := m\<rparr>))"
proof (cases "bitmap_scan (mem s) (pool_bits p s) 1")
  case (Inl e)
  then show ?thesis by (simp add: alloc_physical_pages_def bm.claim_def scan_one_def pool_bits_def)
next
  case (Inr r)
  then have "scan_one (pool_bits p s) (mem s) = Inr (unat r)" by (simp add: scan_one_def)
  then have lt: "unat r < bm_size (pool_bits p s)" using bm.scan_Inr [OF pool_ok_size [OF assms]] by blast
  have "r \<noteq> - 1"
  proof
    assume "r = - 1"
    then have "unat r = 2 ^ 32 - 1" by (simp add: unsigned_minus_1_eq_mask mask_eq_exp_minus_1)
    then show False using lt assms by (simp add: pool_ok_def)
  qed
  then show ?thesis using Inr
    by (simp add: alloc_physical_pages_def bm.claim_def scan_one_def pool_bits_def on_mem_def bitmap_set_eq frame_def add.commute)
qed

section \<open>Page tables\<close>

lemma entry_of_frame:
  assumes "pa AND 0xfff = 0"
  shows "entry_of pa AND 0xfffff000 = pa"
proof (rule bit_u32_mask_eq)
  fix n :: nat assume n: "n < 32"
  have "\<not> bit (pa AND 0xfff) n" using assms by simp
  then have "n < 12 \<Longrightarrow> \<not> bit pa n" unfolding bit_and_iff low_mask_bit by auto
  moreover have "(4 OR 2 OR 1 :: u32) = mask 3" by (simp add: mask_eq_exp_minus_1)
  then have "entry_of pa = pa OR mask 3" by (simp add: entry_of_def or.assoc)
  ultimately show "bit (entry_of pa AND 0xfffff000) n = bit pa n"
    using n unfolding bit_and_iff page_mask_bit by (cases "n < 12") (auto simp: bit_or_iff bit_mask_iff)
qed

lemma insert_present:
  assumes "pt s (pde_addr v) AND 1 \<noteq> 0"
  shows "insert_page_table v pa s = Inr (s\<lparr>pt := (pt s)(pte_addr v := entry_of pa)\<rparr>)"
  using assms by (simp add: insert_page_table_def)

lemma v2p_insert:
  assumes "pa AND 0xfff = 0"
  shows "addr_v2p a (s\<lparr>pt := (pt s)(pte_addr v := entry_of pa)\<rparr>) =
    (if page_of a = page_of v then pa + (a AND 0xfff) else addr_v2p a s)"
  by (simp add: addr_v2p_def pte_addr_inj entry_of_frame [OF assms])


text \<open>The entries \<^verbatim>\<open>map_pages\<close> writes for the frames \<open>fs\<close> from \<open>v\<close> on.\<close>

primrec map_frames :: "u32 list \<Rightarrow> u32 \<Rightarrow> (u32 \<Rightarrow> u32) \<Rightarrow> u32 \<Rightarrow> u32" where
  "map_frames [] v f = f"
| "map_frames (fr # fs) v f = map_frames fs (v + 4096) (f(pte_addr v := entry_of fr))"

text \<open>\<open>n\<close> pages from \<open>v\<close> on, below the page tables.\<close>

definition below_tables :: "u32 \<Rightarrow> nat \<Rightarrow> bool" where
  "below_tables v n \<longleftrightarrow> unat v + 4096 * n \<le> 0xffc00000"

lemma below_tables_Suc:
  assumes "below_tables v (Suc n)"
  shows "unat (page_of v) < 0xffc00" "below_tables (v + 4096) n" "unat (page_of (v + 4096)) = Suc (unat (page_of v))"
proof -
  have u: "unat v + 4096 * n + 4096 \<le> 0xffc00000" using assms by (simp add: below_tables_def)
  then have "unat (v + 4096) = unat v + 4096" by (subst unat_add_nowrap) simp_all
  then show "below_tables (v + 4096) n" "unat (page_of (v + 4096)) = Suc (unat (page_of v))"
    using u by (simp_all add: below_tables_def unat_page_of)
  show "unat (page_of v) < 0xffc00" using u by (simp add: unat_page_of less_mult_imp_div_less)
qed

lemma page_of_table: "0xffc00 \<le> unat (page_of (pte_addr a))"
proof -
  have "unat (0xffc00000 + push_bit 2 (page_of a)) = 0xffc00000 + 4 * unat (page_of a)"
    using page_of_le [of a] by (subst unat_add_nowrap) (simp_all add: unat_page_word)
  then have "unat (page_of (pte_addr a)) = (0xffc00000 + 4 * unat (page_of a)) div 4096"
    unfolding pt_index by (simp only: unat_page_of)
  then show ?thesis by simp
qed

lemma pde_kept:
  assumes "unat (page_of v) < 0xffc00"
  shows "(f(pte_addr v := e)) (pde_addr a) = f (pde_addr a)"
  using assms page_of_table [of a] by (auto simp: pde_addr_pte pte_addr_inj)

lemma map_frames_other:
  "below_tables v (length fs) \<Longrightarrow> unat (page_of a) < unat (page_of v) \<Longrightarrow>
   map_frames fs v f (pte_addr a) = f (pte_addr a)"
proof (induction fs arbitrary: v f)
  case (Cons fr fs)
  note b = below_tables_Suc [OF Cons.prems(1) [simplified]]
  have "map_frames fs (v + 4096) (f(pte_addr v := entry_of fr)) (pte_addr a) = (f(pte_addr v := entry_of fr)) (pte_addr a)"
    using Cons.prems(2) b by (intro Cons.IH) simp_all
  then show ?case using Cons.prems(2) by (auto simp: pte_addr_inj)
qed simp

lemma map_frames_nth:
  "below_tables v (length fs) \<Longrightarrow> i < length fs \<Longrightarrow>
   map_frames fs v f (pte_addr (v + 4096 * of_nat i)) = entry_of (fs ! i)"
proof (induction fs arbitrary: v f i)
  case (Cons fr fs)
  note b = below_tables_Suc [OF Cons.prems(1) [simplified]]
  show ?case
  proof (cases i)
    case 0
    have "map_frames fs (v + 4096) (f(pte_addr v := entry_of fr)) (pte_addr v) = entry_of fr"
      using map_frames_other [OF b(2), of v] b(3) by simp
    then show ?thesis using 0 by simp
  next
    case (Suc j)
    have "map_frames fs (v + 4096) (f(pte_addr v := entry_of fr)) (pte_addr (v + 4096 + 4096 * of_nat j)) = entry_of (fs ! j)"
      using Cons.prems(2) Suc by (intro Cons.IH b(2)) simp
    then show ?thesis using Suc by (simp add: algebra_simps)
  qed
qed simp

text \<open>With the page tables present, mapping claims one page of the pool after the other.\<close>

definition present :: "u32 \<Rightarrow> nat \<Rightarrow> (u32 \<Rightarrow> u32) \<Rightarrow> bool" where
  "present v n f \<longleftrightarrow> (\<forall>i < n. f (pde_addr (v + 4096 * of_nat i)) AND 1 \<noteq> 0)"

lemma present_Suc:
  assumes "present v (Suc n) f" "unat (page_of v) < 0xffc00"
  shows "f (pde_addr v) AND 1 \<noteq> 0" "present (v + 4096) n (f(pte_addr v := e))"
proof -
  show "f (pde_addr v) AND 1 \<noteq> 0" using assms(1) by (auto simp: present_def dest: spec [of _ 0])
  have "f (pde_addr (v + 4096 + 4096 * of_nat i)) AND 1 \<noteq> 0" if "i < n" for i
    using assms(1) that by (auto simp: present_def algebra_simps dest: spec [of _ "Suc i"])
  then show "present (v + 4096) n (f(pte_addr v := e))"
    unfolding present_def pde_kept [OF assms(2)] by blast
qed

lemma map_pages_eq:
  assumes "pool_ok p s" "present v n (pt s)" "below_tables v n"
  shows "map_pages n p v s =
    bind_res (bm.claims (pool_bits p s) n (mem s)) (\<lambda>(ns, m).
      Inr (True, s\<lparr>mem := m, pt := map_frames (map (frame p s) ns) v (pt s)\<rparr>))"
  using assms
proof (induction n arbitrary: v s)
  case (Suc n)
  note b = below_tables_Suc [OF Suc.prems(3)] and pr = present_Suc [OF Suc.prems(2) below_tables_Suc(1) [OF Suc.prems(3)]]
  show ?case
  proof (cases "bm.claim (pool_bits p s) (mem s)")
    case (Inl e)
    then show ?thesis by (simp add: alloc_eq [OF Suc.prems(1)])
  next
    case (Inr r)
    then obtain k m where c: "bm.claim (pool_bits p s) (mem s) = Inr (k, m)" by (cases r) auto
    then have k: "k < bm_size (pool_bits p s)" using bm.claim_Inr(2) [OF pool_ok_size [OF Suc.prems(1)]] by blast
    define t where "t = s\<lparr>mem := m, pt := (pt s)(pte_addr v := entry_of (frame p s k))\<rparr>"
    have t: "pool_ok p t" "pool_bits p t = pool_bits p s" "frame p t = frame p s" "mem t = m"
      "pt t = (pt s)(pte_addr v := entry_of (frame p s k))"
      using Suc.prems(1) by (simp_all add: t_def pool_ok_def pool_bits_def frame_def fun_eq_iff)
    have ins: "insert_page_table v (frame p s k) (s\<lparr>mem := m\<rparr>) = Inr t"
      using insert_present [of "s\<lparr>mem := m\<rparr>" v "frame p s k"] pr(1) by (simp add: t_def)
    have "map_pages (Suc n) p v s = map_pages n p (v + 4096) t"
      using c ins frame_aligned(2) [OF Suc.prems(1) k] by (simp add: alloc_eq [OF Suc.prems(1)])
    also have "\<dots> = bind_res (bm.claims (pool_bits p s) n m) (\<lambda>(ns, m').
        Inr (True, t\<lparr>mem := m', pt := map_frames (map (frame p s) ns) (v + 4096) (pt t)\<rparr>))"
    proof -
      have "present (v + 4096) n (pt t)" unfolding t(5) by (rule pr(2))
      from Suc.IH [OF t(1) this b(2)] show ?thesis by (simp only: t(2-4))
    qed
    also have "\<dots> = bind_res (bm.claims (pool_bits p s) (Suc n) (mem s)) (\<lambda>(ns, m).
      Inr (True, s\<lparr>mem := m, pt := map_frames (map (frame p s) ns) v (pt s)\<rparr>))"
      using c by (cases "bm.claims (pool_bits p s) n m") (auto simp: t_def)
    finally show ?thesis .
  qed
qed simp

lemma map_frames_frame:
  "(\<forall>i < length fs. w \<noteq> pte_addr (v + 4096 * of_nat i)) \<Longrightarrow> map_frames fs v f w = f w"
proof (induction fs arbitrary: v f)
  case (Cons fr fs)
  have "w \<noteq> pte_addr v" using Cons.prems by (auto dest: spec [of _ 0])
  moreover have "w \<noteq> pte_addr (v + 4096 + 4096 * of_nat i)" if "i < length fs" for i
    using Cons.prems that by (auto simp: algebra_simps dest: spec [of _ "Suc i"])
  ultimately show ?case using Cons.IH [of "v + 4096"] by simp
qed simp

section \<open>Virtual pages\<close>

text \<open>Setting a run of bits changes nothing but the bytes they are in.\<close>

lemma set_run_ok:
  assumes "v = 0 \<or> v = 1"
  shows "\<exists>m'. set_run n b i v m = Inr m' \<and>
    (\<forall>a. (\<forall>k < n. a \<noteq> bitmap_bits b + of_nat (unat (i + of_nat k) div 8)) \<longrightarrow> m' a = m a)"
proof (induction n arbitrary: i m)
  case (Suc n)
  let ?m = "set_bit_mem b (unat i) (v = 1) m"
  obtain m' where m': "set_run n b (i + 1) v ?m = Inr m'"
    "\<forall>a. (\<forall>k < n. a \<noteq> bitmap_bits b + of_nat (unat (i + 1 + of_nat k) div 8)) \<longrightarrow> m' a = ?m a"
    using Suc.IH by blast
  have "m' a = m a" if a: "\<forall>k < Suc n. a \<noteq> bitmap_bits b + of_nat (unat (i + of_nat k) div 8)" for a
  proof -
    have "a \<noteq> bitmap_bits b + of_nat (unat i div 8)" using a [rule_format, of 0] by simp
    then have "?m a = m a" by (rule set_bit_mem_other)
    moreover have "a \<noteq> bitmap_bits b + of_nat (unat (i + 1 + of_nat k) div 8)" if "k < n" for k
      using a [rule_format, of "Suc k"] that by (simp add: algebra_simps)
    ultimately show ?thesis using m'(2) by simp
  qed
  then show ?case using m'(1) assms by (auto simp: bitmap_set_eq)
qed simp

lemma set_run_bits:
  assumes "v = 0 \<or> v = 1" "set_run n b i v m = Inr m'" "unat i + n \<le> 2 ^ 32" "j < 2 ^ 32"
  shows "bm_bit m' b j = (if unat i \<le> j \<and> j < unat i + n then v = 1 else bm_bit m b j)"
  using assms(2,3)
proof (induction n arbitrary: i m)
  case (Suc n)
  have r: "set_run n b (i + 1) v (set_bit_mem b (unat i) (v = 1) m) = Inr m'"
    using Suc.prems(1) assms(1) by (auto simp: bitmap_set_eq)
  have bit: "bm_bit (set_bit_mem b (unat i) (v = 1) m) b j = (if j = unat i then v = 1 else bm_bit m b j)"
    using assms(4) unat_u32_less [of i] by (rule bm_bit_set)
  show ?case
  proof (cases "n = 0")
    case True
    then show ?thesis using r bit by auto
  next
    case False
    then have u: "unat (i + 1) = Suc (unat i)" using Suc.prems(2) by (subst unat_add_nowrap) simp_all
    show ?thesis using Suc.IH [OF r] Suc.prems(2) bit unfolding u by auto
  qed
qed auto

text \<open>The virtual pages a thread allocates from.\<close>

definition va_of :: "pool_flags \<Rightarrow> 'a mstate_scheme \<Rightarrow> virtual_addr" where
  "va_of pf s = (if pf = PF_KERNEL then kernel_vaddr s else userprog_vaddr (threads s (running_thread s)))"

lemma get_virtual_Inr:
  assumes "get_virtual_pages pf n s = Inr (v, t)" "bm_size (vaddr_bitmap (va_of pf s)) \<le> 2 ^ 20" "0 < n"
  obtains start m where "bitmap_scan (mem s) (vaddr_bitmap (va_of pf s)) n = Inr start"
    "set_run (unat n) (vaddr_bitmap (va_of pf s)) start 1 (mem s) = Inr m" "t = s\<lparr>mem := m\<rparr>"
    "v = vaddr_start (va_of pf s) + start * 4096" "unat start < bm_size (vaddr_bitmap (va_of pf s))"
proof -
  obtain start where scan: "bitmap_scan (mem s) (vaddr_bitmap (va_of pf s)) n = Inr start"
    using assms(1) by (auto simp: get_virtual_pages_def va_of_def Let_def res_iffs split: if_splits)
  have lt: "unat start < bm_size (vaddr_bitmap (va_of pf s))"
    using bitmap_scan_run(1) [OF scan _ assms(3)] assms(2) by simp
  have "start \<noteq> - 1"
  proof
    assume "start = - 1"
    then have "unat start = 2 ^ 32 - 1" by (simp add: unsigned_minus_1_eq_mask mask_eq_exp_minus_1)
    then show False using lt assms(2) by simp
  qed
  moreover obtain m where "set_run (unat n) (vaddr_bitmap (va_of pf s)) start 1 (mem s) = Inr m"
    using set_run_ok [of 1] by blast
  ultimately show ?thesis using that scan lt assms(1)
    by (cases pf) (auto simp: get_virtual_pages_def va_of_def Let_def on_mem_def res_iffs)
qed

text \<open>The bytes of two bitmaps do not overlap, within the bits given.\<close>

definition apart :: "bitmap \<Rightarrow> nat \<Rightarrow> bitmap \<Rightarrow> bool" where
  "apart b n c \<longleftrightarrow> (\<forall>i < n. \<forall>k < bm_size c.
     bitmap_bits b + of_nat (i div 8) \<noteq> bitmap_bits c + of_nat (k div 8))"

lemma set_run_keeps:
  assumes "v = 0 \<or> v = 1" "set_run n b i v m = Inr m'" "apart b (unat i + n) c" "k < bm_size c"
  shows "bm_bit m' c k = bm_bit m c k"
proof -
  have "bitmap_bits c + of_nat (k div 8) \<noteq> bitmap_bits b + of_nat (unat (i + of_nat j) div 8)" if "j < n" for j
  proof -
    have "unat (i + of_nat j) \<le> unat i + j"
    proof -
      have "unat (i + of_nat j) \<le> unat i + unat (of_nat j :: u32)" by (simp add: unat_word_ariths)
      also have "unat (of_nat j :: u32) \<le> j" by (simp add: unat_of_nat)
      finally show ?thesis by simp
    qed
    then show ?thesis using assms(3,4) that unfolding apart_def by (metis add_less_cancel_left le_less_trans)
  qed
  then show ?thesis using set_run_ok [of v n b i m] assms(1,2) by (auto simp: bm_bit_def)
qed

lemmas set_run_apart = set_run_keeps [OF disjI2 [OF refl]]

lemma malloc_pages_eq:
  assumes "malloc_pages pf n s = Inr (v, s')" "v \<noteq> NULL" "0 < n"
    and "bm_size (vaddr_bitmap (va_of pf s)) \<le> 2 ^ 20" "pool_ok (pool_of pf s) s"
    and "present v (unat n) (pt s)" "below_tables v (unat n)"
  obtains start m ns m' where "bitmap_scan (mem s) (vaddr_bitmap (va_of pf s)) n = Inr start"
    "v = vaddr_start (va_of pf s) + start * 4096" "unat start < bm_size (vaddr_bitmap (va_of pf s))"
    "set_run (unat n) (vaddr_bitmap (va_of pf s)) start 1 (mem s) = Inr m"
    "bm.claims (pool_bits (pool_of pf s) s) (unat n) m = Inr (ns, m')"
    "s' = s\<lparr>mem := m', pt := map_frames (map (frame (pool_of pf s) s) ns) v (pt s)\<rparr>"
proof -
  from assms(1) obtain u t ok s1 where u: "get_virtual_pages pf n s = Inr (u, t)"
    and r: "(u = NULL \<and> v = NULL) \<or> (u \<noteq> NULL \<and> map_pages (unat n) (pool_of pf t) u t = Inr (ok, s') \<and> v = (if ok then u else NULL))"
    by (auto simp: malloc_pages_def res_iffs split: if_splits)
  from get_virtual_Inr [OF u assms(4,3)] obtain start m where
    g: "bitmap_scan (mem s) (vaddr_bitmap (va_of pf s)) n = Inr start"
    "set_run (unat n) (vaddr_bitmap (va_of pf s)) start 1 (mem s) = Inr m" "t = s\<lparr>mem := m\<rparr>"
    "u = vaddr_start (va_of pf s) + start * 4096" "unat start < bm_size (vaddr_bitmap (va_of pf s))" .
  have uv: "u = v" "map_pages (unat n) (pool_of pf s) v t = Inr (ok, s')"
    using r assms(2) g(3) by (auto simp: pool_of_def split: if_splits)
  have t: "pool_ok (pool_of pf s) t" "present v (unat n) (pt t)" "pool_bits (pool_of pf s) t = pool_bits (pool_of pf s) s"
    "frame (pool_of pf s) t = frame (pool_of pf s) s"
    using assms(5,6) by (simp_all add: g(3) pool_ok_def pool_bits_def frame_def fun_eq_iff)
  have "map_pages (unat n) (pool_of pf s) v t = bind_res (bm.claims (pool_bits (pool_of pf s) s) (unat n) (mem t))
      (\<lambda>(ns, m). Inr (True, t\<lparr>mem := m, pt := map_frames (map (frame (pool_of pf s) s) ns) v (pt t)\<rparr>))"
    using map_pages_eq [OF t(1,2) assms(7)] by (simp only: t(3,4))
  then obtain ns m' where "bm.claims (pool_bits (pool_of pf s) s) (unat n) (mem t) = Inr (ns, m')"
    "s' = t\<lparr>mem := m', pt := map_frames (map (frame (pool_of pf s) s) ns) v (pt t)\<rparr>"
    using uv(2) by (cases "bm.claims (pool_bits (pool_of pf s) s) (unat n) (mem t)") auto
  then have "bm.claims (pool_bits (pool_of pf s) s) (unat n) m = Inr (ns, m')"
    "s' = s\<lparr>mem := m', pt := map_frames (map (frame (pool_of pf s) s) ns) v (pt s)\<rparr>"
    by (simp_all add: g(3))
  then show ?thesis using that g uv(1) by blast
qed


lemma malloc_pages_run:
  assumes m: "malloc_pages pf n s = Inr (v, s')" "v \<noteq> NULL" "0 < n"
    and sz: "bm_size (vaddr_bitmap (va_of pf s)) \<le> 2 ^ 20" and ok: "pool_ok (pool_of pf s) s"
    and pr: "present v (unat n) (pt s)" "below_tables v (unat n)"
    and ap: "apart (vaddr_bitmap (va_of pf s)) (bm_size (vaddr_bitmap (va_of pf s)) + unat n) (pool_bits (pool_of pf s) s)"
  shows "\<exists>ns. length ns = unat n \<and> distinct ns \<and>
    (\<forall>k \<in> set ns. k < bm_size (pool_bits (pool_of pf s) s) \<and> \<not> bm_bit (mem s) (pool_bits (pool_of pf s) s) k) \<and>
    (\<forall>k < bm_size (pool_bits (pool_of pf s) s).
       bm_bit (mem s') (pool_bits (pool_of pf s) s) k \<longleftrightarrow> k \<in> set ns \<or> bm_bit (mem s) (pool_bits (pool_of pf s) s) k) \<and>
    pt s' = map_frames (map (frame (pool_of pf s) s) ns) v (pt s)"
proof -
  let ?b = "pool_bits (pool_of pf s) s"
  from malloc_pages_eq [OF m sz ok pr] obtain start m1 ns m2 where
    g: "set_run (unat n) (vaddr_bitmap (va_of pf s)) start 1 (mem s) = Inr m1"
    "unat start < bm_size (vaddr_bitmap (va_of pf s))"
    and c: "bm.claims ?b (unat n) m1 = Inr (ns, m2)"
    and s': "s' = s\<lparr>mem := m2, pt := map_frames (map (frame (pool_of pf s) s) ns) v (pt s)\<rparr>"
    by metis
  have "apart (vaddr_bitmap (va_of pf s)) (unat start + unat n) ?b"
    using ap g(2) unfolding apart_def by (meson add_less_mono1 less_trans)
  then have m1: "bm_bit m1 ?b k = bm_bit (mem s) ?b k" if "k < bm_size ?b" for k
    by (rule set_run_apart [OF g(1) _ that])
  note cl = bm.claims_Inr [OF pool_ok_size [OF ok] c]
  have "\<forall>k \<in> set ns. \<not> bm_bit (mem s) ?b k" using cl m1 by blast
  then show ?thesis by (intro exI [of _ ns]) (use cl m1 in \<open>simp add: s'\<close>)
qed

lemma malloc_pages_maps_eq:
  assumes m: "malloc_pages pf n s = Inr (v, s')" "v \<noteq> NULL" "0 < n"
    and sz: "bm_size (vaddr_bitmap (va_of pf s)) \<le> 2 ^ 20" and ok: "pool_ok (pool_of pf s) s"
    and pr: "present v (unat n) (pt s)" "below_tables v (unat n)"
    and ap: "apart (vaddr_bitmap (va_of pf s)) (bm_size (vaddr_bitmap (va_of pf s)) + unat n) (pool_bits (pool_of pf s) s)"
  shows "\<exists>ns. length ns = unat n \<and> distinct ns \<and>
    (\<forall>k \<in> set ns. k < bm_size (pool_bits (pool_of pf s) s) \<and> \<not> bm_bit (mem s) (pool_bits (pool_of pf s) s) k) \<and>
    (\<forall>k < bm_size (pool_bits (pool_of pf s) s).
       bm_bit (mem s') (pool_bits (pool_of pf s) s) k \<longleftrightarrow> k \<in> set ns \<or> bm_bit (mem s) (pool_bits (pool_of pf s) s) k) \<and>
    (\<forall>i < unat n. addr_v2p (v + 4096 * of_nat i) s' = frame (pool_of pf s) s (ns ! i) + ((v + 4096 * of_nat i) AND 0xfff)) \<and>
    (\<forall>a. (\<forall>i < unat n. page_of a \<noteq> page_of (v + 4096 * of_nat i)) \<longrightarrow> addr_v2p a s' = addr_v2p a s)"
proof -
  from malloc_pages_run [OF m sz ok pr ap] obtain ns where ns: "length ns = unat n" "distinct ns"
      "\<forall>k \<in> set ns. k < bm_size (pool_bits (pool_of pf s) s) \<and> \<not> bm_bit (mem s) (pool_bits (pool_of pf s) s) k"
      "\<forall>k < bm_size (pool_bits (pool_of pf s) s).
         bm_bit (mem s') (pool_bits (pool_of pf s) s) k \<longleftrightarrow> k \<in> set ns \<or> bm_bit (mem s) (pool_bits (pool_of pf s) s) k"
      "pt s' = map_frames (map (frame (pool_of pf s) s) ns) v (pt s)"
    by blast
  have tr: "addr_v2p (v + 4096 * of_nat i) s' = frame (pool_of pf s) s (ns ! i) + ((v + 4096 * of_nat i) AND 0xfff)"
    if "i < unat n" for i
  proof -
    have "pt s' (pte_addr (v + 4096 * of_nat i)) = entry_of (map (frame (pool_of pf s) s) ns ! i)"
      using map_frames_nth [of v "map (frame (pool_of pf s) s) ns" i] pr(2) that ns(1,5) by simp
    moreover have "frame (pool_of pf s) s (ns ! i) AND 0xfff = 0"
      using ns(1,3) that frame_aligned(1) [OF ok, of "ns ! i"] by simp
    ultimately show ?thesis using ns(1) that by (simp add: addr_v2p_def entry_of_frame)
  qed
  have fr: "addr_v2p a s' = addr_v2p a s" if "\<forall>i < unat n. page_of a \<noteq> page_of (v + 4096 * of_nat i)" for a
    using map_frames_frame [of "map (frame (pool_of pf s) s) ns" "pte_addr a" v "pt s"] that ns(1,5)
    by (simp add: addr_v2p_def pte_addr_inj)
  show ?thesis
    by (intro exI [of _ ns]) (use ns(1-4) tr fr in simp)
qed

section \<open>Giving pages back\<close>

lemma unat_page_index:
  assumes "4096 * n < 2 ^ 32"
  shows "unat ((of_nat n * 4096 :: u32) div 4096) = n"
proof -
  have "unat (of_nat n * 4096 :: u32) = 4096 * n"
    using assms by (simp add: unat_word_ariths unat_of_nat)
  then show ?thesis by (simp add: unat_div)
qed

text \<open>The user pool stands behind the kernel pool.\<close>

definition pools_ok :: "'a mstate_scheme \<Rightarrow> bool" where
  "pools_ok s \<longleftrightarrow> pool_ok (kernel_pool s) s \<and> pool_ok (user_pool s) s \<and>
     unat (paddr_start (pools s (kernel_pool s))) + 4096 * bm_size (pool_bits (kernel_pool s) s) \<le>
     unat (paddr_start (pools s (user_pool s)))"

lemma free_frame_eq:
  assumes "pools_ok s" "n < bm_size (pool_bits (pool_of pf s) s)"
  shows "free_physical_pages (frame (pool_of pf s) s n) s =
    Inr (s\<lparr>mem := set_bit_mem (pool_bits (pool_of pf s) s) n False (mem s)\<rparr>)"
proof -
  have ok: "pool_ok (pool_of pf s) s" using assms(1) by (simp add: pools_ok_def pool_of_def)
  note u = unat_frame [OF ok assms(2)]
  have "paddr_start (pools s (user_pool s)) \<le> frame (pool_of pf s) s n \<longleftrightarrow> pool_of pf s = user_pool s"
  proof (cases "pool_of pf s = user_pool s")
    case True
    then show ?thesis using u by (simp add: word_le_nat_alt)
  next
    case False
    then have "pool_of pf s = kernel_pool s" by (simp add: pool_of_def split: if_splits)
    then show ?thesis using False u assms by (auto simp: word_le_nat_alt pools_ok_def)
  qed
  then have p: "(if paddr_start (pools s (user_pool s)) \<le> frame (pool_of pf s) s n then user_pool s else kernel_pool s) = pool_of pf s"
    by (auto simp: pool_of_def)
  have "unat ((frame (pool_of pf s) s n - paddr_start (pools s (pool_of pf s))) div 4096) = n"
    using unat_page_index [of n] assms(2) ok by (simp add: frame_def pool_ok_def)
  then show ?thesis unfolding free_physical_pages_def Let_def p
    by (simp add: on_mem_def bitmap_set_eq pool_bits_def)
qed

lemma set_bit_back:
  assumes "n < 2 ^ 32"
  shows "set_bit_mem b n (bm_bit m b n) (set_bit_mem b n v m) = m"
proof
  fix a
  let ?a = "bitmap_bits b + of_nat (n div 8)"
  show "set_bit_mem b n (bm_bit m b n) (set_bit_mem b n v m) a = m a"
  proof (cases "a = ?a")
    case True
    have "n mod 8 < 8" by simp
    then show ?thesis using True
      by (intro bit_word_eqI) (auto simp: set_bit_mem_def bm_bit_def Let_def bit_set_byte simp del: push_bit_of_1)
  qed (simp add: set_bit_mem_other)
qed

lemma alloc_free:
  assumes "pools_ok s" "alloc_physical_pages (pool_of pf s) s = Inr (pa, s')"
  shows "free_physical_pages pa s' = Inr s"
proof -
  have ok: "pool_ok (pool_of pf s) s" using assms(1) by (simp add: pools_ok_def pool_of_def)
  from assms(2) obtain n m where c: "bm.claim (pool_bits (pool_of pf s) s) (mem s) = Inr (n, m)"
    and pa: "pa = frame (pool_of pf s) s n" "s' = s\<lparr>mem := m\<rparr>"
    by (auto simp: alloc_eq [OF ok] res_iffs)
  note cl = bm.claim_Inr [OF pool_ok_size [OF ok] c]
  have m: "m = set_bit_mem (pool_bits (pool_of pf s) s) n True (mem s)"
    using c by (auto simp: bm.claim_def res_iffs)
  have "pools_ok s'" "pool_of pf s' = pool_of pf s" "pool_bits (pool_of pf s) s' = pool_bits (pool_of pf s) s"
    "frame (pool_of pf s) s' n = frame (pool_of pf s) s n"
    using assms(1) by (simp_all add: pa pools_ok_def pool_ok_def pool_bits_def pool_of_def frame_def)
  then have "free_physical_pages pa s' = Inr (s'\<lparr>mem := set_bit_mem (pool_bits (pool_of pf s) s) n False (mem s')\<rparr>)"
    using free_frame_eq [of s' n pf] cl(2) pa(1) by simp
  moreover have "set_bit_mem (pool_bits (pool_of pf s) s) n False m = mem s"
    using set_bit_back [of n "pool_bits (pool_of pf s) s" "mem s" True] cl(2,3) pool_ok_size [OF ok] by (simp add: m)
  ultimately show ?thesis by (simp add: pa)
qed

section \<open>The pools of a fresh system\<close>

definition free_pages_of :: "u32 \<Rightarrow> nat" where
  "free_pages_of all_mem = (unat all_mem - 0x200000) div 4096"

lemma free_pages_words:
  assumes "0x200000 \<le> all_mem"
  shows "unat (kernel_free_pages all_mem) = free_pages_of all_mem mod 2 ^ 16 div 2"
    "unat (user_free_pages all_mem) = free_pages_of all_mem mod 2 ^ 16 - free_pages_of all_mem mod 2 ^ 16 div 2"
proof -
  have "unat (all_mem - 0x200000) = unat all_mem - 0x200000" using assms by (subst unat_sub) simp_all
  then have u: "unat (ucast ((all_mem - 0x200000) div 4096) :: u16) = free_pages_of all_mem mod 2 ^ 16"
    by (simp add: free_pages_of_def unsigned_ucast_eq unat_div take_bit_eq_mod)
  then show k: "unat (kernel_free_pages all_mem) = free_pages_of all_mem mod 2 ^ 16 div 2"
    by (simp add: kernel_free_pages_def unat_div)
  have "kernel_free_pages all_mem \<le> ucast ((all_mem - 0x200000) div 4096)"
    unfolding word_le_nat_alt k u by simp
  then have "unat (user_free_pages all_mem) =
      unat (ucast ((all_mem - 0x200000) div 4096) :: u16) - unat (kernel_free_pages all_mem)"
    unfolding user_free_pages_def by (rule unat_sub)
  then show "unat (user_free_pages all_mem) = free_pages_of all_mem mod 2 ^ 16 - free_pages_of all_mem mod 2 ^ 16 div 2"
    by (simp only: k u)
qed

lemma pages_words:
  fixes k :: u16
  shows "unat (ucast k :: u32) = unat k" "unat (ucast k div 8 :: u32) = unat k div 8"
    "unat (ucast k * 4096 :: u32) = unat k * 4096"
proof -
  have k: "unat k < 2 ^ 16" using unsigned_less [of k] by simp
  then show u: "unat (ucast k :: u32) = unat k" by (simp add: unsigned_ucast_eq take_bit_nat_eq_self)
  then show "unat (ucast k div 8 :: u32) = unat k div 8" by (simp add: unat_div)
  have "unat (ucast k :: u32) * unat (4096 :: u32) < 2 ^ 32" using k u by simp
  then show "unat (ucast k * 4096 :: u32) = unat k * 4096" using u by (simp add: unat_word_ariths)
qed

lemma set_pools_fields:
  fixes all_mem :: u32
  assumes "kernel_pool s \<noteq> user_pool s"
  defines "k \<equiv> ucast (kernel_free_pages all_mem) :: u32" and "u \<equiv> ucast (user_free_pages all_mem) :: u32"
  shows "pools (set_pools all_mem s) (kernel_pool s) =
      \<lparr>pool_bitmap = \<lparr>bitmap_len = k div 8, bitmap_bits = 0xc009a000\<rparr>, paddr_start = 0x200000, pool_size = k * 4096\<rparr>"
    "pools (set_pools all_mem s) (user_pool s) =
      \<lparr>pool_bitmap = \<lparr>bitmap_len = u div 8, bitmap_bits = 0xc009a000 + k div 8\<rparr>, paddr_start = 0x200000 + k * 4096, pool_size = u * 4096\<rparr>"
    "kernel_pool (set_pools all_mem s) = kernel_pool s" "user_pool (set_pools all_mem s) = user_pool s"
  using assms(1) by (simp_all add: set_pools_def upd_pool_def k_def u_def Let_def)

lemma set_pools_eq:
  assumes "0x200000 \<le> all_mem" "free_pages_of all_mem < 2 ^ 16" "kernel_pool s \<noteq> user_pool s"
  defines "t \<equiv> set_pools all_mem s"
  shows "pools_ok t" "unat (paddr_start (pools t (user_pool t))) + unat (pool_size (pools t (user_pool t))) \<le> unat all_mem"
    "bm_size (pool_bits (kernel_pool t) t) \<le> unat (pool_size (pools t (kernel_pool t))) div 4096"
    "bm_size (pool_bits (user_pool t) t) \<le> unat (pool_size (pools t (user_pool t))) div 4096"
    "apart (pool_bits (kernel_pool t) t) (bm_size (pool_bits (kernel_pool t) t)) (pool_bits (user_pool t) t)"
proof -
  let ?F = "free_pages_of all_mem"
  let ?k = "unat (kernel_free_pages all_mem)" and ?u = "unat (user_free_pages all_mem)"
  note w = free_pages_words [OF assms(1)]
  have F: "?F * 4096 + 0x200000 \<le> unat all_mem"
    using assms(1) by (simp add: free_pages_of_def word_le_nat_alt)
  have ku: "?k + ?u = ?F" "?k \<le> ?F" "?k < 2 ^ 15" using w assms(2) by simp_all
  note f = set_pools_fields [OF assms(3), of all_mem, folded t_def]
  note f' = f(1,2) [folded f(3,4)]
  have us: "unat (0x200000 + ucast (kernel_free_pages all_mem) * 4096 :: u32) = 0x200000 + ?k * 4096"
    using ku by (subst unat_add_nowrap) (simp_all add: pages_words)
  have sz: "bm_size (pool_bits (kernel_pool t) t) = 8 * (?k div 8)" "bm_size (pool_bits (user_pool t) t) = 8 * (?u div 8)"
    by (simp_all add: pool_bits_def f' bm_size_def pages_words)
  have lt: "8 * (?k div 8) \<le> ?k" "8 * (?u div 8) \<le> ?u" by simp_all
  have am: "unat all_mem < 4294967296" using unat_u32_less [of all_mem] by simp
  have d: "?k div 8 \<le> ?k" "?u div 8 \<le> ?u" "?k div 8 \<le> 131008" "?u div 8 \<le> 131072"
    "32768 * (?u div 8) \<le> 4096 * ?u" "32768 * (?k div 8) \<le> 4096 * ?k"
    using ku assms(2) by simp_all
  have nz: "(0 :: u32) < 0x200000 + ucast (kernel_free_pages all_mem) * 4096"
    unfolding word_less_nat_alt us by simp
  have tot: "?k * 4096 + 32768 * (?u div 8) \<le> 4292870144" using d(5) ku F am by linarith
  show "pools_ok t"
    using sz d nz tot us ku(3) by (simp add: pools_ok_def pool_ok_def f' pages_words) arith
  show "unat (paddr_start (pools t (user_pool t))) + unat (pool_size (pools t (user_pool t))) \<le> unat all_mem"
    using F ku us by (simp add: f' pages_words)
  show "bm_size (pool_bits (kernel_pool t) t) \<le> unat (pool_size (pools t (kernel_pool t))) div 4096"
    "bm_size (pool_bits (user_pool t) t) \<le> unat (pool_size (pools t (user_pool t))) div 4096"
    using sz lt by (simp_all add: f' pages_words)
  show "apart (pool_bits (kernel_pool t) t) (bm_size (pool_bits (kernel_pool t) t)) (pool_bits (user_pool t) t)"
    unfolding apart_def sz
  proof (intro allI impI)
    fix i j assume i: "i < 8 * (?k div 8)" and j: "j < 8 * (?u div 8)"
    have e: "(ucast (kernel_free_pages all_mem) div 8 :: u32) = of_nat (?k div 8)"
      using pages_words(2) [of "kernel_free_pages all_mem"] by (metis of_nat_unat_id)
    have "i div 8 < ?k div 8" "j div 8 < ?u div 8" using i j by auto
    then have "(0xc009a000 :: u32) + of_nat (i div 8) \<noteq> 0xc009a000 + of_nat (?k div 8 + j div 8)"
      using ku assms(2) by (subst offset_eq) simp_all
    then show "bitmap_bits (pool_bits (kernel_pool t) t) + of_nat (i div 8) \<noteq>
        bitmap_bits (pool_bits (user_pool t) t) + of_nat (j div 8)"
      by (simp add: pool_bits_def f' e add.assoc)
  qed
qed

section \<open>Block sizes\<close>

definition size_classes :: "mem_block_desc list" where
  "size_classes = map (\<lambda>(sz, n). \<lparr>block_size = sz, block_per_arena = n\<rparr>)
     [(16, 255), (32, 127), (64, 63), (128, 31), (256, 15), (512, 7), (1024, 3)]"

lemma block_desc_init_eq: "fst (block_desc_init a s) = size_classes"
  by (simp add: block_desc_init_def size_classes_def upt_rec push_bit_eq_mult)

lemma desc_index_class:
  "sz < 1024 \<Longrightarrow> desc_index sz size_classes < 7 \<and> sz < block_size (size_classes ! desc_index sz size_classes) \<and>
     (16 \<le> sz \<longrightarrow> block_size (size_classes ! desc_index sz size_classes) \<le> 2 * sz)"
  "1024 \<le> sz \<Longrightarrow> desc_index sz size_classes = 7"
  by (auto simp: desc_index_def size_classes_def not_less word_le_nat_alt word_less_nat_alt unat_word_ariths)

lemma malloc_1024_faults:
  assumes "k_block_descs s = size_classes" "pgdir (threads s (running_thread s)) = NULL"
    "1024 < pool_size (pools s (kernel_pool s))"
    "lock_ok (locks s (pool_lk (kernel_pool s)))" "locked (locks s (pool_lk (kernel_pool s))) = 0" "running_thread s \<noteq> NULL"
  shows "sys_malloc 1024 s = Inl Fault"
proof -
  have "descs_at s + 24 * of_nat (desc_index 1024 size_classes) - descs_at s = 168"
    using desc_index_class(2) [of 1024] by simp
  then have f: "desc_at (descs_at s + 24 * of_nat (desc_index 1024 size_classes)) t = Inl Fault"
    if "k_block_descs t = size_classes" "descs_at t = descs_at s" for t :: "'a mstate_scheme"
    using that by (simp add: desc_at_def size_classes_def)
  show ?thesis
    using assms lock_acquire_free [OF assms(4-6)]
    by (simp add: sys_malloc_def pool_of_def malloc_small_def f upd_lock_def cli_def Let_def)
qed

section \<open>Blocks\<close>

lemma mem_clear_range: "mem (clear_range a n s) x = (if x - a < n then 0 else mem s x)"
  by (simp add: clear_range_def memset_eq filled_def word_less_nat_alt)

lemma entries_clear_range:
  "entries (clear_range a n s) e = (if e - a < n then \<lparr>le_prev = 0, le_next = 0\<rparr> else entries s e)"
  by (simp add: clear_range_def)

lemma holds_clear_range:
  assumes "holds p s xs" "\<forall>e \<in> set (nodes p xs). n \<le> e - a"
  shows "holds p (clear_range a n s) xs"
  unfolding holds_def
  by (rule dlist_frame [OF assms(1) [unfolded holds_def]]) (use assms(2) in \<open>auto simp: entries_clear_range\<close>)

lemma write32_other: "a \<notin> span p 4 \<Longrightarrow> write32 p v m a = m a"
  by (auto simp: write32_def add.commute [of _ p])

lemma mem_store32_other:
  "x \<notin> span a 4 \<Longrightarrow> mem (store32 a v s) x = mem s x"
  by (auto simp: store32_def write32_def add.commute [of _ a])

lemma read_store32 [simp]: "read32 (mem (store32 a v s)) a = v"
  by (simp add: store32_def read_write32)

lemma read32_cong: "(\<And>x. x \<in> span a 4 \<Longrightarrow> m x = m' x) \<Longrightarrow> read32 m a = read32 m' a"
  by (simp add: read32_def)

lemma read_store32_apart:
  assumes "span a 4 \<inter> span b 4 = {}"
  shows "read32 (mem (store32 b v s)) a = read32 (mem s) a"
  using assms by (intro read32_cong mem_store32_other) blast

lemma store32_simps [simp]:
  "entries (store32 a v s) = entries s" "holds p (store32 a v s) xs = holds p s xs"
  by (simp_all add: store32_def holds_def)

text \<open>The lock of the pool around an allocation.\<close>

definition taken :: "u32 \<Rightarrow> 'a sstate_scheme \<Rightarrow> 'a sstate_scheme" where
  "taken lk s = s\<lparr>eflags := eflags (cli s),
     locks := (locks s)(lk := \<lparr>locked = 1, holder = running_thread s, number_of = 1\<rparr>)\<rparr>"

definition let_go :: "u32 \<Rightarrow> 'a sstate_scheme \<Rightarrow> 'a sstate_scheme" where
  "let_go lk s = s\<lparr>eflags := eflags (sti s), locks := (locks s)(lk := \<lparr>locked = 0, holder = NULL, number_of = 0\<rparr>)\<rparr>"

lemma acquire_taken:
  assumes "lock_ok (locks s lk)" "locked (locks s lk) = 0" "running_thread s \<noteq> NULL"
  shows "lock_acquire lk s = Inr (taken lk s)"
  using lock_acquire_free [OF assms] by (simp add: taken_def upd_lock_def cli_def)

lemma release_taken:
  assumes "locks s lk = \<lparr>locked = 1, holder = running_thread s, number_of = 1\<rparr>" "running_thread s \<noteq> NULL"
  shows "lock_release lk s = Inr (let_go lk s)"
  using lock_release_last [of s lk] assms by (simp add: lock_ok_def let_go_def upd_lock_def sti_def)

lemma sys_malloc_pop:
  assumes std: "k_block_descs s = size_classes" and pg: "pgdir (threads s (running_thread s)) = NULL"
    and sz: "0 < sz" "sz < 1024" "sz < pool_size (pools s (kernel_pool s))"
    and lk: "lock_ok (locks s (pool_lk (kernel_pool s)))" "locked (locks s (pool_lk (kernel_pool s))) = 0" "running_thread s \<noteq> NULL"
  defines "d \<equiv> descs_at s + 24 * of_nat (desc_index sz size_classes)"
    and "n \<equiv> block_size (size_classes ! desc_index sz size_classes)"
  assumes h: "holds (free_list d) s (b # bs)" and apart: "\<forall>e \<in> set (nodes (free_list d) bs). n \<le> e - b"
    and hdr: "\<forall>x \<in> span (block_to_arena b + 4) 4. n \<le> x - b"
  shows "\<exists>s'. sys_malloc sz s = Inr (b, s') \<and> holds (free_list d) s' bs \<and>
    arena_cnt (block_to_arena b) s' = arena_cnt (block_to_arena b) s - 1 \<and>
    (\<forall>x. x - b < n \<longrightarrow> mem s' x = 0) \<and> locked (locks s' (pool_lk (kernel_pool s))) = 0"
proof -
  let ?lk = "pool_lk (kernel_pool s)" and ?a = "block_to_arena b"
  note cls = desc_index_class(1) [OF sz(2)]
  define t where "t = taken ?lk s"
  have acq: "lock_acquire ?lk s = Inr t" unfolding t_def by (rule acquire_taken [OF lk])
  have i: "unat (24 * of_nat (desc_index sz size_classes) :: u32) = 24 * desc_index sz size_classes"
  proof -
    have "24 * desc_index sz size_classes < 2 ^ 32" using cls by simp
    then have "unat (of_nat (24 * desc_index sz size_classes) :: u32) = 24 * desc_index sz size_classes"
      by (simp only: unat_of_nat take_bit_nat_eq_self) simp
    then show ?thesis by simp
  qed
  have desc: "desc_at d t = Inr (size_classes ! desc_index sz size_classes)"
  proof -
    have "length size_classes = 7" by (simp add: size_classes_def)
    then show ?thesis using cls i by (simp add: desc_at_def t_def taken_def d_def std)
  qed
  have ht: "holds (free_list d) t (b # bs)" using h by (simp add: t_def taken_def holds_def)
  define u where "u = snd (list_pop (free_list d) t)"
  have pop: "list_pop (free_list d) t = (b, u)" using pop_fst [OF ht] by (simp add: u_def prod_eq_iff)
  obtain f where um: "u = t\<lparr>entries := f\<rparr>" unfolding u_def list_pop_def Let_def list_remove_eq snd_conv by blast
  define v where "v = store32 (?a + 4) (arena_cnt ?a (clear_range b n u) - 1) (clear_range b n u)"
  have "holds (free_list d) u bs" using holds_pop [OF ht] by (simp add: u_def)
  then have hv: "holds (free_list d) v bs" unfolding v_def store32_simps by (rule holds_clear_range [OF _ apart])
  have hdr0: "mem (clear_range b n u) x = mem s x" if "x \<in> span (?a + 4) 4" for x
    using hdr that by (auto simp: mem_clear_range um t_def taken_def not_less)
  have cnt: "arena_cnt ?a v = arena_cnt ?a s - 1"
    using read32_cong [of "?a + 4", OF hdr0] by (simp add: v_def arena_cnt_def)
  have zero: "mem v x = 0" if "x - b < n" for x
  proof -
    have "x \<notin> span (?a + 4) 4" using hdr that by (meson not_less)
    then show ?thesis using that by (simp add: v_def mem_store32_other mem_clear_range)
  qed
  have vl: "locks v ?lk = \<lparr>locked = 1, holder = running_thread v, number_of = 1\<rparr>" "running_thread v = running_thread s"
    by (simp_all add: um t_def taken_def v_def store32_def clear_range_def running_thread_def)
  then have rel: "lock_release ?lk v = Inr (let_go ?lk v)" using lk(3) by (intro release_taken) simp_all
  have ne: "\<not> list_empty (free_list d) t" using list_empty_holds [OF ht] by simp
  have "sys_malloc sz s = Inr (b, let_go ?lk v)"
  proof -
    have dt: "descs_at t + 24 * of_nat (desc_index sz (k_block_descs t)) = d" by (simp add: t_def taken_def d_def std)
    have "malloc_small PF_KERNEL (kernel_pool s) sz t = Inr (b, let_go ?lk v)"
      unfolding malloc_small_def dt Let_def desc bind_res_simps
      using ne pop rel by (simp add: n_def [symmetric] v_def [symmetric])
    moreover have "\<not> 1024 < sz" using sz(2) by simp
    ultimately show ?thesis using sz pg acq by (simp add: sys_malloc_def pool_of_def Let_def)
  qed
  then show ?thesis using hv cnt zero by (simp add: let_go_def holds_def arena_cnt_def)
qed


lemma sys_free_large:
  assumes pg: "pgdir (threads s (running_thread s)) = NULL" and p: "0xc0100000 \<le> ptr"
    and lk: "lock_ok (locks s (pool_lk (kernel_pool s)))" "locked (locks s (pool_lk (kernel_pool s))) = 0" "running_thread s \<noteq> NULL"
    and ar: "arena_desc (block_to_arena ptr) s = NULL" "arena_large (block_to_arena ptr) s = 1"
  defines "a \<equiv> block_to_arena ptr" and "vb \<equiv> vaddr_bitmap (kernel_vaddr s)"
  defines "i \<equiv> (a - vaddr_start (kernel_vaddr s)) div 4096" and "n \<equiv> unat (arena_cnt a s)"
  shows "\<exists>s' m. sys_free ptr s = Inr s' \<and> set_run n vb i 0 (mem s) = Inr m \<and> mem s' = m \<and> pt s' = pt s \<and>
    pools s' = pools s \<and> locked (locks s' (pool_lk (kernel_pool s))) = 0"
proof -
  let ?lk = "pool_lk (kernel_pool s)"
  define t where "t = taken ?lk s"
  have acq: "lock_acquire ?lk s = Inr t" unfolding t_def by (rule acquire_taken [OF lk])
  have tf: "mem t = mem s" "kernel_vaddr t = kernel_vaddr s" "pool_of PF_KERNEL t = kernel_pool s" "pt t = pt s" "pools t = pools s"
    "running_thread t = running_thread s" "locks t ?lk = \<lparr>locked = 1, holder = running_thread s, number_of = 1\<rparr>"
    by (simp_all add: t_def taken_def pool_of_def running_thread_def)
  obtain m where m: "set_run n vb i 0 (mem s) = Inr m" using set_run_ok [of 0] by blast
  have rem: "remove_virtual_pages PF_KERNEL a (arena_cnt a t) t = Inr (t\<lparr>mem := m\<rparr>)"
    using m by (simp add: remove_virtual_pages_def Let_def tf on_mem_def n_def i_def vb_def arena_cnt_def)
  have rel: "lock_release ?lk (t\<lparr>mem := m\<rparr>) = Inr (let_go ?lk (t\<lparr>mem := m\<rparr>))"
  proof -
    have "running_thread (t\<lparr>mem := m\<rparr>) = running_thread t" by (simp add: running_thread_def)
    then show ?thesis using tf lk(3) by (intro release_taken) simp_all
  qed
  have t2: "arena_large a t = 1" "arena_desc a t = NULL" "pool_of PF_KERNEL (t\<lparr>mem := m\<rparr>) = kernel_pool s"
    using ar tf by (simp_all add: arena_large_def arena_desc_def a_def pool_of_def)
  have nz: "ptr \<noteq> NULL" using p by auto
  have "sys_free ptr s = Inr (let_go ?lk (t\<lparr>mem := m\<rparr>))"
    using pg p nz acq rel rem t2 tf(3) by (simp add: sys_free_def Let_def a_def [symmetric]) (simp add: pool_of_def)
  then show ?thesis using m tf by (simp add: let_go_def)
qed

lemma desc_at_index:
  assumes "k_block_descs s = size_classes" "k < 7"
  shows "desc_at (descs_at s + 24 * of_nat k) s = Inr (size_classes ! k)"
proof -
  have "24 * k < 2 ^ 32" using assms(2) by simp
  then have "unat (of_nat (24 * k) :: u32) = 24 * k" by (simp only: unat_of_nat take_bit_nat_eq_self) simp
  then have "unat (24 * of_nat k :: u32) = 24 * k" by simp
  moreover have "length size_classes = 7" by (simp add: size_classes_def)
  ultimately show ?thesis using assms by (simp add: desc_at_def)
qed

lemma sys_free_push:
  fixes k :: nat
  assumes std: "k_block_descs s = size_classes" and pg: "pgdir (threads s (running_thread s)) = NULL" and p: "0xc0100000 \<le> ptr"
    and lk: "lock_ok (locks s (pool_lk (kernel_pool s)))" "locked (locks s (pool_lk (kernel_pool s))) = 0" "running_thread s \<noteq> NULL"
  defines "a \<equiv> block_to_arena ptr" and "d \<equiv> descs_at s + 24 * of_nat k"
  assumes ar: "k < 7" "arena_desc a s = d" "arena_large a s = 0" "arena_cnt a s + 1 \<noteq> block_per_arena (size_classes ! k)"
    and h: "holds (free_list d) s bs" "slot (free_list d) ptr" "ptr \<notin> set bs"
  shows "\<exists>s'. sys_free ptr s = Inr s' \<and> holds (free_list d) s' (bs @ [ptr]) \<and> arena_cnt a s' = arena_cnt a s + 1 \<and>
    (\<forall>x. x \<notin> span (a + 4) 4 \<longrightarrow> mem s' x = mem s x) \<and> locked (locks s' (pool_lk (kernel_pool s))) = 0"
proof -
  let ?lk = "pool_lk (kernel_pool s)"
  define t where "t = taken ?lk s"
  have acq: "lock_acquire ?lk s = Inr t" unfolding t_def by (rule acquire_taken [OF lk])
  define u where "u = list_append (free_list d) ptr t"
  have hu: "holds (free_list d) u (bs @ [ptr])"
    unfolding u_def by (rule holds_append) (use h in \<open>simp_all add: t_def taken_def holds_def\<close>)
  obtain f where f: "u = t\<lparr>entries := f\<rparr>" unfolding u_def list_append_def list_insert_before_eq by blast
  define v where "v = store32 (a + 4) (arena_cnt a u + 1) u"
  have cu: "arena_cnt a u = arena_cnt a s" by (simp add: arena_cnt_def f t_def taken_def)
  have cv: "arena_cnt a v = arena_cnt a s + 1" by (simp add: v_def cu arena_cnt_def [of a "store32 _ _ _"])
  have mv: "mem v x = mem s x" if "x \<notin> span (a + 4) 4" for x
    using that by (simp add: v_def mem_store32_other f t_def taken_def)
  have dv: "arena_desc a v = d"
  proof -
    have "span a 4 \<inter> span (a + 4) 4 = {}" by simp
    then have "arena_desc a v = arena_desc a u" unfolding arena_desc_def v_def by (rule read_store32_apart)
    then show ?thesis using ar(2) by (simp add: arena_desc_def f t_def taken_def)
  qed
  have "k_block_descs v = size_classes" "descs_at v = descs_at s" by (simp_all add: v_def store32_def f t_def taken_def std)
  then have dd: "desc_at (arena_desc a v) v = Inr (size_classes ! k)"
    using desc_at_index [of v k] ar(1) by (simp add: dv d_def)
  have tt: "arena_desc a t = d" "arena_large a t = 0" using ar by (simp_all add: t_def taken_def arena_desc_def arena_large_def)
  have rel: "lock_release ?lk v = Inr (let_go ?lk v)"
    by (rule release_taken) (use lk(3) in \<open>simp_all add: v_def store32_def f t_def taken_def running_thread_def\<close>)
  have fs: "free_small PF_KERNEL a ptr t = Inr v"
    using dd ar(4) by (simp add: free_small_def tt u_def [symmetric] v_def [symmetric] cv)
  have po: "pool_of PF_KERNEL t = kernel_pool s" "pool_of PF_KERNEL v = kernel_pool s"
    by (simp_all add: pool_of_def v_def store32_def f t_def taken_def)
  have nz: "ptr \<noteq> NULL" using p by auto
  have "sys_free ptr s = Inr (let_go ?lk v)"
    using pg p nz acq rel fs tt po by (simp add: sys_free_def Let_def a_def [symmetric]) (simp add: pool_of_def)
  moreover have "holds (free_list d) v (bs @ [ptr])" using hu by (simp add: v_def)
  ultimately show ?thesis using cv mv by (simp add: let_go_def holds_def arena_cnt_def)
qed

section \<open>Properties\<close>

lemma malloc_pages_returns:
  assumes scan: "bitmap_scan (mem s) (vaddr_bitmap (va_of pf s)) n = Inr start" "0 < n"
    and v: "v = vaddr_start (va_of pf s) + start * 4096" "v \<noteq> NULL" "pf = PF_USER \<longrightarrow> v < 0xc0000000 - 4096"
    and sz: "bm_size (vaddr_bitmap (va_of pf s)) \<le> 2 ^ 20" and ok: "pool_ok (pool_of pf s) s"
    and pr: "present v (unat n) (pt s)" "below_tables v (unat n)"
    and ap: "apart (vaddr_bitmap (va_of pf s)) (bm_size (vaddr_bitmap (va_of pf s)) + unat n) (pool_bits (pool_of pf s) s)"
    and free: "unat n \<le> bm.free_count (pool_bits (pool_of pf s) s) (mem s)"
  shows "\<exists>s'. malloc_pages pf n s = Inr (v, s')"
proof -
  let ?b = "pool_bits (pool_of pf s) s"
  have lt: "unat start < bm_size (vaddr_bitmap (va_of pf s))"
    using bitmap_scan_run(1) [OF scan(1) _ scan(2)] sz by simp
  have ns: "start \<noteq> - 1"
  proof
    assume "start = - 1"
    then have "unat start = 2 ^ 32 - 1" by (simp add: unsigned_minus_1_eq_mask mask_eq_exp_minus_1)
    then show False using lt sz by simp
  qed
  obtain m where m: "set_run (unat n) (vaddr_bitmap (va_of pf s)) start 1 (mem s) = Inr m" using set_run_ok [of 1] by blast
  have g: "get_virtual_pages pf n s = Inr (v, s\<lparr>mem := m\<rparr>)"
    using scan(1) ns m v by (cases pf) (simp_all add: get_virtual_pages_def va_of_def Let_def on_mem_def)
  have ap': "apart (vaddr_bitmap (va_of pf s)) (unat start + unat n) ?b"
    using ap lt unfolding apart_def by (meson add_less_mono1 less_trans)
  have "bm_bit m ?b k = bm_bit (mem s) ?b k" if "k < bm_size ?b" for k by (rule set_run_apart [OF m ap' that])
  then have "{k. k < bm_size ?b \<and> \<not> bm_bit m ?b k} = {k. k < bm_size ?b \<and> \<not> bm_bit (mem s) ?b k}" by auto
  then have "unat n \<le> bm.free_count ?b m" using free by (simp add: bm.free_count_def)
  then obtain ns m' where c: "bm.claims ?b (unat n) m = Inr (ns, m')"
    using bm.claims_ok_iff [OF pool_ok_size [OF ok]] by blast
  let ?t = "s\<lparr>mem := m\<rparr>"
  have t: "pool_ok (pool_of pf s) ?t" "present v (unat n) (pt ?t)" "pool_bits (pool_of pf s) ?t = ?b" "mem ?t = m"
    "pool_of pf ?t = pool_of pf s"
    using ok pr by (simp_all add: pool_ok_def pool_bits_def pool_of_def)
  have "\<exists>s'. map_pages (unat n) (pool_of pf s) v ?t = Inr (True, s')"
    unfolding map_pages_eq [OF t(1,2) pr(2)] t(3,4) c by simp
  then show ?thesis using g v(2) t(5) by (auto simp: malloc_pages_def)
qed

subsection \<open>A small system\<close>

definition sample_memory :: mstate where
  "sample_memory = ostate.extend (sample_console\<lparr>pt := (\<lambda>_. 1)\<rparr>)
     \<lparr>pools = (\<lambda>p. if p = 0xa00 then \<lparr>pool_bitmap = \<lparr>bitmap_len = 16, bitmap_bits = 0x5000\<rparr>, paddr_start = 0x200000, pool_size = 0x80000\<rparr>
                    else \<lparr>pool_bitmap = \<lparr>bitmap_len = 16, bitmap_bits = 0x5010\<rparr>, paddr_start = 0x280000, pool_size = 0x80000\<rparr>),
      kernel_pool = 0xa00, user_pool = 0xa40,
      kernel_vaddr = \<lparr>vaddr_bitmap = \<lparr>bitmap_len = 16, bitmap_bits = 0x5020\<rparr>, vaddr_start = 0xc0100000\<rparr>,
      descs_at = 0xb00, k_block_descs = size_classes\<rparr>"

lemma sample_memory_fields [simp]:
  "pools sample_memory 0xa00 = \<lparr>pool_bitmap = \<lparr>bitmap_len = 16, bitmap_bits = 0x5000\<rparr>, paddr_start = 0x200000, pool_size = 0x80000\<rparr>"
  "pools sample_memory 0xa40 = \<lparr>pool_bitmap = \<lparr>bitmap_len = 16, bitmap_bits = 0x5010\<rparr>, paddr_start = 0x280000, pool_size = 0x80000\<rparr>"
  "kernel_pool sample_memory = 0xa00" "user_pool sample_memory = 0xa40"
  "kernel_vaddr sample_memory = \<lparr>vaddr_bitmap = \<lparr>bitmap_len = 16, bitmap_bits = 0x5020\<rparr>, vaddr_start = 0xc0100000\<rparr>"
  "descs_at sample_memory = 0xb00" "k_block_descs sample_memory = size_classes" "mem sample_memory = sample_fmt"
  "pt sample_memory w = 1" "running_thread sample_memory = 0x10000" "pgdir (threads sample_memory p) = NULL"
  "locks sample_memory l = \<lparr>locked = 0, holder = NULL, number_of = 0\<rparr>"
proof -
  have "running_thread sample_memory = running_thread sample_console" "locks sample_memory l = locks sample_console l"
    by (simp_all add: sample_memory_def ostate.defs running_thread_def)
  then show "running_thread sample_memory = 0x10000" "locks sample_memory l = \<lparr>locked = 0, holder = NULL, number_of = 0\<rparr>"
    by simp_all
  have "threads sample_memory p = threads sample_sched p"
    by (simp add: sample_memory_def ostate.defs sample_console_def sstate.defs sample_sync_def tstate.defs)
  then show "pgdir (threads sample_memory p) = NULL"
    by (simp add: sample_sched_def list_append_def list_init_eq list_insert_before_eq sample_thread_def zero_thread_def)
qed (simp_all add: sample_memory_def ostate.defs)

lemma sample_pools: "pools_ok sample_memory"
  by (simp add: pools_ok_def pool_ok_def pool_bits_def bm_size_def)

text \<open>C13. Page allocation is safe and undone by freeing: a physical page handed out is a page of the
  pool that was not in use, is marked in use, no other page of the pool changes, and giving it back
  restores the whole state. A pool with every page in use panics.\<close>

theorem alloc_free_page:
  assumes "pools_ok s"
  shows "case alloc_physical_pages (pool_of pf s) s of
      Inr (pa, s') \<Rightarrow>
        (\<exists>n < bm_size (pool_bits (pool_of pf s) s). pa = frame (pool_of pf s) s n \<and>
           \<not> bm_bit (mem s) (pool_bits (pool_of pf s) s) n \<and>
           (\<forall>k < bm_size (pool_bits (pool_of pf s) s). bm_bit (mem s') (pool_bits (pool_of pf s) s) k \<longleftrightarrow>
              k = n \<or> bm_bit (mem s) (pool_bits (pool_of pf s) s) k)) \<and>
        free_physical_pages pa s' = Inr s
    | Inl e \<Rightarrow> \<forall>k < bm_size (pool_bits (pool_of pf s) s). bm_bit (mem s) (pool_bits (pool_of pf s) s) k"
proof (cases "alloc_physical_pages (pool_of pf s) s")
  case (Inl e)
  have ok: "pool_ok (pool_of pf s) s" using assms by (simp add: pools_ok_def pool_of_def)
  have "scan_one (pool_bits (pool_of pf s) s) (mem s) = Inl e"
    using Inl by (cases "scan_one (pool_bits (pool_of pf s) s) (mem s)") (simp_all add: alloc_eq [OF ok] bm.claim_def)
  then show ?thesis using bm.scan_Inl [OF pool_ok_size [OF ok]] Inl by auto
next
  case (Inr r)
  have ok: "pool_ok (pool_of pf s) s" using assms by (simp add: pools_ok_def pool_of_def)
  obtain pa s' where r: "r = (pa, s')" by (cases r)
  then have a: "alloc_physical_pages (pool_of pf s) s = Inr (pa, s')" using Inr by simp
  then obtain n m where c: "bm.claim (pool_bits (pool_of pf s) s) (mem s) = Inr (n, m)"
    and pa: "pa = frame (pool_of pf s) s n" "s' = s\<lparr>mem := m\<rparr>"
    by (auto simp: alloc_eq [OF ok] res_iffs)
  note cl = bm.claim_Inr [OF pool_ok_size [OF ok] c]
  show ?thesis using alloc_free [OF assms a] cl pa by (auto simp: a)
qed

lemma sample_fmt_high: "0x5000 \<le> a \<Longrightarrow> sample_fmt a = 0"
proof -
  assume "0x5000 \<le> a"
  then have "10 \<le> unat (a - 0x100)" by (subst unat_sub) (auto simp: word_le_nat_alt)
  then show ?thesis by (simp add: sample_fmt_def placed_def Let_def)
qed

theorem alloc_free_page_witness:
  "\<exists>pa s'. alloc_physical_pages 0xa00 sample_memory = Inr (pa, s') \<and> free_physical_pages pa s' = Inr sample_memory"
proof -
  have "\<not> bm_bit (mem sample_memory) (pool_bits 0xa00 sample_memory) 0"
    by (simp add: bm_bit_def pool_bits_def sample_fmt_high)
  then show ?thesis using alloc_free_page [OF sample_pools, of PF_KERNEL]
    by (auto simp: pool_of_def pool_bits_def bm_size_def split: sum.splits)
qed


text \<open>\<^verbatim>\<open>malloc_pages\<close> maps: when the scan finds \<open>n\<close> free virtual pages, the pool
  has \<open>n\<close> free physical ones and the page tables are there, it returns the first virtual page; the \<open>n\<close>
  virtual pages then translate to \<open>n\<close> different physical pages of the pool that were not in use and are
  now marked, and no other page changes its translation.\<close>

theorem malloc_pages_maps:
  assumes "bitmap_scan (mem s) (vaddr_bitmap (va_of pf s)) n = Inr start" "0 < n"
    and "v = vaddr_start (va_of pf s) + start * 4096" "v \<noteq> NULL" "pf = PF_USER \<longrightarrow> v < 0xc0000000 - 4096"
    and "bm_size (vaddr_bitmap (va_of pf s)) \<le> 2 ^ 20" "pool_ok (pool_of pf s) s"
    and "present v (unat n) (pt s)" "below_tables v (unat n)"
    and "apart (vaddr_bitmap (va_of pf s)) (bm_size (vaddr_bitmap (va_of pf s)) + unat n) (pool_bits (pool_of pf s) s)"
    and "unat n \<le> card {k. k < bm_size (pool_bits (pool_of pf s) s) \<and> \<not> bm_bit (mem s) (pool_bits (pool_of pf s) s) k}"
  shows "\<exists>s' ns. malloc_pages pf n s = Inr (v, s') \<and> length ns = unat n \<and> distinct ns \<and>
    (\<forall>k \<in> set ns. k < bm_size (pool_bits (pool_of pf s) s) \<and> \<not> bm_bit (mem s) (pool_bits (pool_of pf s) s) k) \<and>
    (\<forall>k < bm_size (pool_bits (pool_of pf s) s).
       bm_bit (mem s') (pool_bits (pool_of pf s) s) k \<longleftrightarrow> k \<in> set ns \<or> bm_bit (mem s) (pool_bits (pool_of pf s) s) k) \<and>
    (\<forall>i < unat n. addr_v2p (v + 4096 * of_nat i) s' = frame (pool_of pf s) s (ns ! i) + ((v + 4096 * of_nat i) AND 0xfff)) \<and>
    (\<forall>a. (\<forall>i < unat n. page_of a \<noteq> page_of (v + 4096 * of_nat i)) \<longrightarrow> addr_v2p a s' = addr_v2p a s)"
proof -
  obtain s' where s': "malloc_pages pf n s = Inr (v, s')"
    using malloc_pages_returns [OF assms(1-10)] assms(11) by (auto simp: bm.free_count_def)
  from malloc_pages_maps_eq [OF s' assms(4,2,6-10)] show ?thesis using s' by blast
qed

lemma sample_scan:
  assumes "bitmap_len b = 16" "0x5000 \<le> bitmap_bits b"
  shows "bitmap_scan sample_fmt b 1 = Inr 0"
proof -
  have b0: "\<not> bm_bit sample_fmt b 0" using assms by (simp add: bm_bit_def sample_fmt_high)
  have "[0..<bm_size b] = 0 # [1..<bm_size b]" using assms by (simp add: bm_size_def upt_conv_Cons)
  then show ?thesis unfolding bitmap_scan_one using b0 by simp
qed

lemma sample_apart:
  assumes "bitmap_bits b = p + of_nat j" "bitmap_bits c = p + of_nat i" "i + unat (bitmap_len c) \<le> j" "j + n div 8 + 1 \<le> 2 ^ 32"
  shows "apart b n c"
  unfolding apart_def assms(1,2)
proof (intro allI impI)
  fix x k assume x: "x < n" and k: "k < bm_size c"
  have d: "k div 8 < unat (bitmap_len c)" "x div 8 \<le> n div 8" using k x by (auto simp: bm_size_def div_le_mono)
  then have "p + of_nat (j + x div 8) \<noteq> p + of_nat (i + k div 8)"
    using assms(3,4) by (subst offset_eq) simp_all
  then show "p + of_nat j + of_nat (x div 8) \<noteq> p + of_nat i + of_nat (k div 8)" by (simp add: add.assoc)
qed

theorem malloc_pages_maps_witness:
  "\<exists>s' k. malloc_pages PF_KERNEL 1 sample_memory = Inr (0xc0100000, s') \<and> k < 128 \<and>
     addr_v2p 0xc0100000 s' = frame 0xa00 sample_memory k"
proof -
  have va: "va_of PF_KERNEL sample_memory = \<lparr>vaddr_bitmap = \<lparr>bitmap_len = 16, bitmap_bits = 0x5020\<rparr>, vaddr_start = 0xc0100000\<rparr>"
    by (simp add: va_of_def)
  have pb: "pool_bits 0xa00 sample_memory = \<lparr>bitmap_len = 16, bitmap_bits = 0x5000\<rparr>" by (simp add: pool_bits_def)
  have scan: "bitmap_scan (mem sample_memory) (vaddr_bitmap (va_of PF_KERNEL sample_memory)) 1 = Inr 0"
    unfolding va by (simp add: sample_scan)
  have ap: "apart \<lparr>bitmap_len = 16, bitmap_bits = 0x5020\<rparr> (128 + 1) \<lparr>bitmap_len = 16, bitmap_bits = 0x5000\<rparr>"
    by (rule sample_apart [where p = "0x5000" and i = 0 and j = 32]) simp_all
  have "0 \<in> {k. k < bm_size (pool_bits 0xa00 sample_memory) \<and> \<not> bm_bit (mem sample_memory) (pool_bits 0xa00 sample_memory) k}"
    by (simp add: pb bm_size_def bm_bit_def sample_fmt_high)
  then have "0 < card {k. k < bm_size (pool_bits 0xa00 sample_memory) \<and> \<not> bm_bit (mem sample_memory) (pool_bits 0xa00 sample_memory) k}"
    by (subst card_gt_0_iff) auto
  then show ?thesis
    using malloc_pages_maps [OF scan, of "0xc0100000"] ap
    by (auto simp: va pb pool_of_def bm_size_def present_def below_tables_def pool_ok_def Suc_le_eq length_Suc_conv)
qed

lemma set_pools_wraps:
  assumes "kernel_pool s \<noteq> user_pool s"
  shows "pool_size (pools (set_pools 0x10200000 s) (kernel_pool s)) = 0"
    "pool_size (pools (set_pools 0x10200000 s) (user_pool s)) = 0"
proof -
  have "free_pages_of 0x10200000 = 65536" by (simp add: free_pages_of_def)
  then have "unat (kernel_free_pages 0x10200000) = 0" "unat (user_free_pages 0x10200000) = 0"
    using free_pages_words [of "0x10200000"] by simp_all
  then have "kernel_free_pages 0x10200000 = 0" "user_free_pages 0x10200000 = 0" by (simp_all add: unat_eq_0)
  then show "pool_size (pools (set_pools 0x10200000 s) (kernel_pool s)) = 0"
    "pool_size (pools (set_pools 0x10200000 s) (user_pool s)) = 0"
    using set_pools_fields(1,2) [OF assms] by simp_all
qed

text \<open>C14. The pools of a fresh system are well formed: for every memory size from 2 MB up to 258 MB kernel and
  user pool are disjoint ranges of pages inside the memory, behind each other, no bitmap has more bits than
  its pool has pages, and the bitmaps do not overlap. With 258 MB the 16-bit count of free pages wraps to zero
  and both pools come out empty.\<close>

theorem set_pools_layout:
  assumes "kernel_pool s \<noteq> user_pool s"
  shows "(0x200000 \<le> all_mem \<and> all_mem < 0x10200000 \<longrightarrow>
    (let t = set_pools all_mem s; k = kernel_pool s; u = user_pool s in
      pools_ok t \<and> unat (paddr_start (pools t u)) + unat (pool_size (pools t u)) \<le> unat all_mem \<and>
      bm_size (pool_bits k t) \<le> unat (pool_size (pools t k)) div 4096 \<and>
      bm_size (pool_bits u t) \<le> unat (pool_size (pools t u)) div 4096 \<and>
      apart (pool_bits k t) (bm_size (pool_bits k t)) (pool_bits u t))) \<and>
    pool_size (pools (set_pools 0x10200000 s) (kernel_pool s)) = 0 \<and>
    pool_size (pools (set_pools 0x10200000 s) (user_pool s)) = 0"
proof -
  have "free_pages_of all_mem < 2 ^ 16" if "all_mem < 0x10200000"
  proof -
    have "unat all_mem < 0x10200000" using that by (simp add: word_less_nat_alt)
    then show ?thesis unfolding free_pages_of_def by (intro less_mult_imp_div_less) simp
  qed
  then show ?thesis
    using set_pools_eq [OF _ _ assms, of all_mem] set_pools_fields(3,4) [OF assms, of all_mem] set_pools_wraps [OF assms]
    by (simp add: Let_def)
qed

theorem set_pools_layout_witness:
  "pools_ok (set_pools 0x2000000 sample_memory)"
  using set_pools_layout [of sample_memory "0x2000000"] by (simp add: Let_def)

text \<open>C17. \<^verbatim>\<open>sys_malloc\<close> of up to 1023 bytes in a kernel thread, when a block of the size class
  is free: it returns the first free block, which is as large as asked and filled with zeros, the block is off
  the free list, the count of its arena is one less, and the lock of the pool is free again. The sizes of
  the classes are those \<^verbatim>\<open>block_desc_init\<close> stores.\<close>

theorem sys_malloc_takes_block:
  assumes "k_block_descs s = fst (block_desc_init (descs_at s) (s :: 'a mstate_scheme))"
    and "pgdir (threads s (running_thread s)) = NULL"
    and "0 < sz" "sz < 1024" "sz < pool_size (pools s (kernel_pool s))"
    and "lock_ok (locks s (pool_lk (kernel_pool s)))" "locked (locks s (pool_lk (kernel_pool s))) = 0" "running_thread s \<noteq> NULL"
    and "c = desc_index sz size_classes" "n = block_size (size_classes ! c)" "l = free_list (descs_at s + 24 * of_nat c)"
    and "holds l s (b # bs)" "\<forall>e \<in> set (nodes l bs). n \<le> e - b"
    and "\<forall>x \<in> span (block_to_arena b + 4) 4. n \<le> x - b"
  shows "\<exists>s'. sys_malloc sz s = Inr (b, s') \<and> holds l s' bs \<and> sz < n \<and>
    arena_cnt (block_to_arena b) s' = arena_cnt (block_to_arena b) s - 1 \<and>
    (\<forall>x. x - b < n \<longrightarrow> mem s' x = 0) \<and> locked (locks s' (pool_lk (kernel_pool s))) = 0"
  using sys_malloc_pop [of s sz b bs] assms desc_index_class(1) [OF assms(4)]
  by (simp add: block_desc_init_eq)

definition sample_blocks :: mstate where
  "sample_blocks = list_append 0xb08 0xc010100c (list_init 0xb08 sample_memory)"

lemma sample_blocks_fields [simp]:
  "kernel_pool sample_blocks = 0xa00" "descs_at sample_blocks = 0xb00" "k_block_descs sample_blocks = size_classes"
  "pools sample_blocks = pools sample_memory" "locks sample_blocks = locks sample_memory"
  "running_thread sample_blocks = 0x10000" "threads sample_blocks = threads sample_memory" "mem sample_blocks = sample_fmt"
proof -
  obtain h where h: "sample_blocks = sample_memory\<lparr>entries := h\<rparr>"
    by (simp add: sample_blocks_def list_append_def list_init_eq list_insert_before_eq)
  have "running_thread sample_blocks = running_thread sample_memory" unfolding h by (simp add: running_thread_def)
  then show "running_thread sample_blocks = 0x10000" by simp
  show "kernel_pool sample_blocks = 0xa00" "descs_at sample_blocks = 0xb00" "k_block_descs sample_blocks = size_classes"
    "pools sample_blocks = pools sample_memory" "locks sample_blocks = locks sample_memory"
    "threads sample_blocks = threads sample_memory" "mem sample_blocks = sample_fmt"
    unfolding h by simp_all
qed

lemma sample_blocks_holds: "holds 0xb08 sample_blocks [0xc010100c]"
proof -
  have "holds 0xb08 sample_blocks ([] @ [0xc010100c])"
    unfolding sample_blocks_def by (rule holds_append [OF holds_init]) (simp_all add: slot_def tailer_def)
  then show ?thesis by simp
qed

lemma class_index_8: "desc_index 8 size_classes = 0" "size_classes ! 0 = \<lparr>block_size = 16, block_per_arena = 255\<rparr>"
  by (simp_all add: desc_index_def size_classes_def)

theorem sys_malloc_takes_block_witness:
  "\<exists>s'. sys_malloc 8 sample_blocks = Inr (0xc010100c, s') \<and> holds 0xb08 s' []"
proof -
  have a: "block_to_arena 0xc010100c = 0xc0101000" by (simp add: block_to_arena_def)
  have h: "\<forall>x \<in> span (block_to_arena 0xc010100c + 4) 4. 16 \<le> x - (0xc010100c :: u32)" unfolding a by simp
  have n: "\<forall>e \<in> set (nodes 0xb08 []). 16 \<le> e - (0xc010100c :: u32)" by (simp add: nodes_def tailer_def)
  have l: "0xb08 = free_list (descs_at sample_blocks + 24 * of_nat 0)" by (simp add: free_list_def)
  have k: "k_block_descs sample_blocks = fst (block_desc_init (descs_at sample_blocks) sample_blocks)"
    by (simp add: block_desc_init_eq)
  have p: "pgdir (threads sample_blocks (running_thread sample_blocks)) = NULL" "(8 :: u32) < pool_size (pools sample_blocks (kernel_pool sample_blocks))"
    "lock_ok (locks sample_blocks (pool_lk (kernel_pool sample_blocks)))"
    "locked (locks sample_blocks (pool_lk (kernel_pool sample_blocks))) = 0" "running_thread sample_blocks \<noteq> NULL"
    "16 = block_size (size_classes ! 0)"
    by (simp_all add: lock_ok_def class_index_8)
  have q: "(0 :: u32) < 8" "(8 :: u32) < 1024" by simp_all
  from sys_malloc_takes_block [OF k p(1) q p(2-5) class_index_8(1) [symmetric] p(6) l sample_blocks_holds n h]
  show ?thesis by blast
qed

text \<open>\<^verbatim>\<open>sys_malloc(1024)\<close> leaves the descriptor table: the search for a class compares with
  \<^verbatim>\<open><\<close>, so no class serves 1024 bytes, although they are not large either, and the
  seventh entry behind the last one is used.\<close>

theorem sys_malloc_1024_faults:
  assumes "k_block_descs s = size_classes" "pgdir (threads s (running_thread s)) = NULL"
    and "1024 < pool_size (pools s (kernel_pool s))"
    and "lock_ok (locks s (pool_lk (kernel_pool s)))" "locked (locks s (pool_lk (kernel_pool s))) = 0" "running_thread s \<noteq> NULL"
  shows "sys_malloc 1024 s = Inl Fault"
  using assms by (rule malloc_1024_faults)

theorem sys_malloc_1024_faults_witness: "sys_malloc 1024 sample_memory = Inl Fault"
  using sys_malloc_1024_faults [of sample_memory] by (simp add: lock_ok_def)

text \<open>C18. \<^verbatim>\<open>sys_free\<close> of a block in a kernel thread puts the block at the end of the free list of its
  class and counts it in its arena, and leaves the rest of memory alone, as long as the arena is not
  full of free blocks thereby.\<close>

theorem sys_free_returns_block:
  assumes "k_block_descs s = size_classes" "pgdir (threads s (running_thread s)) = NULL" "0xc0100000 \<le> ptr"
    and "lock_ok (locks s (pool_lk (kernel_pool s)))" "locked (locks s (pool_lk (kernel_pool s))) = 0" "running_thread s \<noteq> NULL"
    and "a = block_to_arena ptr" "c < 7" "arena_desc a s = descs_at s + 24 * of_nat c" "arena_large a s = 0"
    and "arena_cnt a s + 1 \<noteq> block_per_arena (size_classes ! c)"
    and "l = free_list (descs_at s + 24 * of_nat c)" "holds l s bs" "slot l ptr" "ptr \<notin> set bs"
  shows "\<exists>s'. sys_free ptr s = Inr s' \<and> holds l s' (bs @ [ptr]) \<and> arena_cnt a s' = arena_cnt a s + 1 \<and>
    (\<forall>x. x \<notin> span (a + 4) 4 \<longrightarrow> mem s' x = mem s x) \<and> locked (locks s' (pool_lk (kernel_pool s))) = 0"
  using sys_free_push [of s ptr c bs] assms by simp

definition sample_arena :: mstate where
  "sample_arena = store32 0xc0101000 0xb00 (list_init 0xb08 sample_memory)"

lemma sample_arena_fields [simp]:
  "kernel_pool sample_arena = 0xa00" "descs_at sample_arena = 0xb00" "k_block_descs sample_arena = size_classes"
  "locks sample_arena = locks sample_memory" "threads sample_arena = threads sample_memory"
  "running_thread sample_arena = 0x10000"
proof -
  have "running_thread sample_arena = running_thread sample_memory"
    by (simp add: sample_arena_def store32_def list_init_eq running_thread_def)
  then show "running_thread sample_arena = 0x10000" by simp
qed (simp_all add: sample_arena_def store32_def list_init_eq)

lemma sample_arena_words:
  "arena_desc 0xc0101000 sample_arena = 0xb00" "arena_large 0xc0101000 sample_arena = 0" "arena_cnt 0xc0101000 sample_arena = 0"
proof -
  show "arena_desc 0xc0101000 sample_arena = 0xb00"
    unfolding sample_arena_def arena_desc_def by simp
  have z: "mem sample_arena x = 0" if "x \<in> {0xc0101004, 0xc0101005, 0xc0101006, 0xc0101007, 0xc0101008, 0xc0101009, 0xc010100a, 0xc010100b}" for x
    using that by (auto simp: sample_arena_def store32_def write32_def list_init_eq sample_fmt_high)
  show "arena_large 0xc0101000 sample_arena = 0" "arena_cnt 0xc0101000 sample_arena = 0"
    unfolding arena_large_def arena_cnt_def read32_def by (simp_all add: z)
qed

theorem sys_free_returns_block_witness:
  "\<exists>s'. sys_free 0xc010100c sample_arena = Inr s' \<and> holds 0xb08 s' [0xc010100c] \<and> arena_cnt 0xc0101000 s' = 1"
proof -
  have l: "0xb08 = free_list (descs_at sample_arena + 24 * of_nat 0)" by (simp add: free_list_def)
  have "holds 0xb08 (list_init 0xb08 sample_memory) []" by (rule holds_init)
  then have h: "holds 0xb08 sample_arena []" by (simp add: sample_arena_def)
  have a: "0xc0101000 = block_to_arena 0xc010100c" by (simp add: block_to_arena_def)
  from sys_free_returns_block [of sample_arena "0xc010100c" "0xc0101000" 0 "0xb08" "[]", OF _ _ _ _ _ _ a _ _ _ _ l h]
  show ?thesis by (simp add: lock_ok_def sample_arena_words class_index_8 slot_def tailer_def) blast
qed

text \<open>\<^verbatim>\<open>sys_free\<close> of a large block leaks: its virtual pages become free, but its physical
  pages stay marked in use (when the bitmaps do not overlap) and mapped.\<close>

theorem sys_free_large_leaks:
  assumes "pgdir (threads s (running_thread s)) = NULL" "0xc0100000 \<le> ptr"
    and "lock_ok (locks s (pool_lk (kernel_pool s)))" "locked (locks s (pool_lk (kernel_pool s))) = 0" "running_thread s \<noteq> NULL"
    and "a = block_to_arena ptr" "arena_desc a s = NULL" "arena_large a s = 1"
    and "b = vaddr_bitmap (kernel_vaddr s)" "i = (a - vaddr_start (kernel_vaddr s)) div 4096" "n = unat (arena_cnt a s)"
    and "unat i + n \<le> bm_size b" "bm_size b \<le> 2 ^ 20" "apart b (bm_size b) (pool_bits (kernel_pool s) s)"
  shows "\<exists>s'. sys_free ptr s = Inr s' \<and>
    (\<forall>j < bm_size b. bm_bit (mem s') b j \<longleftrightarrow> bm_bit (mem s) b j \<and> \<not> (unat i \<le> j \<and> j < unat i + n)) \<and>
    (\<forall>k < bm_size (pool_bits (kernel_pool s) s).
       bm_bit (mem s') (pool_bits (kernel_pool s) s) k = bm_bit (mem s) (pool_bits (kernel_pool s) s) k) \<and>
    (\<forall>v. addr_v2p v s' = addr_v2p v s)"
proof -
  obtain s' m where s': "sys_free ptr s = Inr s'" "set_run n b i 0 (mem s) = Inr m" "mem s' = m" "pt s' = pt s"
    using sys_free_large [OF assms(1-5)] assms(6-11) by auto
  have "bm_bit m b j \<longleftrightarrow> bm_bit (mem s) b j \<and> \<not> (unat i \<le> j \<and> j < unat i + n)" if "j < bm_size b" for j
    using set_run_bits [OF _ s'(2), of j] that assms(12,13) by auto
  moreover have "bm_bit m (pool_bits (kernel_pool s) s) k = bm_bit (mem s) (pool_bits (kernel_pool s) s) k"
    if "k < bm_size (pool_bits (kernel_pool s) s)" for k
  proof -
    have "apart b (unat i + n) (pool_bits (kernel_pool s) s)" using assms(12,14) unfolding apart_def by (meson less_le_trans)
    then show ?thesis using set_run_keeps [OF _ s'(2) _ that] by blast
  qed
  ultimately show ?thesis using s' by (auto simp: addr_v2p_def)
qed


definition sample_large :: mstate where
  "sample_large = store32 0xc0101008 1 (store32 0xc0101004 1 sample_memory)"

lemma sample_large_fields [simp]:
  "kernel_pool sample_large = 0xa00" "kernel_vaddr sample_large = kernel_vaddr sample_memory"
  "locks sample_large = locks sample_memory" "threads sample_large = threads sample_memory" "pools sample_large = pools sample_memory"
  "running_thread sample_large = 0x10000"
proof -
  have "running_thread sample_large = running_thread sample_memory"
    by (simp add: sample_large_def store32_def running_thread_def)
  then show "running_thread sample_large = 0x10000" by simp
qed (simp_all add: sample_large_def store32_def)

lemma sample_large_words:
  "arena_desc 0xc0101000 sample_large = 0" "arena_large 0xc0101000 sample_large = 1" "arena_cnt 0xc0101000 sample_large = 1"
proof -
  have z: "mem sample_large x = 0" if "x \<in> {0xc0101000, 0xc0101001, 0xc0101002, 0xc0101003}" for x
    using that by (auto simp: sample_large_def store32_def write32_def sample_fmt_high)
  show "arena_desc 0xc0101000 sample_large = 0" unfolding arena_desc_def read32_def by (simp add: z)
  show "arena_large 0xc0101000 sample_large = 1" unfolding arena_large_def sample_large_def by simp
  have "read32 (mem sample_large) 0xc0101004 = read32 (mem (store32 0xc0101004 1 sample_memory)) 0xc0101004"
    unfolding sample_large_def by (rule read_store32_apart) simp
  then show "arena_cnt 0xc0101000 sample_large = 1" by (simp add: arena_cnt_def)
qed

theorem sys_free_large_leaks_witness:
  "\<exists>s'. sys_free 0xc010100c sample_large = Inr s' \<and> (\<forall>v. addr_v2p v s' = addr_v2p v sample_large)"
proof -
  have a: "0xc0101000 = block_to_arena 0xc010100c" by (simp add: block_to_arena_def)
  have ap: "apart \<lparr>bitmap_len = 16, bitmap_bits = 0x5020\<rparr> 128 \<lparr>bitmap_len = 16, bitmap_bits = 0x5000\<rparr>"
    by (rule sample_apart [where p = "0x5000" and i = 0 and j = 32]) simp_all
  from sys_free_large_leaks [of sample_large "0xc010100c", OF _ _ _ _ _ a _ _ refl refl refl] show ?thesis
    using ap by (simp add: lock_ok_def sample_large_words bm_size_def pool_bits_def) blast
qed

end
