(* ===== verification/Descriptors.thy ===== *)
theory Descriptors
  imports Memory
begin

text \<open>
  The descriptors the processor reads: segments (\<^verbatim>\<open>include/mmu.h\<close>, \<^verbatim>\<open>kernel/pmm.c\<close>), the GDT and the
  task state of \<^verbatim>\<open>kernel/tss.c\<close>, and the interrupt gates of \<^verbatim>\<open>kernel/interrupt.c\<close>.
  What the processor makes of eight bytes of a descriptor is defined beside them (\<open>seg_base\<close>, \<open>seg_limit\<close>,
  \<open>gate_offset\<close>), after the architecture manual, and the code is shown to encode what it is given.
\<close>

section \<open>State\<close>

text \<open>\<^verbatim>\<open>struct tss\<close>; \<^verbatim>\<open>esp0\<close> is the component \<open>tss_esp0\<close> of the thread state.\<close>

record tss_fields =
  backlink :: u32
  tss_ss0 :: u32
  tss_esp1 :: u32
  tss_ss1 :: u32
  tss_esp2 :: u32
  tss_ss2 :: u32
  tss_cr3 :: u32
  tss_eip :: u32
  tss_eflags :: u32
  tss_regs :: "u32 list"
  tss_segs :: "u32 list"
  tss_ldt :: u32
  tss_trace :: u32
  io_base :: u32

record intr_descriptor =
  offset_low :: u16
  selector :: u16
  unused :: u8
  attributes :: u8
  offset_high :: u16

text \<open>\<open>gdtr\<close> and \<open>idtr\<close> hold limit and base; \<open>gdt_at\<close> is where the linker put \<^verbatim>\<open>gdt\<close> of
  \<^verbatim>\<open>pmm.c\<close>, \<open>segs\<close> the selectors in \<^verbatim>\<open>es\<close>, \<^verbatim>\<open>ds\<close>,
  \<^verbatim>\<open>ss\<close>, \<^verbatim>\<open>gs\<close> and \<^verbatim>\<open>cs\<close>.\<close>

record dstate = mstate +
  tss_at :: u32
  tss :: tss_fields
  gdtr :: "u16 \<times> u32"
  task_reg :: u16
  gdt_at :: u32
  segs :: "u16 list"
  idt_at :: u32
  idt :: "intr_descriptor list"
  idtr :: "u16 \<times> u32"
  intr_entry_table :: "u32 list"
  cr2 :: u32

section \<open>Segment descriptors\<close>

subsection \<open>include/tss.h, kernel/tss.c\<close>

record gdt_desc =
  limit_low_word :: u16
  base_low_word :: u16
  base_mid_byte :: u8
  attr_low_byte :: u8
  limit_high_attr_high :: u8
  base_high_byte :: u8

definition make_gdt_desc :: "u32 \<Rightarrow> u32 \<Rightarrow> u8 \<Rightarrow> u8 \<Rightarrow> gdt_desc" where
  "make_gdt_desc desc_base limit attr_low attr_high =
     \<lparr>limit_low_word = ucast (limit AND 0x0000ffff),
      base_low_word = ucast (desc_base AND 0x0000ffff),
      base_mid_byte = ucast (drop_bit 16 (desc_base AND 0x00ff0000)),
      attr_low_byte = attr_low,
      limit_high_attr_high = ucast (drop_bit 16 (limit AND 0x000f0000) + ucast attr_high),
      base_high_byte = ucast (drop_bit 24 desc_base)\<rparr>"

definition SELECTOR_TSS :: u16 where
  "SELECTOR_TSS = push_bit 3 0x4 + push_bit 2 0 + 0"

definition SELECTOR_U_CODE :: u16 where
  "SELECTOR_U_CODE = push_bit 3 0x5 + push_bit 2 0 + 3"

definition SELECTOR_U_DATA :: u16 where
  "SELECTOR_U_DATA = push_bit 3 0x6 + push_bit 2 0 + 3"

definition GDT_ATTR_HIGH :: u8 where
  "GDT_ATTR_HIGH = push_bit 7 1 + push_bit 6 1 + push_bit 5 0 + push_bit 4 0"

definition GDT_CODE_ATTR_LOW_DPL3 :: u8 where
  "GDT_CODE_ATTR_LOW_DPL3 = push_bit 7 1 + push_bit 5 3 + push_bit 4 1 + 8"

definition GDT_DATA_ATTR_LOW_DPL3 :: u8 where
  "GDT_DATA_ATTR_LOW_DPL3 = push_bit 7 1 + push_bit 5 3 + push_bit 4 1 + 2"

definition TSS_ATTR_HIGH :: u8 where
  "TSS_ATTR_HIGH = push_bit 7 1 + push_bit 6 0 + push_bit 5 0 + push_bit 4 0 + 0x0"

definition TSS_ATTR_LOW :: u8 where
  "TSS_ATTR_LOW = push_bit 7 1 + push_bit 5 0 + push_bit 4 0 + 9"

text \<open>The eight bytes of the structure, and a store of bytes.\<close>

definition gdt_bytes :: "gdt_desc \<Rightarrow> u8 list" where
  "gdt_bytes d =
     [ucast (limit_low_word d), ucast (drop_bit 8 (limit_low_word d)),
      ucast (base_low_word d), ucast (drop_bit 8 (base_low_word d)),
      base_mid_byte d, attr_low_byte d, limit_high_attr_high d, base_high_byte d]"

definition store_bytes :: "u32 \<Rightarrow> u8 list \<Rightarrow> bmem \<Rightarrow> bmem" where
  "store_bytes a bs m = (\<lambda>x. let i = unat (x - a) in if i < length bs then bs ! i else m x)"

definition put_desc :: "u32 \<Rightarrow> gdt_desc \<Rightarrow> 'a vstate_scheme \<Rightarrow> 'a vstate_scheme" where
  "put_desc a d s = s\<lparr>mem := store_bytes a (gdt_bytes d) (mem s)\<rparr>"

text \<open>\<^verbatim>\<open>sizeof(tss)\<close> is 108.\<close>

definition zero_tss :: tss_fields where
  "zero_tss =
     \<lparr>backlink = 0, tss_ss0 = 0, tss_esp1 = 0, tss_ss1 = 0, tss_esp2 = 0, tss_ss2 = 0, tss_cr3 = 0, tss_eip = 0,
      tss_eflags = 0, tss_regs = replicate 8 0, tss_segs = replicate 6 0, tss_ldt = 0, tss_trace = 0, io_base = 0\<rparr>"

definition load_gdtr :: "u64 \<Rightarrow> 'a dstate_scheme \<Rightarrow> 'a dstate_scheme" where
  "load_gdtr operand s = s\<lparr>gdtr := (ucast operand, ucast (drop_bit 16 operand))\<rparr>"

text \<open>\<^verbatim>\<open>ltr\<close>: the processor takes the selector and sets the busy bit of the descriptor it names, in memory.\<close>

definition ltr :: "u16 \<Rightarrow> 'a dstate_scheme \<Rightarrow> 'a dstate_scheme" where
  "ltr sel s =
     (let access = snd (gdtr s) + ucast (sel AND 0xfff8) + 5
      in s\<lparr>task_reg := sel, mem := (mem s)(access := mem s access OR 2)\<rparr>)"

definition tss_init :: "'a dstate_scheme \<Rightarrow> 'a dstate_scheme res" where
  "tss_init s =
     bind_res (say (line ''tss_init start'') s) (\<lambda>s.
       let tss_size = 108;
           s = s\<lparr>tss_esp0 := 0, tss := zero_tss\<lparr>tss_ss0 := 0x10, io_base := tss_size\<rparr>\<rparr>;
           s = put_desc 0xc0000d28 (make_gdt_desc (tss_at s) (tss_size - 1) TSS_ATTR_LOW TSS_ATTR_HIGH) s;
           s = put_desc 0xc0000d30 (make_gdt_desc 0 0xfffff GDT_CODE_ATTR_LOW_DPL3 GDT_ATTR_HIGH) s;
           s = put_desc 0xc0000d38 (make_gdt_desc 0 0xfffff GDT_DATA_ATTR_LOW_DPL3 GDT_ATTR_HIGH) s;
           gdt_operand = (8 * 7 - 1) OR push_bit 16 (ucast (0xc0000d08 :: u32));
           s = load_gdtr gdt_operand s;
           s = ltr SELECTOR_TSS s
       in say (line ''tss_init and ltr done'') s)"

subsection \<open>include/mmu.h, kernel/pmm.c\<close>

text \<open>Bit fields are words of their width.\<close>

record segdesc =
  sd_lim_15_0 :: u16
  sd_base_15_0 :: u16
  sd_base_23_16 :: u8
  sd_type :: "4 word"
  sd_s :: "1 word"
  sd_dpl :: "2 word"
  sd_p :: "1 word"
  sd_lim_19_16 :: "4 word"
  sd_avl :: "1 word"
  sd_rsv1 :: "1 word"
  sd_db :: "1 word"
  sd_g :: "1 word"
  sd_base_31_24 :: u8

definition SEG_NULL :: segdesc where
  "SEG_NULL =
     \<lparr>sd_lim_15_0 = 0, sd_base_15_0 = 0, sd_base_23_16 = 0, sd_type = 0, sd_s = 0, sd_dpl = 0, sd_p = 0,
      sd_lim_19_16 = 0, sd_avl = 0, sd_rsv1 = 0, sd_db = 0, sd_g = 0, sd_base_31_24 = 0\<rparr>"

definition SEG :: "u32 \<Rightarrow> u32 \<Rightarrow> u32 \<Rightarrow> u32 \<Rightarrow> segdesc" where
  "SEG ty base lim dpl =
     \<lparr>sd_lim_15_0 = ucast (drop_bit 12 lim AND 0xffff), sd_base_15_0 = ucast (base AND 0xffff),
      sd_base_23_16 = ucast (drop_bit 16 base AND 0xff), sd_type = ucast ty, sd_s = 1, sd_dpl = ucast dpl, sd_p = 1,
      sd_lim_19_16 = ucast (drop_bit 28 lim), sd_avl = 0, sd_rsv1 = 0, sd_db = 1, sd_g = 1,
      sd_base_31_24 = ucast (drop_bit 24 base)\<rparr>"

definition SEG16 :: "u32 \<Rightarrow> u32 \<Rightarrow> u32 \<Rightarrow> u32 \<Rightarrow> segdesc" where
  "SEG16 ty base lim dpl =
     \<lparr>sd_lim_15_0 = ucast (lim AND 0xffff), sd_base_15_0 = ucast (base AND 0xffff),
      sd_base_23_16 = ucast (drop_bit 16 base AND 0xff), sd_type = ucast ty, sd_s = 1, sd_dpl = ucast dpl, sd_p = 1,
      sd_lim_19_16 = ucast (drop_bit 16 lim), sd_avl = 0, sd_rsv1 = 0, sd_db = 1, sd_g = 0,
      sd_base_31_24 = ucast (drop_bit 24 base)\<rparr>"

text \<open>The layout of the bit fields in memory.\<close>

definition segdesc_bytes :: "segdesc \<Rightarrow> u8 list" where
  "segdesc_bytes d =
     [ucast (sd_lim_15_0 d), ucast (drop_bit 8 (sd_lim_15_0 d)),
      ucast (sd_base_15_0 d), ucast (drop_bit 8 (sd_base_15_0 d)), sd_base_23_16 d,
      ucast (sd_type d) OR push_bit 4 (ucast (sd_s d)) OR push_bit 5 (ucast (sd_dpl d)) OR push_bit 7 (ucast (sd_p d)),
      ucast (sd_lim_19_16 d) OR push_bit 4 (ucast (sd_avl d)) OR push_bit 5 (ucast (sd_rsv1 d)) OR
        push_bit 6 (ucast (sd_db d)) OR push_bit 7 (ucast (sd_g d)),
      sd_base_31_24 d]"

definition STA_X :: u32 where "STA_X = 0x8"
definition STA_W :: u32 where "STA_W = 0x2"
definition STA_R :: u32 where "STA_R = 0x2"

definition gdt :: "segdesc list" where
  "gdt =
     [SEG_NULL,
      SEG (STA_X OR STA_R) 0x0 0xFFFFFFFF 0,
      SEG STA_W 0x0 0xFFFFFFFF 0,
      SEG STA_W 0xb8000 0x7fff 0,
      SEG_NULL,
      SEG (STA_X OR STA_R) 0x0 0xFFFFFFFF 3,
      SEG STA_W 0x0 0xFFFFFFFF 3]"

definition gdt_pd :: "'a dstate_scheme \<Rightarrow> u16 \<times> u32" where
  "gdt_pd s = (of_nat (8 * length gdt) - 1, gdt_at s)"

definition KERNEL_CS :: u16 where "KERNEL_CS = push_bit 3 1 OR 0"
definition KERNEL_DS :: u16 where "KERNEL_DS = push_bit 3 2 OR 0"
definition KERNEL_GS :: u16 where "KERNEL_GS = push_bit 3 3 OR 0"

definition lgdt :: "u16 \<times> u32 \<Rightarrow> 'a dstate_scheme \<Rightarrow> 'a dstate_scheme" where
  "lgdt pd s = s\<lparr>gdtr := pd, segs := [KERNEL_DS, KERNEL_DS, KERNEL_DS, KERNEL_GS, KERNEL_CS]\<rparr>"

definition gdt_init :: "'a dstate_scheme \<Rightarrow> 'a dstate_scheme" where
  "gdt_init s = lgdt (gdt_pd s) s"

definition pmm_init :: "'a dstate_scheme \<Rightarrow> 'a dstate_scheme" where
  "pmm_init s = gdt_init s"

section \<open>Gates\<close>

text \<open>\<^verbatim>\<open>struct gatedesc\<close> with its two setters.\<close>

record gatedesc =
  gd_off_15_0 :: u16
  gd_ss :: u16
  gd_args :: "5 word"
  gd_rsv1 :: "3 word"
  gd_type :: "4 word"
  gd_s :: "1 word"
  gd_dpl :: "2 word"
  gd_p :: "1 word"
  gd_off_31_16 :: u16

definition SET_TRAP_GATE :: "bool \<Rightarrow> u32 \<Rightarrow> u32 \<Rightarrow> u32 \<Rightarrow> gatedesc" where
  "SET_TRAP_GATE istrap sel off dpl =
     \<lparr>gd_off_15_0 = ucast (off AND 0xffff), gd_ss = ucast sel, gd_args = 0, gd_rsv1 = 0,
      gd_type = (if istrap then 0xF else 0xE), gd_s = 0, gd_dpl = ucast dpl, gd_p = 1,
      gd_off_31_16 = ucast (drop_bit 16 off)\<rparr>"

definition SET_CALL_GATE :: "u32 \<Rightarrow> u32 \<Rightarrow> u32 \<Rightarrow> gatedesc" where
  "SET_CALL_GATE ss off dpl =
     \<lparr>gd_off_15_0 = ucast (off AND 0xffff), gd_ss = ucast ss, gd_args = 0, gd_rsv1 = 0,
      gd_type = 0xC, gd_s = 0, gd_dpl = ucast dpl, gd_p = 1, gd_off_31_16 = ucast (drop_bit 16 off)\<rparr>"

subsection \<open>kernel/interrupt.c\<close>

definition SELECTOR_KERNEL_CODE :: u16 where
  "SELECTOR_KERNEL_CODE = push_bit 3 0x1 + push_bit 2 0 + 0"

definition IDT_DESC_ATTR_DPL0 :: u8 where
  "IDT_DESC_ATTR_DPL0 = push_bit 7 1 + push_bit 5 0 + 0xe"

definition make_intr_descriptor :: "u8 \<Rightarrow> u32 \<Rightarrow> intr_descriptor" where
  "make_intr_descriptor attr fn =
     \<lparr>offset_low = ucast (fn AND 0x0000ffff), selector = SELECTOR_KERNEL_CODE, unused = 0, attributes = attr,
      offset_high = ucast (drop_bit 16 (fn AND 0xffff0000))\<rparr>"

definition idt_desc_init :: "'a dstate_scheme \<Rightarrow> 'a dstate_scheme res" where
  "idt_desc_init s =
     bind_res (say (line ''idt_desc_init start'') s) (\<lambda>s.
       let s = fold (\<lambda>i s. s\<lparr>idt := (idt s)[i := make_intr_descriptor IDT_DESC_ATTR_DPL0 (intr_entry_table s ! i)]\<rparr>) [0..<0x32] s
       in say (line ''idt_desc_init done'') s)"

text \<open>The two interrupt controllers: vectors 32 and 40, and the mask as it ends up.\<close>

definition pic_init :: "'a dstate_scheme \<Rightarrow> 'a dstate_scheme res" where
  "pic_init s =
     bind_res (say (line ''pic_init start'') s) (\<lambda>s.
       let s = fold (\<lambda>(port, data). outb port data)
                 [(0x20, 0x11), (0x21, 0x20), (0x21, 0x04), (0x21, 0x01),
                  (0xa0, 0x11), (0xa1, 0x28), (0xa1, 0x02), (0xa1, 0x01),
                  (0x21, 0xfe), (0xa1, 0xff), (0x21, 0xfc), (0xa1, 0xff), (0x21, 0xf8), (0xa1, 0xbf)] s
       in say ''pic_init done'' s)"

text \<open>\<^verbatim>\<open>lidt\<close> builds the six bytes of the operand from three 16-bit words.\<close>

definition lidt :: "u32 \<Rightarrow> u32 \<Rightarrow> 'a dstate_scheme \<Rightarrow> 'a dstate_scheme" where
  "lidt p sz s =
     (let pd0 = ucast (sz - 1) :: u16; pd1 = ucast p :: u16; pd2 = ucast (drop_bit 16 p) :: u16
      in s\<lparr>idtr := (pd0, ucast pd1 OR push_bit 16 (ucast pd2))\<rparr>)"

definition idt_init :: "'a dstate_scheme \<Rightarrow> 'a dstate_scheme res" where
  "idt_init s =
     bind_res (say (line ''idt_init start'') s) (\<lambda>s.
     bind_res (idt_desc_init s) (\<lambda>s.
     bind_res (pic_init s) (\<lambda>s.
       say (line ''idt_init done'') (lidt (idt_at s) (8 * 0x32) s))))"

section \<open>What the processor reads\<close>

definition seg_base :: "bmem \<Rightarrow> u32 \<Rightarrow> u32" where
  "seg_base m a =
     ucast (m (a + 2)) OR push_bit 8 (ucast (m (a + 3))) OR push_bit 16 (ucast (m (a + 4))) OR push_bit 24 (ucast (m (a + 7)))"

definition seg_raw_limit :: "bmem \<Rightarrow> u32 \<Rightarrow> u32" where
  "seg_raw_limit m a = ucast (m a) OR push_bit 8 (ucast (m (a + 1))) OR push_bit 16 (ucast (m (a + 6) AND 0x0f))"

text \<open>With the granularity bit set the limit counts pages.\<close>

definition seg_limit :: "bmem \<Rightarrow> u32 \<Rightarrow> u32" where
  "seg_limit m a =
     (if bit (m (a + 6)) 7 then push_bit 12 (seg_raw_limit m a) OR 0xfff else seg_raw_limit m a)"

definition seg_access :: "bmem \<Rightarrow> u32 \<Rightarrow> u8" where
  "seg_access m a = m (a + 5)"

definition gate_offset :: "intr_descriptor \<Rightarrow> u32" where
  "gate_offset d = ucast (offset_low d) OR push_bit 16 (ucast (offset_high d))"

text \<open>The descriptor a selector names in the table at \<open>gdtr\<close>, if it is inside the table.\<close>

definition desc_of :: "'a dstate_scheme \<Rightarrow> u16 \<Rightarrow> u32 option" where
  "desc_of s sel =
     (let i = sel AND 0xfff8 in if i + 7 \<le> fst (gdtr s) then Some (snd (gdtr s) + ucast i) else None)"

lemma field_masks:
  "(0x0000ffff :: u32) = mask 16" "(0x00ff0000 :: u32) = push_bit 16 (mask 8)" "(0x000f0000 :: u32) = push_bit 16 (mask 4)"
  "(0xffff0000 :: u32) = push_bit 16 (mask 16)" "(0xff :: u32) = mask 8" "(0x0f :: u8) = mask 4"
  "(0xfff :: u32) = mask 12" "(0xfffff :: u32) = mask 20"
  by (simp_all add: mask_eq_exp_minus_1)

lemma byte_ranges:
  "n < 32 \<Longrightarrow> n < 8 \<or> (8 \<le> n \<and> n < 16) \<or> (16 \<le> n \<and> n < 20) \<or> (20 \<le> n \<and> n < 24) \<or> (24 \<le> n \<and> n < (32 :: nat))"
  by linarith

lemma bytes_8: "bytes m a 8 = [m a, m (a + 1), m (a + 2), m (a + 3), m (a + 4), m (a + 5), m (a + 6), m (a + 7)]"
  by (simp add: add.commute)

lemma low_flags:
  assumes "hi AND 0x0f = (0 :: u8)" "bit hi n"
  shows "4 \<le> n"
proof (rule ccontr)
  assume "\<not> 4 \<le> n"
  then have "bit (hi AND 0x0f) n" using assms(2) unfolding field_masks by (simp add: bit_simps)
  then show False using assms(1) by simp
qed

lemma limit_byte:
  assumes "hi AND 0x0f = 0"
  shows "limit_high_attr_high (make_gdt_desc b l lo hi) = ucast (drop_bit 16 l AND mask 4) OR hi"
proof -
  have "drop_bit 16 (l AND 0x000f0000) + ucast hi = drop_bit 16 (l AND 0x000f0000) OR (ucast hi :: u32)"
    unfolding field_masks by (rule disjunctive_add) (auto simp: bit_simps dest: low_flags [OF assms])
  then have "limit_high_attr_high (make_gdt_desc b l lo hi) = ucast (drop_bit 16 (l AND 0x000f0000) OR (ucast hi :: u32))"
    by (simp add: make_gdt_desc_def)
  also have "\<dots> = ucast (drop_bit 16 l AND mask 4) OR hi"
    unfolding field_masks by (rule bit_word_eqI) (auto simp: bit_simps)
  finally show ?thesis .
qed

lemma gdt_desc_base:
  assumes "bytes m a 8 = gdt_bytes (make_gdt_desc b l lo hi)"
  shows "seg_base m a = b" "seg_access m a = lo"
proof -
  have c: "m (a + 2) = ucast (ucast (b AND mask 16) :: u16)" "m (a + 3) = ucast (drop_bit 8 (ucast (b AND mask 16) :: u16))"
    "m (a + 4) = ucast (drop_bit 16 (b AND push_bit 16 (mask 8)))" "m (a + 7) = ucast (drop_bit 24 b)" "m (a + 5) = lo"
    using assms unfolding field_masks(2) [symmetric]
    by (simp_all add: bytes_8 gdt_bytes_def make_gdt_desc_def field_masks(1) del: bytes_numeral)
  show "seg_access m a = lo" by (simp add: seg_access_def c)
  show "seg_base m a = b"
  proof (rule bit_word_eqI)
    fix n assume "n < LENGTH(32)"
    then have "n < 8 \<or> (8 \<le> n \<and> n < 16) \<or> (16 \<le> n \<and> n < 24) \<or> (24 \<le> n \<and> n < 32)" by simp linarith
    then show "bit (seg_base m a) n = bit b n"
      unfolding seg_base_def c by (elim disjE) (auto simp: bit_simps)
  qed
qed

lemma gdt_desc_limit:
  assumes "bytes m a 8 = gdt_bytes (make_gdt_desc b l lo hi)" "hi AND 0x0f = 0"
  shows "seg_raw_limit m a = l AND 0xfffff" "bit (m (a + 6)) 7 = bit hi 7"
proof -
  have h: "m (a + 6) = ucast (drop_bit 16 l AND mask 4) OR hi"
    using assms(1) limit_byte [OF assms(2), of b l lo] by (simp add: bytes_8 gdt_bytes_def del: bytes_numeral)
  show "bit (m (a + 6)) 7 = bit hi 7" unfolding h by (auto simp: bit_simps)
  have h': "m (a + 6) AND mask 4 = ucast (drop_bit 16 l AND mask 4)"
    unfolding h by (rule bit_word_eqI) (auto simp: bit_simps dest: low_flags [OF assms(2)])
  have l: "m a = ucast (ucast (l AND mask 16) :: u16)" "m (a + 1) = ucast (drop_bit 8 (ucast (l AND mask 16) :: u16))"
    using assms(1) by (simp_all add: bytes_8 gdt_bytes_def make_gdt_desc_def field_masks del: bytes_numeral)
  show "seg_raw_limit m a = l AND 0xfffff"
  proof (rule bit_word_eqI)
    fix n assume "n < LENGTH(32)"
    then have "n < 8 \<or> (8 \<le> n \<and> n < 16) \<or> (16 \<le> n \<and> n < 20) \<or> (20 \<le> n \<and> n < 32)" by simp linarith
    then show "bit (seg_raw_limit m a) n = bit (l AND 0xfffff) n"
      unfolding seg_raw_limit_def field_masks h' l
      by (elim disjE) (auto simp: bit_simps)
  qed
qed

lemma gate_offset_make: "gate_offset (make_intr_descriptor attr f) = f"
proof (rule bit_word_eqI)
  fix n assume "n < LENGTH(32)"
  then have "n < 16 \<or> (16 \<le> n \<and> n < 32)" by simp linarith
  then show "bit (gate_offset (make_intr_descriptor attr f)) n = bit f n"
    by (elim disjE) (auto simp: gate_offset_def make_intr_descriptor_def field_masks bit_simps)
qed

text \<open>The macro \<open>SEG\<close>: pages are the unit of its limit.\<close>

lemma SEG_fields:
  assumes "bytes m a 8 = segdesc_bytes (SEG ty b l dpl)"
  shows "seg_base m a = b" "seg_limit m a = l OR 0xfff"
    "seg_access m a = ucast (ucast ty :: 4 word) OR 0x10 OR push_bit 5 (ucast (ucast dpl :: 2 word)) OR 0x80"
proof -
  have e: "push_bit 6 (mask 2) = (192 :: u8)" by (simp add: mask_eq_exp_minus_1)
  have b: "m a = ucast (ucast (drop_bit 12 l AND mask 16) :: u16)" "m (a + 1) = ucast (drop_bit 8 (ucast (drop_bit 12 l AND mask 16) :: u16))"
    "m (a + 6) = ucast (ucast (drop_bit 28 l) :: 4 word) OR push_bit 6 (mask 2)"
    using assms e by (simp_all add: bytes_8 segdesc_bytes_def SEG_def field_masks del: bytes_numeral)
  have g: "bit (m (a + 6)) 7" unfolding b by (auto simp: bit_simps)
  have n: "m (a + 6) AND mask 4 = ucast (ucast (drop_bit 28 l) :: 4 word)"
    unfolding b by (rule bit_word_eqI) (auto simp: bit_simps)
  show "seg_limit m a = l OR 0xfff"
  proof (rule bit_word_eqI)
    fix n assume "n < LENGTH(32)"
    then have "n < 12 \<or> (12 \<le> n \<and> n < 20) \<or> (20 \<le> n \<and> n < 28) \<or> (28 \<le> n \<and> n < 32)" by simp linarith
    then show "bit (seg_limit m a) n = bit (l OR 0xfff) n"
      unfolding seg_limit_def seg_raw_limit_def field_masks n b(1,2) using g
      by (elim disjE) (auto simp: bit_simps)
  qed
  have c: "m (a + 2) = ucast (ucast (b AND mask 16) :: u16)" "m (a + 3) = ucast (drop_bit 8 (ucast (b AND mask 16) :: u16))"
    "m (a + 4) = ucast (drop_bit 16 b AND mask 8)" "m (a + 7) = ucast (drop_bit 24 b)"
    using assms by (simp_all add: bytes_8 segdesc_bytes_def SEG_def field_masks del: bytes_numeral)
  show "seg_base m a = b"
  proof (rule bit_word_eqI)
    fix n assume "n < LENGTH(32)"
    then have "n < 8 \<or> (8 \<le> n \<and> n < 16) \<or> (16 \<le> n \<and> n < 24) \<or> (24 \<le> n \<and> n < 32)" by simp linarith
    then show "bit (seg_base m a) n = bit b n"
      unfolding seg_base_def c by (elim disjE) (auto simp: bit_simps)
  qed
  show "seg_access m a = ucast (ucast ty :: 4 word) OR 0x10 OR push_bit 5 (ucast (ucast dpl :: 2 word)) OR 0x80"
    using assms by (simp add: bytes_8 seg_access_def segdesc_bytes_def SEG_def push_bit_eq_mult del: bytes_numeral)
qed

section \<open>The table of tss.c\<close>

lemma bytes_store_bytes:
  assumes "length bs < 2 ^ 32"
  shows "bytes (store_bytes a bs m) a (length bs) = bs"
  using assms by (intro nth_equalityI) (simp_all add: store_bytes_def unat_of_nat)

lemma store_bytes_other: "x \<notin> span a (length bs) \<Longrightarrow> store_bytes a bs m x = m x"
proof -
  assume "x \<notin> span a (length bs)"
  then have "\<not> unat (x - a) < length bs" using in_spanI [of "unat (x - a)" "length bs" a] by auto
  then show ?thesis by (simp add: store_bytes_def)
qed

lemma bytes_store_apart:
  assumes "span b n \<inter> span a (length bs) = {}"
  shows "bytes (store_bytes a bs m) b n = bytes m b n"
  using assms by (intro bytes_cong store_bytes_other) auto

lemma length_gdt_bytes [simp]: "length (gdt_bytes d) = 8"
  by (simp add: gdt_bytes_def)

lemma gdt_apart:
  "span 0xc0000d28 8 \<inter> span 0xc0000d30 8 = {}" "span 0xc0000d28 8 \<inter> span 0xc0000d38 8 = {}"
  "span 0xc0000d30 8 \<inter> span 0xc0000d38 8 = {}" by simp_all

lemma bytes_put_desc:
  "bytes (mem (put_desc a d s)) a 8 = gdt_bytes d"
  "span b 8 \<inter> span a 8 = {} \<Longrightarrow> bytes (mem (put_desc a d s)) b 8 = bytes (mem s) b 8"
  using bytes_store_bytes [of "gdt_bytes d" a "mem s"] bytes_store_apart [of b 8 a "gdt_bytes d" "mem s"]
  by (simp_all add: put_desc_def del: bytes_numeral span_numeral)

lemma seg_cong:
  assumes "bytes m a 8 = bytes m' a 8"
  shows "seg_base m a = seg_base m' a" "seg_limit m a = seg_limit m' a" "seg_access m a = seg_access m' a"
  using assms by (simp_all add: bytes_8 seg_base_def seg_limit_def seg_raw_limit_def seg_access_def del: bytes_numeral)

lemma put_desc_more [simp]:
  "screen (put_desc a d s) = (map (cell (mem (put_desc a d s)) (crt_buf s)) [0..<2000], unat (crt_pos s))"
  "screen_ok (put_desc a d s) = screen_ok s" "lit (put_desc a d s) = lit s" "crt_buf (put_desc a d s) = crt_buf s"
  by (simp_all add: screen_def screen_ok_def put_desc_def)

lemma literal_cong:
  assumes "literal s msg" "lit s' = lit s" "crt_buf s' = crt_buf s"
    and "\<And>a. a \<in> span (lit s msg) (Suc (length msg)) \<Longrightarrow> mem s' a = mem s a"
  shows "literal s' msg"
proof -
  have "cstring (mem s') (lit s msg) (map of_char msg)"
    using assms(1,4) cstring_cong [of "lit s msg" "map of_char msg" "mem s'" "mem s"] by (simp add: literal_def)
  then show ?thesis using assms by (simp add: literal_def)
qed

definition tss_gdt :: "'a dstate_scheme \<Rightarrow> 'a dstate_scheme" where
  "tss_gdt s =
     put_desc 0xc0000d38 (make_gdt_desc 0 0xfffff GDT_DATA_ATTR_LOW_DPL3 GDT_ATTR_HIGH)
       (put_desc 0xc0000d30 (make_gdt_desc 0 0xfffff GDT_CODE_ATTR_LOW_DPL3 GDT_ATTR_HIGH)
         (put_desc 0xc0000d28 (make_gdt_desc (tss_at s) 107 TSS_ATTR_LOW TSS_ATTR_HIGH) s))"

lemma tss_gdt_bytes:
  "bytes (mem (tss_gdt s)) 0xc0000d28 8 = gdt_bytes (make_gdt_desc (tss_at s) 107 TSS_ATTR_LOW TSS_ATTR_HIGH)"
  "bytes (mem (tss_gdt s)) 0xc0000d30 8 = gdt_bytes (make_gdt_desc 0 0xfffff GDT_CODE_ATTR_LOW_DPL3 GDT_ATTR_HIGH)"
  "bytes (mem (tss_gdt s)) 0xc0000d38 8 = gdt_bytes (make_gdt_desc 0 0xfffff GDT_DATA_ATTR_LOW_DPL3 GDT_ATTR_HIGH)"
  unfolding tss_gdt_def by (simp_all only: bytes_put_desc gdt_apart)

lemma gdt_span: "span 0xc0000d28 24 = span 0xc0000d28 8 \<union> span 0xc0000d30 8 \<union> span 0xc0000d38 8"
  by auto

lemma tss_gdt_other: "x \<notin> span 0xc0000d28 24 \<Longrightarrow> mem (tss_gdt s) x = mem s x"
  unfolding gdt_span by (simp add: tss_gdt_def put_desc_def store_bytes_other del: span_numeral)

lemma tss_gdt_eq: "tss_gdt s = s\<lparr>mem := mem (tss_gdt s)\<rparr>"
  by (simp add: tss_gdt_def put_desc_def)

lemma busy_desc:
  assumes "bytes m a 8 = gdt_bytes (make_gdt_desc b l lo hi)"
  shows "bytes (m(a + 5 := m (a + 5) OR 2)) a 8 = gdt_bytes (make_gdt_desc b l (lo OR 2) hi)"
  using assms by (simp add: bytes_8 gdt_bytes_def make_gdt_desc_def del: bytes_numeral)

text \<open>What \<^verbatim>\<open>tss_init\<close> changes.\<close>

definition tss_frame :: "'a dstate_scheme \<Rightarrow> 'a dstate_scheme \<Rightarrow> bool" where
  "tss_frame s s' \<longleftrightarrow>
     (\<exists>m p w e t g k. s' = s\<lparr>mem := m, crt_pos := p, port_writes := w, tss_esp0 := e, tss := t, gdtr := g, task_reg := k\<rparr> \<and>
       (\<forall>a. a \<notin> span 0xc0000d28 24 \<union> vram (crt_buf s) \<longrightarrow> m a = mem s a))"

lemma tss_init_eq:
  assumes "screen_ok s" "literal s (line ''tss_init start'')" "literal s (line ''tss_init and ltr done'')"
    and "span 0xc0000d28 24 \<inter> vram (crt_buf s) = {}"
    and "span 0xc0000d28 24 \<inter> span (lit s (line ''tss_init and ltr done'')) 23 = {}"
  shows "\<exists>s'. tss_init s = Inr s' \<and> gdtr s' = (55, 0xc0000d08) \<and> task_reg s' = 0x20 \<and>
    tss s' = zero_tss\<lparr>tss_ss0 := 0x10, io_base := 108\<rparr> \<and>
    bytes (mem s') 0xc0000d28 8 = gdt_bytes (make_gdt_desc (tss_at s) 107 (TSS_ATTR_LOW OR 2) TSS_ATTR_HIGH) \<and>
    bytes (mem s') 0xc0000d30 8 = gdt_bytes (make_gdt_desc 0 0xfffff GDT_CODE_ATTR_LOW_DPL3 GDT_ATTR_HIGH) \<and>
    bytes (mem s') 0xc0000d38 8 = gdt_bytes (make_gdt_desc 0 0xfffff GDT_DATA_ATTR_LOW_DPL3 GDT_ATTR_HIGH) \<and>
    screen_ok s' \<and> tss_frame s s'"
proof -
  let ?g = "span 0xc0000d28 24 :: u32 set" and ?done = "line ''tss_init and ltr done''"
  obtain t where t: "say (line ''tss_init start'') s = Inr t" "screen_ok t" "console_frame s t"
    using say_eq [OF assms(1,2)] by blast
  note ft = frame_fields [OF t(3)]
  have tt: "tss_at t = tss_at s" using t(3) by (auto simp: console_frame_def)
  define v where "v = t\<lparr>tss_esp0 := 0, tss := zero_tss\<lparr>tss_ss0 := 0x10, io_base := 108\<rparr>\<rparr>"
  have vt: "tss_at v = tss_at s" by (simp add: v_def tt)
  define m2 where "m2 = (mem (tss_gdt v))(0xc0000d28 + 5 := mem (tss_gdt v) (0xc0000d28 + 5) OR 2)"
  define u where "u = (tss_gdt v)\<lparr>gdtr := (55, 0xc0000d08), task_reg := 0x20, mem := m2\<rparr>"
  have "(0xc0000d28 + 5 :: u32) \<in> ?g" by simp
  then have mu: "mem u x = mem t x" if "x \<notin> ?g" for x
    using that tss_gdt_other [OF that, of v] by (auto simp: u_def m2_def v_def)
  have uf: "lit u = lit s" "crt_buf u = crt_buf s" "crt_pos u = crt_pos t" "gdtr u = (55, 0xc0000d08)" "task_reg u = 0x20"
    "tss u = zero_tss\<lparr>tss_ss0 := 0x10, io_base := 108\<rparr>"
    using ft by (simp_all add: u_def, simp_all add: tss_gdt_def put_desc_def v_def)
  have ok: "screen_ok u" using t(2) uf ft(1) by (simp add: screen_ok_def)
  have "literal u ?done"
  proof (rule literal_cong [OF assms(3)])
    fix x assume x: "x \<in> span (lit s ?done) (Suc (length ?done))"
    then have "x \<notin> vram (crt_buf s)" using assms(3) by (auto simp: literal_def)
    moreover have "Suc (length ?done) = 23" by (simp add: line_def)
    then have "x \<notin> ?g" using x assms(5) by (metis disjoint_iff)
    ultimately show "mem u x = mem s x" using mu ft(2) by simp
  qed (simp_all add: uf)
  then obtain s' where s': "say ?done u = Inr s'" "console_frame u s'" "screen_ok s'" using say_eq [OF ok] by blast
  have op: "(211106451161143 :: u16) = 55" by simp
  have "tss_init s = say ?done u"
    by (simp add: op tss_init_def t(1) u_def m2_def v_def tss_gdt_def load_gdtr_def ltr_def Let_def tt SELECTOR_TSS_def put_desc_def)
  then have r: "tss_init s = Inr s'" using s'(1) by simp
  have b: "bytes (mem s') a 8 = bytes m2 a 8" if a: "a \<in> {0xc0000d28, 0xc0000d30, 0xc0000d38}" for a
  proof -
    have "span a 8 \<subseteq> ?g" using a unfolding gdt_span by blast
    then have "x \<notin> vram (crt_buf u)" if "x \<in> span a 8" for x
      using that assms(4) unfolding uf(2) by (meson disjoint_iff subsetD)
    then have "bytes (mem s') a 8 = bytes (mem u) a 8"
      by (intro bytes_cong) (rule frame_fields(2) [OF s'(2)])
    also have "mem u = m2" by (simp add: u_def)
    finally show ?thesis .
  qed
  have "(0xc0000d28 + 5 :: u32) \<notin> span 0xc0000d30 8" "(0xc0000d28 + 5 :: u32) \<notin> span 0xc0000d38 8" by simp_all
  then have "bytes m2 0xc0000d30 8 = bytes (mem (tss_gdt v)) 0xc0000d30 8" "bytes m2 0xc0000d38 8 = bytes (mem (tss_gdt v)) 0xc0000d38 8"
    unfolding m2_def by (intro bytes_cong; metis fun_upd_other)+
  then have bs: "bytes (mem s') 0xc0000d28 8 = gdt_bytes (make_gdt_desc (tss_at s) 107 (TSS_ATTR_LOW OR 2) TSS_ATTR_HIGH)"
      "bytes (mem s') 0xc0000d30 8 = gdt_bytes (make_gdt_desc 0 0xfffff GDT_CODE_ATTR_LOW_DPL3 GDT_ATTR_HIGH)"
      "bytes (mem s') 0xc0000d38 8 = gdt_bytes (make_gdt_desc 0 0xfffff GDT_DATA_ATTR_LOW_DPL3 GDT_ATTR_HIGH)"
    using b busy_desc [OF tss_gdt_bytes(1) [of v]] tss_gdt_bytes(2,3) [of v]
    by (simp_all only: m2_def vt insert_iff simp_thms)
  have "gdtr s' = gdtr u" "task_reg s' = task_reg u" "tss s' = tss u"
    using s'(2) by (auto simp: console_frame_def)
  moreover have "tss_frame s s'"
  proof -
    obtain m p w where m: "t = s\<lparr>mem := m, crt_pos := p, port_writes := w\<rparr>" using t(3) unfolding console_frame_def by blast
    obtain m' p' w' where m': "s' = u\<lparr>mem := m', crt_pos := p', port_writes := w'\<rparr>" using s'(2) unfolding console_frame_def by blast
    have "s' = s\<lparr>mem := m', crt_pos := p', port_writes := w', tss_esp0 := 0, tss := zero_tss\<lparr>tss_ss0 := 0x10, io_base := 108\<rparr>,
        gdtr := (55, 0xc0000d08), task_reg := 0x20\<rparr>"
      unfolding m' u_def by (subst tss_gdt_eq) (simp add: v_def m)
    moreover have "m' a = mem s a" if "a \<notin> ?g \<union> vram (crt_buf s)" for a
      using that frame_fields(2) [OF s'(2), of a] mu [of a] ft(2) [of a] by (simp add: uf(2) m')
    ultimately show ?thesis unfolding tss_frame_def by blast
  qed
  ultimately show ?thesis unfolding uf(4-6) by (intro exI [of _ s'] conjI r bs s'(3))
qed

section \<open>Properties\<close>

text \<open>A segment descriptor carries what it was made from: \<^verbatim>\<open>make_gdt_desc\<close> scatters
  base, limit and attributes over eight bytes, from which the processor reads back the base, the low 20 bits
  of the limit and the attributes, whenever the low half of the high attribute byte is free.\<close>

theorem make_gdt_desc_roundtrip:
  assumes "bytes m a 8 = gdt_bytes (make_gdt_desc b l lo hi)" "hi AND 0x0f = 0"
  shows "seg_base m a = b \<and> seg_raw_limit m a = l AND 0xfffff \<and> seg_access m a = lo \<and>
    seg_limit m a = (if bit hi 7 then push_bit 12 (l AND 0xfffff) OR 0xfff else l AND 0xfffff)"
  using gdt_desc_base [OF assms(1)] gdt_desc_limit [OF assms] by (simp add: seg_limit_def)

theorem make_gdt_desc_roundtrip_witness:
  "seg_base (store_bytes 0xc0000d28 (gdt_bytes (make_gdt_desc 0xc0012345 107 0x89 0x80)) (\<lambda>_. 0)) 0xc0000d28 = 0xc0012345"
proof -
  have b: "bytes (store_bytes a (gdt_bytes d) (\<lambda>_. 0)) a 8 = gdt_bytes d" for a d
    using bytes_store_bytes [of "gdt_bytes d"] by (simp del: bytes_numeral)
  show ?thesis using make_gdt_desc_roundtrip [OF b, of "0x80" "0xc0000d28" "0xc0012345" 107 "0x89"] by simp
qed

text \<open>C31. \<^verbatim>\<open>tss_init\<close> gives user mode its segments: after it, the selectors of
  \<^verbatim>\<open>include/tss.h\<close> lie in the loaded table and name a flat 4 GB code and a flat data segment of privilege 3,
  and the task register names the task state at \<^verbatim>\<open>tss\<close>, a 32-bit one of privilege 0 that
  \<^verbatim>\<open>ltr\<close> has marked busy. Its limit, though, is 0x6bfff and not 107,
  because the granularity bit is set: \<^verbatim>\<open>io_base\<close> lies inside the segment, and the processor takes what follows
  \<^verbatim>\<open>tss\<close> in memory for a port permission map.\<close>

theorem tss_init_segments:
  assumes "screen_ok s" "literal s (line ''tss_init start'')" "literal s (line ''tss_init and ltr done'')"
    and "span 0xc0000d28 24 \<inter> vram (crt_buf s) = {}"
    and "span 0xc0000d28 24 \<inter> span (lit s (line ''tss_init and ltr done'')) 23 = {}"
  shows "\<exists>s' c d t. tss_init s = Inr s' \<and>
    desc_of s' SELECTOR_U_CODE = Some c \<and> seg_base (mem s') c = 0 \<and> seg_limit (mem s') c = 0xffffffff \<and> seg_access (mem s') c = 0xf8 \<and>
    desc_of s' SELECTOR_U_DATA = Some d \<and> seg_base (mem s') d = 0 \<and> seg_limit (mem s') d = 0xffffffff \<and> seg_access (mem s') d = 0xf2 \<and>
    desc_of s' (task_reg s') = Some t \<and> seg_base (mem s') t = tss_at s \<and> seg_access (mem s') t = 0x8b \<and>
    io_base (tss s') = 108 \<and> seg_limit (mem s') t = 0x6bfff"
proof -
  obtain s' where s': "tss_init s = Inr s'" "gdtr s' = (55, 0xc0000d08)" "task_reg s' = 0x20"
    "tss s' = zero_tss\<lparr>tss_ss0 := 0x10, io_base := 108\<rparr>"
    and d: "bytes (mem s') 0xc0000d28 8 = gdt_bytes (make_gdt_desc (tss_at s) 107 (TSS_ATTR_LOW OR 2) TSS_ATTR_HIGH)"
      "bytes (mem s') 0xc0000d30 8 = gdt_bytes (make_gdt_desc 0 0xfffff GDT_CODE_ATTR_LOW_DPL3 GDT_ATTR_HIGH)"
      "bytes (mem s') 0xc0000d38 8 = gdt_bytes (make_gdt_desc 0 0xfffff GDT_DATA_ATTR_LOW_DPL3 GDT_ATTR_HIGH)"
    using tss_init_eq [OF assms] by blast
  have a: "TSS_ATTR_HIGH AND 0x0f = 0" "GDT_ATTR_HIGH AND 0x0f = 0" "bit TSS_ATTR_HIGH 7" "bit GDT_ATTR_HIGH 7"
    by (simp_all add: TSS_ATTR_HIGH_def GDT_ATTR_HIGH_def)
  note r = gdt_desc_base [OF d(1)] gdt_desc_base [OF d(2)] gdt_desc_base [OF d(3)]
    gdt_desc_limit [OF d(1) a(1)] gdt_desc_limit [OF d(2) a(2)] gdt_desc_limit [OF d(3) a(2)]
  have "desc_of s' SELECTOR_U_CODE = Some 0xc0000d30" "desc_of s' SELECTOR_U_DATA = Some 0xc0000d38"
    "desc_of s' (task_reg s') = Some 0xc0000d28"
    by (simp_all add: desc_of_def s' SELECTOR_U_CODE_def SELECTOR_U_DATA_def)
  then show ?thesis
    using s'(1) r a by (simp add: s' seg_limit_def GDT_CODE_ATTR_LOW_DPL3_def GDT_DATA_ATTR_LOW_DPL3_def TSS_ATTR_LOW_def)
qed

subsection \<open>A system with its messages\<close>

definition plain_text :: "string \<Rightarrow> bool" where
  "plain_text msg \<longleftrightarrow> length msg < 64 \<and> list_all (\<lambda>c. of_char c \<noteq> (0 :: u8) \<and> of_char c \<noteq> (0x25 :: u8)) msg"

definition short_text :: "string \<Rightarrow> bool" where
  "short_text msg \<longleftrightarrow> length msg < 64 \<and> list_all (\<lambda>c. of_char c \<noteq> (0 :: u8)) msg"

lemma plain_short: "plain_text msg \<Longrightarrow> short_text msg"
  by (simp add: plain_text_def short_text_def list_all_iff)

definition texts :: "string list \<Rightarrow> bmem" where
  "texts msgs x =
     (let n = unat x - 0x7000; k = n div 64; j = n mod 64
      in if 0x7000 \<le> unat x \<and> k < length msgs \<and> j < length (msgs ! k) then of_char (msgs ! k ! j) else 0)"

definition text_addr :: "string list \<Rightarrow> string \<Rightarrow> u32" where
  "text_addr msgs msg = 0x7000 + 64 * of_nat (length (takeWhile (\<lambda>m. m \<noteq> msg) msgs))"

lemma cstring_texts:
  assumes "k < length msgs" "length msgs \<le> 100" "short_text (msgs ! k)"
  shows "cstring (texts msgs) (0x7000 + 64 * of_nat k) (map of_char (msgs ! k))"
proof -
  let ?p = "0x7000 + 64 * of_nat k :: u32"
  have l: "length (msgs ! k) < 64" using assms(3) by (simp add: short_text_def)
  have u: "unat (?p + of_nat j) = 0x7000 + (64 * k + j)" if "j < 64" for j
  proof -
    have "?p + of_nat j = of_nat (0x7000 + (64 * k + j))" by simp
    also have "unat \<dots> = 0x7000 + (64 * k + j)" using assms that by (subst unat_of_nat) simp
    finally show ?thesis .
  qed
  have at: "texts msgs (?p + of_nat j) = (if j < length (msgs ! k) then of_char (msgs ! k ! j) else 0)" if "j < 64" for j
    using that assms(1) unfolding texts_def u [OF that] by (simp add: Let_def div_add1_eq)
  have "bytes (texts msgs) ?p (length (msgs ! k)) = map of_char (msgs ! k)"
    using l by (intro nth_equalityI) (simp_all add: at)
  moreover have "0 \<notin> set (map of_char (msgs ! k) :: u8 list)"
    using assms(3) by (auto simp: short_text_def list_all_iff)
  ultimately show ?thesis using at [of "length (msgs ! k)"] l by (simp add: cstring_iff)
qed

lemma text_index:
  assumes "msg \<in> set msgs"
  shows "\<exists>k < length msgs. msgs ! k = msg \<and> text_addr msgs msg = 0x7000 + 64 * of_nat k"
proof -
  let ?k = "length (takeWhile (\<lambda>m. m \<noteq> msg) msgs)"
  have "dropWhile (\<lambda>m. m \<noteq> msg) msgs \<noteq> []" using assms by (simp add: dropWhile_eq_Nil_conv)
  then have k: "?k < length msgs"
    using takeWhile_dropWhile_id [of "\<lambda>m. m \<noteq> msg" msgs] by (metis add_diff_cancel_left' length_append length_greater_0_conv less_add_same_cancel1)
  then have "msgs ! ?k = msg" using nth_length_takeWhile [of "\<lambda>m. m \<noteq> msg" msgs] by simp
  then show ?thesis using k by (auto simp: text_addr_def)
qed

lemma text_addr_range:
  assumes "msg \<in> set msgs" "length msgs \<le> 100"
  shows "0x7000 \<le> unat (text_addr msgs msg)" "unat (text_addr msgs msg) + 64 \<le> 0x8a00"
proof -
  obtain k where k: "k < length msgs" "text_addr msgs msg = 0x7000 + 64 * of_nat k" using text_index [OF assms(1)] by blast
  have "text_addr msgs msg = of_nat (0x7000 + 64 * k)" by (simp add: k(2))
  also have "unat \<dots> = 0x7000 + 64 * k" using assms k(1) by (subst unat_of_nat) simp
  finally show "0x7000 \<le> unat (text_addr msgs msg)" "unat (text_addr msgs msg) + 64 \<le> 0x8a00"
    using assms(2) k(1) by simp_all
qed

lemma text_span:
  assumes "msg \<in> set msgs" "length msgs \<le> 100" "j \<le> 64" "0x8a00 \<le> unat b" "unat b + n \<le> 2 ^ 32"
  shows "span (text_addr msgs msg) j \<inter> span b n = {}"
  using text_addr_range [OF assms(1,2)] assms(3-5) by (intro span_below) simp_all

lemma literal_texts:
  assumes "mem s = texts msgs" "lit s = text_addr msgs" "crt_buf s = 0xc00b8000"
    and "list_all plain_text msgs" "length msgs \<le> 100" "msg \<in> set msgs"
  shows "literal s msg"
proof -
  obtain k where k: "k < length msgs" "msgs ! k = msg" "text_addr msgs msg = 0x7000 + 64 * of_nat k"
    using text_index [OF assms(6)] by blast
  have p: "plain_text msg" using assms(4,6) by (simp add: list_all_iff)
  then have "Suc (length msg) \<le> 64" by (simp add: plain_text_def)
  then have "span (text_addr msgs msg) (Suc (length msg)) \<inter> vram 0xc00b8000 = {}"
    unfolding vram_def by (intro text_span [OF assms(6,5)]) simp_all
  moreover have "cstring (texts msgs) (text_addr msgs msg) (map of_char msg)"
    using cstring_texts [OF k(1) assms(5)] plain_short [OF p] k by simp
  ultimately show ?thesis using p assms(1-3) by (force simp: literal_def plain_text_def list_all_iff)
qed

definition boot_texts :: "string list" where
  "boot_texts =
     [line ''tss_init start'', line ''tss_init and ltr done'', line ''idt_init start'', line ''idt_desc_init start'',
      line ''idt_desc_init done'', line ''pic_init start'', ''pic_init done'', line ''idt_init done'']"

definition sample_boot :: dstate where
  "sample_boot = mstate.extend (sample_memory\<lparr>mem := texts boot_texts, lit := text_addr boot_texts\<rparr>)
     \<lparr>tss_at = 0xc0009000, tss = zero_tss, gdtr = (0, 0), task_reg = 0, gdt_at = 0, segs = [], idt_at = 0xc0009100,
      idt = replicate 50 (make_intr_descriptor 0 0), idtr = (0, 0),
      intr_entry_table = map (\<lambda>i. 0xc0001500 + 0x20 * of_nat i) [0..<51], cr2 = 0\<rparr>"

lemma boot_texts_plain: "list_all plain_text boot_texts" "length boot_texts \<le> 100"
  by (simp_all add: boot_texts_def plain_text_def line_def of_char_def)

lemma sample_boot_fields [simp]:
  "mem sample_boot = texts boot_texts" "lit sample_boot = text_addr boot_texts" "crt_buf sample_boot = 0xc00b8000"
  "crt_pos sample_boot = 1999" "tss_at sample_boot = 0xc0009000" "length (idt sample_boot) = 50"
  "intr_entry_table sample_boot = map (\<lambda>i. 0xc0001500 + 0x20 * of_nat i) [0..<51]"
  by (simp_all add: sample_boot_def mstate.defs sample_memory_def ostate.defs sample_console_def sstate.defs)

lemma sample_boot_literal: "msg \<in> set boot_texts \<Longrightarrow> literal sample_boot msg"
  by (rule literal_texts [OF _ _ _ boot_texts_plain]) simp_all

theorem tss_init_segments_witness:
  "\<exists>s'. tss_init sample_boot = Inr s' \<and> io_base (tss s') \<le> seg_limit (mem s') 0xc0000d28"
proof -
  have b: "line ''tss_init start'' \<in> set boot_texts" "line ''tss_init and ltr done'' \<in> set boot_texts"
    by (simp_all add: boot_texts_def)
  have ok: "screen_ok sample_boot" by (simp add: screen_ok_def)
  have v: "span 0xc0000d28 24 \<inter> vram (crt_buf sample_boot) = {}"
    unfolding sample_boot_fields vram_def by (rule span_below) simp_all
  have l: "span 0xc0000d28 24 \<inter> span (lit sample_boot (line ''tss_init and ltr done'')) 23 = {}"
    using text_span [OF b(2) boot_texts_plain(2), of 23 "0xc0000d28" 24] by (simp del: span_numeral add: Int_commute)
  obtain s' c d t where "tss_init sample_boot = Inr s'" "desc_of s' (task_reg s') = Some t" "io_base (tss s') = 108"
    "seg_limit (mem s') t = 0x6bfff"
    using tss_init_segments [OF ok sample_boot_literal [OF b(1)] sample_boot_literal [OF b(2)] v l] by blast
  moreover obtain s'' where "tss_init sample_boot = Inr s''" "gdtr s'' = (55, 0xc0000d08)" "task_reg s'' = 0x20"
    using tss_init_eq [OF ok sample_boot_literal [OF b(1)] sample_boot_literal [OF b(2)] v l] by blast
  ultimately show ?thesis by (auto simp: desc_of_def)
qed

section \<open>The interrupt table\<close>

lemma literal_frame: "literal s msg \<Longrightarrow> console_frame s s' \<Longrightarrow> literal s' msg"
  using literal_cong [of s msg s'] frame_fields [of s s'] by (auto simp: literal_def)

text \<open>A message: it is printed, and nothing but the screen changes.\<close>

lemma say_frame:
  assumes "screen_ok s" "literal s msg"
  shows "\<exists>t. say msg s = Inr t \<and> screen_ok t \<and> console_frame s t \<and> (\<forall>m. literal s m \<longrightarrow> literal t m) \<and>
    other_writes t = other_writes s"
  using say_eq [OF assms] literal_frame by blast

lemma fold_gates:
  fixes s :: "'a dstate_scheme"
  assumes "n \<le> length (idt s)"
  shows "fold (\<lambda>i s. s\<lparr>idt := (idt s)[i := make_intr_descriptor a (intr_entry_table s ! i)]\<rparr>) [0..<n] s =
    s\<lparr>idt := map (\<lambda>i. make_intr_descriptor a (intr_entry_table s ! i)) [0..<n] @ drop n (idt s)\<rparr>"
  using assms
proof (induction n)
  case 0
  then show ?case by simp
next
  case (Suc n)
  then have "drop n (idt s) = idt s ! n # drop (Suc n) (idt s)" by (simp add: Cons_nth_drop_Suc)
  then show ?case using Suc by (simp add: list_update_append)
qed

definition with_gates :: "'a dstate_scheme \<Rightarrow> intr_descriptor list" where
  "with_gates s = map (\<lambda>i. make_intr_descriptor IDT_DESC_ATTR_DPL0 (intr_entry_table s ! i)) [0..<50] @ drop 50 (idt s)"

lemma frame_gates:
  assumes "console_frame s u"
  shows "console_frame (s\<lparr>idt := g\<rparr>) (u\<lparr>idt := g\<rparr>)"
proof -
  obtain m p w where "u = s\<lparr>mem := m, crt_pos := p, port_writes := w\<rparr>" "\<forall>a. a \<notin> vram (crt_buf s) \<longrightarrow> m a = mem s a"
    using assms unfolding console_frame_def by blast
  then show ?thesis unfolding console_frame_def by (intro exI [of _ m] exI [of _ p] exI [of _ w]) simp
qed

lemma frame_idtr:
  assumes "console_frame s u"
  shows "console_frame (s\<lparr>idtr := g\<rparr>) (u\<lparr>idtr := g\<rparr>)"
proof -
  obtain m p w where "u = s\<lparr>mem := m, crt_pos := p, port_writes := w\<rparr>" "\<forall>a. a \<notin> vram (crt_buf s) \<longrightarrow> m a = mem s a"
    using assms unfolding console_frame_def by blast
  then show ?thesis unfolding console_frame_def by (intro exI [of _ m] exI [of _ p] exI [of _ w]) simp
qed

lemma idt_desc_init_eq:
  assumes "screen_ok s" "literal s (line ''idt_desc_init start'')" "literal s (line ''idt_desc_init done'')" "50 \<le> length (idt s)"
  shows "\<exists>t. idt_desc_init s = Inr t \<and> screen_ok t \<and> console_frame (s\<lparr>idt := with_gates s\<rparr>) t \<and> (\<forall>m. literal s m \<longrightarrow> literal t m) \<and>
    other_writes t = other_writes s"
proof -
  obtain u where u: "say (line ''idt_desc_init start'') s = Inr u" "screen_ok u" "console_frame s u" "\<forall>m. literal s m \<longrightarrow> literal u m"
      "other_writes u = other_writes s"
    using say_frame [OF assms(1,2)] by blast
  have k: "idt u = idt s" "intr_entry_table u = intr_entry_table s" using u(3) by (auto simp: console_frame_def)
  let ?v = "u\<lparr>idt := with_gates s\<rparr>"
  have v: "screen_ok ?v" "literal ?v m = literal u m" "other_writes ?v = other_writes u" for m
    using u(2) by (simp_all add: screen_ok_def literal_def other_writes_def)
  obtain t where t: "say (line ''idt_desc_init done'') ?v = Inr t" "screen_ok t" "console_frame ?v t" "\<forall>m. literal ?v m \<longrightarrow> literal t m"
      "other_writes t = other_writes ?v"
    using say_frame [OF v(1)] v(2) u(4) assms(3) by blast
  have "console_frame (s\<lparr>idt := with_gates s\<rparr>) ?v"
    using u(3) by (elim frame_gates)
  then have "console_frame (s\<lparr>idt := with_gates s\<rparr>) t" using t(3) by (rule frame_trans)
  moreover have "idt_desc_init s = Inr t"
    using t(1) fold_gates [of 50 u] assms(4) k by (simp add: idt_desc_init_def u(1) with_gates_def)
  moreover have "other_writes t = other_writes s" using t(5) v(3) u(5) by simp
  ultimately show ?thesis using t(2,4) v(2) u(4) by blast
qed

lemma frame_outs: "console_frame s (fold (\<lambda>(port, data). outb port data) xs s)"
proof (induction xs arbitrary: s)
  case (Cons x xs)
  have "console_frame s (outb p d s)" for p d
    unfolding console_frame_def outb_def
    by (intro exI [of _ "mem s"] exI [of _ "crt_pos s"] exI [of _ "port_writes s @ [(p, Byte d)]"]) simp
  then show ?case by (cases x) (simp add: frame_trans [OF _ Cons.IH])
qed simp

lemma outs_screen: "screen_ok (fold (\<lambda>(port, data). outb port data) xs s) = screen_ok s"
proof -
  have o: "screen_ok (outb p d t) = screen_ok t" for p d and t :: "'a ostate_scheme" by (simp add: outb_def screen_ok_def)
  show ?thesis by (induction xs arbitrary: s) (simp_all add: split_beta o)
qed

lemma outs_writes:
  "other_writes (fold (\<lambda>(port, data). outb port data) xs s) =
     other_writes s @ filter (\<lambda>w. fst w \<noteq> addr_6845 s \<and> fst w \<noteq> addr_6845 s + 1) (map (\<lambda>(port, data). (port, Byte data)) xs)"
  for s :: "'a ostate_scheme"
  by (induction xs arbitrary: s) (simp_all add: split_beta outb_def other_writes_def)

text \<open>What the two controllers are told: an initialisation sequence each, with the first vectors 32 and 40, the cascade on
  line 2 and 8086 mode, then the masks, of which the last leave on the clock, the keyboard, the cascade and the first disk
  channel.\<close>

abbreviation pic_commands :: "(u16 \<times> port_data) list" where
  "pic_commands \<equiv>
     [(0x20, Byte 0x11), (0x21, Byte 32), (0x21, Byte 4), (0x21, Byte 1),
      (0xa0, Byte 0x11), (0xa1, Byte 40), (0xa1, Byte 2), (0xa1, Byte 1),
      (0x21, Byte 0xfe), (0xa1, Byte 0xff), (0x21, Byte 0xfc), (0xa1, Byte 0xff), (0x21, Byte 0xf8), (0xa1, Byte 0xbf)]"

lemma pic_init_eq:
  assumes "screen_ok s" "literal s (line ''pic_init start'')" "literal s ''pic_init done''"
  shows "\<exists>t. pic_init s = Inr t \<and> screen_ok t \<and> console_frame s t \<and> (\<forall>m. literal s m \<longrightarrow> literal t m) \<and>
    (addr_6845 s = 0x3d4 \<longrightarrow> other_writes t = other_writes s @ pic_commands)"
proof -
  obtain u where u: "say (line ''pic_init start'') s = Inr u" "screen_ok u" "console_frame s u" "\<forall>m. literal s m \<longrightarrow> literal u m"
      "other_writes u = other_writes s"
    using say_frame [OF assms(1,2)] by blast
  let ?cmds = "[(0x20, 0x11), (0x21, 0x20), (0x21, 0x04), (0x21, 0x01), (0xa0, 0x11), (0xa1, 0x28), (0xa1, 0x02), (0xa1, 0x01),
     (0x21, 0xfe), (0xa1, 0xff), (0x21, 0xfc), (0xa1, 0xff), (0x21, 0xf8), (0xa1, 0xbf)] :: (u16 \<times> u8) list"
  define v where "v = fold (\<lambda>(port, data). outb port data) ?cmds u"
  have v: "screen_ok v" "console_frame s v"
    using u(2) frame_trans [OF u(3) frame_outs] by (simp_all only: v_def outs_screen)
  have w: "other_writes v = other_writes s @ pic_commands" if "addr_6845 s = 0x3d4"
  proof -
    have "addr_6845 u = 0x3d4" using u(3) that by (auto simp: console_frame_def)
    then show ?thesis using outs_writes [of ?cmds u] unfolding v_def u(5) by simp
  qed
  obtain t where "say ''pic_init done'' v = Inr t" "screen_ok t" "console_frame v t" "\<forall>m. literal v m \<longrightarrow> literal t m"
      "other_writes t = other_writes v"
    using say_frame [OF v(1) literal_frame [OF assms(3) v(2)]] by blast
  moreover from this have "pic_init s = Inr t" by (simp add: pic_init_def u(1) v_def)
  ultimately show ?thesis using frame_trans [OF v(2)] literal_frame [OF _ v(2)] w by (intro exI [of _ t]) metis
qed

lemma split_word: "ucast (ucast p :: u16) OR push_bit 16 (ucast (ucast (drop_bit 16 p) :: u16)) = (p :: u32)"
proof (rule bit_word_eqI)
  fix n assume "n < LENGTH(32)"
  then have "n < 16 \<or> (16 \<le> n \<and> n < 32)" by simp linarith
  then show "bit (ucast (ucast p :: u16) OR push_bit 16 (ucast (ucast (drop_bit 16 p) :: u16)) :: u32) n = bit p n"
    by (elim disjE) (auto simp: bit_simps)
qed

lemma idt_init_eq:
  assumes "screen_ok s" "50 \<le> length (idt s)"
    and "\<forall>msg \<in> {line ''idt_init start'', line ''idt_desc_init start'', line ''idt_desc_init done'', line ''pic_init start'',
           ''pic_init done'', line ''idt_init done''}. literal s msg"
  shows "\<exists>t. idt_init s = Inr t \<and> screen_ok t \<and> console_frame (s\<lparr>idt := with_gates s, idtr := (399, idt_at s)\<rparr>) t \<and>
    (addr_6845 s = 0x3d4 \<longrightarrow> other_writes t = other_writes s @ pic_commands)"
proof -
  obtain a where a: "say (line ''idt_init start'') s = Inr a" "screen_ok a" "console_frame s a" "\<forall>m. literal s m \<longrightarrow> literal a m"
      "other_writes a = other_writes s"
    using say_frame [OF assms(1)] assms(3) by blast
  have k: "idt a = idt s" "intr_entry_table a = intr_entry_table s" "idt_at a = idt_at s" "addr_6845 a = addr_6845 s"
    using a(3) by (auto simp: console_frame_def)
  obtain b where b: "idt_desc_init a = Inr b" "screen_ok b" "console_frame (a\<lparr>idt := with_gates a\<rparr>) b"
    "\<forall>m. literal a m \<longrightarrow> literal b m" "other_writes b = other_writes a"
    using idt_desc_init_eq [OF a(2)] a(4) assms(2,3) k by auto
  obtain c where c: "pic_init b = Inr c" "screen_ok c" "console_frame b c" "\<forall>m. literal b m \<longrightarrow> literal c m"
    "addr_6845 b = 0x3d4 \<longrightarrow> other_writes c = other_writes b @ pic_commands"
    using pic_init_eq [OF b(2)] assms(3) a(4) b(4) by blast
  have ab: "addr_6845 b = addr_6845 s" using b(3) k(4) by (auto simp: console_frame_def)
  have kc: "idt_at c = idt_at s" "idt c = with_gates s"
  proof -
    have "idt_at b = idt_at a" "idt b = with_gates a" using b(3) by (auto simp: console_frame_def)
    moreover have "idt_at c = idt_at b" "idt c = idt b" using c(3) by (auto simp: console_frame_def)
    ultimately show "idt_at c = idt_at s" "idt c = with_gates s" using k by (simp_all add: with_gates_def)
  qed
  let ?d = "lidt (idt_at c) (8 * 0x32) c"
  have d: "screen_ok ?d" "literal ?d m = literal c m" "idtr ?d = (399, idt_at s)" "idt ?d = with_gates s"
    "other_writes ?d = other_writes c" for m
    using c(2) kc by (simp_all add: lidt_def screen_ok_def literal_def split_word other_writes_def)
  have "literal s (line ''idt_init done'')" using assms(3) by simp
  then have "literal c (line ''idt_init done'')" using a(4) b(4) c(4) by simp
  then have l: "literal ?d (line ''idt_init done'')" by (simp only: d(2))
  obtain t where t: "say (line ''idt_init done'') ?d = Inr t" "screen_ok t" "console_frame ?d t" "other_writes t = other_writes ?d"
    using say_frame [OF d(1) l] by blast
  have w: "addr_6845 s = 0x3d4 \<longrightarrow> other_writes t = other_writes s @ pic_commands"
    using a(5) b(5) c(5) ab d(5) t(4) by simp
  have "with_gates a = with_gates s" using k by (simp add: with_gates_def)
  then have "console_frame (s\<lparr>idt := with_gates s\<rparr>) c"
    using frame_trans [OF frame_gates [OF a(3), of "with_gates s"]] frame_trans [OF _ c(3)] b(3) by metis
  then have "console_frame (s\<lparr>idt := with_gates s, idtr := (399, idt_at s)\<rparr>) (c\<lparr>idtr := (399, idt_at s)\<rparr>)"
    using frame_idtr [of "s\<lparr>idt := with_gates s\<rparr>" c] by simp
  moreover have "?d = c\<lparr>idtr := (399, idt_at s)\<rparr>" by (simp add: lidt_def split_word kc)
  ultimately have "console_frame (s\<lparr>idt := with_gates s, idtr := (399, idt_at s)\<rparr>) t" using frame_trans [OF _ t(3)] by simp
  moreover have "idt_init s = Inr t" using a(1) b(1) c(1) t(1) by (simp add: idt_init_def)
  ultimately show ?thesis using t(2) w by blast
qed

text \<open>C32. \<^verbatim>\<open>idt_init\<close> wires every vector: the interrupt table the processor is given has 50 gates of 8 bytes,
  and gate \<open>i\<close>, as the processor reads it, is a present 32-bit interrupt gate of privilege 0 that enters the \<open>i\<close>-th
  routine of \<^verbatim>\<open>intr_entry_table\<close> in the kernel code segment. The only port writes, those of the screen
  controller apart, are the commands of \<open>pic_commands\<close>, in that order: they move the interrupts of the two controllers to the
  vectors from 32 and from 40 and end with all masked but the clock, the keyboard, the cascade and the first disk channel.\<close>

theorem idt_init_gates:
  assumes "screen_ok s" "50 \<le> length (idt s)" "addr_6845 s = 0x3d4"
    and "\<forall>msg \<in> {line ''idt_init start'', line ''idt_desc_init start'', line ''idt_desc_init done'', line ''pic_init start'',
           ''pic_init done'', line ''idt_init done''}. literal s msg"
  shows "\<exists>t. idt_init s = Inr t \<and> idtr t = (8 * 50 - 1, idt_at s) \<and>
    other_writes t = other_writes s @
      [(0x20, Byte 0x11), (0x21, Byte 32), (0x21, Byte 4), (0x21, Byte 1),
       (0xa0, Byte 0x11), (0xa1, Byte 40), (0xa1, Byte 2), (0xa1, Byte 1),
       (0x21, Byte 0xfe), (0xa1, Byte 0xff), (0x21, Byte 0xfc), (0xa1, Byte 0xff), (0x21, Byte 0xf8), (0xa1, Byte 0xbf)] \<and>
    (\<forall>i < 50. gate_offset (idt t ! i) = intr_entry_table s ! i \<and> selector (idt t ! i) = 8 \<and> attributes (idt t ! i) = 0x8e)"
proof -
  have "gate_offset (with_gates s ! i) = intr_entry_table s ! i \<and> selector (with_gates s ! i) = 8 \<and> attributes (with_gates s ! i) = 0x8e"
    if "i < 50" for i
    using that unfolding with_gates_def
    by (simp add: nth_append gate_offset_make, simp add: make_intr_descriptor_def SELECTOR_KERNEL_CODE_def IDT_DESC_ATTR_DPL0_def)
  moreover obtain t where "idt_init s = Inr t" "console_frame (s\<lparr>idt := with_gates s, idtr := (399, idt_at s)\<rparr>) t"
      "other_writes t = other_writes s @ pic_commands"
    using idt_init_eq [OF assms(1,2,4)] assms(3) by blast
  moreover from this(2) have "idt t = with_gates s" "idtr t = (399, idt_at s)" by (auto simp: console_frame_def)
  ultimately show ?thesis by auto
qed

theorem idt_init_gates_witness:
  "\<exists>t. idt_init sample_boot = Inr t \<and> gate_offset (idt t ! 32) = 0xc0001900 \<and> (0x21, Byte 32) \<in> set (other_writes t)"
proof -
  have l: "\<forall>msg \<in> {line ''idt_init start'', line ''idt_desc_init start'', line ''idt_desc_init done'', line ''pic_init start'',
           ''pic_init done'', line ''idt_init done''}. literal sample_boot msg"
    using sample_boot_literal by (simp add: boot_texts_def)
  have "addr_6845 sample_boot = 0x3d4"
    by (simp add: sample_boot_def mstate.defs sample_memory_def ostate.defs sample_console_def sstate.defs)
  then obtain t where "idt_init sample_boot = Inr t" "\<forall>i < 50. gate_offset (idt t ! i) = intr_entry_table sample_boot ! i"
      "(0x21, Byte 32) \<in> set (other_writes t)"
    using idt_init_gates [OF _ _ _ l] by (auto simp: screen_ok_def)
  then show ?thesis by auto
qed

end
