(* ===== verification/Ide.thy ===== *)
theory Ide
  imports Descriptors
begin

text \<open>
  \<^verbatim>\<open>kernel/ide.c\<close>: the disk driver. A \<^verbatim>\<open>struct ide_channel\<close>, a \<^verbatim>\<open>struct disk\<close> and a
  \<^verbatim>\<open>struct partition\<close> are records keyed by their addresses, laid out as in C; their names stay in the
  byte memory, their locks, semaphores and list entries in the components of those. What the drive answers
  comes from the inputs of the ports. A thread that waits for the drive blocks in \<^verbatim>\<open>sema_down\<close>, or
  sleeps while the drive is busy: then the call returns what its stack frame keeps (\<open>ide_wait\<close>, \<open>xfer\<close>) and is
  continued by its \<open>_resume\<close>. Callers that do nothing else meanwhile are modelled with a parameter \<open>env\<close>: the state
  in which the thread runs again, given the one in which it gave up the processor.
\<close>

section \<open>State\<close>

record ide_channel =
  port_base :: u16
  irq_no :: u8
  expecting_intr :: u32

record disk =
  my_channel :: u32
  dev_no :: u8

record partition =
  start_lba :: u32
  sec_cnt :: u32
  my_disk :: u32
  sb :: u32
  block_bitmap :: bitmap
  inode_bitmap :: bitmap

record istate = dstate +
  ide_channels :: "u32 \<Rightarrow> ide_channel"
  disks :: "u32 \<Rightarrow> disk"
  partitions :: "u32 \<Rightarrow> partition"
  channels_at :: u32
  channel_cnt :: u8
  partition_list :: u32
  ext_lba_base :: u32
  p_no :: u8
  l_no :: u8

definition upd_channel :: "u32 \<Rightarrow> (ide_channel \<Rightarrow> ide_channel) \<Rightarrow> 'a istate_scheme \<Rightarrow> 'a istate_scheme" where
  "upd_channel c f s = s\<lparr>ide_channels := (ide_channels s)(c := f (ide_channels s c))\<rparr>"

definition upd_disk :: "u32 \<Rightarrow> (disk \<Rightarrow> disk) \<Rightarrow> 'a istate_scheme \<Rightarrow> 'a istate_scheme" where
  "upd_disk d f s = s\<lparr>disks := (disks s)(d := f (disks s d))\<rparr>"

definition upd_partition :: "u32 \<Rightarrow> (partition \<Rightarrow> partition) \<Rightarrow> 'a istate_scheme \<Rightarrow> 'a istate_scheme" where
  "upd_partition p f s = s\<lparr>partitions := (partitions s)(p := f (partitions s p))\<rparr>"

text \<open>Offsets in the structures; the name of a channel or a disk is at its start.\<close>

definition channel_at :: "u8 \<Rightarrow> 'a istate_scheme \<Rightarrow> u32" where
  "channel_at no s = channels_at s + 1616 * ucast no"

definition channel_lock :: "u32 \<Rightarrow> u32" where "channel_lock c = c + 12"
definition disk_done :: "u32 \<Rightarrow> u32" where "disk_done c = c + 28"
definition device_at :: "u32 \<Rightarrow> u8 \<Rightarrow> u32" where "device_at c dev = c + 48 + 784 * ucast dev"
definition prim_part :: "u32 \<Rightarrow> u8 \<Rightarrow> u32" where "prim_part dk no = dk + 16 + 64 * ucast no"
definition logic_part :: "u32 \<Rightarrow> u8 \<Rightarrow> u32" where "logic_part dk no = dk + 272 + 64 * ucast no"
definition part_tag :: "u32 \<Rightarrow> u32" where "part_tag p = p + 12"
definition part_name :: "u32 \<Rightarrow> u32" where "part_name p = p + 20"
definition open_inodes :: "u32 \<Rightarrow> u32" where "open_inodes p = p + 48"

section \<open>Commands\<close>

text \<open>The registers of a channel are ports from \<open>port_base\<close> on.\<close>

definition reg :: "u32 \<Rightarrow> u16 \<Rightarrow> 'a istate_scheme \<Rightarrow> u16" where
  "reg c n s = port_base (ide_channels s c) + n"

definition max_lba :: u32 where
  "max_lba = 80 * 1024 * 1024 div 512 - 1"

definition select_disk :: "u32 \<Rightarrow> 'a istate_scheme \<Rightarrow> 'a istate_scheme" where
  "select_disk dk s =
     (let reg_device = 0xa0 OR 0x40;
          reg_device = (if dev_no (disks s dk) = 1 then reg_device OR 0x10 else reg_device)
      in outb (reg (my_channel (disks s dk)) 6 s) reg_device s)"

definition select_sector :: "u32 \<Rightarrow> u32 \<Rightarrow> u8 \<Rightarrow> 'a istate_scheme \<Rightarrow> 'a istate_scheme res" where
  "select_sector dk lba secs s =
     assert_res ''lba <= max_lba'' (lba \<le> max_lba)
       (assert_res ''sec_cnt <= 255'' (secs \<le> 255)
         (let channel = my_channel (disks s dk);
              s = outb (reg channel 2 s) secs s;
              s = outb (reg channel 3 s) (ucast lba) s;
              s = outb (reg channel 4 s) (ucast (drop_bit 8 lba)) s;
              s = outb (reg channel 5 s) (ucast (drop_bit 16 lba)) s
          in Inr (outb (reg channel 6 s)
               (ucast ((0xa0 OR 0x40 OR (if dev_no (disks s dk) = 1 then 0x10 else 0)) OR drop_bit 24 lba)) s)))"

definition cmd_out :: "u32 \<Rightarrow> u8 \<Rightarrow> 'a istate_scheme \<Rightarrow> 'a istate_scheme" where
  "cmd_out channel cmd s =
     (let s = upd_channel channel (\<lambda>c. c\<lparr>expecting_intr := 1\<rparr>) s in outb (reg channel 7 s) cmd s)"

text \<open>\<^verbatim>\<open>rep insw\<close> and \<^verbatim>\<open>rep outsw\<close>.\<close>

primrec insw :: "nat \<Rightarrow> u16 \<Rightarrow> u32 \<Rightarrow> 'a vstate_scheme \<Rightarrow> 'a vstate_scheme" where
  "insw 0 port addr s = s"
| "insw (Suc n) port addr s =
     (let (w, s) = inw port s in insw n port (addr + 2) (s\<lparr>mem := write16 addr w (mem s)\<rparr>))"

primrec outsw :: "nat \<Rightarrow> u16 \<Rightarrow> u32 \<Rightarrow> 'a vstate_scheme \<Rightarrow> 'a vstate_scheme" where
  "outsw 0 port addr s = s"
| "outsw (Suc n) port addr s = outsw n port (addr + 2) (outw port (read16 (mem s) addr) s)"

text \<open>\<^verbatim>\<open>sec_cnt\<close> is a byte: 0 stands for 256 sectors.\<close>

definition size_in_byte :: "u8 \<Rightarrow> u32" where
  "size_in_byte secs = (if secs = 0 then 256 * 512 else ucast secs * 512)"

definition read_from_sector :: "u32 \<Rightarrow> u32 \<Rightarrow> u8 \<Rightarrow> 'a istate_scheme \<Rightarrow> 'a istate_scheme" where
  "read_from_sector dk addr secs s =
     insw (unat (size_in_byte secs div 2)) (reg (my_channel (disks s dk)) 0 s) addr s"

definition write_to_sector :: "u32 \<Rightarrow> u32 \<Rightarrow> u8 \<Rightarrow> 'a istate_scheme \<Rightarrow> 'a istate_scheme" where
  "write_to_sector dk addr secs s =
     outsw (unat (size_in_byte secs div 2)) (reg (my_channel (disks s dk)) 0 s) addr s"

definition ide_error_text :: "u8 \<Rightarrow> string" where
  "ide_error_text err =
     (if err AND 0x80 \<noteq> 0 then ''Bad block''
      else if err AND 0x40 \<noteq> 0 then ''Uncorrectable data''
      else if err AND 0x20 \<noteq> 0 then ''Media changed''
      else if err AND 0x10 \<noteq> 0 then ''ID mark not found''
      else if err AND 0x08 \<noteq> 0 then ''Media change request''
      else if err AND 0x04 \<noteq> 0 then ''Command aborted''
      else if err AND 0x20 \<noteq> 0 then ''Track 0 not found''
      else ''No address mark'')"

definition check_ide_error :: "u32 \<Rightarrow> 'a istate_scheme \<Rightarrow> 'a istate_scheme res" where
  "check_ide_error channel s =
     (let (err, s) = inb (reg channel 1 s) s
      in bind_res (kprintf_lock (lit s (line (ide_error_text err))) [] s) (\<lambda>(s, _). Inr s))"

section \<open>Waiting for the drive\<close>

text \<open>\<open>Sleeping t start n st\<close>: the thread gave up the processor in \<^verbatim>\<open>mtime_sleep\<close>, \<open>t\<close> rounds
  are left. The loop condition \<^verbatim>\<open>time_limit -= 10 > 0\<close> takes off \<^verbatim>\<open>10 > 0\<close>, that is 1.\<close>

datatype busy = Ready | NotReady | Sleeping u16 u32 u32 intr_status

lemma bind_res_cong [fundef_cong]:
  "r = r' \<Longrightarrow> (\<And>a. r' = Inr a \<Longrightarrow> f a = g a) \<Longrightarrow> bind_res r f = bind_res r' g"
  by (cases r') simp_all

function busy_loop :: "u32 \<Rightarrow> u16 \<Rightarrow> 'a istate_scheme \<Rightarrow> (busy \<times> 'a istate_scheme) res" where
  "busy_loop dk time_limit s =
     (let time_limit = time_limit - 1
      in if time_limit = 0 then Inr (NotReady, s)
         else
           let channel = my_channel (disks s dk);
               (status, s) = inb (reg channel 7 s) s
           in if status AND 0x80 \<noteq> 0 then
                bind_res (mtime_sleep 10 s) (\<lambda>(start_tick, sleep_ticks).
                bind_res (ticks_to_sleep start_tick sleep_ticks s) (\<lambda>(yielded, s).
                  case yielded of
                    Some st \<Rightarrow> Inr (Sleeping time_limit start_tick sleep_ticks st, s)
                  | None \<Rightarrow> busy_loop dk time_limit s))
              else if status AND 0x8 \<noteq> 0 then Inr (Ready, s)
              else if status AND 0x1 \<noteq> 0 then bind_res (check_ide_error channel s) (\<lambda>s. Inr (NotReady, s))
              else busy_loop dk time_limit s)"
  by pat_completeness auto
termination
proof (relation "measure (\<lambda>(dk, t, s). if t = 0 then 2 ^ 16 else unat t)", goal_cases)
  case 1
  then show ?case by simp
next
  case (2 dk t s t')
  have u: "unat (t - 1) = unat t - 1" if "t \<noteq> 0" using that by (simp add: unat_minus_one)
  have "unat (t - 1) < 2 ^ 16" using unsigned_less [of "t - 1"] by simp
  moreover have "0 < unat t" if "t \<noteq> 0" using that by (simp add: unat_gt_0)
  ultimately show ?case using 2 u by (cases "t = 0") auto
next
  case (3 dk t s t')
  have u: "unat (t - 1) = unat t - 1" if "t \<noteq> 0" using that by (simp add: unat_minus_one)
  have "unat (t - 1) < 2 ^ 16" using unsigned_less [of "t - 1"] by simp
  moreover have "0 < unat t" if "t \<noteq> 0" using that by (simp add: unat_gt_0)
  ultimately show ?case using 3 u by (cases "t = 0") auto
qed

declare busy_loop.simps [simp del]

definition busy_wait :: "u32 \<Rightarrow> 'a istate_scheme \<Rightarrow> (busy \<times> 'a istate_scheme) res" where
  "busy_wait dk s = busy_loop dk (30 * 1000) s"

definition busy_wait_resume :: "u32 \<Rightarrow> u16 \<Rightarrow> u32 \<Rightarrow> u32 \<Rightarrow> intr_status \<Rightarrow> 'a istate_scheme \<Rightarrow>
    (busy \<times> 'a istate_scheme) res" where
  "busy_wait_resume dk time_limit start_tick sleep_ticks st s =
     bind_res (ticks_to_sleep start_tick sleep_ticks (thread_yield_resume st s)) (\<lambda>(yielded, s).
       case yielded of
         Some st \<Rightarrow> Inr (Sleeping time_limit start_tick sleep_ticks st, s)
       | None \<Rightarrow> busy_loop dk time_limit s)"

section \<open>Reading and writing\<close>

text \<open>Where a suspended transfer waits: in \<^verbatim>\<open>sema_down\<close>, which keeps its
  \<^verbatim>\<open>old_status\<close> and that of \<^verbatim>\<open>thread_block\<close>, or in \<^verbatim>\<open>busy_wait\<close>.\<close>

datatype ide_wait =
    Disk_Wait intr_status intr_status
  | Busy_Sleep u16 u32 u32 intr_status

record xfer =
  xf_disk :: u32
  xf_lba :: u32
  xf_buf :: u32
  xf_cnt :: u32
  xf_done :: u32

definition secs_op :: "xfer \<Rightarrow> u32" where
  "secs_op x = (if xf_done x + 256 \<le> xf_cnt x then 256 else xf_cnt x - xf_done x)"

definition next_secs :: "xfer \<Rightarrow> xfer" where
  "next_secs x = x\<lparr>xf_done := xf_done x + secs_op x\<rparr>"

definition done_sema :: "u32 \<Rightarrow> 'a istate_scheme \<Rightarrow> u32" where
  "done_sema dk s = disk_done (my_channel (disks s dk))"

text \<open>The message of a failed transfer is formatted into a local array \<open>error\<close>, which \<^verbatim>\<open>panic\<close> prints;
  the format names the panic here.\<close>

definition failed :: "string \<Rightarrow> u32 \<Rightarrow> u32 list \<Rightarrow> 'a istate_scheme \<Rightarrow> 'b res" where
  "failed fmt error args s =
     bind_res (of_loop (snprintf (lit s) error 64 (lit s (line fmt)) args (mem s))) (\<lambda>r.
     bind_res r (\<lambda>_. Inl (Panic fmt)))"

text \<open>One turn of the loop of \<^verbatim>\<open>ide_read\<close>: \<open>Some w\<close> when the thread waits.\<close>

definition read_request :: "xfer \<Rightarrow> 'a istate_scheme \<Rightarrow> (ide_wait option \<times> 'a istate_scheme) res" where
  "read_request x s =
     bind_res (select_sector (xf_disk x) (xf_lba x + xf_done x) (ucast (secs_op x)) s) (\<lambda>s.
     let s = cmd_out (my_channel (disks s (xf_disk x))) 0x20 s
     in bind_res (sema_down (done_sema (xf_disk x) s) s) (\<lambda>(old_status, blocked, s).
          Inr (map_option (Disk_Wait old_status) blocked, s)))"

definition read_transfer :: "u32 \<Rightarrow> xfer \<Rightarrow> busy \<times> 'a istate_scheme \<Rightarrow> (ide_wait option \<times> 'a istate_scheme) res" where
  "read_transfer error x bs =
     (let (b, s) = bs
      in case b of
           Sleeping t start_tick sleep_ticks st \<Rightarrow> Inr (Some (Busy_Sleep t start_tick sleep_ticks st), s)
         | NotReady \<Rightarrow> failed ''%s read sector %d failed'' error [xf_disk x, xf_lba x] s
         | Ready \<Rightarrow> Inr (None, read_from_sector (xf_disk x) (xf_buf x + xf_done x * 512) (ucast (secs_op x)) s))"

definition read_secs :: "u32 \<Rightarrow> xfer \<Rightarrow> 'a istate_scheme \<Rightarrow> (ide_wait option \<times> 'a istate_scheme) res" where
  "read_secs error x s =
     bind_res (read_request x s) (\<lambda>(w, s).
       if w = None then bind_res (busy_wait (xf_disk x) s) (read_transfer error x) else Inr (w, s))"

definition read_secs_resume :: "u32 \<Rightarrow> ide_wait \<Rightarrow> xfer \<Rightarrow> 'a istate_scheme \<Rightarrow> (ide_wait option \<times> 'a istate_scheme) res" where
  "read_secs_resume error w x s =
     (case w of
        Disk_Wait old_status st \<Rightarrow>
          bind_res (sema_down_resume (done_sema (xf_disk x) s) old_status st s) (\<lambda>(blocked, s).
            case blocked of
              Some st \<Rightarrow> Inr (Some (Disk_Wait old_status st), s)
            | None \<Rightarrow> bind_res (busy_wait (xf_disk x) s) (read_transfer error x))
      | Busy_Sleep t start_tick sleep_ticks st \<Rightarrow>
          bind_res (busy_wait_resume (xf_disk x) t start_tick sleep_ticks st s) (read_transfer error x))"

text \<open>The loop, and the release behind it. \<open>Inr (Some (w, x), s)\<close>: suspended; \<open>Inr (None, s)\<close>: returned.\<close>

partial_function (option) read_loop ::
    "u32 \<Rightarrow> xfer \<Rightarrow> 'a istate_scheme \<Rightarrow> ((ide_wait \<times> xfer) option \<times> 'a istate_scheme) res option" where
  "read_loop error x s =
     (if xf_done x < xf_cnt x then
        (case read_secs error x s of
           Inl e \<Rightarrow> Some (Inl e)
         | Inr (w, s) \<Rightarrow>
             if w = None then read_loop error (next_secs x) s
             else Some (Inr (Some (the w, x), s)))
      else
        Some (bind_res (lock_release (channel_lock (my_channel (disks s (xf_disk x)))) s) (\<lambda>s. Inr (None, s))))"

definition ide_read :: "u32 \<Rightarrow> u32 \<Rightarrow> u32 \<Rightarrow> u32 \<Rightarrow> u32 \<Rightarrow> 'a istate_scheme \<Rightarrow>
    ((ide_wait \<times> xfer) option \<times> 'a istate_scheme) res" where
  "ide_read error dk lba addr secs s =
     assert_res ''lba <= max_lba'' (lba \<le> max_lba)
       (assert_res ''sec_cnt > 0'' (0 < secs)
         (bind_res (lock_acquire (channel_lock (my_channel (disks s dk))) s) (\<lambda>s.
          bind_res (of_loop (read_loop error
            \<lparr>xf_disk = dk, xf_lba = lba, xf_buf = addr, xf_cnt = secs, xf_done = 0\<rparr> (select_disk dk s))) (\<lambda>r. r))))"

definition ide_read_resume :: "u32 \<Rightarrow> ide_wait \<Rightarrow> xfer \<Rightarrow> 'a istate_scheme \<Rightarrow>
    ((ide_wait \<times> xfer) option \<times> 'a istate_scheme) res" where
  "ide_read_resume error w x s =
     bind_res (read_secs_resume error w x s) (\<lambda>(w, s).
       case w of
         Some w \<Rightarrow> Inr (Some (w, x), s)
       | None \<Rightarrow> bind_res (of_loop (read_loop error (next_secs x) s)) (\<lambda>r. r))"

text \<open>\<^verbatim>\<open>ide_write\<close> polls before the data and waits for the interrupt behind them.\<close>

definition write_transfer :: "u32 \<Rightarrow> xfer \<Rightarrow> busy \<times> 'a istate_scheme \<Rightarrow> (ide_wait option \<times> 'a istate_scheme) res" where
  "write_transfer error x bs =
     (let (b, s) = bs
      in case b of
           Sleeping t start_tick sleep_ticks st \<Rightarrow> Inr (Some (Busy_Sleep t start_tick sleep_ticks st), s)
         | NotReady \<Rightarrow> failed ''%s write sector %d failed'' error [xf_disk x, xf_lba x] s
         | Ready \<Rightarrow>
             let s = write_to_sector (xf_disk x) (xf_buf x + xf_done x * 512) (ucast (secs_op x)) s
             in bind_res (sema_down (done_sema (xf_disk x) s) s) (\<lambda>(old_status, blocked, s).
                  Inr (map_option (Disk_Wait old_status) blocked, s)))"

definition write_secs :: "u32 \<Rightarrow> xfer \<Rightarrow> 'a istate_scheme \<Rightarrow> (ide_wait option \<times> 'a istate_scheme) res" where
  "write_secs error x s =
     bind_res (select_sector (xf_disk x) (xf_lba x + xf_done x) (ucast (secs_op x)) s) (\<lambda>s.
     let s = cmd_out (my_channel (disks s (xf_disk x))) 0x30 s
     in bind_res (busy_wait (xf_disk x) s) (write_transfer error x))"

definition write_secs_resume :: "u32 \<Rightarrow> ide_wait \<Rightarrow> xfer \<Rightarrow> 'a istate_scheme \<Rightarrow> (ide_wait option \<times> 'a istate_scheme) res" where
  "write_secs_resume error w x s =
     (case w of
        Disk_Wait old_status st \<Rightarrow>
          bind_res (sema_down_resume (done_sema (xf_disk x) s) old_status st s) (\<lambda>(blocked, s).
            Inr (map_option (Disk_Wait old_status) blocked, s))
      | Busy_Sleep t start_tick sleep_ticks st \<Rightarrow>
          bind_res (busy_wait_resume (xf_disk x) t start_tick sleep_ticks st s) (write_transfer error x))"

partial_function (option) write_loop ::
    "u32 \<Rightarrow> xfer \<Rightarrow> 'a istate_scheme \<Rightarrow> ((ide_wait \<times> xfer) option \<times> 'a istate_scheme) res option" where
  "write_loop error x s =
     (if xf_done x < xf_cnt x then
        (case write_secs error x s of
           Inl e \<Rightarrow> Some (Inl e)
         | Inr (w, s) \<Rightarrow>
             if w = None then write_loop error (next_secs x) s
             else Some (Inr (Some (the w, x), s)))
      else
        Some (bind_res (lock_release (channel_lock (my_channel (disks s (xf_disk x)))) s) (\<lambda>s. Inr (None, s))))"

definition ide_write :: "u32 \<Rightarrow> u32 \<Rightarrow> u32 \<Rightarrow> u32 \<Rightarrow> u32 \<Rightarrow> 'a istate_scheme \<Rightarrow>
    ((ide_wait \<times> xfer) option \<times> 'a istate_scheme) res" where
  "ide_write error dk lba addr secs s =
     assert_res ''lba <= max_lba'' (lba \<le> max_lba)
       (assert_res ''sec_cnt > 0'' (0 < secs)
         (bind_res (lock_acquire (channel_lock (my_channel (disks s dk))) s) (\<lambda>s.
          bind_res (of_loop (write_loop error
            \<lparr>xf_disk = dk, xf_lba = lba, xf_buf = addr, xf_cnt = secs, xf_done = 0\<rparr> (select_disk dk s))) (\<lambda>r. r))))"

definition ide_write_resume :: "u32 \<Rightarrow> ide_wait \<Rightarrow> xfer \<Rightarrow> 'a istate_scheme \<Rightarrow>
    ((ide_wait \<times> xfer) option \<times> 'a istate_scheme) res" where
  "ide_write_resume error w x s =
     bind_res (write_secs_resume error w x s) (\<lambda>(w, s).
       case w of
         Some w \<Rightarrow> Inr (Some (w, x), s)
       | None \<Rightarrow> bind_res (of_loop (write_loop error (next_secs x) s)) (\<lambda>r. r))"

text \<open>A call run to its end: whenever it is suspended, \<open>env\<close> gives the state in which it goes on.\<close>

type_synonym 'a env = "'a \<Rightarrow> 'a res"

partial_function (option) await ::
    "('a istate_scheme) env \<Rightarrow> (ide_wait \<Rightarrow> xfer \<Rightarrow> 'a istate_scheme \<Rightarrow> ((ide_wait \<times> xfer) option \<times> 'a istate_scheme) res) \<Rightarrow>
     (ide_wait \<times> xfer) option \<Rightarrow> 'a istate_scheme \<Rightarrow> 'a istate_scheme res option" where
  "await env resume w s =
     (if w = None then Some (Inr s)
      else case env s of
             Inl e \<Rightarrow> Some (Inl e)
           | Inr s \<Rightarrow>
               (case resume (fst (the w)) (snd (the w)) s of
                  Inl e \<Rightarrow> Some (Inl e)
                | Inr (w, s) \<Rightarrow> await env resume w s))"

definition await_read :: "('a istate_scheme) env \<Rightarrow> u32 \<Rightarrow> u32 \<Rightarrow> u32 \<Rightarrow> u32 \<Rightarrow> u32 \<Rightarrow> 'a istate_scheme \<Rightarrow> 'a istate_scheme res" where
  "await_read env error dk lba addr secs s =
     bind_res (ide_read error dk lba addr secs s) (\<lambda>(w, s).
     bind_res (of_loop (await env (ide_read_resume error) w s)) (\<lambda>r. r))"

definition await_write :: "('a istate_scheme) env \<Rightarrow> u32 \<Rightarrow> u32 \<Rightarrow> u32 \<Rightarrow> u32 \<Rightarrow> u32 \<Rightarrow> 'a istate_scheme \<Rightarrow> 'a istate_scheme res" where
  "await_write env error dk lba addr secs s =
     bind_res (ide_write error dk lba addr secs s) (\<lambda>(w, s).
     bind_res (of_loop (await env (ide_write_resume error) w s)) (\<lambda>r. r))"

section \<open>The interrupt\<close>

definition hd_intr_handler :: "u8 \<Rightarrow> 'a istate_scheme \<Rightarrow> 'a istate_scheme res" where
  "hd_intr_handler irq s =
     assert_res ''irq_no == 0x2e || irq_no == 0x2f'' (irq = 0x2e \<or> irq = 0x2f)
       (let channel_no = irq - 0x2e; channel = channel_at channel_no s
        in assert_res ''channel->irq_no == irq_no'' (irq_no (ide_channels s channel) = irq)
             (if expecting_intr (ide_channels s channel) \<noteq> 0 then
                let s = upd_channel channel (\<lambda>c. c\<lparr>expecting_intr := 0\<rparr>) s
                in bind_res (sema_up (disk_done channel) s) (\<lambda>s. Inr (snd (inb (reg channel 7 s) s)))
              else Inr s))"

section \<open>Finding disks and partitions\<close>

text \<open>\<^verbatim>\<open>idx\<close> is a byte, compared with the 32-bit length.\<close>

partial_function (option) swap_loop :: "u8 \<Rightarrow> u32 \<Rightarrow> u32 \<Rightarrow> u32 \<Rightarrow> bmem \<Rightarrow> bmem option" where
  "swap_loop idx src addr len m =
     (if ucast idx < len then
        let m = m(addr + ucast idx + 1 := m src);
            m = m(addr + ucast idx := m (src + 1))
        in swap_loop (idx + 2) (src + 2) addr len m
      else Some (m(addr + ucast idx := 0)))"

definition swap_bytes :: "u32 \<Rightarrow> u32 \<Rightarrow> u32 \<Rightarrow> bmem \<Rightarrow> bmem res" where
  "swap_bytes src addr len m = of_loop (swap_loop 0 src addr len m)"

text \<open>\<open>id_info\<close>, \<open>addr\<close> and \<open>error\<close> are the local arrays in the stack frame.\<close>

definition identify_start :: "u32 \<Rightarrow> 'a istate_scheme \<Rightarrow> (ide_wait option \<times> 'a istate_scheme) res" where
  "identify_start dk s =
     (let s = cmd_out (my_channel (disks s dk)) 0xec (select_disk dk s)
      in bind_res (sema_down (done_sema dk s) s) (\<lambda>(old_status, blocked, s).
           Inr (map_option (Disk_Wait old_status) blocked, s)))"

definition identify_polled :: "u32 \<Rightarrow> u32 \<Rightarrow> u32 \<Rightarrow> busy \<times> 'a istate_scheme \<Rightarrow> (ide_wait option \<times> 'a istate_scheme) res" where
  "identify_polled id_info error dk bs =
     (let (b, s) = bs
      in case b of
           Sleeping t start_tick sleep_ticks st \<Rightarrow> Inr (Some (Busy_Sleep t start_tick sleep_ticks st), s)
         | NotReady \<Rightarrow> failed ''%s identify failed'' error [dk] s
         | Ready \<Rightarrow> Inr (None, read_from_sector dk id_info 1 s))"

definition identify_resume :: "u32 \<Rightarrow> u32 \<Rightarrow> ide_wait \<Rightarrow> xfer \<Rightarrow> 'a istate_scheme \<Rightarrow>
    ((ide_wait \<times> xfer) option \<times> 'a istate_scheme) res" where
  "identify_resume id_info error w x s =
     bind_res
       (case w of
          Disk_Wait old_status st \<Rightarrow>
            bind_res (sema_down_resume (done_sema (xf_disk x) s) old_status st s) (\<lambda>(blocked, s).
              case blocked of
                Some st \<Rightarrow> Inr (Some (Disk_Wait old_status st), s)
              | None \<Rightarrow> bind_res (busy_wait (xf_disk x) s) (identify_polled id_info error (xf_disk x)))
        | Busy_Sleep t start_tick sleep_ticks st \<Rightarrow>
            bind_res (busy_wait_resume (xf_disk x) t start_tick sleep_ticks st s) (identify_polled id_info error (xf_disk x)))
       (\<lambda>(w, s). Inr (map_option (\<lambda>w. (w, x)) w, s))"

definition identify_disk :: "('a istate_scheme) env \<Rightarrow> u32 \<Rightarrow> u32 \<Rightarrow> u32 \<Rightarrow> u32 \<Rightarrow> 'a istate_scheme \<Rightarrow> 'a istate_scheme res" where
  "identify_disk env id_info addr error dk s =
     (let x = \<lparr>xf_disk = dk, xf_lba = 0, xf_buf = id_info, xf_cnt = 1, xf_done = 0\<rparr>
      in bind_res (identify_start dk s) (\<lambda>(w, s).
         bind_res (if w = None then bind_res (busy_wait dk s) (identify_polled id_info error dk) else Inr (w, s)) (\<lambda>(w, s).
         bind_res (of_loop (await env (identify_resume id_info error) (map_option (\<lambda>w. (w, x)) w) s)) (\<lambda>r.
         bind_res r (\<lambda>s.
         bind_res (on_mem (swap_bytes (id_info + 20) addr 20) s) (\<lambda>s.
         bind_res (kprintf (lit s (line ''    disk %s info:'')) [dk] s) (\<lambda>(s, _).
         bind_res (kprintf (lit s (line ''        SN: %s'')) [addr] s) (\<lambda>(s, _).
         let s = s\<lparr>mem := snd (memset addr 0 64 (mem s))\<rparr>
         in bind_res (on_mem (swap_bytes (id_info + 54) addr 40) s) (\<lambda>s.
            bind_res (kprintf (lit s (line ''        Module: %s'')) [addr] s) (\<lambda>(s, _).
            let sectors = read32 (mem s) (id_info + 120)
            in bind_res (kprintf (lit s (line ''        Sectors: %d'')) [sectors] s) (\<lambda>(s, _).
               bind_res (kprintf (lit s (line ''        Capacity: %dMB'')) [sectors * 512 div 1024 div 1024] s) (\<lambda>(s, _).
               Inr s))))))))))))"

text \<open>The fields of entry \<open>idx\<close> of the partition table in a boot sector at \<open>bs\<close>.\<close>

definition table_entry :: "u32 \<Rightarrow> u8 \<Rightarrow> u32" where
  "table_entry bs idx = bs + 446 + 16 * ucast idx"

definition pe_type :: "u32 \<Rightarrow> u8 \<Rightarrow> 'a vstate_scheme \<Rightarrow> u8" where
  "pe_type bs idx s = mem s (table_entry bs idx + 4)"

definition pe_start :: "u32 \<Rightarrow> u8 \<Rightarrow> 'a vstate_scheme \<Rightarrow> u32" where
  "pe_start bs idx s = read32 (mem s) (table_entry bs idx + 8)"

definition pe_sects :: "u32 \<Rightarrow> u8 \<Rightarrow> 'a vstate_scheme \<Rightarrow> u32" where
  "pe_sects bs idx s = read32 (mem s) (table_entry bs idx + 12)"

definition name_part :: "u32 \<Rightarrow> string \<Rightarrow> u32 list \<Rightarrow> 'a istate_scheme \<Rightarrow> 'a istate_scheme res" where
  "name_part addr fmt args s =
     bind_res (of_loop (snprintf (lit s) addr 8 (lit s fmt) args (mem s))) (\<lambda>r.
     bind_res r (\<lambda>(_, m). Inr (s\<lparr>mem := m\<rparr>)))"

definition add_part :: "u32 \<Rightarrow> u32 \<Rightarrow> u32 \<Rightarrow> u32 \<Rightarrow> u8 \<Rightarrow> u32 \<Rightarrow> 'a istate_scheme \<Rightarrow> 'a istate_scheme res" where
  "add_part dk p ext_lba bs idx no s =
     (let s = upd_partition p (\<lambda>q. q\<lparr>start_lba := ext_lba + pe_start bs idx s, sec_cnt := pe_sects bs idx s, my_disk := dk\<rparr>) s;
          s = list_append (partition_list s) (part_tag p) s
      in name_part (part_name p) ''%s%d'' [dk, no] s)"

definition scan_open :: "('a istate_scheme) env \<Rightarrow> u32 \<Rightarrow> u32 \<Rightarrow> u32 \<Rightarrow> 'a istate_scheme \<Rightarrow> (u32 \<times> 'a istate_scheme) res" where
  "scan_open env error dk ext_lba s =
     bind_res (sys_malloc 512 s) (\<lambda>(bs, s).
     bind_res (await_read env error dk ext_lba bs 1 s) (\<lambda>s. Inr (bs, s)))"

text \<open>The entries of one table that are not extended partitions: \<open>True\<close>, the scan returns at once.\<close>

definition scan_entry :: "u32 \<Rightarrow> u32 \<Rightarrow> u32 \<Rightarrow> u8 \<Rightarrow> 'a istate_scheme \<Rightarrow> (bool \<times> 'a istate_scheme) res" where
  "scan_entry dk ext_lba bs idx s =
     (if pe_type bs idx s = 0x83 then
        bind_res (add_part dk (prim_part dk (p_no s)) ext_lba bs idx (ucast (p_no s) + 1) s) (\<lambda>s.
        let s = (if ext_lba_base s = 0 then s\<lparr>p_no := p_no s + 1\<rparr> else s)
        in assert_res ''p_no <= 4'' (p_no s \<le> 4) (Inr (False, s)))
      else if pe_type bs idx s = 0 then
        let s = (if ext_lba_base s = 0 then s\<lparr>p_no := p_no s + 1\<rparr> else s)
        in assert_res ''p_no <= 4'' (p_no s \<le> 4) (Inr (False, s))
      else if pe_type bs idx s = 0x66 then
        bind_res (add_part dk (logic_part dk (l_no s)) ext_lba bs idx (ucast (l_no s) + 5) s) (\<lambda>s.
        let s = s\<lparr>l_no := l_no s + 1\<rparr> in Inr (8 \<le> l_no s, s))
      else Inr (False, s))"

partial_function (option) scan_loop ::
    "('a istate_scheme) env \<Rightarrow> u32 \<Rightarrow> u32 \<Rightarrow> u32 \<Rightarrow> u32 \<Rightarrow> u8 \<Rightarrow> 'a istate_scheme \<Rightarrow> 'a istate_scheme res option" where
  "scan_loop env error dk ext_lba bs idx s =
     (if idx < 4 then
        if pe_type bs idx s = 0x5 then
          let next_lba = (if ext_lba_base s = 0 then pe_start bs idx s else ext_lba_base s + pe_start bs idx s);
              s = (if ext_lba_base s = 0 then s\<lparr>ext_lba_base := pe_start bs idx s\<rparr> else s)
          in case scan_open env error dk next_lba s of
               Inl e \<Rightarrow> Some (Inl e)
             | Inr (bs', s) \<Rightarrow>
                 Option.bind (scan_loop env error dk next_lba bs' 0 s) (\<lambda>r.
                   case r of
                     Inl e \<Rightarrow> Some (Inl e)
                   | Inr s \<Rightarrow> scan_loop env error dk ext_lba bs (idx + 1) s)
        else
          case scan_entry dk ext_lba bs idx s of
            Inl e \<Rightarrow> Some (Inl e)
          | Inr (return, s) \<Rightarrow> if return then Some (Inr s) else scan_loop env error dk ext_lba bs (idx + 1) s
      else Some (sys_free bs s))"

definition partition_scan :: "('a istate_scheme) env \<Rightarrow> u32 \<Rightarrow> u32 \<Rightarrow> u32 \<Rightarrow> 'a istate_scheme \<Rightarrow> 'a istate_scheme res" where
  "partition_scan env error dk ext_lba s =
     bind_res (scan_open env error dk ext_lba s) (\<lambda>(bs, s).
     bind_res (of_loop (scan_loop env error dk ext_lba bs 0 s)) (\<lambda>r. r))"

definition partition_info :: "u32 \<Rightarrow> u32 \<Rightarrow> 'a istate_scheme \<Rightarrow> 'a istate_scheme res" where
  "partition_info elem arg s =
     (let part = elem - 12
      in bind_res (kprintf_lock (lit s (line ''%s start_lba: 0x%x, sec_cnt:0x%x''))
           [part_name part, start_lba (partitions s part), sec_cnt (partitions s part)] s) (\<lambda>(s, _). Inr s))"

text \<open>The loops of \<^verbatim>\<open>ide_init\<close>; \<^verbatim>\<open>dev_no\<close> is set to 0 before both of them only.\<close>

definition init_device :: "('a istate_scheme) env \<Rightarrow> u32 \<Rightarrow> u32 \<Rightarrow> u32 \<Rightarrow> u32 \<Rightarrow> u8 \<Rightarrow> u8 \<Rightarrow> 'a istate_scheme \<Rightarrow> 'a istate_scheme res" where
  "init_device env id_info addr error channel channel_no dev s =
     (let dk = device_at channel dev;
          s = upd_disk dk (\<lambda>_. \<lparr>my_channel = channel, dev_no = dev\<rparr>) s
      in bind_res (name_part dk ''sd%c'' [0x61 + ucast channel_no * 2 + ucast dev] s) (\<lambda>s.
         bind_res (identify_disk env id_info addr error dk s) (\<lambda>s.
         bind_res (if dev \<noteq> 0 then partition_scan env error dk 0 s else Inr s) (\<lambda>s.
           Inr (s\<lparr>p_no := 0, l_no := 0\<rparr>)))))"

partial_function (option) init_devices ::
    "('a istate_scheme) env \<Rightarrow> u32 \<Rightarrow> u32 \<Rightarrow> u32 \<Rightarrow> u32 \<Rightarrow> u8 \<Rightarrow> u8 \<Rightarrow> 'a istate_scheme \<Rightarrow> (u8 \<times> 'a istate_scheme) res option" where
  "init_devices env id_info addr error channel channel_no dev s =
     (if dev < 2 then
        case init_device env id_info addr error channel channel_no dev s of
          Inl e \<Rightarrow> Some (Inl e)
        | Inr s \<Rightarrow> init_devices env id_info addr error channel channel_no (dev + 1) s
      else Some (Inr (dev, s)))"

definition init_channel :: "u8 \<Rightarrow> 'a istate_scheme \<Rightarrow> 'a istate_scheme res" where
  "init_channel channel_no s =
     (let channel = channel_at channel_no s
      in bind_res (name_part channel ''ide%d'' [ucast channel_no] s) (\<lambda>s.
           let s = (if channel_no = 0 then upd_channel channel (\<lambda>c. c\<lparr>port_base := 0x1f0, irq_no := 0x20 + 14\<rparr>) s
                    else if channel_no = 1 then upd_channel channel (\<lambda>c. c\<lparr>port_base := 0x170, irq_no := 0x20 + 15\<rparr>) s
                    else s);
               s = list_init (partition_list s) s;
               s = upd_channel channel (\<lambda>c. c\<lparr>expecting_intr := 0\<rparr>) s
           in Inr (sema_init (disk_done channel) 0 (lock_init (channel_lock channel) s))))"

partial_function (option) init_channels ::
    "('a istate_scheme) env \<Rightarrow> u32 \<Rightarrow> u32 \<Rightarrow> u32 \<Rightarrow> u8 \<Rightarrow> u8 \<Rightarrow> 'a istate_scheme \<Rightarrow> 'a istate_scheme res option" where
  "init_channels env id_info addr error channel_no dev s =
     (if channel_no < channel_cnt s then
        case init_channel channel_no s of
          Inl e \<Rightarrow> Some (Inl e)
        | Inr s \<Rightarrow>
            Option.bind (init_devices env id_info addr error (channel_at channel_no s) channel_no dev s) (\<lambda>r.
              case r of
                Inl e \<Rightarrow> Some (Inl e)
              | Inr (dev, s) \<Rightarrow> init_channels env id_info addr error (channel_no + 1) dev s)
      else Some (Inr s))"

definition ide_init :: "('a istate_scheme) env \<Rightarrow> u32 \<Rightarrow> u32 \<Rightarrow> u32 \<Rightarrow> 'a istate_scheme \<Rightarrow> 'a istate_scheme res" where
  "ide_init env id_info addr error s =
     bind_res (say (line ''ide_init start'') s) (\<lambda>s.
     let hd_cnt = mem s 0x475
     in assert_res ''hd_cnt > 0'' (0 < hd_cnt)
          (bind_res (of_loop (init_channels env id_info addr error 0 0 (s\<lparr>channel_cnt := ucast (DIV_ROUND_UP (ucast hd_cnt) 2)\<rparr>))) (\<lambda>r.
           bind_res r (\<lambda>s.
           bind_res (say (line ''all partition info'') s) (\<lambda>s.
           bind_res (of_loop (list_traversal (partition_list s) partition_info NULL s)) (\<lambda>r.
           bind_res r (\<lambda>s.
           bind_res (of_loop (list_len (partition_list s) s)) (\<lambda>n.
           bind_res (kprintf_lock (lit s (line ''length is %d'')) [n] s) (\<lambda>(s, _).
             say (line ''ide_init done'') s))))))))) "

section \<open>Addressing a sector\<close>

lemma outb_simps [simp]:
  "port_writes (outb p d s) = port_writes s @ [(p, Byte d)]"
  by (simp add: outb_def)

lemma reg_outb [simp]: "reg c n (outb p d s) = reg c n s"
  by (simp add: outb_def reg_def)

lemma lba_bytes:
  fixes lba :: u32
  assumes "lba < 2 ^ 28"
  shows "ucast (ucast lba :: u8) OR push_bit 8 (ucast (ucast (drop_bit 8 lba) :: u8)) OR
    push_bit 16 (ucast (ucast (drop_bit 16 lba) :: u8)) OR
    push_bit 24 (ucast (ucast (d OR drop_bit 24 lba) AND mask 4 :: u8)) =
    (lba OR push_bit 24 (d AND mask 4))"
proof (rule bit_word_eqI)
  fix n assume "n < LENGTH(32)"
  then have "n < 8 \<or> (8 \<le> n \<and> n < 16) \<or> (16 \<le> n \<and> n < 24) \<or> (24 \<le> n \<and> n < 28) \<or> (28 \<le> n \<and> n < 32)" by simp linarith
  moreover have "\<not> bit lba n" if "28 \<le> n"
  proof
    assume "bit lba n"
    then have "bit (unat lba) n" by (simp add: bit_unsigned_iff bit_imp_le_length)
    moreover have "take_bit 28 (unat lba) = unat lba"
      using assms by (intro take_bit_nat_eq_self) (simp add: word_less_nat_alt)
    ultimately show False using that by (metis bit_take_bit_iff not_le)
  qed
  ultimately show "bit (ucast (ucast lba :: u8) OR push_bit 8 (ucast (ucast (drop_bit 8 lba) :: u8)) OR
    push_bit 16 (ucast (ucast (drop_bit 16 lba) :: u8)) OR
    push_bit 24 (ucast (ucast (d OR drop_bit 24 lba) AND mask 4 :: u8)) :: u32) n = bit (lba OR push_bit 24 (d AND mask 4)) n"
    by (elim disjE) (auto simp: bit_simps)
qed

text \<open>What the drive makes of the bytes in its registers.\<close>

definition drive_lba :: "u8 \<Rightarrow> u8 \<Rightarrow> u8 \<Rightarrow> u8 \<Rightarrow> u32" where
  "drive_lba lo mid hi dev =
     ucast lo OR push_bit 8 (ucast mid) OR push_bit 16 (ucast hi) OR push_bit 24 (ucast (dev AND 0x0f))"

lemma select_sector_regs:
  "if lba \<le> max_lba then
     \<exists>lo mid hi dev. select_sector dk lba n s = Inr (s\<lparr>port_writes := port_writes s @
         [(reg (my_channel (disks s dk)) 2 s, Byte n), (reg (my_channel (disks s dk)) 3 s, Byte lo),
          (reg (my_channel (disks s dk)) 4 s, Byte mid), (reg (my_channel (disks s dk)) 5 s, Byte hi),
          (reg (my_channel (disks s dk)) 6 s, Byte dev)]\<rparr>) \<and>
       drive_lba lo mid hi dev = lba \<and> bit dev 6 \<and> (bit dev 4 \<longleftrightarrow> dev_no (disks s dk) = 1)
   else select_sector dk lba n s = Inl (Panic ''lba <= max_lba'')"
proof (cases "lba \<le> max_lba")
  case True
  let ?d = "(if dev_no (disks s dk) = 1 then 0xf0 else 0xe0) :: u32"
  let ?dev = "ucast (?d OR drop_bit 24 lba) :: u8"
  have l: "lba < 2 ^ 28" using True by (simp add: max_lba_def) (erule order_le_less_trans, simp)
  have lt: "unat (drop_bit 24 lba) = 0"
  proof -
    have "unat lba \<le> unat max_lba" using True by (simp add: word_le_nat_alt)
    then show ?thesis by (simp add: unat_drop_bit_eq drop_bit_eq_div unat_div max_lba_def)
  qed
  then have z: "drop_bit 24 lba = 0" by (simp add: unat_eq_0)
  have n: "n \<le> 255" using unat_u8_less [of n] by (simp add: word_le_nat_alt)
  have m: "(0x0f :: u8) = mask 4" "?d AND mask 4 = 0" by (simp_all add: mask_eq_exp_minus_1)
  have "drive_lba (ucast lba) (ucast (drop_bit 8 lba)) (ucast (drop_bit 16 lba)) ?dev = lba"
    unfolding drive_lba_def m(1) lba_bytes [OF l] m(2) by simp
  moreover have "bit ?dev 6" "bit ?dev 4 \<longleftrightarrow> dev_no (disks s dk) = 1" by (simp_all add: z)
  moreover have "select_sector dk lba n s = Inr (s\<lparr>port_writes := port_writes s @
         [(reg (my_channel (disks s dk)) 2 s, Byte n), (reg (my_channel (disks s dk)) 3 s, Byte (ucast lba)),
          (reg (my_channel (disks s dk)) 4 s, Byte (ucast (drop_bit 8 lba))), (reg (my_channel (disks s dk)) 5 s, Byte (ucast (drop_bit 16 lba))),
          (reg (my_channel (disks s dk)) 6 s, Byte ?dev)]\<rparr>)"
    using True n by (auto simp: select_sector_def Let_def reg_def outb_def)
  ultimately show ?thesis using True by (simp only: if_True) blast
next
  case False
  then show ?thesis by (simp add: select_sector_def)
qed

section \<open>Data from the drive\<close>

text \<open>The bytes of \<open>n\<close> words, low byte first.\<close>

primrec device_bytes :: "nat \<Rightarrow> (nat \<Rightarrow> u16) \<Rightarrow> u8 list" where
  "device_bytes 0 f = []"
| "device_bytes (Suc n) f = ucast (f 0) # ucast (drop_bit 8 (f 0)) # device_bytes n (\<lambda>i. f (Suc i))"

lemma length_device_bytes [simp]: "length (device_bytes n f) = 2 * n"
  by (induction n arbitrary: f) simp_all

lemma store_bytes_append:
  assumes "length (xs @ ys) \<le> 2 ^ 32"
  shows "store_bytes a (xs @ ys) m = store_bytes (a + of_nat (length xs)) ys (store_bytes a xs m)"
proof
  fix x
  let ?i = "unat (x - a)"
  have off: "unat (x - (a + of_nat (length xs))) = ?i - length xs" if "length xs \<le> ?i"
  proof -
    have "x - (a + of_nat (length xs)) = of_nat (?i - length xs)" using that by (simp add: of_nat_diff)
    moreover have "?i - length xs < 2 ^ 32" using unat_u32_less [of "x - a"] by simp
    ultimately show ?thesis by (simp add: unat_of_nat)
  qed
  show "store_bytes a (xs @ ys) m x = store_bytes (a + of_nat (length xs)) ys (store_bytes a xs m) x"
  proof (cases "length xs \<le> ?i")
    case True
    then show ?thesis using off by (auto simp: store_bytes_def Let_def nth_append)
  next
    case False
    then have "?i < length xs" by simp
    moreover have "\<not> unat (x - (a + of_nat (length xs))) < length ys"
    proof
      assume k: "unat (x - (a + of_nat (length xs))) < length ys"
      define j where "j = unat (x - (a + of_nat (length xs))) + length xs"
      have "x - a = of_nat (unat (x - (a + of_nat (length xs)))) + of_nat (length xs)" by simp
      then have "x - a = of_nat j" by (simp only: of_nat_add j_def)
      moreover have "j < 2 ^ 32" using k assms by (simp add: j_def)
      ultimately have "?i = j" by (simp add: unat_of_nat)
      then have "length xs \<le> ?i" by (simp add: j_def)
      then show False using False by simp
    qed
    ultimately show ?thesis by (simp add: store_bytes_def Let_def nth_append)
  qed
qed

lemma write16_store: "write16 a w m = store_bytes a [ucast w, ucast (drop_bit 8 w)] m"
proof
  fix x
  have "x = a + 1 \<longleftrightarrow> unat (x - a) = 1"
  proof
    assume "unat (x - a) = 1"
    then have "x - a = 1" by (metis of_nat_1 of_nat_unat_id)
    then show "x = a + 1" by (simp add: diff_eq_eq add.commute)
  qed simp
  moreover have "x = a \<longleftrightarrow> unat (x - a) = 0" by (simp add: unat_eq_0)
  ultimately show "write16 a w m x = store_bytes a [ucast w, ucast (drop_bit 8 w)] m x"
    by (auto simp: write16_def store_bytes_def Let_def less_2_cases_iff numeral_2_eq_2 less_Suc_eq)
qed

lemma insw_eq:
  assumes "2 * n \<le> 2 ^ 32"
  shows "insw n p a s = s\<lparr>mem := store_bytes a (device_bytes n (port_inputs s p)) (mem s),
    port_inputs := (port_inputs s)(p := (\<lambda>i. port_inputs s p (n + i)))\<rparr>"
  using assms
proof (induction n arbitrary: a s)
  case 0
  then show ?case by (simp add: store_bytes_def)
next
  case (Suc n)
  define s1 where "s1 = s\<lparr>port_inputs := (port_inputs s)(p := (\<lambda>i. port_inputs s p (Suc i))), mem := write16 a (port_inputs s p 0) (mem s)\<rparr>"
  have f: "port_inputs s1 p = (\<lambda>i. port_inputs s p (Suc i))" "mem s1 = write16 a (port_inputs s p 0) (mem s)"
    by (simp_all add: s1_def)
  have m: "store_bytes (a + 2) (device_bytes n (port_inputs s1 p)) (mem s1) = store_bytes a (device_bytes (Suc n) (port_inputs s p)) (mem s)"
    using store_bytes_append [of "[ucast (port_inputs s p 0), ucast (drop_bit 8 (port_inputs s p 0))]"
        "device_bytes n (\<lambda>i. port_inputs s p (Suc i))" a "mem s"] Suc.prems by (simp add: f write16_store)
  have "insw (Suc n) p a s = insw n p (a + 2) s1" by (simp add: inw_def Let_def s1_def)
  also have "\<dots> = s1\<lparr>mem := store_bytes a (device_bytes (Suc n) (port_inputs s p)) (mem s),
      port_inputs := (port_inputs s1)(p := (\<lambda>i. port_inputs s1 p (n + i)))\<rparr>"
    unfolding m [symmetric] by (rule Suc.IH) (use Suc.prems in simp)
  also have "\<dots> = s\<lparr>mem := store_bytes a (device_bytes (Suc n) (port_inputs s p)) (mem s),
      port_inputs := (port_inputs s)(p := (\<lambda>i. port_inputs s p (Suc n + i)))\<rparr>"
    by (simp add: s1_def)
  finally show ?case .
qed

lemma busy_wait_ready:
  assumes "ucast (port_inputs s (reg (my_channel (disks s dk)) 7 s) 0) AND (0x80 :: u8) = 0"
    and "ucast (port_inputs s (reg (my_channel (disks s dk)) 7 s) 0) AND (0x8 :: u8) \<noteq> 0"
  shows "busy_wait dk s = Inr (Ready, snd (inb (reg (my_channel (disks s dk)) 7 s) s))"
  using assms by (simp add: busy_wait_def busy_loop.simps [of dk 30000] inb_def inw_def Let_def)

lemma sema_down_resume_free:
  assumes "semas s sema = 1"
  shows "\<exists>e. sema_down_resume sema old st s = Inr (None, s\<lparr>eflags := e, semas := (semas s)(sema := 0)\<rparr>)"
proof -
  obtain e where e: "thread_block_resume st s = s\<lparr>eflags := e\<rparr>"
    using set_intr_status_eflags [of st s] by (auto simp: thread_block_resume_def)
  obtain e' where e': "snd (set_intr_status old (set_sema sema 0 (s\<lparr>eflags := e\<rparr>))) = (set_sema sema 0 (s\<lparr>eflags := e\<rparr>))\<lparr>eflags := e'\<rparr>"
    using set_intr_status_eflags by blast
  have "sema_down_resume sema old st s = Inr (None, (set_sema sema 0 (s\<lparr>eflags := e\<rparr>))\<lparr>eflags := e'\<rparr>)"
    using assms by (simp add: sema_down_resume_def e sema_down_loop_def e' Let_def)
  then show ?thesis by (intro exI [of _ e']) (simp add: set_sema_def)
qed

lemma sector_words:
  fixes c :: u32
  assumes "0 < c" "c \<le> 256"
  shows "unat (size_in_byte (ucast c) div 2) = 256 * unat c"
proof (cases "c = 256")
  case True
  then show ?thesis by (simp add: size_in_byte_def)
next
  case False
  then have "c < 256" using assms(2) by simp
  then have n: "unat c < 256" by (simp add: word_less_nat_alt)
  have u: "unat (ucast c :: u8) = unat c" using n by (simp add: unsigned_ucast_eq take_bit_nat_eq_self)
  have "ucast c \<noteq> (0 :: u8)"
  proof
    assume "ucast c = (0 :: u8)"
    then have "unat (ucast c :: u8) = 0" by simp
    then have "c = 0" using u by (simp add: unat_eq_0)
    then show False using assms(1) by simp
  qed
  moreover have "(of_nat (unat (ucast c :: u8)) :: u32) = ucast (ucast c :: u8)" by simp
  then have "(ucast (ucast c :: u8) :: u32) = c" unfolding u by simp
  moreover have "unat (c * 512) = unat c * 512" using n by (simp add: unat_word_ariths)
  ultimately show ?thesis by (simp add: size_in_byte_def unat_div)
qed

lemma whole_chunk:
  assumes "xf_done x = 0" "0 < xf_cnt x" "xf_cnt x \<le> 256"
  shows "secs_op x = xf_cnt x" "xf_done (next_secs x) = xf_cnt x" "xf_cnt (next_secs x) = xf_cnt x" "xf_disk (next_secs x) = xf_disk x"
  using assms by (auto simp: secs_op_def next_secs_def)

lemma read_loop_done:
  "\<not> xf_done x < xf_cnt x \<Longrightarrow> read_loop error x s =
   Some (bind_res (lock_release (channel_lock (my_channel (disks s (xf_disk x)))) s) (\<lambda>s. Inr (None, s)))"
  by (simp add: read_loop.simps)

lemma ide_read_resume_eq:
  fixes s :: "'a istate_scheme"
  assumes x: "xf_done x = 0" "0 < xf_cnt x" "xf_cnt x \<le> 256"
    and c: "c = my_channel (disks s (xf_disk x))"
    and sem: "semas s (disk_done c) = 1"
    and st: "ucast (port_inputs s (reg c 7 s) 0) AND (0x80 :: u8) = 0" "ucast (port_inputs s (reg c 7 s) 0) AND (0x8 :: u8) \<noteq> 0"
    and lk: "locks s (channel_lock c) = \<lparr>locked = 1, holder = running_thread s, number_of = 1\<rparr>" "running_thread s \<noteq> NULL"
  shows "\<exists>s'. ide_read_resume error (Disk_Wait old st') x s = Inr (None, s') \<and>
    mem s' = store_bytes (xf_buf x) (device_bytes (256 * unat (xf_cnt x)) (port_inputs s (reg c 0 s))) (mem s) \<and>
    semas s' (disk_done c) = 0 \<and> locks s' (channel_lock c) = \<lparr>locked = 0, holder = NULL, number_of = 0\<rparr>"
proof -
  let ?dk = "xf_disk x" and ?n = "256 * unat (xf_cnt x)"
  obtain e where e: "sema_down_resume (disk_done c) old st' s = Inr (None, s\<lparr>eflags := e, semas := (semas s)(disk_done c := 0)\<rparr>)"
    using sema_down_resume_free [OF sem] by blast
  define u where "u = s\<lparr>eflags := e, semas := (semas s)(disk_done c := 0)\<rparr>"
  have u: "disks u = disks s" "port_inputs u = port_inputs s" "reg c k u = reg c k s" "mem u = mem s" "locks u = locks s"
    "running_thread u = running_thread s" for k
    by (simp_all add: u_def reg_def running_thread_def)
  define v where "v = snd (inb (reg c 7 u) u)"
  have b: "busy_wait ?dk u = Inr (Ready, v)"
    unfolding v_def c by (subst busy_wait_ready) (use st u in \<open>simp_all add: c\<close>)
  have p: "reg c 7 s \<noteq> reg c 0 s" by (simp add: reg_def)
  have v: "disks v = disks s" "port_inputs v (reg c 0 s) = port_inputs s (reg c 0 s)" "reg c k v = reg c k s" "mem v = mem s"
    "locks v = locks s" "semas v = semas u" "running_thread v = running_thread s" for k
    using p by (simp_all add: v_def inb_def inw_def Let_def u reg_def running_thread_def, simp_all add: u_def)
  have wc: "unat (xf_cnt x) \<le> 256" using x(3) by (simp add: word_le_nat_alt)
  define w where "w = read_from_sector ?dk (xf_buf x + xf_done x * 512) (ucast (secs_op x)) v"
  have w_eq: "w = insw ?n (reg c 0 s) (xf_buf x) v"
    unfolding w_def read_from_sector_def whole_chunk [OF x] sector_words [OF x(2,3)] by (simp add: x(1) v c [symmetric])
  have w: "mem w = store_bytes (xf_buf x) (device_bytes ?n (port_inputs s (reg c 0 s))) (mem s)" "disks w = disks s"
    "locks w = locks s" "semas w = semas u" "regs w = regs v"
    unfolding w_eq by (subst insw_eq, use wc in simp, simp add: v)+
  then have run: "running_thread w = running_thread s" using v(7) by (simp add: running_thread_def)
  have r: "read_secs_resume error (Disk_Wait old st') x s = Inr (None, w)"
    using e b by (simp add: read_secs_resume_def done_sema_def c [symmetric] u_def [symmetric] read_transfer_def w_def)
  have l: "lock_release (channel_lock c) w = Inr (let_go (channel_lock c) w)"
    by (rule release_taken) (simp_all add: w run lk)
  have "read_loop error (next_secs x) w = Some (Inr (None, let_go (channel_lock c) w))"
    using l by (subst read_loop_done) (simp_all add: whole_chunk [OF x] w c [symmetric])
  then have "ide_read_resume error (Disk_Wait old st') x s = Inr (None, let_go (channel_lock c) w)"
    by (simp add: ide_read_resume_def r)
  moreover have "semas u (disk_done c) = 0" by (simp add: u_def)
  ultimately show ?thesis
    by (intro exI [of _ "let_go (channel_lock c) w"]) (simp add: let_go_def w)
qed

section \<open>Waiting for the interrupt\<close>

lemma sema_down_blocks:
  assumes inv: "sched_inv T TASK_RUNNING s q" and sema: "semas s sema = 0"
    and w: "holds (waiters sema) s ws" "slot (waiters sema) (general_tag (running_thread s))"
      "general_tag (running_thread s) \<notin> set ws"
    and disj: "set (nodes (waiters sema) ws) \<inter> set (nodes (ready_list s) (map general_tag q)) = {}"
  defines "nx \<equiv> pick False (idle_thread s) (running_thread s) q"
  shows "\<exists>s'. sema_down sema s = Inr (get_intr_status s, Some INTR_OFF, s') \<and> running_thread s' = fst nx \<and>
    sched_inv T TASK_RUNNING s' (snd nx) \<and> tstate.more s' = tstate.more s \<and> port_writes s' = port_writes s"
proof -
  let ?cur = "running_thread s"
  obtain e where d: "intr_disable s = (get_intr_status s, s\<lparr>eflags := e\<rparr>)" "get_intr_status (s\<lparr>eflags := e\<rparr>) = INTR_OFF"
    by (rule intr_disable_cases)
  define u where "u = s\<lparr>eflags := e\<rparr>"
  have wu: "holds (waiters sema) u ws" and ru: "holds (ready_list s) u (map general_tag q)"
    using w(1) inv by (simp_all add: u_def holds_def sched_inv_def ready_def)
  define v where "v = list_append (waiters sema) (general_tag ?cur) u"
  have q: "queueable s ?cur" "?cur \<notin> set q" using inv by (auto simp: sched_inv_def)
  have "holds (ready_list s) v (map general_tag q)"
    unfolding v_def by (rule append_frame [OF wu ru _ _ disj]) (use q in \<open>auto simp: queueable_def general_tag_image simp del: set_map\<close>)
  then have iv: "sched_inv T TASK_RUNNING v q"
    by (rule sched_inv_links [OF inv]) (simp_all add: v_def u_def)
  have fv: "running_thread v = ?cur" "idle_thread v = idle_thread s" "get_intr_status v = INTR_OFF" "tstate.more v = tstate.more s"
    "port_writes v = port_writes s"
    using d(2) by (simp_all add: v_def u_def get_intr_status_def)
  obtain s' where s': "thread_block TASK_BLOCKED v = Inr (INTR_OFF, s')" "running_thread s' = fst nx"
    "sched_inv T TASK_RUNNING s' (snd nx)"
    using thread_block_eq [OF iv, of TASK_BLOCKED] fv by (auto simp: asleep_def nx_def)
  have "list_find (waiters sema) (general_tag ?cur) u = Some False" using find_holds [OF wu] w(3) by simp
  then have "sema_down sema s = Inr (get_intr_status s, Some INTR_OFF, s')"
    using sema s'(1) by (simp add: sema_down_def d(1) sema_down_loop_def v_def flip: u_def) (simp add: u_def)
  then show ?thesis using s' thread_block_more(1) [OF s'(1)] thread_block_ports(1) [OF s'(1)] fv by auto
qed

lemma more_channels:
  fixes s s' :: "'a istate_scheme"
  assumes "tstate.more s' = tstate.more s"
  shows "locks s' = locks s" "ide_channels s' = ide_channels s" "disks s' = disks s" "semas s' = semas s"
  using assms by (cases s; cases s'; simp)+

lemma ide_read_waits_eq:
  fixes s :: "'a istate_scheme"
  assumes inv: "sched_inv T TASK_RUNNING s q" and args: "lba \<le> max_lba" "0 < secs"
    and c: "c = my_channel (disks s dk)"
    and free: "lock_ok (locks s (channel_lock c))" "locked (locks s (channel_lock c)) = 0" "running_thread s \<noteq> NULL"
    and sema: "semas s (disk_done c) = 0" "holds (waiters (disk_done c)) s []"
      "slot (waiters (disk_done c)) (general_tag (running_thread s))"
      "set (nodes (waiters (disk_done c)) []) \<inter> set (nodes (ready_list s) (map general_tag q)) = {}"
  defines "nx \<equiv> pick False (idle_thread s) (running_thread s) q"
  shows "\<exists>s'. ide_read error dk lba addr secs s = Inr (Some (Disk_Wait INTR_OFF INTR_OFF,
        \<lparr>xf_disk = dk, xf_lba = lba, xf_buf = addr, xf_cnt = secs, xf_done = 0\<rparr>), s') \<and>
    running_thread s' = fst nx \<and> sched_inv T TASK_RUNNING s' (snd nx) \<and> expecting_intr (ide_channels s' c) = 1 \<and>
    locks s' (channel_lock c) = \<lparr>locked = 1, holder = running_thread s, number_of = 1\<rparr> \<and>
    (\<exists>dev0 lo mid hi dev. port_writes s' = port_writes s @
         [(reg c 6 s, Byte dev0), (reg c 2 s, Byte (ucast (min secs 256))), (reg c 3 s, Byte lo), (reg c 4 s, Byte mid),
          (reg c 5 s, Byte hi), (reg c 6 s, Byte dev), (reg c 7 s, Byte 0x20)] \<and>
       (bit dev0 4 \<longleftrightarrow> dev_no (disks s dk) = 1) \<and>
       drive_lba lo mid hi dev = lba \<and> bit dev 6 \<and> (bit dev 4 \<longleftrightarrow> dev_no (disks s dk) = 1))"
proof -
  let ?x = "\<lparr>xf_disk = dk, xf_lba = lba, xf_buf = addr, xf_cnt = secs, xf_done = 0\<rparr>"
  define a where "a = select_disk dk (taken (channel_lock c) s)"
  define dev0 :: u8 where "dev0 = (if dev_no (disks s dk) = 1 then 0xf0 else 0xe0)"
  obtain w where w: "a = (taken (channel_lock c) s)\<lparr>port_writes := w\<rparr>" "w = port_writes s @ [(reg c 6 s, Byte dev0)]"
    by (simp add: a_def select_disk_def outb_def Let_def dev0_def taken_def c reg_def)
  have d0: "bit dev0 4 \<longleftrightarrow> dev_no (disks s dk) = 1" by (simp add: dev0_def)
  have ra: "reg k n a = reg k n s" "disks a = disks s" for k n by (simp_all add: w(1) taken_def reg_def)
  have n: "secs_op ?x = min secs 256" using linear [of secs 256] by (auto simp: secs_op_def min_def)
  obtain lo mid hi dev w' where w': "select_sector dk lba (ucast (secs_op ?x)) a = Inr (a\<lparr>port_writes := w'\<rparr>)"
      "w' = w @ [(reg c 2 s, Byte (ucast (min secs 256))), (reg c 3 s, Byte lo), (reg c 4 s, Byte mid),
          (reg c 5 s, Byte hi), (reg c 6 s, Byte dev)]"
    and dr: "drive_lba lo mid hi dev = lba" "bit dev 6" "bit dev 4 \<longleftrightarrow> dev_no (disks s dk) = 1"
    using select_sector_regs [of lba dk "ucast (secs_op ?x)" a] args(1) unfolding ra n c [symmetric] by (auto simp: w(1))
  define b where "b = cmd_out c 0x20 (a\<lparr>port_writes := w'\<rparr>)"
  have b: "entries b = entries s" "threads b = threads s" "regs b = regs s" "ready_list b = ready_list s"
    "idle_thread b = idle_thread s" "running_thread b = running_thread s" "get_intr_status b = INTR_OFF" "semas b = semas s"
    "disks b = disks s" "expecting_intr (ide_channels b c) = 1"
    "locks b (channel_lock c) = \<lparr>locked = 1, holder = running_thread s, number_of = 1\<rparr>"
    using status_cli [of s]
    by (simp_all add: b_def cmd_out_def outb_def upd_channel_def Let_def w(1) taken_def running_thread_def get_intr_status_def)
  have pb: "port_writes b = w' @ [(reg c 7 s, Byte 0x20)]"
    by (simp add: b_def cmd_out_def outb_def upd_channel_def Let_def reg_def w(1) taken_def)
  have dk: "my_channel (disks a dk) = c" "disks a = disks s" by (simp_all add: w(1) taken_def c)
  have ib: "sched_inv T TASK_RUNNING b q" by (rule sched_inv_same [OF inv]) (simp_all add: b)
  have hb: "holds (waiters (disk_done c)) b []" using sema(2) b(1) by (simp add: holds_def)
  obtain s' where s': "sema_down (disk_done c) b = Inr (INTR_OFF, Some INTR_OFF, s')" "running_thread s' = fst nx"
    "sched_inv T TASK_RUNNING s' (snd nx)" "tstate.more s' = tstate.more b" "port_writes s' = port_writes b"
    using sema_down_blocks [OF ib _ hb] sema b by (auto simp: nx_def)
  have rq: "read_request ?x a = Inr (Some (Disk_Wait INTR_OFF INTR_OFF), s')"
    using w'(1) s'(1) by (simp add: read_request_def done_sema_def dk Let_def b_def [symmetric] b(9) c [symmetric])
  have "read_loop error ?x a = Some (Inr (Some (Disk_Wait INTR_OFF INTR_OFF, ?x), s'))"
    using args(2) by (subst read_loop.simps) (simp add: read_secs_def rq)
  then have "ide_read error dk lba addr secs s = Inr (Some (Disk_Wait INTR_OFF INTR_OFF, ?x), s')"
    using args acquire_taken [OF free] by (simp add: ide_read_def c [symmetric] a_def [symmetric])
  moreover have "expecting_intr (ide_channels s' c) = 1"
    "locks s' (channel_lock c) = \<lparr>locked = 1, holder = running_thread s, number_of = 1\<rparr>"
    using more_channels [OF s'(4)] b by simp_all
  moreover have "port_writes s' = port_writes s @
         [(reg c 6 s, Byte dev0), (reg c 2 s, Byte (ucast (min secs 256))), (reg c 3 s, Byte lo), (reg c 4 s, Byte mid),
          (reg c 5 s, Byte hi), (reg c 6 s, Byte dev), (reg c 7 s, Byte 0x20)]"
    by (simp add: s'(5) pb w'(2) w(2))
  ultimately show ?thesis using s'(2,3) d0 dr by blast
qed

lemma hd_intr_handler_wakes_eq:
  fixes s :: "'a istate_scheme"
  assumes inv: "sched_inv T TASK_RUNNING s q" and p: "p \<in> T" "p \<noteq> running_thread s" "p \<notin> set q"
    and irq: "irq = 0x2e \<or> irq = 0x2f" and c: "c = channel_at (irq - 0x2e) s" "irq_no (ide_channels s c) = irq"
      "expecting_intr (ide_channels s c) \<noteq> 0"
    and sema: "semas s (disk_done c) = 0" "holds (waiters (disk_done c)) s (general_tag p # ws)"
      "set (nodes (waiters (disk_done c)) (general_tag p # ws)) \<inter> set (nodes (ready_list s) (map general_tag q)) = {}"
  shows "\<exists>s'. hd_intr_handler irq s = Inr s' \<and> sched_inv T TASK_RUNNING s' (p # q) \<and> semas s' (disk_done c) = 1 \<and>
    running_thread s' = running_thread s \<and> eflags s' = eflags s \<and>
    ide_channels s' = (ide_channels s)(c := (ide_channels s c)\<lparr>expecting_intr := 0\<rparr>) \<and> channels_at s' = channels_at s \<and>
    port_inputs s' = (port_inputs s)(reg c 7 s := (\<lambda>n. port_inputs s (reg c 7 s) (Suc n))) \<and> port_writes s' = port_writes s"
proof -
  define t where "t = upd_channel c (\<lambda>c. c\<lparr>expecting_intr := 0\<rparr>) s"
  have t: "entries t = entries s" "threads t = threads s" "regs t = regs s" "ready_list t = ready_list s"
    "idle_thread t = idle_thread s" "running_thread t = running_thread s" "semas t = semas s" "eflags t = eflags s"
    by (simp_all add: t_def upd_channel_def running_thread_def)
  have it: "sched_inv T TASK_RUNNING t q" by (rule sched_inv_same [OF inv]) (simp_all add: t)
  have ht: "holds (waiters (disk_done c)) t (general_tag p # ws)" using sema(2) t(1) by (simp add: holds_def)
  obtain u where u: "sema_up (disk_done c) t = Inr u" "sched_inv T TASK_RUNNING u (p # q)" "semas u (disk_done c) = 1"
    "eflags u = eflags t" "running_thread u = running_thread t"
    using sema_up_wakes_eq [OF it p(1) _ p(3) _ ht] p(2) sema t by auto
  have ut: "ide_channels u = ide_channels t" "channels_at u = channels_at t" "port_inputs u = port_inputs t" "port_writes u = port_writes t"
    using sema_up_rest [OF u(1)] by (cases u; cases t; simp)+
  let ?v = "snd (inb (reg c 7 u) u)"
  have v: "sched_inv T TASK_RUNNING ?v (p # q)" by (rule sched_inv_same [OF u(2)]) (simp_all add: inb_def inw_def Let_def)
  have "hd_intr_handler irq s = Inr ?v"
    using irq c u(1) by (simp add: hd_intr_handler_def Let_def t_def)
  moreover have "semas ?v = semas u" "eflags ?v = eflags u" "running_thread ?v = running_thread u"
    "ide_channels ?v = ide_channels u" "channels_at ?v = channels_at u" "port_writes ?v = port_writes u"
    "port_inputs ?v = (port_inputs u)(reg c 7 u := (\<lambda>n. port_inputs u (reg c 7 u) (Suc n)))"
    by (simp_all add: inb_def inw_def Let_def running_thread_def)
  moreover have "ide_channels t = (ide_channels s)(c := (ide_channels s c)\<lparr>expecting_intr := 0\<rparr>)" "channels_at t = channels_at s"
    "port_inputs t = port_inputs s" "port_writes t = port_writes s"
    by (simp_all add: t_def upd_channel_def)
  moreover have "reg c 7 u = reg c 7 s" using ut(1) calculation(9) by (simp add: reg_def)
  ultimately show ?thesis using u(2-5) v t ut by (intro exI [of _ ?v]) simp
qed

lemma hd_intr_handler_ignores:
  assumes "irq = 0x2e \<or> irq = 0x2f" "irq_no (ide_channels s (channel_at (irq - 0x2e) s)) = irq"
    "expecting_intr (ide_channels s (channel_at (irq - 0x2e) s)) = 0"
  shows "hd_intr_handler irq s = Inr s"
  using assms by (simp add: hd_intr_handler_def Let_def)

section \<open>Properties\<close>

text \<open>C33. \<^verbatim>\<open>select_sector\<close> addresses the sector it is given: up to \<^verbatim>\<open>max_lba\<close> it writes the
  sector count, the address and the drive byte to the registers of the channel, in this order and nothing else,
  such that the drive reads the address back, in LBA mode, for the device the disk is; above
  \<^verbatim>\<open>max_lba\<close> it panics.\<close>

theorem select_sector_addresses:
  "if lba \<le> max_lba then
     \<exists>lo mid hi dev. select_sector dk lba n s = Inr (s\<lparr>port_writes := port_writes s @
         [(reg (my_channel (disks s dk)) 2 s, Byte n), (reg (my_channel (disks s dk)) 3 s, Byte lo),
          (reg (my_channel (disks s dk)) 4 s, Byte mid), (reg (my_channel (disks s dk)) 5 s, Byte hi),
          (reg (my_channel (disks s dk)) 6 s, Byte dev)]\<rparr>) \<and>
       drive_lba lo mid hi dev = lba \<and> bit dev 6 \<and> (bit dev 4 \<longleftrightarrow> dev_no (disks s dk) = 1)
   else select_sector dk lba n s = Inl (Panic ''lba <= max_lba'')"
  by (rule select_sector_regs)

text \<open>A channel at 0x5000 with a disk at 0x5030; nobody waits.\<close>

definition sample_ide :: istate where
  "sample_ide = list_init 0x5020 ((dstate.extend sample_boot
     \<lparr>ide_channels = (\<lambda>_. \<lparr>port_base = 0x1f0, irq_no = 0x2e, expecting_intr = 1\<rparr>),
      disks = (\<lambda>_. \<lparr>my_channel = 0x5000, dev_no = 1\<rparr>),
      partitions = (\<lambda>_. \<lparr>start_lba = 0, sec_cnt = 0, my_disk = 0, sb = 0, block_bitmap = \<lparr>bitmap_len = 0, bitmap_bits = 0\<rparr>,
                         inode_bitmap = \<lparr>bitmap_len = 0, bitmap_bits = 0\<rparr>\<rparr>),
      channels_at = 0x5000, channel_cnt = 1, partition_list = 0x6000, ext_lba_base = 0, p_no = 0, l_no = 0\<rparr>)
     \<lparr>semas := (\<lambda>_. 0)\<rparr>)"

lemma sample_ide_fields [simp]:
  "ide_channels sample_ide c = \<lparr>port_base = 0x1f0, irq_no = 0x2e, expecting_intr = 1\<rparr>"
  "disks sample_ide d = \<lparr>my_channel = 0x5000, dev_no = 1\<rparr>" "channels_at sample_ide = 0x5000" "semas sample_ide l = 0"
  "entries sample_ide = init_heap 0x5020 (entries sample_sched)" "threads sample_ide = threads sample_sched"
  "regs sample_ide = regs sample_sched" "ready_list sample_ide = 0x100" "idle_thread sample_ide = 0x20000"
  "locks sample_ide l = \<lparr>locked = 0, holder = NULL, number_of = 0\<rparr>"
  using sample_sched_fields(2,4)
  by (simp_all add: sample_ide_def list_init_eq dstate.defs sample_boot_def mstate.defs sample_memory_def ostate.defs
      sample_console_def sstate.defs sample_sync_def tstate.defs)

lemma sample_ide_running [simp]: "running_thread sample_ide = 0x10000"
  using sample_sched_fields(3) by (simp add: running_thread_def)

lemma sample_ide_holds: "holds 0x5020 sample_ide []"
  unfolding sample_ide_def by (rule holds_init)

lemma sample_ide_ready: "holds 0x100 sample_ide [0x3005c]"
proof -
  have "dlist (entries sample_sched) 0x100 [0x3005c]"
    using sample_sched_inv by (simp add: sched_inv_def ready_def sample_sched_fields general_tag_def holds_def)
  then have "dlist (entries sample_ide) 0x100 [0x3005c]"
    by (rule dlist_frame) (auto simp: init_heap_def nodes_def tailer_def)
  then show ?thesis by (simp add: holds_def)
qed

lemma sample_ide_inv: "sched_inv {0x10000, 0x20000, 0x30000} TASK_RUNNING sample_ide [0x30000]"
  by (rule sched_inv_links [OF sample_sched_inv]) (use sample_ide_ready in \<open>simp_all add: sample_sched_fields general_tag_def\<close>)

text \<open>C34. \<^verbatim>\<open>ide_read\<close> waits without polling: on a free channel it takes the channel's lock, sends the read
  command and blocks the caller on the channel's semaphore; the processor goes to the thread the scheduler picks,
  the channel expects an interrupt, and the caller still holds the lock. What the drive is sent, in this order and nothing
  else: the device, the number of sectors (256 at most, as a byte, in which 0 stands for 256), the address, and the command
  0x20, which reads sectors.\<close>

theorem ide_read_waits:
  fixes s :: "'a istate_scheme"
  assumes "sched_inv T TASK_RUNNING s q" "lba \<le> max_lba" "0 < secs"
    and "c = my_channel (disks s dk)"
    and "lock_ok (locks s (channel_lock c))" "locked (locks s (channel_lock c)) = 0" "running_thread s \<noteq> NULL"
    and "semas s (disk_done c) = 0" "holds (waiters (disk_done c)) s []"
      "slot (waiters (disk_done c)) (general_tag (running_thread s))"
      "set (nodes (waiters (disk_done c)) []) \<inter> set (nodes (ready_list s) (map general_tag q)) = {}"
  shows "\<exists>s'. ide_read error dk lba addr secs s = Inr (Some (Disk_Wait INTR_OFF INTR_OFF,
        \<lparr>xf_disk = dk, xf_lba = lba, xf_buf = addr, xf_cnt = secs, xf_done = 0\<rparr>), s') \<and>
    running_thread s' = fst (pick False (idle_thread s) (running_thread s) q) \<and>
    sched_inv T TASK_RUNNING s' (snd (pick False (idle_thread s) (running_thread s) q)) \<and>
    expecting_intr (ide_channels s' c) = 1 \<and>
    locks s' (channel_lock c) = \<lparr>locked = 1, holder = running_thread s, number_of = 1\<rparr> \<and>
    (\<exists>dev0 lo mid hi dev. port_writes s' = port_writes s @
         [(reg c 6 s, Byte dev0), (reg c 2 s, Byte (ucast (min secs 256))), (reg c 3 s, Byte lo), (reg c 4 s, Byte mid),
          (reg c 5 s, Byte hi), (reg c 6 s, Byte dev), (reg c 7 s, Byte 0x20)] \<and>
       (bit dev0 4 \<longleftrightarrow> dev_no (disks s dk) = 1) \<and>
       drive_lba lo mid hi dev = lba \<and> bit dev 6 \<and> (bit dev 4 \<longleftrightarrow> dev_no (disks s dk) = 1))"
  by (rule ide_read_waits_eq [OF assms])

theorem ide_read_waits_witness:
  "\<exists>w s'. ide_read 0x9000 0x5030 100 0xa000 1 sample_ide = Inr (Some w, s') \<and> running_thread s' = 0x30000 \<and>
     last (port_writes s') = (0x1f7, Byte 0x20)"
proof -
  have r: "reg 0x5000 7 sample_ide = 0x1f7" by (simp add: reg_def)
  obtain w s' ps where "ide_read 0x9000 0x5030 100 0xa000 1 sample_ide = Inr (Some w, s')" "running_thread s' = 0x30000"
    "port_writes s' = ps @ [(0x1f7, Byte 0x20)]"
    using ide_read_waits [OF sample_ide_inv, of 100 1 "0x5000" "0x5030" "0x9000" "0xa000"] sample_ide_holds
    by (auto simp: max_lba_def lock_ok_def disk_done_def waiters_def slot_def tailer_def general_tag_def nodes_def pick_def r)
  then show ?thesis by auto
qed

text \<open>C35. The disk interrupt lets the waiting thread go on, once per command: \<^verbatim>\<open>hd_intr_handler\<close> on a
  channel that expects an interrupt makes its first waiter the next thread to run, sets the semaphore, notes that no
  interrupt is expected any more, reads the status register once, which the drive takes as the answer, and returns to the
  interrupted thread with its interrupt flag. A second interrupt before the next command does nothing, and no more does one on
  any channel that expects none.\<close>

theorem hd_intr_handler_wakes:
  fixes s :: "'a istate_scheme"
  assumes "sched_inv T TASK_RUNNING s q" "p \<in> T" "p \<noteq> running_thread s" "p \<notin> set q"
    and "irq = 0x2e \<or> irq = 0x2f" "c = channel_at (irq - 0x2e) s" "irq_no (ide_channels s c) = irq"
      "expecting_intr (ide_channels s c) \<noteq> 0"
    and "semas s (disk_done c) = 0" "holds (waiters (disk_done c)) s (general_tag p # ws)"
      "set (nodes (waiters (disk_done c)) (general_tag p # ws)) \<inter> set (nodes (ready_list s) (map general_tag q)) = {}"
  shows "\<exists>s'. hd_intr_handler irq s = Inr s' \<and> sched_inv T TASK_RUNNING s' (p # q) \<and> semas s' (disk_done c) = 1 \<and>
    running_thread s' = running_thread s \<and> eflags s' = eflags s \<and>
    ide_channels s' = (ide_channels s)(c := (ide_channels s c)\<lparr>expecting_intr := 0\<rparr>) \<and>
    port_inputs s' = (port_inputs s)(reg c 7 s := (\<lambda>n. port_inputs s (reg c 7 s) (Suc n))) \<and> port_writes s' = port_writes s \<and>
    hd_intr_handler irq s' = Inr s' \<and>
    (\<forall>r. irq_no (ide_channels r (channel_at (irq - 0x2e) r)) = irq \<and>
       expecting_intr (ide_channels r (channel_at (irq - 0x2e) r)) = 0 \<longrightarrow> hd_intr_handler irq (r :: 'a istate_scheme) = Inr r)"
proof -
  have i: "hd_intr_handler irq r = Inr r"
    if "irq_no (ide_channels r (channel_at (irq - 0x2e) r)) = irq" "expecting_intr (ide_channels r (channel_at (irq - 0x2e) r)) = 0"
    for r :: "'a istate_scheme"
    by (rule hd_intr_handler_ignores [OF assms(5) that])
  obtain s' where s': "hd_intr_handler irq s = Inr s'" "sched_inv T TASK_RUNNING s' (p # q)" "semas s' (disk_done c) = 1"
    "running_thread s' = running_thread s" "eflags s' = eflags s"
    "ide_channels s' = (ide_channels s)(c := (ide_channels s c)\<lparr>expecting_intr := 0\<rparr>)" "channels_at s' = channels_at s"
    "port_inputs s' = (port_inputs s)(reg c 7 s := (\<lambda>n. port_inputs s (reg c 7 s) (Suc n)))" "port_writes s' = port_writes s"
    using hd_intr_handler_wakes_eq [OF assms] by blast
  have "channel_at (irq - 0x2e) s' = c" using s'(7) assms(6) by (simp add: channel_at_def)
  then have "hd_intr_handler irq s' = Inr s'" using assms(7) by (intro i) (simp_all add: s'(6))
  then show ?thesis using s' i by blast
qed

definition sample_ide_waiting :: istate where
  "sample_ide_waiting = list_append 0x5020 0x2005c sample_ide"

lemma sample_ide_waiting_fields [simp]:
  "ide_channels sample_ide_waiting c = \<lparr>port_base = 0x1f0, irq_no = 0x2e, expecting_intr = 1\<rparr>"
  "channels_at sample_ide_waiting = 0x5000" "semas sample_ide_waiting l = 0" "threads sample_ide_waiting = threads sample_sched"
  "regs sample_ide_waiting = regs sample_sched" "ready_list sample_ide_waiting = 0x100" "idle_thread sample_ide_waiting = 0x20000"
  by (simp_all add: sample_ide_waiting_def list_append_def list_insert_before_eq)

lemma sample_ide_waiting_lists: "holds 0x5020 sample_ide_waiting [0x2005c]" "holds 0x100 sample_ide_waiting [0x3005c]"
proof -
  have "holds 0x5020 sample_ide_waiting ([] @ [0x2005c])"
    unfolding sample_ide_waiting_def by (rule holds_append [OF sample_ide_holds]) (simp_all add: slot_def tailer_def)
  then show "holds 0x5020 sample_ide_waiting [0x2005c]" by simp
  show "holds 0x100 sample_ide_waiting [0x3005c]"
    unfolding sample_ide_waiting_def
    by (rule append_frame [OF sample_ide_holds sample_ide_ready]) (simp_all add: slot_def tailer_def nodes_def)
qed

theorem hd_intr_handler_wakes_witness:
  "\<exists>s'. hd_intr_handler 0x2e sample_ide_waiting = Inr s' \<and> expecting_intr (ide_channels s' 0x5000) = 0 \<and>
     sched_inv {0x10000, 0x20000, 0x30000} TASK_RUNNING s' [0x20000, 0x30000] \<and> hd_intr_handler 0x2e s' = Inr s'"
proof -
  note w = sample_ide_waiting_lists
  have inv: "sched_inv {0x10000, 0x20000, 0x30000} TASK_RUNNING sample_ide_waiting [0x30000]"
    by (intro sched_inv_links [OF sample_sched_inv]) (use w(2) in \<open>simp_all add: sample_sched_fields general_tag_def\<close>)
  have "running_thread sample_ide_waiting = 0x10000" using sample_sched_fields(3) by (simp add: running_thread_def)
  then show ?thesis
    using hd_intr_handler_wakes [OF inv, of "0x20000" "0x2e" "0x5000" "[]"] w
    by (auto simp: channel_at_def disk_done_def waiters_def general_tag_def nodes_def tailer_def reg_def)
qed

text \<open>C36. A read of up to 256 sectors completes with the drive's data: when the interrupt has come (the semaphore is 1)
  and the drive is ready, the resumed \<^verbatim>\<open>ide_read\<close> returns with the words of the data port stored
  in the buffer, low byte first, 256 words a sector, and nothing else written; the semaphore is down again and the channel's
  lock is free.\<close>

theorem ide_read_completes:
  fixes s :: "'a istate_scheme"
  assumes "xf_done x = 0" "0 < xf_cnt x" "xf_cnt x \<le> 256"
    and "c = my_channel (disks s (xf_disk x))"
    and "semas s (disk_done c) = 1"
    and "ucast (port_inputs s (reg c 7 s) 0) AND (0x80 :: u8) = 0" "ucast (port_inputs s (reg c 7 s) 0) AND (0x8 :: u8) \<noteq> 0"
    and "locks s (channel_lock c) = \<lparr>locked = 1, holder = running_thread s, number_of = 1\<rparr>" "running_thread s \<noteq> NULL"
  shows "\<exists>s'. ide_read_resume error (Disk_Wait old st) x s = Inr (None, s') \<and>
    mem s' = store_bytes (xf_buf x) (device_bytes (256 * unat (xf_cnt x)) (port_inputs s (reg c 0 s))) (mem s) \<and>
    semas s' (disk_done c) = 0 \<and> locks s' (channel_lock c) = \<lparr>locked = 0, holder = NULL, number_of = 0\<rparr>"
  by (rule ide_read_resume_eq [OF assms])

definition sample_ide_ready_state :: istate where
  "sample_ide_ready_state = sample_ide\<lparr>semas := (\<lambda>_. 1), port_inputs := (\<lambda>p n. if p = 0x1f7 then 0x58 else 0x4142),
     locks := (\<lambda>_. \<lparr>locked = 1, holder = 0x10000, number_of = 1\<rparr>)\<rparr>"

theorem ide_read_completes_witness:
  "\<exists>s'. ide_read_resume 0x9000 (Disk_Wait INTR_OFF INTR_OFF)
       \<lparr>xf_disk = 0x5030, xf_lba = 100, xf_buf = 0xa000, xf_cnt = 1, xf_done = 0\<rparr> sample_ide_ready_state = Inr (None, s') \<and>
     mem s' 0xa000 = 0x42"
proof -
  let ?s = sample_ide_ready_state and ?x = "\<lparr>xf_disk = 0x5030, xf_lba = 100, xf_buf = 0xa000, xf_cnt = 1, xf_done = 0\<rparr>"
  have run: "running_thread ?s = 0x10000" using sample_ide_running by (simp add: sample_ide_ready_state_def running_thread_def)
  have d: "disks ?s = disks sample_ide" "reg 0x5000 7 ?s = 0x1f7" by (simp_all add: sample_ide_ready_state_def reg_def)
  obtain s' where "ide_read_resume 0x9000 (Disk_Wait INTR_OFF INTR_OFF) ?x ?s = Inr (None, s')"
    "mem s' = store_bytes 0xa000 (device_bytes (256 * unat (1 :: u32)) (port_inputs ?s (reg 0x5000 0 ?s))) (mem ?s)"
    using ide_read_completes [of ?x "0x5000" ?s "0x9000" INTR_OFF INTR_OFF] run
    by (auto simp: d) (auto simp: sample_ide_ready_state_def)
  moreover have "store_bytes 0xa000 (device_bytes 256 f) m 0xa000 = ucast (f 0)" for f m
    by (simp add: store_bytes_def numeral_eq_Suc)
  moreover have "port_inputs ?s (reg 0x5000 0 ?s) 0 = 0x4142" by (simp add: sample_ide_ready_state_def reg_def)
  ultimately show ?thesis by auto
qed

text \<open>The text of \<^verbatim>\<open>"ide%d"\<close>.\<close>

definition ide_format :: "u8 list" where
  "ide_format = [0x69, 0x64, 0x65, 0x25, 0x64]"

lemma channel_named:
  assumes "cstring (mem s) (lit s ''ide%d'') ide_format" "span (lit s ''ide%d'') 6 \<inter> {a..<a + 8 - 1} = {}"
    and "a \<noteq> NULL" "unat a + 8 \<le> 2 ^ 32"
  shows "\<exists>m. name_part a ''ide%d'' [n] s = Inr (s\<lparr>mem := m\<rparr>)"
proof -
  let ?ds = "[Plain 0x69, Plain 0x64, Plain 0x65, Number_arg Signed no_spec (ucast n)]"
  have t: "concat (map text_of ?ds) = ide_format" by (simp add: ide_format_def conv_char_def)
  have "(ucast (ucast n :: u64) :: u32) = n" by (rule bit_word_eqI) (auto simp: bit_simps)
  then have sl: "concat (map slots_of ?ds) @ [] = [n]" by (simp add: no_spec_def)
  have "span (lit s ''ide%d'') (Suc (length ide_format)) \<inter> {a..<a + 8 - 1} = {}"
  proof -
    have "Suc (length ide_format) = 6" by (simp add: ide_format_def)
    then show ?thesis using assms(2) by (simp only:)
  qed
  moreover have "\<forall>d \<in> set ?ds. directive_ok (mem s) (- {a..<a + 8 - 1}) d" by simp
  ultimately obtain k m where "vsnprintf (lit s) a 8 (lit s ''ide%d'') [n] (mem s) = Some (Inr (k, m))"
    using vsnprintf_eq [of "mem s" "lit s ''ide%d''" ?ds a 8 "lit s" "[]", unfolded t sl] assms by auto
  then show ?thesis by (intro exI [of _ m]) (simp add: name_part_def snprintf_def)
qed

text \<open>With a second channel (three or four disks), \<^verbatim>\<open>ide_init\<close> loses the partitions found on the first
  one and never looks at the new disks: the list is initialised again in the loop over the channels, and
  \<^verbatim>\<open>dev_no\<close> is still 2, so the rest of the loop finds no device. The partition list ends up empty and the disks as
  they were.\<close>

theorem ide_init_loses_partitions:
  fixes s :: "'a istate_scheme"
  assumes "channel_cnt s = 2" "cstring (mem s) (lit s ''ide%d'') ide_format"
    and "span (lit s ''ide%d'') 6 \<inter> {channel_at 1 s..<channel_at 1 s + 8 - 1} = {}" "channel_at 1 s \<noteq> NULL"
      "unat (channel_at 1 s) + 8 \<le> 2 ^ 32"
    and "set (nodes (partition_list s) []) \<inter> set (nodes (waiters (disk_done (channel_at 1 s))) []) = {}"
  shows "\<exists>s'. init_channels env id_info addr error 1 2 s = Some (Inr s') \<and> holds (partition_list s') s' [] \<and>
    disks s' = disks s \<and> partitions s' = partitions s"
proof -
  let ?c = "channel_at 1 s"
  obtain m where m: "name_part ?c ''ide%d'' [1] s = Inr (s\<lparr>mem := m\<rparr>)" using channel_named [OF assms(2-5)] by blast
  define t where "t = s\<lparr>mem := m\<rparr>"
  define u where "u = upd_channel ?c (\<lambda>c. c\<lparr>expecting_intr := 0\<rparr>) (list_init (partition_list s)
    (upd_channel ?c (\<lambda>c. c\<lparr>port_base := 0x170, irq_no := 0x20 + 15\<rparr>) t))"
  define s' where "s' = sema_init (disk_done ?c) 0 (lock_init (channel_lock ?c) u)"
  have i: "init_channel 1 s = Inr s'"
    using m by (simp add: init_channel_def Let_def s'_def u_def t_def upd_channel_def channel_at_def)
  have f: "channel_cnt s' = 2" "disks s' = disks s" "partitions s' = partitions s" "partition_list s' = partition_list s"
    "entries s' = init_heap (waiters (disk_done ?c)) (entries u)"
    using assms(1) by (simp_all add: s'_def sema_init_def list_init_eq set_sema_def lock_init_def spinlock_init_def upd_lock_def
        u_def upd_channel_def t_def)
  have "holds (partition_list s) u []"
    using holds_init [of "partition_list s" "upd_channel ?c (\<lambda>c. c\<lparr>port_base := 0x170, irq_no := 0x20 + 15\<rparr>) t"]
    by (simp add: u_def upd_channel_def holds_def list_init_eq)
  then have "dlist (entries s') (partition_list s) []"
    unfolding f(5) holds_def by (rule dlist_frame) (use assms(6) in \<open>auto simp: init_heap_def nodes_def\<close>)
  then have "holds (partition_list s') s' []" by (simp add: holds_def f)
  moreover have "init_channels env id_info addr error 1 2 s = Some (Inr s')"
    using assms(1) by (subst init_channels.simps) (simp add: i init_devices.simps, subst init_channels.simps, simp add: f)
  ultimately show ?thesis using f by auto
qed

definition sample_two_channels :: istate where
  "sample_two_channels = sample_ide\<lparr>channel_cnt := 2, mem := placed 0x7000 (ide_format @ [0]), lit := (\<lambda>_. 0x7000)\<rparr>"

theorem ide_init_loses_partitions_witness:
  "\<exists>s'. init_channels Inr 0xa000 0xa200 0xa300 1 2 sample_two_channels = Some (Inr s') \<and> holds (partition_list s') s' []"
proof -
  have "span 0x7000 6 \<inter> {0x5650..<0x5650 + 8 - 1} = ({} :: u32 set)"
    by (auto simp: span_Suc word_le_nat_alt word_less_nat_alt)
  moreover have "cstring (placed 0x7000 (ide_format @ [0])) 0x7000 ide_format" by (simp add: ide_format_def placed_def)
  moreover have "channel_at 1 sample_two_channels = 0x5650" "lit sample_two_channels l = 0x7000" "channel_cnt sample_two_channels = 2"
    "mem sample_two_channels = placed 0x7000 (ide_format @ [0])" "partition_list sample_two_channels = 0x6000" for l
    by (simp_all add: sample_two_channels_def channel_at_def) (simp add: sample_ide_def list_init_eq dstate.defs)
  ultimately show ?thesis
    using ide_init_loses_partitions [of sample_two_channels Inr "0xa000" "0xa200" "0xa300"]
    by (auto simp: nodes_def tailer_def waiters_def disk_done_def)
qed

end
