(* ===== verification/Files.thy ===== *)
theory Files
  imports Ide
begin

text \<open>
  \<^verbatim>\<open>kernel/fs.c\<close>, \<^verbatim>\<open>kernel/inode.c\<close> and \<^verbatim>\<open>kernel/file.c\<close>: the layout of a file system
  on a partition, inodes and open files. Superblocks, inodes and directory entries are bytes of memory, at the
  offsets of their structures; \<open>env\<close> stands for what happens while the disk works, as in the theory of the driver. The
  last two files are not part of the build; a few names in them (\<^verbatim>\<open>elem2entry\<close>, \<^verbatim>\<open>write_deny\<close>) are
  read as what they must mean.
\<close>

section \<open>State\<close>

record file_struct =
  fd_pos :: u32
  fd_flag :: u32
  fd_inode :: u32

record fstate = istate +
  cur_part :: u32
  file_table :: "file_struct list"

text \<open>\<^verbatim>\<open>kprintf_lock\<close> of a format in the program text.\<close>

definition report :: "string \<Rightarrow> u32 list \<Rightarrow> 'a ostate_scheme \<Rightarrow> 'a ostate_scheme res" where
  "report fmt args s = bind_res (kprintf_lock (lit s fmt) args s) (\<lambda>(s, _). Inr s)"

definition tab :: "string \<Rightarrow> string" where
  "tab msg = CHR 0x09 # line msg"

definition set_bytes :: "u32 \<Rightarrow> u32 \<Rightarrow> u32 \<Rightarrow> 'a vstate_scheme \<Rightarrow> 'a vstate_scheme" where
  "set_bytes a c n s = s\<lparr>mem := snd (memset a c n (mem s))\<rparr>"

definition copy_bytes :: "u32 \<Rightarrow> u32 \<Rightarrow> u32 \<Rightarrow> 'a vstate_scheme \<Rightarrow> 'a vstate_scheme" where
  "copy_bytes dst src n s = s\<lparr>mem := snd (memcpy dst src n (mem s))\<rparr>"

definition load32 :: "u32 \<Rightarrow> 'a vstate_scheme \<Rightarrow> u32" where
  "load32 a s = read32 (mem s) a"

section \<open>Formatting (fs.c)\<close>

text \<open>The superblock at the start of its sector.\<close>

record super_block =
  magic :: u32
  all_sects :: u32
  part_lba_base :: u32
  block_bitmap_lba :: u32
  block_bitmap_sects :: u32
  inode_bitmap_lba :: u32
  inode_bitmap_sects :: u32
  inode_table_lba :: u32
  inode_table_sects :: u32
  data_start_lba :: u32
  root_inode_no :: u32
  dir_entry_size :: u32

text \<open>\<^verbatim>\<open>sizeof(struct inode)\<close> is 76, \<^verbatim>\<open>sizeof(struct dir_entry)\<close> 24.\<close>

definition table_sects :: u32 where
  "table_sects = DIV_ROUND_UP (76 * 4096) 512"

definition used_sects :: u32 where
  "used_sects = 1 + 1 + table_sects + table_sects"

definition bitmap_bit_len :: "u32 \<Rightarrow> u32" where
  "bitmap_bit_len free_sects = free_sects - DIV_ROUND_UP free_sects 4096"

definition layout :: "u32 \<Rightarrow> u32 \<Rightarrow> super_block" where
  "layout free_sects base =
     (let bsects = DIV_ROUND_UP (bitmap_bit_len free_sects) 4096;
          isects = DIV_ROUND_UP 4096 4096
      in \<lparr>magic = 0x19590318, all_sects = 4096, part_lba_base = base,
          block_bitmap_lba = base + 2, block_bitmap_sects = bsects,
          inode_bitmap_lba = base + 2 + bsects, inode_bitmap_sects = isects,
          inode_table_lba = base + 2 + bsects + isects, inode_table_sects = table_sects,
          data_start_lba = base + 2 + bsects + isects + table_sects, root_inode_no = 0, dir_entry_size = 24\<rparr>)"

text \<open>The fields in memory; \<^verbatim>\<open>inode_cnt\<close>, at offset 8, is not set.\<close>

definition store_super :: "u32 \<Rightarrow> super_block \<Rightarrow> 'a vstate_scheme \<Rightarrow> 'a vstate_scheme" where
  "store_super a d s =
     fold (\<lambda>(off, v). store32 (a + off) v)
       [(0, magic d), (4, all_sects d), (12, part_lba_base d), (16, block_bitmap_lba d), (20, block_bitmap_sects d),
        (24, inode_bitmap_lba d), (28, inode_bitmap_sects d), (32, inode_table_lba d), (36, inode_table_sects d),
        (40, data_start_lba d), (44, root_inode_no d), (48, dir_entry_size d)] s"

definition format_report :: "u32 \<Rightarrow> u32 \<Rightarrow> super_block \<Rightarrow> 'a istate_scheme \<Rightarrow> 'a istate_scheme res" where
  "format_report part a d s =
     bind_res (report (line ''%s info:'') [part_name part] s) (\<lambda>s.
     bind_res (report (tab ''magic: 0x%x'') [magic d] s) (\<lambda>s.
     bind_res (report (tab ''part_lba_base: 0x%x'') [part_lba_base d] s) (\<lambda>s.
     bind_res (report (tab ''all_sectors: 0x%x'') [all_sects d] s) (\<lambda>s.
     bind_res (report (tab ''inode_cnt: 0x%x'') [load32 (a + 8) s] s) (\<lambda>s.
     bind_res (report (tab ''block_bitmap_lba: 0x%x'') [block_bitmap_lba d] s) (\<lambda>s.
     bind_res (report (tab ''block_bitmap_sectors: 0x%x'') [block_bitmap_sects d] s) (\<lambda>s.
     bind_res (report (tab ''inode_bitmap_lba: 0x%x'') [inode_bitmap_lba d] s) (\<lambda>s.
     bind_res (report (line ''  inode_bitmap_sectors: 0x%x'') [inode_bitmap_sects d] s) (\<lambda>s.
     bind_res (report (tab ''inode_table_lba: 0x%x'') [inode_table_lba d] s) (\<lambda>s.
     bind_res (report (tab ''inode_table_sectors: 0x%x'') [inode_table_sects d] s) (\<lambda>s.
       report (tab ''data_start_lba: 0x%x'') [data_start_lba d] s)))))))))))"

text \<open>The block bitmap: the first bit taken, the bits behind the last block taken.\<close>

primrec clear_low :: "nat \<Rightarrow> u32 \<Rightarrow> u8 \<Rightarrow> bmem \<Rightarrow> bmem" where
  "clear_low 0 a bit_idx m = m"
| "clear_low (Suc n) a bit_idx m =
     clear_low n a (bit_idx + 1) (m(a := m a AND NOT (push_bit (unat bit_idx) 1)))"

definition fill_block_bitmap :: "u32 \<Rightarrow> u32 \<Rightarrow> bmem \<Rightarrow> bmem" where
  "fill_block_bitmap addr bit_len m =
     (let m = m(addr := m addr OR 0x01);
          last_byte = bit_len div 8;
          last_bit = ucast (bit_len mod 8) :: u8;
          last_size = 512 - last_byte mod 512;
          m = snd (memset (addr + last_byte) 0xff last_size m)
      in clear_low (unat last_bit + 1) (addr + last_byte) 0 m)"

text \<open>The root directory's inode, and its two entries.\<close>

definition root_inode :: "u32 \<Rightarrow> super_block \<Rightarrow> 'a vstate_scheme \<Rightarrow> 'a vstate_scheme" where
  "root_inode addr d s = store32 (addr + 16) (data_start_lba d) (store32 addr 0 (store32 (addr + 4) (dir_entry_size d * 2) s))"

definition dir_entry :: "u32 \<Rightarrow> u32 \<Rightarrow> u32 \<Rightarrow> 'a vstate_scheme \<Rightarrow> 'a vstate_scheme" where
  "dir_entry a name n s = store32 (a + 20) 2 (store32 (a + 16) 0 (copy_bytes a name n s))"

definition partition_format :: "('a istate_scheme) env \<Rightarrow> u32 \<Rightarrow> u32 \<Rightarrow> u32 \<Rightarrow> u32 \<Rightarrow> 'a istate_scheme \<Rightarrow> 'a istate_scheme res" where
  "partition_format env error sb_at dk part s =
     (let s = upd_partition part (\<lambda>p. p\<lparr>sec_cnt := used_sects\<rparr>) s;
          base = start_lba (partitions s part);
          d = layout used_sects base;
          s = store_super sb_at d s
      in bind_res (format_report part sb_at d s) (\<lambda>s.
         bind_res (await_write env error dk (base + 1) sb_at 1 s) (\<lambda>s.
         bind_res (report (tab ''super_block_lba: 0x%x'') [base + 1] s) (\<lambda>s.
         let buf_sects = (if inode_bitmap_sects d \<le> block_bitmap_sects d then block_bitmap_sects d else inode_bitmap_sects d);
             buf_size = (if inode_table_sects d \<le> buf_sects then buf_sects else inode_table_sects d) * 512
         in bind_res (sys_malloc buf_size s) (\<lambda>(addr, s).
            let s = s\<lparr>mem := fill_block_bitmap addr (bitmap_bit_len used_sects) (mem s)\<rparr>
            in bind_res (await_write env error dk (block_bitmap_lba d) addr (block_bitmap_sects d) s) (\<lambda>s.
            let s = set_bytes addr 0 buf_size s;
                s = s\<lparr>mem := (mem s)(addr := mem s addr OR 0x01)\<rparr>
            in bind_res (await_write env error dk (block_bitmap_lba d) addr (inode_bitmap_sects d) s) (\<lambda>s.
            let s = root_inode addr d (set_bytes addr 0 buf_size s)
            in bind_res (await_write env error dk (inode_table_lba d) addr (inode_table_sects d) s) (\<lambda>s.
            let s = set_bytes addr 0 buf_size s;
                s = dir_entry addr (lit s ''.'') 1 s;
                s = dir_entry (addr + 24) (lit s ''..'') 2 s
            in bind_res (await_write env error dk (data_start_lba d) addr 1 s) (\<lambda>s.
               bind_res (report (tab ''root_dir_lba: 0x%x'') [data_start_lba d] s) (\<lambda>s.
               bind_res (report (line ''%s format done'') [part_name part] s) (sys_free addr)))))))))))"

section \<open>Mounting (fs.c)\<close>

definition malloc_checked :: "u32 \<Rightarrow> 'a istate_scheme \<Rightarrow> (u32 \<times> 'a istate_scheme) res" where
  "malloc_checked n s =
     bind_res (sys_malloc n s) (\<lambda>(p, s). if p = NULL then Inl (Panic ''alloc memory failed'') else Inr (p, s))"

definition mount_partition :: "('a fstate_scheme) env \<Rightarrow> u32 \<Rightarrow> u32 \<Rightarrow> u32 \<Rightarrow> 'a fstate_scheme \<Rightarrow> 'a fstate_scheme res" where
  "mount_partition env error elem arg s =
     (let part = elem - 12
      in bind_res (of_loop (strcmp (mem s) (part_name part) arg)) (\<lambda>c.
         if c \<noteq> 0 then Inr s
         else
           let s = s\<lparr>cur_part := part\<rparr>; dk = my_disk (partitions s part)
           in bind_res (sys_malloc 512 s) (\<lambda>(sb_buf, s).
              bind_res (malloc_checked 512 (s)) (\<lambda>(p, s).
              let s = upd_partition part (\<lambda>q. q\<lparr>sb := p\<rparr>) s;
                  s = set_bytes sb_buf 0 512 s
              in bind_res (await_read env error dk (start_lba (partitions s part) + 1) sb_buf 1 s) (\<lambda>s.
              let s = copy_bytes p sb_buf 512 s
              in bind_res (malloc_checked (load32 (sb_buf + 20) s * 512) s) (\<lambda>(bits, s).
              let s = upd_partition part (\<lambda>q. q\<lparr>block_bitmap := \<lparr>bitmap_len = load32 (sb_buf + 20) s * 512, bitmap_bits = bits\<rparr>\<rparr>) s
              in bind_res (await_read env error dk (load32 (sb_buf + 16) s) bits (load32 (sb_buf + 20) s) s) (\<lambda>s.
                 bind_res (malloc_checked (load32 (sb_buf + 28) s * 512) s) (\<lambda>(bits, s).
              let s = upd_partition part (\<lambda>q. q\<lparr>inode_bitmap := \<lparr>bitmap_len = load32 (sb_buf + 28) s * 512, bitmap_bits = bits\<rparr>\<rparr>) s
              in bind_res (await_read env error dk (load32 (sb_buf + 24) s) bits (load32 (sb_buf + 28) s) s) (\<lambda>s.
              let s = list_init (open_inodes part) s
              in bind_res (kprintf (lit s (line ''mount %s done'')) [part_name part] s) (\<lambda>(s, _). Inr s)))))))))) "

text \<open>\<^verbatim>\<open>filesys_init\<close>: the loop over the partitions of a disk, with \<^verbatim>\<open>part_idx\<close> going on
  from disk to disk, the loop over the devices, of which the first is left out, and the loop over the channels.\<close>

partial_function (option) format_parts ::
    "('a fstate_scheme) env \<Rightarrow> u32 \<Rightarrow> u32 \<Rightarrow> u32 \<Rightarrow> u32 \<Rightarrow> u32 \<Rightarrow> u8 \<Rightarrow> 'a fstate_scheme \<Rightarrow> (u8 \<times> 'a fstate_scheme) res option" where
  "format_parts env error sb_at sb_buf dk part part_idx s =
     (if part_idx < 12 then
        let part = (if part_idx = 4 then logic_part dk 0 else part)
        in case (if sec_cnt (partitions s part) \<noteq> 0 then
                   bind_res (await_read env error dk (start_lba (partitions s part) + 1) sb_buf 1 (set_bytes sb_buf 0 512 s)) (\<lambda>s.
                   bind_res (report (line ''formating %s's partition %s......'') [dk, part_name part] s) (\<lambda>s.
                     partition_format env error sb_at dk part s))
                 else Inr s) of
             Inl e \<Rightarrow> Some (Inl e)
           | Inr s \<Rightarrow> format_parts env error sb_at sb_buf dk (part + 64) (part_idx + 1) s
      else Some (Inr (part_idx, s)))"

partial_function (option) format_devices ::
    "('a fstate_scheme) env \<Rightarrow> u32 \<Rightarrow> u32 \<Rightarrow> u32 \<Rightarrow> u32 \<Rightarrow> u8 \<Rightarrow> u8 \<Rightarrow> 'a fstate_scheme \<Rightarrow> (u8 \<times> 'a fstate_scheme) res option" where
  "format_devices env error sb_at sb_buf channel dev part_idx s =
     (if dev < 2 then
        if dev = 0 then format_devices env error sb_at sb_buf channel (dev + 1) part_idx s
        else
          let dk = device_at channel dev
          in Option.bind (format_parts env error sb_at sb_buf dk (prim_part dk 0) part_idx s) (\<lambda>r.
               case r of
                 Inl e \<Rightarrow> Some (Inl e)
               | Inr (part_idx, s) \<Rightarrow> format_devices env error sb_at sb_buf channel (dev + 1) part_idx s)
      else Some (Inr (part_idx, s)))"

partial_function (option) format_channels ::
    "('a fstate_scheme) env \<Rightarrow> u32 \<Rightarrow> u32 \<Rightarrow> u32 \<Rightarrow> u8 \<Rightarrow> u8 \<Rightarrow> 'a fstate_scheme \<Rightarrow> 'a fstate_scheme res option" where
  "format_channels env error sb_at sb_buf channel_no part_idx s =
     (if channel_no < channel_cnt s then
        Option.bind (format_devices env error sb_at sb_buf (channel_at channel_no s) 0 part_idx s) (\<lambda>r.
          case r of
            Inl e \<Rightarrow> Some (Inl e)
          | Inr (part_idx, s) \<Rightarrow> format_channels env error sb_at sb_buf (channel_no + 1) part_idx s)
      else Some (Inr s))"

text \<open>\<open>name_at\<close> is the local array \<^verbatim>\<open>default_part\<close>.\<close>

definition filesys_init :: "('a fstate_scheme) env \<Rightarrow> u32 \<Rightarrow> u32 \<Rightarrow> u32 \<Rightarrow> 'a fstate_scheme \<Rightarrow> 'a fstate_scheme res" where
  "filesys_init env error sb_at name_at s =
     bind_res (malloc_checked 512 s) (\<lambda>(sb_buf, s).
     bind_res (report (line ''searching filesystem...'') [] s) (\<lambda>s.
     bind_res (of_loop (format_channels env error sb_at sb_buf 0 0 s)) (\<lambda>r.
     bind_res r (\<lambda>s.
     bind_res (sys_free sb_buf s) (\<lambda>s.
     let s = s\<lparr>mem := store_bytes name_at (map of_char ''sdb1'' @ replicate 4 0) (mem s)\<rparr>
     in bind_res (of_loop (list_traversal (partition_list s) (mount_partition env error) name_at s)) (\<lambda>r. r))))))"

section \<open>inode.c\<close>

text \<open>\<^verbatim>\<open>struct inode\<close>: \<^verbatim>\<open>i_no\<close>, \<^verbatim>\<open>i_size\<close>,
  \<^verbatim>\<open>i_open_cnts\<close>, the denial of writing, 13 sectors, and \<^verbatim>\<open>inode_tag\<close> at offset 68.\<close>

definition inode_tag :: "u32 \<Rightarrow> u32" where "inode_tag i = i + 68"
definition i_no :: "u32 \<Rightarrow> 'a vstate_scheme \<Rightarrow> u32" where "i_no i s = load32 i s"
definition i_open_cnts :: "u32 \<Rightarrow> 'a vstate_scheme \<Rightarrow> u32" where "i_open_cnts i s = load32 (i + 8) s"

definition sb_field :: "u32 \<Rightarrow> u32 \<Rightarrow> 'a istate_scheme \<Rightarrow> u32" where
  "sb_field part off s = load32 (sb (partitions s part) + off) s"

record inode_position =
  two_sec :: bool
  sec_lba :: u32
  off_size :: u32

definition inode_locate :: "u32 \<Rightarrow> u32 \<Rightarrow> 'a istate_scheme \<Rightarrow> inode_position res" where
  "inode_locate part inode_no s =
     assert_res ''inode_no < 4096'' (inode_no < 4096)
       (let table_lba = sb_field part 32 s;
            inode_size = 76;
            off = inode_no * inode_size;
            off_sec = off div 512;
            off_in_sec = off mod 512;
            left_in_sec = 512 - off_in_sec
        in Inr \<lparr>two_sec = left_in_sec < inode_size, sec_lba = table_lba + off_sec, off_size = off_in_sec\<rparr>)"

text \<open>The bytes written for an inode: the open count, the denial of writing and the links are cleared in the copy, which is
  not in the heap of entries. The write of two sectors lacks its last argument; \<open>junk\<close> is what the callee finds there.\<close>

definition pure_inode :: "u32 \<Rightarrow> u32 \<Rightarrow> 'a vstate_scheme \<Rightarrow> 'a vstate_scheme" where
  "pure_inode dst inode s =
     store32 (dst + 72) 0 (store32 (dst + 68) 0 (store32 (dst + 12) 0 (store32 (dst + 8) 0 (copy_bytes dst inode 76 s))))"

definition inode_sync :: "('a istate_scheme) env \<Rightarrow> u32 \<Rightarrow> u32 \<Rightarrow> u32 \<Rightarrow> u32 \<Rightarrow> u32 \<Rightarrow> u32 \<Rightarrow> 'a istate_scheme \<Rightarrow> 'a istate_scheme res" where
  "inode_sync env error junk pure part inode inode_buf s =
     (let inode_no = ucast (i_no inode s) :: u8
      in bind_res (inode_locate part (ucast inode_no) s) (\<lambda>pos.
         assert_res ''inode_pos.sec_lba <= (part->start_lba + part->sec_cnt)''
           (sec_lba pos \<le> start_lba (partitions s part) + sec_cnt (partitions s part))
           (let s = pure_inode pure inode s; dk = my_disk (partitions s part)
            in if two_sec pos then
                 bind_res (await_read env error dk (sec_lba pos) inode_buf 2 s) (\<lambda>s.
                   let s = copy_bytes (inode_buf + off_size pos) pure 76 s
                   in await_write env error dk (sec_lba pos) (inode_buf + 2) junk s)
               else
                 bind_res (await_read env error dk (sec_lba pos) inode_buf 1 s) (\<lambda>s.
                   let s = copy_bytes (inode_buf + off_size pos) pure 76 s
                   in await_write env error dk (sec_lba pos) inode_buf 1 s))))"

text \<open>The search in the list of open inodes: \<^verbatim>\<open>elem\<close> is never advanced.\<close>

partial_function (option) find_open :: "u32 \<Rightarrow> u32 \<Rightarrow> u32 \<Rightarrow> 'a vstate_scheme \<Rightarrow> u32 option option" where
  "find_open fin inode_no elem s =
     (if elem \<noteq> fin then
        if i_no (elem - 68) s = inode_no then Some (Some (elem - 68)) else find_open fin inode_no elem s
      else Some None)"

definition kernel_malloc :: "u32 \<Rightarrow> 'a istate_scheme \<Rightarrow> (u32 \<times> 'a istate_scheme) res" where
  "kernel_malloc n s =
     (let cur = running_thread s;
          cur_pagedir_bak = pgdir (threads s cur);
          s = upd_thread cur (\<lambda>t. t\<lparr>pgdir := NULL\<rparr>) s
      in bind_res (sys_malloc n s) (\<lambda>(p, s). Inr (p, upd_thread cur (\<lambda>t. t\<lparr>pgdir := cur_pagedir_bak\<rparr>) s)))"

text \<open>Copying an inode copies its links too.\<close>

definition copy_inode :: "u32 \<Rightarrow> u32 \<Rightarrow> 'a vstate_scheme \<Rightarrow> 'a vstate_scheme" where
  "copy_inode dst src s =
     set_next (inode_tag dst) (load32 (src + 72) s) (set_prev (inode_tag dst) (load32 (src + 68) s) (copy_bytes dst src 76 s))"

definition inode_open :: "('a istate_scheme) env \<Rightarrow> u32 \<Rightarrow> u32 \<Rightarrow> u32 \<Rightarrow> 'a istate_scheme \<Rightarrow> (u32 \<times> 'a istate_scheme) res" where
  "inode_open env error part inode_no s =
     (let plist = open_inodes part
      in bind_res (of_loop (find_open (tailer plist) inode_no (le_next (entries s plist)) s)) (\<lambda>found.
         case found of
           Some i \<Rightarrow> Inr (i, store32 (i + 8) (i_open_cnts i s + 1) s)
         | None \<Rightarrow>
             bind_res (inode_locate part inode_no s) (\<lambda>pos.
             bind_res (kernel_malloc 76 s) (\<lambda>(i, s).
             let sects = (if two_sec pos then 2 else 1)
             in bind_res (sys_malloc (sects * 512) s) (\<lambda>(inode_buf, s).
                bind_res (await_read env error (my_disk (partitions s part)) (sec_lba pos) inode_buf sects s) (\<lambda>s.
                let s = copy_inode i (inode_buf + off_size pos) s;
                    s = list_push plist (inode_tag i) s;
                    s = store32 (i + 8) 1 s
                in bind_res (sys_free inode_buf s) (\<lambda>s. Inr (i, s))))))))"

definition inode_close :: "u32 \<Rightarrow> 'a istate_scheme \<Rightarrow> 'a istate_scheme res" where
  "inode_close inode s =
     (let (old_status, s) = intr_disable s;
          s = store32 (inode + 8) (i_open_cnts inode s - 1) s
      in bind_res
           (if i_open_cnts inode s = 0 then
              let s = list_remove (inode_tag inode) s;
                  cur = running_thread s;
                  cur_pagedir_bak = pgdir (threads s cur);
                  s = upd_thread cur (\<lambda>t. t\<lparr>pgdir := NULL\<rparr>) s
              in bind_res (sys_free inode s) (\<lambda>s. Inr (upd_thread cur (\<lambda>t. t\<lparr>pgdir := cur_pagedir_bak\<rparr>) s))
            else Inr s)
           (\<lambda>s. Inr (snd (set_intr_status old_status s))))"

definition inode_init :: "u32 \<Rightarrow> u32 \<Rightarrow> 'a vstate_scheme \<Rightarrow> 'a vstate_scheme" where
  "inode_init inode_no i s =
     (let s = store32 (i + 12) 0 (store32 (i + 8) 0 (store32 (i + 4) 0 (store32 i inode_no s)))
      in fold (\<lambda>sec_idx. store32 (i + 16 + 4 * of_nat sec_idx) 0) [0..<13] s)"

section \<open>file.c\<close>

text \<open>The slots from 3 on.\<close>

definition get_free_slot_in_global :: "'a fstate_scheme \<Rightarrow> (u32 \<times> 'a fstate_scheme) res" where
  "get_free_slot_in_global s =
     (case List.find (\<lambda>i. fd_inode (file_table s ! i) = NULL) [3..<32] of
        Some i \<Rightarrow> Inr (of_nat i, s)
      | None \<Rightarrow> bind_res (say (line ''exceed max open files'') s) (\<lambda>s. Inr (- 1, s)))"

text \<open>The statement that should advance \<^verbatim>\<open>local_fd_idx\<close> has no effect.\<close>

partial_function (option) find_fd :: "u32 list \<Rightarrow> u32 \<Rightarrow> u32 option" where
  "find_fd table idx =
     (if idx < 8 then (if table ! unat idx = - 1 then Some idx else find_fd table idx) else Some idx)"

definition pcb_fd_install :: "u32 \<Rightarrow> 'a fstate_scheme \<Rightarrow> (u32 \<times> 'a fstate_scheme) res" where
  "pcb_fd_install global_fd_idx s =
     (let cur = running_thread s
      in bind_res (of_loop (find_fd (fd_table (threads s cur)) 3)) (\<lambda>idx.
         let s = (if idx < 8 then upd_thread cur (\<lambda>t. t\<lparr>fd_table := (fd_table t)[unat idx := global_fd_idx]\<rparr>) s else s)
         in if idx = 8 then bind_res (say (line ''exceed max open files per proc'') s) (\<lambda>s. Inr (- 1, s))
            else Inr (idx, s)))"

definition inode_bitmap_alloc :: "u32 \<Rightarrow> 'a istate_scheme \<Rightarrow> (u32 \<times> 'a istate_scheme) res" where
  "inode_bitmap_alloc part s =
     (let btmp = inode_bitmap (partitions s part)
      in bind_res (bitmap_scan (mem s) btmp 1) (\<lambda>bit_idx.
         if bit_idx = - 1 then Inr (- 1, s)
         else bind_res (on_mem (bitmap_set btmp bit_idx 1) s) (\<lambda>s. Inr (bit_idx, s))))"

definition block_bitmap_alloc :: "u32 \<Rightarrow> 'a istate_scheme \<Rightarrow> (u32 \<times> 'a istate_scheme) res" where
  "block_bitmap_alloc part s =
     (let btmp = block_bitmap (partitions s part)
      in bind_res (bitmap_scan (mem s) btmp 1) (\<lambda>bit_idx.
         if bit_idx = - 1 then Inr (- 1, s)
         else bind_res (on_mem (bitmap_set btmp bit_idx 1) s) (\<lambda>s. Inr (sb_field part 40 s + bit_idx, s))))"

text \<open>\<^verbatim>\<open>INODE_BITMAP\<close> is 0, \<^verbatim>\<open>BLOCK_BITMAP\<close> 1; for any other value the sector is not
  initialised, which is undefined in C and a \<open>Fault\<close> here.\<close>

definition bitmap_sync :: "('a istate_scheme) env \<Rightarrow> u32 \<Rightarrow> u32 \<Rightarrow> u32 \<Rightarrow> u8 \<Rightarrow> 'a istate_scheme \<Rightarrow> 'a istate_scheme res" where
  "bitmap_sync env error part bit_idx btmp s =
     (let off_sec = bit_idx div 4096;
          off = off_sec * 512;
          p = partitions s part
      in if btmp = 0 then
           await_write env error (my_disk p) (sb_field part 24 s + off_sec) (bitmap_bits (inode_bitmap p) + off) 1 s
         else if btmp = 1 then
           await_write env error (my_disk p) (sb_field part 16 s + off_sec) (bitmap_bits (block_bitmap p) + off) 1 s
         else Inl Fault)"

section \<open>The layout\<close>

lemma format_sizes:
  "table_sects = 608" "used_sects = 1218" "bitmap_bit_len used_sects = 1217" "bitmap_bit_len 1218 = 1217"
  by (simp_all add: table_sects_def used_sects_def bitmap_bit_len_def DIV_ROUND_UP_def)

lemma layout_eq:
  "layout used_sects base =
     \<lparr>magic = 0x19590318, all_sects = 4096, part_lba_base = base, block_bitmap_lba = base + 2, block_bitmap_sects = 1,
      inode_bitmap_lba = base + 3, inode_bitmap_sects = 1, inode_table_lba = base + 4, inode_table_sects = 608,
      data_start_lba = base + 612, root_inode_no = 0, dir_entry_size = 24\<rparr>"
  unfolding layout_def format_sizes by (simp add: DIV_ROUND_UP_def Let_def)

text \<open>The byte of the block bitmap at \<open>i\<close>, over a cleared buffer.\<close>

lemma clear_low_2: "clear_low 2 a 0 m = m(a := m a AND 0xfc)"
proof -
  have "(x AND NOT 1) AND NOT 2 = x AND 0xfc" for x :: u8
  proof -
    have "NOT 1 AND NOT 2 = (0xfc :: u8)" by simp
    then show ?thesis by (simp only: and.assoc)
  qed
  then show ?thesis by (simp add: numeral_2_eq_2)
qed

lemma block_bitmap_byte:
  assumes "\<And>j. j < 512 \<Longrightarrow> m (a + of_nat j) = 0" "i < 512"
  shows "fill_block_bitmap a 1217 m (a + of_nat i) = (if i = 0 then 1 else if i < 152 then 0 else if i = 152 then 0xfc else 0xff)"
proof -
  have n: "unat (of_nat k :: u32) = k" if "k < 512" for k using that by (simp add: unat_of_nat)
  have ne: "of_nat i \<noteq> (of_nat j :: u32)" if "i \<noteq> j" "j < 512" for j
    using n [OF assms(2)] n [OF that(2)] that(1) by metis
  have off: "unat (of_nat i - 152 :: u32) = i - 152" if "152 \<le> i"
    using that assms(2) by (subst unat_sub) (simp_all add: word_le_nat_alt n)
  have below: "\<not> unat (of_nat i - 152 :: u32) < 360" if "i < 152"
  proof
    assume k: "unat (of_nat i - 152 :: u32) < 360"
    have "(of_nat i :: u32) = of_nat (unat (of_nat i - 152 :: u32) + 152)" by simp
    moreover have "unat (of_nat (unat (of_nat i - 152 :: u32) + 152) :: u32) = unat (of_nat i - 152 :: u32) + 152"
      using k by (subst unat_of_nat) simp
    ultimately have "i = unat (of_nat i - 152 :: u32) + 152" using n [OF assms(2)] by metis
    then show False using that by linarith
  qed
  have z: "m (a + of_nat i) = 0" using assms by simp
  have two: "unat (ucast (1217 mod 8 :: u32) :: u8) + 1 = 2" by simp
  have "fill_block_bitmap a 1217 m = clear_low 2 (a + 152) 0 (filled (a + 152) 360 0xff (m(a := m a OR 1)))"
    unfolding fill_block_bitmap_def Let_def two by (simp add: memset_eq)
  then have e: "fill_block_bitmap a 1217 m =
      (filled (a + 152) 360 0xff (m(a := m a OR 1)))(a + 152 := filled (a + 152) 360 0xff (m(a := m a OR 1)) (a + 152) AND 0xfc)"
    by (simp only: clear_low_2)
  consider "i = 0" | "0 < i" "i < 152" | "i = 152" | "152 < i" by linarith
  then show ?thesis
  proof cases
    case 1
    then show ?thesis using z below by (simp add: e filled_def)
  next
    case 2
    then show ?thesis using z below ne [of 152] ne [of 0] by (simp add: e filled_def)
  next
    case 3
    then show ?thesis by (simp add: e filled_def)
  next
    case 4
    then have "i - 152 < 360" using assms(2) by linarith
    then show ?thesis using 4 off ne [of 152] by (simp add: e filled_def)
  qed
qed

lemma fc_bit: "bit (0xfc :: u8) n \<longleftrightarrow> 2 \<le> n \<and> n < 8" "bit (0xff :: u8) n \<longleftrightarrow> n < 8"
proof -
  have e: "(0xfc :: u8) = push_bit 2 (mask 6)" "(0xff :: u8) = mask 8" by (simp_all add: mask_eq_exp_minus_1)
  show "bit (0xfc :: u8) n \<longleftrightarrow> 2 \<le> n \<and> n < 8" "bit (0xff :: u8) n \<longleftrightarrow> n < 8"
    unfolding e by (auto simp: bit_simps)
qed

lemma block_bitmap_bits:
  assumes "\<And>j. j < 512 \<Longrightarrow> m (a + of_nat j) = 0" "k < 4096"
  shows "bm_bit (fill_block_bitmap a 1217 m) \<lparr>bitmap_len = 512, bitmap_bits = a\<rparr> k \<longleftrightarrow> k = 0 \<or> 1217 < k"
proof -
  have d: "k div 8 < 512" using assms(2) by (simp add: less_mult_imp_div_less)
  have k: "k = 8 * (k div 8) + k mod 8" by simp
  have b: "k mod 8 < 8" by simp
  have e: "bm_bit (fill_block_bitmap a 1217 m) \<lparr>bitmap_len = 512, bitmap_bits = a\<rparr> k =
      bit (fill_block_bitmap a 1217 m (a + of_nat (k div 8))) (k mod 8)" by (simp add: bm_bit_def)
  show ?thesis
    unfolding e block_bitmap_byte [of m a, OF assms(1) d, simplified] if_distrib [where f = "\<lambda>x. bit x (k mod 8)"] fc_bit bit_1_iff
    using k b by (auto; presburger)
qed

section \<open>Inodes\<close>

lemma inode_locate_eq:
  assumes "inode_no < 4096"
  shows "\<exists>p. inode_locate part inode_no s = Inr p \<and>
    512 * unat (sec_lba p - sb_field part 32 s) + unat (off_size p) = 76 * unat inode_no \<and> unat (off_size p) < 512 \<and>
    (two_sec p \<longleftrightarrow> 512 < unat (off_size p) + 76)"
proof -
  have n: "unat inode_no < 4096" using assms by (simp add: word_less_nat_alt)
  have m: "unat (inode_no * 76) = unat inode_no * 76" using n by (simp add: unat_word_ariths)
  have o: "unat (inode_no * 76 mod 512) = unat inode_no * 76 mod 512" "unat (inode_no * 76 div 512) = unat inode_no * 76 div 512"
    by (simp_all add: unat_mod unat_div m)
  have "unat inode_no * 76 mod 512 < 512" by simp
  then have l: "unat (512 - inode_no * 76 mod 512) = 512 - unat inode_no * 76 mod 512"
    using o(1) by (subst unat_sub) (simp_all add: word_le_nat_alt)
  have "512 - inode_no * 76 mod 512 < 76 \<longleftrightarrow> 512 < unat inode_no * 76 mod 512 + 76"
    unfolding word_less_nat_alt l using \<open>unat inode_no * 76 mod 512 < 512\<close> by simp linarith
  then have t: "512 - inode_no * 76 mod 512 < 76 \<longleftrightarrow> 512 < unat (inode_no * 76 mod 512) + 76" by (simp only: o)
  have "512 * unat (inode_no * 76 div 512) + unat (inode_no * 76 mod 512) = 76 * unat inode_no"
    unfolding o by (simp only: mult.commute mult_div_mod_eq [symmetric]) (metis mult.commute div_mult_mod_eq)
  moreover have "unat (inode_no * 76 mod 512) < 512" unfolding o by simp
  moreover have "inode_locate part inode_no s = Inr \<lparr>two_sec = 512 - inode_no * 76 mod 512 < 76,
      sec_lba = sb_field part 32 s + inode_no * 76 div 512, off_size = inode_no * 76 mod 512\<rparr>"
    using assms by (simp add: inode_locate_def Let_def)
  ultimately show ?thesis unfolding t by (intro exI conjI) (assumption, simp_all)
qed

text \<open>A search that does not end: the least fixed point gives no result.\<close>

lemma find_open_found: "find_open fin n e s = Some r \<Longrightarrow> e = fin \<or> i_no (e - 68) s = n"
  by (erule find_open.raw_induct [rotated, where P = "\<lambda>fin n e s r. e = fin \<or> i_no (e - 68) s = n"]) (auto split: if_splits; blast)

lemma find_open_None: "e \<noteq> fin \<Longrightarrow> i_no (e - 68) s \<noteq> n \<Longrightarrow> find_open fin n e s = None"
  using find_open_found [of fin n e s] by (cases "find_open fin n e s") auto

lemma find_fd_found: "find_fd table idx = Some r \<Longrightarrow> idx < 8 \<longrightarrow> table ! unat idx = - 1"
  by (erule find_fd.raw_induct [rotated, where P = "\<lambda>table idx r. idx < 8 \<longrightarrow> table ! unat idx = - 1"]) (auto split: if_splits)

lemma find_fd_cases:
  "find_fd table 3 = (if table ! 3 = - 1 then Some 3 else None)"
proof (cases "table ! 3 = - 1")
  case True
  then show ?thesis by (subst find_fd.simps) simp
next
  case False
  then show ?thesis using find_fd_found [of table 3] by (cases "find_fd table 3") auto
qed

section \<open>Bitmaps of the file system\<close>

lemma claim_bit:
  assumes "bm_size b < 2 ^ 32"
  shows "bind_res (bitmap_scan m b 1) (\<lambda>i. if i = - 1 then X else bind_res (bitmap_set b i 1 m) (F i)) =
    bind_res (bm.claim b m) (\<lambda>(n, m). F (of_nat n) m)"
proof (cases "bitmap_scan m b 1")
  case (Inl e)
  then show ?thesis by (simp add: bm.claim_def scan_one_def)
next
  case (Inr r)
  then have "scan_one b m = Inr (unat r)" by (simp add: scan_one_def)
  then have lt: "unat r < bm_size b" using bm.scan_Inr assms by (meson less_imp_le)
  have "r \<noteq> - 1"
  proof
    assume "r = - 1"
    then have "unat r = 2 ^ 32 - 1" by (simp add: unsigned_minus_1_eq_mask mask_eq_exp_minus_1)
    moreover have "8 dvd bm_size b" by (simp add: bm_size_def)
    ultimately show False using lt assms by presburger
  qed
  then show ?thesis using Inr by (simp add: bm.claim_def scan_one_def bitmap_set_eq)
qed

section \<open>Properties\<close>

text \<open>\<^verbatim>\<open>partition_format\<close> gives away one block too many, on every partition: whatever the size of the partition,
  it is set to 1218 sectors, of which the bitmap counts 1217; in the cleared buffer the first bit is set and those
  behind the last block, but the loop also clears bit 1217, and the data of the last blocks lie behind the partition as
  its size now is.\<close>

theorem format_bitmap_off_by_one:
  assumes "\<And>j. j < 512 \<Longrightarrow> m (a + of_nat j) = 0"
  shows "used_sects = 1218 \<and> bitmap_bit_len used_sects = 1217 \<and>
    (\<forall>k < 4096. bm_bit (fill_block_bitmap a (bitmap_bit_len used_sects) m) \<lparr>bitmap_len = 512, bitmap_bits = a\<rparr> k \<longleftrightarrow> k = 0 \<or> 1217 < k) \<and>
    data_start_lba (layout used_sects base) + 1216 = base + 1828"
proof -
  have l: "data_start_lba (layout used_sects base) = base + 612" by (simp add: layout_eq)
  show ?thesis unfolding l using block_bitmap_bits [of m a] assms by (simp add: format_sizes)
qed

theorem format_bitmap_off_by_one_witness:
  "\<not> bm_bit (fill_block_bitmap 0x1000 (bitmap_bit_len used_sects) (\<lambda>_. 0)) \<lparr>bitmap_len = 512, bitmap_bits = 0x1000\<rparr> 1217"
proof -
  have "\<forall>k < 4096. bm_bit (fill_block_bitmap 0x1000 (bitmap_bit_len used_sects) (\<lambda>_. 0)) \<lparr>bitmap_len = 512, bitmap_bits = 0x1000\<rparr> k \<longleftrightarrow>
      k = 0 \<or> 1217 < k"
    using format_bitmap_off_by_one [of "\<lambda>_. 0" "0x1000" 0] by blast
  from this [rule_format, of 1217] show ?thesis by simp
qed

text \<open>C37. \<^verbatim>\<open>inode_locate\<close> finds the inode: the table holds 76 bytes an inode, and sector and offset
  together are the place of the given one; two sectors are announced exactly when the record crosses the end of its sector.
  A number from 4096 on panics.\<close>

theorem inode_locate_place:
  "case inode_locate part inode_no s of
     Inr p \<Rightarrow> inode_no < 4096 \<and> unat (off_size p) < 512 \<and>
       512 * unat (sec_lba p - sb_field part 32 s) + unat (off_size p) = 76 * unat inode_no \<and>
       (two_sec p \<longleftrightarrow> 512 < unat (off_size p) + 76)
   | Inl e \<Rightarrow> 4096 \<le> inode_no \<and> e = Panic ''inode_no < 4096''"
proof (cases "inode_no < 4096")
  case True
  from inode_locate_eq [OF this, of part s] show ?thesis using True by auto
next
  case False
  then show ?thesis by (simp add: inode_locate_def)
qed

text \<open>C38. \<^verbatim>\<open>inode_open\<close> of a partition with open inodes looks at the first of them only: if that is the one
  asked for, it counts one more opening and returns it, with nothing else changed; if not, it never returns, although the
  inode may be further down in the list, because the search does not advance.\<close>

theorem inode_open_hangs:
  assumes "holds (open_inodes part) s (e # es)"
  shows "inode_open env error part inode_no s =
    (if i_no (e - 68) s = inode_no
     then Inr (e - 68, s\<lparr>mem := write32 (e - 68 + 8) (i_open_cnts (e - 68) s + 1) (mem s)\<rparr>)
     else Inl Diverge)"
proof -
  have d: "dlist (entries s) (open_inodes part) (e # es)" using assms by (simp add: holds_def)
  then have n: "le_next (entries s (open_inodes part)) = e" using dlist_first by fastforce
  have t: "e \<noteq> tailer (open_inodes part)" using dlist_slots [OF d] by (auto simp: slot_def)
  show ?thesis
  proof (cases "i_no (e - 68) s = inode_no")
    case True
    then have "find_open (tailer (open_inodes part)) inode_no e s = Some (Some (e - 68))"
      using t by (subst find_open.simps) simp
    then show ?thesis using True n by (simp add: inode_open_def Let_def store32_def)
  next
    case False
    then show ?thesis using find_open_None [OF t False] n by (simp add: inode_open_def Let_def)
  qed
qed

text \<open>\<^verbatim>\<open>pcb_fd_install\<close> works once: the first call of a thread stores the index in slot 3 of its table and returns 3;
  with slot 3 in use it never returns, whatever the other slots hold.\<close>

theorem pcb_fd_install_once:
  "pcb_fd_install g s =
     (if fd_table (threads s (running_thread s)) ! 3 = - 1
      then Inr (3, upd_thread (running_thread s) (\<lambda>t. t\<lparr>fd_table := (fd_table t)[3 := g]\<rparr>) s)
      else Inl Diverge)"
  by (simp add: pcb_fd_install_def find_fd_cases Let_def)

text \<open>\<^verbatim>\<open>block_bitmap_alloc\<close> hands out the first free block of the partition: it was free, becomes used, no
  other bit changes, and the address returned is its place behind the start of the data; it fails, by a panic, exactly
  when no block is free.\<close>

theorem block_bitmap_alloc_first_free:
  assumes "b = block_bitmap (partitions s part)" "bm_size b < 2 ^ 32"
  shows "case block_bitmap_alloc part s of
      Inr (lba, s') \<Rightarrow> \<exists>n < bm_size b. lba = sb_field part 40 s' + of_nat n \<and> \<not> bm_bit (mem s) b n \<and>
        (\<forall>k < n. bm_bit (mem s) b k) \<and> (\<forall>k < bm_size b. bm_bit (mem s') b k \<longleftrightarrow> k = n \<or> bm_bit (mem s) b k)
    | Inl e \<Rightarrow> \<forall>k < bm_size b. bm_bit (mem s) b k"
proof -
  have le: "bm_size b \<le> 2 ^ 32" using assms(2) by simp
  have eq: "block_bitmap_alloc part s = bind_res (bm.claim b (mem s)) (\<lambda>(n, m). Inr (sb_field part 40 (s\<lparr>mem := m\<rparr>) + of_nat n, s\<lparr>mem := m\<rparr>))"
  proof -
    have "block_bitmap_alloc part s = bind_res (bitmap_scan (mem s) b 1) (\<lambda>i. if i = - 1 then Inr (- 1, s)
        else bind_res (bitmap_set b i 1 (mem s)) (\<lambda>m. Inr (sb_field part 40 (s\<lparr>mem := m\<rparr>) + i, s\<lparr>mem := m\<rparr>)))"
      by (simp add: block_bitmap_alloc_def assms(1) [symmetric] on_mem_def bind_res_assoc cong: if_cong)
    then show ?thesis by (simp only: claim_bit [OF assms(2)])
  qed
  show ?thesis
  proof (cases "bm.claim b (mem s)")
    case (Inl e)
    then have "scan_one b (mem s) = Inl e" by (cases "scan_one b (mem s)") (simp_all add: bm.claim_def)
    then show ?thesis using bm.scan_Inl [OF le] Inl eq by auto
  next
    case (Inr r)
    obtain n m where r: "r = (n, m)" by (cases r)
    then have sc: "scan_one b (mem s) = Inr n" and m: "m = set_bit_mem b n True (mem s)"
      using Inr by (auto simp: bm.claim_def res_iffs)
    have f: "List.find (\<lambda>n. \<not> bm_bit (mem s) b n) [0..<bm_size b] = Some n" using sc scan_one_Inr [OF le] by blast
    then have n: "n < bm_size b" "\<not> bm_bit (mem s) b n" "\<forall>k < n. bm_bit (mem s) b k"
      by (auto simp: find_upt_Some_iff)
    have "bm_bit m b k \<longleftrightarrow> k = n \<or> bm_bit (mem s) b k" if "k < bm_size b" for k
      unfolding m using bm.get_put [OF le n(1) that] by simp
    then show ?thesis using n Inr r eq by auto
  qed
qed

definition sample_files :: istate where
  "sample_files = (upd_partition 0x6100 (\<lambda>p. p\<lparr>block_bitmap := \<lparr>bitmap_len = 2, bitmap_bits = 0x8000\<rparr>\<rparr>)
     (list_append (open_inodes 0x6100) 0x7044 (list_init (open_inodes 0x6100) sample_ide)))\<lparr>mem := (\<lambda>_. 0)\<rparr>"

theorem inode_open_hangs_witness:
  "inode_open Inr 0x9000 0x6100 5 sample_files = Inl Diverge \<and>
   (\<exists>s'. inode_open Inr 0x9000 0x6100 0 sample_files = Inr (0x7000, s'))"
proof -
  let ?t = "list_append (open_inodes 0x6100) 0x7044 (list_init (open_inodes 0x6100) sample_ide)"
  have "holds (open_inodes 0x6100) ?t ([] @ [0x7044])"
    by (rule holds_append [OF holds_init]) (simp_all add: slot_def tailer_def open_inodes_def)
  then have h: "holds (open_inodes 0x6100) sample_files [0x7044]"
    by (simp add: sample_files_def holds_def upd_partition_def)
  have "i_no (0x7044 - 68) sample_files = 0" by (simp add: i_no_def load32_def read32_def sample_files_def)
  then show ?thesis
    using inode_open_hangs [OF h, of Inr "0x9000" 5] inode_open_hangs [OF h, of Inr "0x9000" 0] by simp
qed

theorem block_bitmap_alloc_first_free_witness:
  "case block_bitmap_alloc 0x6100 sample_files of Inr (lba, s') \<Rightarrow> True | Inl e \<Rightarrow> False"
proof -
  let ?b = "\<lparr>bitmap_len = 2, bitmap_bits = 0x8000\<rparr>"
  have b: "?b = block_bitmap (partitions sample_files 0x6100)" by (simp add: sample_files_def upd_partition_def)
  have z: "\<not> bm_bit (mem sample_files) ?b 0" by (simp add: bm_bit_def sample_files_def)
  have "bm_size ?b < 2 ^ 32" "0 < bm_size ?b" by (simp_all add: bm_size_def)
  then show ?thesis
    using block_bitmap_alloc_first_free [OF b] z by (auto split: sum.splits)
qed

end
