(* ===== verification/Kthreads.thy ===== *)
theory Kthreads
  imports Files
begin

text \<open>
  Kernel threads as they are created: \<^verbatim>\<open>thread_start\<close> and
  \<^verbatim>\<open>kthread_init\<close> of \<^verbatim>\<open>kernel/thread.c\<close>. A new thread needs a page, so that what the
  allocation of a page may change is bounded first. The theorems: a new thread is one more of the scheduler's, and
  \<^verbatim>\<open>kthread_init\<close> establishes the invariant of Scheduler.
\<close>

section \<open>State\<close>

text \<open>The registers the other records leave out, and where the linker put the code of the first threads.\<close>

record pstate = fstate +
  eax :: u32
  fs_sel :: u16
  idle_at :: u32
  process_start_at :: u32

section \<open>Threads (thread.c, list.c)\<close>

definition list_print :: "u32 \<Rightarrow> u32 \<Rightarrow> 'a ostate_scheme \<Rightarrow> 'a ostate_scheme res" where
  "list_print elem v s =
     bind_res (kprintf (lit s (line ''addr 0x%x'')) [thread_of_tag elem] s) (\<lambda>(s, _). Inr s)"

text \<open>What \<^verbatim>\<open>kernel_thread_entry\<close> calls, and with which argument: its two parameters, above the return
  address nobody uses.\<close>

definition kernel_thread_entry :: "'a tstate_scheme \<Rightarrow> u32 \<times> u32" where
  "kernel_thread_entry s =
     (read32 (mem s) (ctx_esp (regs s) + 4), read32 (mem s) (ctx_esp (regs s) + 8))"

text \<open>The assertion that \<open>probe\<close> is not in the list yet, and \<^verbatim>\<open>list_append\<close>.\<close>

definition append_new :: "string \<Rightarrow> u32 \<Rightarrow> u32 \<Rightarrow> u32 \<Rightarrow> 'a lstate_scheme \<Rightarrow> 'a lstate_scheme res" where
  "append_new msg plist probe e s =
     bind_res (of_loop (list_find plist probe s)) (\<lambda>found.
       assert_res msg (\<not> found) (Inr (list_append plist e s)))"

definition thread_start :: "u32 \<Rightarrow> u32 \<Rightarrow> u32 \<Rightarrow> u32 \<Rightarrow> 'a mstate_scheme \<Rightarrow> (u32 \<times> 'a mstate_scheme) res" where
  "thread_start name prio fn arg s =
     bind_res (get_kernel_pages 1 s) (\<lambda>(thread, s).
     bind_res (Thread_init thread name prio s) (\<lambda>s.
     let s = Thread_create thread fn arg s
     in bind_res (append_new ''!list_find(&thread_ready_list, &thread->general_tag)''
                    (ready_list s) (general_tag thread) (general_tag thread) s) (\<lambda>s.
        bind_res (append_new ''!list_find(&thread_list_all, &thread->all_list_tag)''
                    (all_list s) (all_list_tag thread) (all_list_tag thread) s) (\<lambda>s.
          Inr (thread, s)))))"

definition Make_Main_Thread :: "'a ostate_scheme \<Rightarrow> 'a ostate_scheme res" where
  "Make_Main_Thread s =
     (let s = s\<lparr>main_thread := running_thread s\<rparr>
      in bind_res (Thread_init (main_thread s) (lit s ''main'') 31 s) (\<lambda>s.
           append_new ''!list_find(&thread_list_all, &main_thread->all_list_tag)''
             (all_list s) (all_list_tag (main_thread s)) (all_list_tag (main_thread s)) s))"

definition kthread_init :: "'a pstate_scheme \<Rightarrow> 'a pstate_scheme res" where
  "kthread_init s =
     bind_res (say (line ''kthread_init start'') s) (\<lambda>s.
     bind_res (Make_Main_Thread (list_init (all_list s) (list_init (ready_list s) s))) (\<lambda>s.
     bind_res (thread_start (lit s ''idle'') 10 (idle_at s) NULL s) (\<lambda>(thread, s).
       say (line ''kthread_init done'') (s\<lparr>idle_thread := thread\<rparr>))))"

section \<open>What page allocation changes\<close>

text \<open>\<open>only_pages s s'\<close>: nothing but memory and page tables changed.\<close>

definition only_pages :: "'a vstate_scheme \<Rightarrow> 'a vstate_scheme \<Rightarrow> bool" where
  "only_pages s s' \<longleftrightarrow> (\<exists>m t. s' = s\<lparr>mem := m, pt := t\<rparr>)"

lemma only_pages_refl [simp]: "only_pages s s"
  unfolding only_pages_def by (rule exI [of _ "mem s"], rule exI [of _ "pt s"]) simp

lemma only_pages_mem [simp]: "only_pages s (s\<lparr>mem := m\<rparr>)"
  unfolding only_pages_def by (rule exI [of _ m], rule exI [of _ "pt s"]) simp

lemma only_pages_pt [simp]: "only_pages s (s\<lparr>pt := t\<rparr>)"
  unfolding only_pages_def by (rule exI [of _ "mem s"], rule exI [of _ t]) simp

lemma only_pages_trans: "only_pages s t \<Longrightarrow> only_pages t u \<Longrightarrow> only_pages s u"
  unfolding only_pages_def by force

lemma on_mem_pages: "on_mem f s = Inr s' \<Longrightarrow> only_pages s s'"
  by (auto simp: on_mem_def res_iffs)

lemma alloc_pages: "alloc_physical_pages p s = Inr (v, s') \<Longrightarrow> only_pages s s'"
  by (auto simp: alloc_physical_pages_def Let_def res_iffs on_mem_pages split: if_splits)

lemma insert_pages:
  assumes "insert_page_table v p s = Inr s'"
  shows "only_pages s s'"
proof (cases "pt s (pde_addr v) AND 1 \<noteq> 0")
  case True
  then show ?thesis using assms by (auto simp: insert_page_table_def Let_def)
next
  case False
  then obtain pa u where a: "alloc_physical_pages (kernel_pool s) s = Inr (pa, u)"
    using assms by (auto simp: insert_page_table_def Let_def res_iffs)
  then have "\<exists>t. s' = u\<lparr>pt := t\<rparr>" using False assms by (auto simp: insert_page_table_def Let_def)
  then show ?thesis using only_pages_trans [OF alloc_pages [OF a]] by auto
qed

lemma map_pages_pages: "map_pages n p v s = Inr (ok, s') \<Longrightarrow> only_pages s s'"
proof (induction n arbitrary: v s)
  case (Suc n)
  then obtain pa u where a: "alloc_physical_pages p s = Inr (pa, u)"
    and r: "(pa = NULL \<and> s' = u) \<or> (\<exists>w. insert_page_table v pa u = Inr w \<and> map_pages n p (v + 4096) w = Inr (ok, s'))"
    by (auto simp: res_iffs split: if_splits)
  from r show ?case
    using alloc_pages [OF a] Suc.IH insert_pages only_pages_trans by blast
qed simp

lemma virtual_pages_pages: "get_virtual_pages pf n s = Inr (v, s') \<Longrightarrow> only_pages s s'"
  by (auto simp: get_virtual_pages_def Let_def res_iffs on_mem_pages split: if_splits)

lemma malloc_pages_pages:
  assumes "malloc_pages pf n s = Inr (v, s')"
  shows "only_pages s s'"
proof -
  from assms obtain a u where g: "get_virtual_pages pf n s = Inr (a, u)"
    and r: "s' = u \<or> (\<exists>ok. map_pages (unat n) (pool_of pf u) a u = Inr (ok, s'))"
    by (auto simp: malloc_pages_def res_iffs split: if_splits)
  from r show ?thesis using virtual_pages_pages [OF g] map_pages_pages only_pages_trans by blast
qed

lemma kernel_pages_eq:
  assumes "get_kernel_pages n s = Inr (v, s')" "v \<noteq> NULL"
  obtains u where "only_pages s u" "s' = clear_range v (n * 4096) u"
  using assms malloc_pages_pages [of PF_KERNEL n s] by (auto simp: get_kernel_pages_def res_iffs)

text \<open>\<open>only_locks s s'\<close>: nothing but memory, page tables, locks and flags changed.\<close>

definition only_locks :: "'a sstate_scheme \<Rightarrow> 'a sstate_scheme \<Rightarrow> bool" where
  "only_locks s s' \<longleftrightarrow> s' = s\<lparr>eflags := eflags s', mem := mem s', pt := pt s', locks := locks s'\<rparr>"

lemma only_locks_trans:
  assumes "only_locks s t" "only_locks t u"
  shows "only_locks s u"
proof -
  have "u = t\<lparr>eflags := eflags u, mem := mem u, pt := pt u, locks := locks u\<rparr>" using assms(2) by (simp only: only_locks_def)
  also have "\<dots> = s\<lparr>eflags := eflags u, mem := mem u, pt := pt u, locks := locks u\<rparr>"
    by (subst assms(1) [unfolded only_locks_def]) simp
  finally show ?thesis by (simp only: only_locks_def)
qed

lemma only_locks_pages: "only_pages s s' \<Longrightarrow> only_locks s s'" for s s' :: "'a sstate_scheme"
  by (auto simp: only_pages_def only_locks_def)

lemma acquire_locks: "lock_acquire lk s = Inr s' \<Longrightarrow> only_locks s s'"
  by (auto simp: lock_acquire_def spinlock_acquire_def pushcli_def xchg_locked_def Let_def res_iffs
    only_locks_def upd_lock_def cli_def split: if_splits)

lemma release_locks: "lock_release lk s = Inr s' \<Longrightarrow> only_locks s s'"
  by (auto simp: lock_release_def spinlock_release_def popcli_def xchg_locked_def Let_def res_iffs
    only_locks_def upd_lock_def sti_def split: if_splits)

lemma get_a_page_locks:
  assumes "get_a_page pf v s = Inr (p, s')"
  shows "only_locks s s'"
proof -
  from assms obtain a b c d where "lock_acquire (pool_lk (pool_of pf s)) s = Inr a" "only_pages a b"
    "alloc_physical_pages (pool_of pf b) b = Inr (d, c)"
    "(d = NULL \<and> s' = c) \<or> (\<exists>e. insert_page_table v d c = Inr e \<and> lock_release (pool_lk (pool_of pf e)) e = Inr s')"
    by (auto simp: get_a_page_def Let_def res_iffs split: if_splits dest: on_mem_pages)
  then show ?thesis
    by (meson acquire_locks release_locks alloc_pages insert_pages only_locks_pages only_locks_trans)
qed

text \<open>The bytes of a bitmap, and what an allocation writes.\<close>

definition bitmap_span :: "bitmap \<Rightarrow> u32 set" where
  "bitmap_span b = span (bitmap_bits b) (unat (bitmap_len b))"

lemma alloc_mem:
  assumes "pool_ok p s" "alloc_physical_pages p s = Inr (v, s')" "a \<notin> bitmap_span (pool_bits p s)"
  shows "mem s' a = mem s a"
proof -
  obtain n m where c: "bm.claim (pool_bits p s) (mem s) = Inr (n, m)" and s': "s' = s\<lparr>mem := m\<rparr>"
    using assms(2) by (auto simp: alloc_eq [OF assms(1)] res_iffs)
  have m: "m = set_bit_mem (pool_bits p s) n True (mem s)" "scan_one (pool_bits p s) (mem s) = Inr n"
    using c by (auto simp: bm.claim_def res_iffs)
  then have "n < bm_size (pool_bits p s)" using bm.scan_Inr [OF pool_ok_size [OF assms(1)]] by blast
  then have "n div 8 < unat (bitmap_len (pool_bits p s))" by (simp add: bm_size_def)
  then have "a \<noteq> bitmap_bits (pool_bits p s) + of_nat (n div 8)"
    using assms(3) in_spanI unfolding bitmap_span_def by blast
  then show ?thesis by (simp add: s' m(1) set_bit_mem_other)
qed

lemma insert_mem:
  assumes "pool_ok (kernel_pool s) s" "insert_page_table v p s = Inr s'" "a \<notin> bitmap_span (pool_bits (kernel_pool s) s)"
  shows "mem s' a = mem s a"
proof (cases "pt s (pde_addr v) AND 1 \<noteq> 0")
  case True
  then show ?thesis using assms(2) by (auto simp: insert_page_table_def Let_def)
next
  case False
  then obtain pa u where u: "alloc_physical_pages (kernel_pool s) s = Inr (pa, u)"
    using assms(2) by (auto simp: insert_page_table_def Let_def res_iffs)
  then have "mem s' = mem u" using False assms(2) by (auto simp: insert_page_table_def Let_def)
  then show ?thesis using alloc_mem [OF assms(1) u assms(3)] by simp
qed

lemma only_locks_pools:
  fixes s s' :: "'a mstate_scheme"
  assumes "only_locks s s'"
  shows "pools s' = pools s" "kernel_pool s' = kernel_pool s" "user_pool s' = user_pool s" "threads s' = threads s"
    "regs s' = regs s" "kernel_vaddr s' = kernel_vaddr s"
  by (subst assms [unfolded only_locks_def], simp)+

lemma only_locks_segs:
  fixes s s' :: "'a dstate_scheme"
  assumes "only_locks s s'"
  shows "segs s' = segs s"
  by (subst assms [unfolded only_locks_def], simp)

lemma lock_mem:
  "lock_acquire lk s = Inr s' \<Longrightarrow> mem s' = mem s" "lock_release lk s = Inr s' \<Longrightarrow> mem s' = mem s"
  by (auto simp: lock_acquire_def spinlock_acquire_def pushcli_def xchg_locked_def lock_release_def spinlock_release_def
    popcli_def Let_def res_iffs upd_lock_def cli_def sti_def split: if_splits)

section \<open>Starting a thread\<close>

declare span_numeral [simp del]

text \<open>\<open>own_page p s s'\<close>: nothing but the structure at \<open>p\<close> and the list entries in its page changed.\<close>

definition own_page :: "u32 \<Rightarrow> 'a tstate_scheme \<Rightarrow> 'a tstate_scheme \<Rightarrow> bool" where
  "own_page p s s' \<longleftrightarrow> s' = s\<lparr>entries := entries s', threads := threads s'\<rparr> \<and>
     (\<forall>q. q \<noteq> p \<longrightarrow> threads s' q = threads s q) \<and> (\<forall>e. 4096 \<le> e - p \<longrightarrow> entries s' e = entries s e)"

lemma own_page_refl [simp]: "own_page p s s"
  by (simp add: own_page_def)

lemma own_page_trans:
  assumes "own_page p s t" "own_page p t u"
  shows "own_page p s u"
proof -
  have "u = t\<lparr>entries := entries u, threads := threads u\<rparr>" using assms(2) unfolding own_page_def by (elim conjE)
  also have "\<dots> = s\<lparr>entries := entries u, threads := threads u\<rparr>"
    by (subst assms(1) [unfolded own_page_def, THEN conjunct1]) simp
  finally show ?thesis using assms by (auto simp: own_page_def)
qed

lemma own_page_upd [intro]: "own_page p s t \<Longrightarrow> own_page p s (upd_thread p f t)"
  by (erule own_page_trans) (simp add: own_page_def upd_thread_def)

lemma own_page_links [intro]:
  assumes "own_page p s t" "e - p < 4096"
  shows "own_page p s (set_prev e v t)" "own_page p s (set_next e v t)"
  by (rule own_page_trans [OF assms(1)]; use assms(2) in \<open>auto simp: own_page_def set_prev_def set_next_def\<close>)+

lemma own_page_fold:
  assumes "\<And>x t. x \<in> set xs \<Longrightarrow> own_page p s t \<Longrightarrow> own_page p s (f x t)" "own_page p s t"
  shows "own_page p s (fold f xs t)"
  using assms by (induction xs arbitrary: t) auto

lemma own_page_store_fd:
  assumes "own_page p s t" "i < 32"
  shows "own_page p s (store_fd p i v t)"
proof -
  have k: "(i - 20) div 6 < 2" using assms(2) by linarith
  have d: "own_page p s (store_desc k j p v t)" if "k < 2" for k j
  proof -
    have "k = 0 \<or> k = 1" using that by auto
    then show ?thesis using assms(1) unfolding store_desc_def Let_def
      by (elim disjE) (auto intro!: own_page_upd own_page_links)
  qed
  show ?thesis unfolding store_fd_def
    using assms(1) d [OF k] by (auto intro!: own_page_upd own_page_links simp: general_tag_def all_list_tag_def)
qed

lemma own_page_clear: "own_page p s (clear_thread p s)"
proof -
  have "e - p < 4096" if "e \<in> set (inner_entries p)" for e
    using that by (auto simp: inner_entries_def general_tag_def all_list_tag_def upt_rec)
  then show ?thesis unfolding clear_thread_def by (intro own_page_fold own_page_links own_page_upd) auto
qed

lemma Thread_init_page:
  assumes "Thread_init p name prio s = Inr s'"
  shows "own_page p s s'"
proof -
  from assms obtain u f g where u: "copy_name p name (clear_thread p s) = Inr u"
    and s': "s' = fold (\<lambda>i. store_fd p i (- 1)) [3..<32] (store_fd p 1 2 (store_fd p 1 1 (store_fd p 0 0
        (upd_thread p g (upd_thread p f u)))))"
    unfolding Thread_init_def Let_def bind_res_Inr_iff by blast
  from u have "own_page p s u" by (auto simp: copy_name_def res_iffs own_page_clear split: if_splits)
  then show ?thesis unfolding s'
    by (intro own_page_fold own_page_store_fd own_page_upd) (simp_all del: upt_rec_numeral)
qed

lemma own_page_fields:
  fixes s s' :: "'a tstate_scheme"
  assumes "own_page p s s'"
  shows "mem s' = mem s" "regs s' = regs s" "ready_list s' = ready_list s" "all_list s' = all_list s"
    "main_thread s' = main_thread s" "idle_thread s' = idle_thread s" "entry_code s' = entry_code s" "pt s' = pt s"
  by (subst assms [unfolded own_page_def, THEN conjunct1], simp)+

lemma own_page_holds:
  assumes "own_page p s s'" "holds l s xs" "\<forall>e \<in> set (nodes l xs). 4096 \<le> e - p"
  shows "holds l s' xs"
  using dlist_frame [OF assms(2) [unfolded holds_def], of "entries s'"] assms(1,3)
  by (auto simp: own_page_def holds_def)

lemma append_new_eq: "holds l s xs \<Longrightarrow> probe \<notin> set xs \<Longrightarrow> append_new msg l probe e s = Inr (list_append l e s)"
  using find_holds [of l s xs probe] by (simp add: append_new_def)

lemma Thread_create_frame_fields:
  fixes s :: "'a tstate_scheme"
  shows "entries (Thread_create p fn arg s) = entries s" "ready_list (Thread_create p fn arg s) = ready_list s"
    "all_list (Thread_create p fn arg s) = all_list s" "r \<noteq> p \<Longrightarrow> threads (Thread_create p fn arg s) r = threads s r"
    "status (threads (Thread_create p fn arg s) p) = status (threads s p)"
    "pgdir (threads (Thread_create p fn arg s) p) = pgdir (threads s p)" "regs (Thread_create p fn arg s) = regs s"
    "idle_thread (Thread_create p fn arg s) = idle_thread s" "entry_code (Thread_create p fn arg s) = entry_code s"
  by (simp_all add: Thread_create_def Let_def)

text \<open>The lists a new thread is put into, and that none of their entries is in its page.\<close>

definition lists_apart :: "u32 \<Rightarrow> 'a tstate_scheme \<Rightarrow> u32 list \<Rightarrow> u32 list \<Rightarrow> bool" where
  "lists_apart p s q al \<longleftrightarrow> ready s q \<and> holds (all_list s) s al \<and>
     (\<forall>e \<in> set (nodes (ready_list s) (map general_tag q)) \<union> set (nodes (all_list s) al). 4096 \<le> e - p) \<and>
     set (nodes (ready_list s) (map general_tag q)) \<inter> set (nodes (all_list s) al) = {}"

lemma lists_apart_own:
  assumes "lists_apart p s q al" "own_page p s s'"
  shows "lists_apart p s' q al"
  using assms own_page_holds [OF assms(2)] own_page_fields [OF assms(2)] by (auto simp: lists_apart_def ready_def)

lemma lists_apart_cong:
  "lists_apart p s q al \<Longrightarrow> entries s' = entries s \<Longrightarrow> ready_list s' = ready_list s \<Longrightarrow> all_list s' = all_list s \<Longrightarrow>
   lists_apart p s' q al"
  by (simp add: lists_apart_def ready_def holds_def)

lemma lists_apart_clear: "lists_apart p s q al \<Longrightarrow> lists_apart p (clear_range p 4096 s) q al"
  unfolding lists_apart_def ready_def using holds_clear_range [of _ s _ 4096 p]
  by (auto simp: clear_range_def holds_def)

lemma lists_apart_new:
  assumes "lists_apart p s q al"
  shows "holds (ready_list s) (list_append (all_list s) (all_list_tag p) (list_append (ready_list s) (general_tag p) s))
      (map general_tag (q @ [p]))"
    "holds (all_list s) (list_append (all_list s) (all_list_tag p) (list_append (ready_list s) (general_tag p) s)) (al @ [all_list_tag p])"
    "general_tag p \<notin> set (map general_tag q)" "holds (ready_list s) s (map general_tag q)"
    "general_tag p \<notin> set al" "all_list_tag p \<notin> set al" "holds (all_list s) (list_append (ready_list s) (general_tag p) s) al"
proof -
  let ?r = "nodes (ready_list s) (map general_tag q)" and ?a = "nodes (all_list s) al"
  note h = assms [unfolded lists_apart_def ready_def]
  have g: "general_tag p - p = 92" "all_list_tag p - p = 100" by (simp_all add: general_tag_def all_list_tag_def)
  have out: "e \<notin> set ?r \<union> set ?a" if "e - p < 4096" for e using h that by (meson not_le)
  have n: "general_tag p \<notin> set ?r \<union> set ?a" "all_list_tag p \<notin> set ?r \<union> set ?a"
    by (rule out, simp add: g)+
  then have sl: "slot (ready_list s) (general_tag p)" "general_tag p \<notin> set (map general_tag q)"
    "slot (ready_list s) (all_list_tag p)" "all_list_tag p \<notin> set (map general_tag q)"
    "slot (all_list s) (all_list_tag p)" "all_list_tag p \<notin> set al" "slot (all_list s) (general_tag p)" "general_tag p \<notin> set al"
    by (simp_all add: set_nodes del: set_map)
  then show "general_tag p \<notin> set (map general_tag q)" "holds (ready_list s) s (map general_tag q)"
    "general_tag p \<notin> set al" "all_list_tag p \<notin> set al" using h by simp_all
  let ?s = "list_append (ready_list s) (general_tag p) s"
  have r: "holds (ready_list s) ?s (map general_tag q @ [general_tag p])"
    using h sl by (intro holds_append) auto
  show a: "holds (all_list s) ?s al" using h sl by (intro append_frame [of "ready_list s" s "map general_tag q"]) auto
  show "holds (all_list s) (list_append (all_list s) (all_list_tag p) ?s) (al @ [all_list_tag p])"
    using a sl by (intro holds_append) auto
  have "general_tag p \<noteq> all_list_tag p" by (simp add: general_tag_def all_list_tag_def)
  moreover have "set ?a \<inter> set (nodes (ready_list s) (map general_tag q @ [general_tag p])) = {}"
    using h n by (auto simp: nodes_def)
  ultimately show "holds (ready_list s) (list_append (all_list s) (all_list_tag p) ?s) (map general_tag (q @ [p]))"
    using append_frame [OF a r] sl by auto
qed

lemma list_op_all [simp]:
  "all_list (list_append l e s) = all_list s" "main_thread (list_append l e s) = main_thread s"
  "mem (list_append l e s) = mem s"
  by (simp_all add: list_append_def list_insert_before_eq)

lemma only_pages_fields:
  fixes s u :: "'a tstate_scheme"
  assumes "only_pages s u"
  shows "entries u = entries s" "threads u = threads s" "regs u = regs s" "ready_list u = ready_list s"
    "all_list u = all_list s" "main_thread u = main_thread s" "entry_code u = entry_code s" "idle_thread u = idle_thread s"
  using assms by (auto simp: only_pages_def)

text \<open>\<open>new_thread p fn arg s\<close>: at \<open>p\<close> stands a thread that will call \<open>fn\<close> with \<open>arg\<close> when it is switched to.\<close>

definition new_thread :: "u32 \<Rightarrow> u32 \<Rightarrow> u32 \<Rightarrow> 'a tstate_scheme \<Rightarrow> bool" where
  "new_thread p fn arg s \<longleftrightarrow>
     at_home s p \<and> ctx_esp (context_of (threads s p)) = p + 4008 \<and> ctx_eip (context_of (threads s p)) = entry_code s \<and>
     kernel_thread_entry (s\<lparr>regs := context_of (threads s p)\<rparr>) = (fn, arg)"

text \<open>\<open>only_threads s s'\<close>: nothing but pages, list entries and threads changed.\<close>

definition only_threads :: "'a tstate_scheme \<Rightarrow> 'a tstate_scheme \<Rightarrow> bool" where
  "only_threads s s' \<longleftrightarrow> s' = s\<lparr>mem := mem s', pt := pt s', entries := entries s', threads := threads s'\<rparr>"

lemma only_threads_rec:
  fixes s :: "'a tstate_scheme"
  assumes "s' = s\<lparr>entries := h, threads := t\<rparr>"
  shows "s' = s\<lparr>mem := mem s', pt := pt s', entries := entries s', threads := threads s'\<rparr>"
  unfolding assms by simp

lemma only_threads_trans:
  assumes "only_threads s t" "only_threads t u"
  shows "only_threads s u"
proof -
  have "u = t\<lparr>mem := mem u, pt := pt u, entries := entries u, threads := threads u\<rparr>" using assms(2) unfolding only_threads_def .
  also have "\<dots> = s\<lparr>mem := mem u, pt := pt u, entries := entries u, threads := threads u\<rparr>"
    by (subst assms(1) [unfolded only_threads_def]) simp
  finally show ?thesis unfolding only_threads_def .
qed

lemma only_threads_intros:
  fixes s s' :: "'a tstate_scheme"
  shows only_threads_pages: "only_pages s s' \<Longrightarrow> only_threads s s'"
    and only_threads_clear: "only_threads s (clear_range a n s)"
    and only_threads_own: "own_page p s s' \<Longrightarrow> only_threads s s'"
    and only_threads_create: "only_threads s (Thread_create p fn arg s)"
    and only_threads_append: "only_threads s (list_append l e s)"
proof -
  show "only_pages s s' \<Longrightarrow> only_threads s s'" by (auto simp: only_pages_def only_threads_def)
  show "only_threads s (clear_range a n s)" by (simp add: only_threads_def clear_range_def)
  show "own_page p s s' \<Longrightarrow> only_threads s s'"
    unfolding only_threads_def own_page_def by (elim conjE) (rule only_threads_rec)
  show "only_threads s (Thread_create p fn arg s)" by (simp add: only_threads_def Thread_create_def Let_def upd_thread_def)
  show "only_threads s (list_append l e s)" by (simp add: only_threads_def list_append_def list_insert_before_eq)
qed

lemma Thread_create_mem:
  assumes "self_kstack (threads s p) = p + 4096" "a \<notin> span p 4096"
  shows "mem (Thread_create p fn arg s) a = mem s a"
proof -
  have "span (p + of_nat 4012) 4 \<subseteq> span p 4096" "span (p + of_nat 4016) 4 \<subseteq> span p 4096"
    by (rule span_shift; simp)+
  then have "a \<notin> span (4012 + p) 4" "a \<notin> span (4016 + p) 4" using assms(2) by (auto simp: add.commute)
  then show ?thesis by (simp add: Thread_create_def Let_def assms(1) write32_other)
qed

lemma thread_start_eq:
  fixes s :: "'a mstate_scheme"
  assumes g: "get_kernel_pages 1 s = Inr (p, s1)" "p \<noteq> NULL" "p AND 0xfffff000 = p"
    and name: "cstring (mem s1) name cs" "length cs < 16"
    and l: "lists_apart p s q al"
  shows "\<exists>s'. thread_start name prio fn arg s = Inr (p, s') \<and> ready s' (q @ [p]) \<and>
    holds (all_list s) s' (al @ [all_list_tag p]) \<and> new_thread p fn arg s' \<and> pgdir (threads s' p) = - 1 \<and>
    status (threads s' p) = (if p = main_thread s then TASK_RUNNING else TASK_READY) \<and>
    (\<forall>r. r \<noteq> p \<longrightarrow> threads s' r = threads s r) \<and> only_threads s s' \<and>
    (\<forall>a. a \<notin> span p 4096 \<longrightarrow> mem s' a = mem s1 a) \<and> pt s' = pt s1"
proof -
  obtain u where u: "only_pages s u" "s1 = clear_range p (1 * 4096) u" by (rule kernel_pages_eq [OF g(1,2)])
  note fu = only_pages_fields [OF u(1)]
  have f1: "threads s1 = threads s" "regs s1 = regs s" "ready_list s1 = ready_list s" "all_list s1 = all_list s"
    "main_thread s1 = main_thread s" "entry_code s1 = entry_code s"
    by (simp_all add: u(2) clear_range_def fu)
  have l1: "lists_apart p s1 q al"
    using lists_apart_clear [OF lists_apart_cong [OF l, of u]] by (simp add: u(2) fu)
  obtain s2 where s2: "Thread_init p name prio s1 = Inr s2"
    "status (threads s2 p) = (if p = main_thread s1 then TASK_RUNNING else TASK_READY)"
    "self_kstack (threads s2 p) = p + 4096" "pgdir (threads s2 p) = - 1"
    using Thread_init_eq [OF name, of p prio] by auto
  note o2 = Thread_init_page [OF s2(1)]
  note f2 = own_page_fields [OF o2]
  define s3 where "s3 = Thread_create p fn arg s2"
  note f3 = Thread_create_frame_fields [where s = s2 and p = p and fn = fn and arg = arg, folded s3_def]
  note c3 = Thread_create_eq [OF g(3) s2(3), of fn arg, folded s3_def]
  have l3: "lists_apart p s3 q al"
    by (rule lists_apart_cong [OF lists_apart_own [OF l1 o2]]) (simp_all add: f3)
  note h = lists_apart_new [OF l3]
  define s4 where "s4 = list_append (ready_list s3) (general_tag p) s3"
  have s4: "ready_list s4 = ready_list s" "all_list s4 = all_list s" "all_list s3 = all_list s" "ready_list s3 = ready_list s"
    by (simp_all add: s4_def f3 f2 f1)
  define s5 where "s5 = list_append (all_list s3) (all_list_tag p) s4"
  have "thread_start name prio fn arg s = Inr (p, s5)"
    using g(1) s2(1) append_new_eq [OF h(4,3)] append_new_eq [OF h(7,6)]
    by (simp add: thread_start_def Let_def s3_def [symmetric] s5_def s4 del: set_map) (simp add: s4_def s4)
  moreover have "ready s5 (q @ [p])" using h(1) by (simp add: ready_def s5_def s4_def)
  moreover have "holds (all_list s) s5 (al @ [all_list_tag p])" using h(2) by (simp add: s5_def s4_def s4)
  moreover have t5: "threads s5 = threads s3" "regs s5 = regs s" "mem s5 = mem s3" "entry_code s5 = entry_code s3"
    by (simp_all add: s5_def s4_def f3 f2 f1) (simp add: list_append_def list_insert_before_eq f3 f2 f1)
  moreover have "new_thread p fn arg s5"
    using c3 f2 by (simp add: new_thread_def kernel_thread_entry_def at_home_def t5 f3)
  moreover have "threads s5 r = threads s r" if "r \<noteq> p" for r
    using that o2 by (simp add: t5 f3 own_page_def f1)
  moreover have "only_threads s s5"
  proof -
    have "only_threads s s1" unfolding u(2) by (rule only_threads_trans [OF only_threads_pages [OF u(1)] only_threads_clear])
    then have "only_threads s s2" using only_threads_trans only_threads_own [OF o2] by blast
    then show ?thesis unfolding s5_def s4_def s3_def using only_threads_create only_threads_append only_threads_trans by metis
  qed
  moreover have "mem s5 a = mem s1 a" if "a \<notin> span p 4096" for a
    using Thread_create_mem [OF s2(3) that, of fn arg] by (simp add: t5 s3_def f2)
  moreover have "pt s5 = pt s1"
    by (simp add: s5_def s4_def s3_def) (simp add: list_append_def list_insert_before_eq Thread_create_def Let_def upd_thread_def f2)
  ultimately show ?thesis using s2 by (simp add: f3 f1)
qed

section \<open>The first pages\<close>

text \<open>\<open>page_at_hand p s\<close>: the next kernel page will be \<open>p\<close>, since the first clear bit of the
  kernel's addresses stands for it, its page table is there, and a physical page is free.\<close>

definition page_at_hand :: "u32 \<Rightarrow> 'a mstate_scheme \<Rightarrow> bool" where
  "page_at_hand p s \<longleftrightarrow>
     (let vb = vaddr_bitmap (kernel_vaddr s); pb = pool_bits (kernel_pool s) s
      in (\<exists>k < bm_size vb. \<not> bm_bit (mem s) vb k \<and> (\<forall>j < k. bm_bit (mem s) vb j) \<and>
            p = vaddr_start (kernel_vaddr s) + of_nat k * 4096) \<and>
         (\<exists>n < bm_size pb. \<not> bm_bit (mem s) pb n) \<and>
         bm_size vb \<le> 2 ^ 20 \<and> pool_ok (kernel_pool s) s \<and> present p 1 (pt s) \<and> below_tables p 1 \<and>
         apart vb (bm_size vb + 1) pb \<and> p \<noteq> NULL)"

definition bitmap_space :: "'a mstate_scheme \<Rightarrow> u32 set" where
  "bitmap_space s = bitmap_span (vaddr_bitmap (kernel_vaddr s)) \<union> bitmap_span (pool_bits (kernel_pool s) s)"

lemma bm_bit_space:
  assumes "k < bm_size b" "\<And>a. a \<in> bitmap_span b \<Longrightarrow> m' a = m a"
  shows "bm_bit m' b k = bm_bit m b k"
proof -
  have "bitmap_bits b + of_nat (k div 8) \<in> bitmap_span b"
    unfolding bitmap_span_def by (rule in_spanI) (use assms(1) in \<open>simp add: bm_size_def\<close>)
  then show ?thesis using assms(2) by (simp add: bm_bit_def)
qed

lemma page_at_hand_get:
  assumes "page_at_hand p s"
  shows "\<exists>s1. get_kernel_pages 1 s = Inr (p, s1)"
proof -
  let ?vb = "vaddr_bitmap (kernel_vaddr s)" and ?pb = "pool_bits (kernel_pool s) s"
  note h = assms [unfolded page_at_hand_def Let_def]
  obtain k where k: "k < bm_size ?vb" "\<not> bm_bit (mem s) ?vb k" "\<forall>j < k. bm_bit (mem s) ?vb j"
    "p = vaddr_start (kernel_vaddr s) + of_nat k * 4096"
    using h by blast
  have "List.find (\<lambda>n. \<not> bm_bit (mem s) ?vb n) [0..<bm_size ?vb] = Some k"
    unfolding find_Some_iff using k(1-3) by (intro exI [of _ k]) auto
  then have scan: "bitmap_scan (mem s) (vaddr_bitmap (va_of PF_KERNEL s)) 1 = Inr (of_nat k)"
    by (simp add: bitmap_scan_one va_of_def)
  have "0 < bm.free_count ?pb (mem s)" using h unfolding bm.free_count_def by (subst card_gt_0_iff) auto
  then have "\<exists>s1. malloc_pages PF_KERNEL 1 s = Inr (p, s1)"
    using h k(4) by (intro malloc_pages_returns [OF scan]) (simp_all add: va_of_def pool_of_def Suc_le_eq)
  then show ?thesis by (auto simp: get_kernel_pages_def)
qed

lemma page_at_hand_cong:
  fixes s t :: "'a mstate_scheme"
  assumes "page_at_hand p s" "pools t = pools s" "kernel_pool t = kernel_pool s" "kernel_vaddr t = kernel_vaddr s" "pt t = pt s"
    and m: "\<And>a. a \<in> bitmap_space s \<Longrightarrow> mem t a = mem s a"
  shows "page_at_hand p t"
proof -
  let ?vb = "vaddr_bitmap (kernel_vaddr s)" and ?pb = "pool_bits (kernel_pool s) s"
  have e: "pool_bits (kernel_pool s) t = ?pb" "pool_ok (kernel_pool s) t = pool_ok (kernel_pool s) s"
    using assms(2) by (simp_all add: pool_bits_def pool_ok_def)
  have vb: "bm_bit (mem t) ?vb k = bm_bit (mem s) ?vb k" if "k < bm_size ?vb" for k
    by (rule bm_bit_space [OF that]) (simp add: m bitmap_space_def)
  have pb: "bm_bit (mem t) ?pb k = bm_bit (mem s) ?pb k" if "k < bm_size ?pb" for k
    by (rule bm_bit_space [OF that]) (simp add: m bitmap_space_def)
  note h = assms(1) [unfolded page_at_hand_def Let_def]
  obtain k where k: "k < bm_size ?vb" "\<not> bm_bit (mem s) ?vb k" "\<forall>j < k. bm_bit (mem s) ?vb j"
    "p = vaddr_start (kernel_vaddr s) + of_nat k * 4096"
    using h by blast
  have "\<exists>k < bm_size ?vb. \<not> bm_bit (mem t) ?vb k \<and> (\<forall>j < k. bm_bit (mem t) ?vb j) \<and>
      p = vaddr_start (kernel_vaddr s) + of_nat k * 4096"
    by (rule exI [of _ k]) (use k vb in auto)
  moreover have "\<exists>n < bm_size ?pb. \<not> bm_bit (mem t) ?pb n" using h pb by blast
  ultimately show ?thesis using h unfolding page_at_hand_def Let_def assms(3-5) e by blast
qed

text \<open>The page may be anywhere, but it and the bitmaps are all the memory that changes.\<close>

lemma kernel_page_mem:
  assumes h: "page_at_hand p s" "get_kernel_pages 1 s = Inr (p, s')" and a: "a \<notin> bitmap_space s" "a \<notin> span p 4096"
  shows "mem s' a = mem s a"
proof -
  let ?vb = "vaddr_bitmap (kernel_vaddr s)" and ?pb = "pool_bits (kernel_pool s) s"
  note i = h(1) [unfolded page_at_hand_def Let_def]
  obtain u where m: "malloc_pages PF_KERNEL 1 s = Inr (p, u)" and s': "s' = clear_range p (1 * 4096) u"
    using h(2) i by (auto simp: get_kernel_pages_def res_iffs)
  have nz: "p \<noteq> NULL" using i by blast
  obtain k d w where sc: "bitmap_scan (mem s) ?vb 1 = Inr k"
    and w: "alloc_physical_pages (kernel_pool s) (s\<lparr>mem := set_bit_mem ?vb (unat k) True (mem s)\<rparr>) = Inr (d, w)"
    and r: "u = w \<or> insert_page_table p d w = Inr u"
    using m nz by (auto simp: malloc_pages_def get_virtual_pages_def Let_def res_iffs on_mem_def pool_of_def bitmap_set_eq split: if_splits)
  let ?t = "s\<lparr>mem := set_bit_mem ?vb (unat k) True (mem s)\<rparr>"
  have "unat k < bm_size ?vb" using bitmap_scan_run(1) [OF sc] i by simp
  then have "bitmap_bits ?vb + of_nat (unat k div 8) \<in> bitmap_span ?vb"
    unfolding bitmap_span_def by (intro in_spanI) (simp add: bm_size_def)
  then have "a \<noteq> bitmap_bits ?vb + of_nat (unat k div 8)" using a(1) by (metis UnCI bitmap_space_def)
  then have mt: "mem ?t a = mem s a" by (simp add: set_bit_mem_other)
  have ok: "pool_ok (kernel_pool ?t) ?t" "pool_bits (kernel_pool ?t) ?t = ?pb" using i by (simp_all add: pool_ok_def pool_bits_def)

  have mw: "mem w a = mem ?t a" using alloc_mem [OF _ w, of a] ok a(1) by (simp add: bitmap_space_def)
  have fw: "pools w = pools s" "kernel_pool w = kernel_pool s"
    using only_locks_pools [OF only_locks_pages [OF alloc_pages [OF w]]] by simp_all
  have "mem u a = mem w a"
    using r
  proof
    assume "insert_page_table p d w = Inr u"
    then show ?thesis
      using a(1) ok by (intro insert_mem [of w p d u]) (simp_all add: fw bitmap_space_def pool_ok_def pool_bits_def)
  qed simp
  moreover have "\<not> a - p < 4096" using a(2) in_spanI [of "unat (a - p)" 4096 p] by (auto simp: word_less_nat_alt)
  ultimately show ?thesis using mw mt by (simp add: s' mem_clear_range)
qed

lemma only_threads_fields:
  fixes s s' :: "'a tstate_scheme"
  assumes "only_threads s s'"
  shows "regs s' = regs s" "ready_list s' = ready_list s" "all_list s' = all_list s" "idle_thread s' = idle_thread s"
    "main_thread s' = main_thread s" "running_thread s' = running_thread s" "entry_code s' = entry_code s" "eflags s' = eflags s"
  unfolding running_thread_def by (subst assms [unfolded only_threads_def], simp)+

lemma ready_last_queueable: "ready s (q @ [p]) \<Longrightarrow> queueable s p"
  unfolding ready_def queueable_def holds_def using dlist_slots [of "entries s" "ready_list s"] by auto

lemma sched_inv_new:
  assumes inv: "sched_inv T st s q" and p: "p \<notin> T" "ready s' (q @ [p])" "at_home s' p" "status (threads s' p) = TASK_READY"
    and o: "only_threads s s'" "\<And>r. r \<noteq> p \<Longrightarrow> threads s' r = threads s r"
  shows "sched_inv (insert p T) st s' (q @ [p])"
proof -
  note f = only_threads_fields [OF o(1)] and i = inv [unfolded sched_inv_def]
  have "r \<noteq> p" if "r \<in> T" for r using that p(1) by blast
  then have t: "threads s' r = threads s r" if "r \<in> T" for r using that o(2) by blast
  have "queueable s' r" if "r \<in> insert p T" for r
    using that i ready_last_queueable [OF p(2)] by (auto simp: queueable_def f)
  moreover have "running_thread s \<in> T" using i by blast
  ultimately show ?thesis using i p t unfolding sched_inv_def f by (auto simp: at_home_def)
qed

lemma thread_start_inv:
  fixes s :: "'a mstate_scheme"
  assumes g: "get_kernel_pages 1 s = Inr (p, s1)" "p \<noteq> NULL" "p AND 0xfffff000 = p"
    and name: "cstring (mem s1) name cs" "length cs < 16"
    and l: "lists_apart p s q al"
    and inv: "sched_inv T st s q" "p \<notin> T" "p \<noteq> main_thread s"
  shows "\<exists>s'. thread_start name prio fn arg s = Inr (p, s') \<and> sched_inv (insert p T) st s' (q @ [p]) \<and>
    holds (all_list s) s' (al @ [all_list_tag p]) \<and> new_thread p fn arg s' \<and> pgdir (threads s' p) = - 1 \<and> only_threads s s'"
proof -
  obtain s' where s': "thread_start name prio fn arg s = Inr (p, s')" "ready s' (q @ [p])"
    "holds (all_list s) s' (al @ [all_list_tag p])" "new_thread p fn arg s'" "pgdir (threads s' p) = - 1"
    "status (threads s' p) = TASK_READY" "\<And>r. r \<noteq> p \<Longrightarrow> threads s' r = threads s r" "only_threads s s'"
    using thread_start_eq [OF g name l, of prio fn arg] inv(3) by auto
  have "sched_inv (insert p T) st s' (q @ [p])"
    by (rule sched_inv_new [OF inv(1,2) s'(2) _ s'(6,8,7)]) (use s'(4) in \<open>simp_all add: new_thread_def\<close>)
  then show ?thesis using s' by blast
qed

section \<open>The first threads\<close>

text \<open>What \<^verbatim>\<open>kthread_init\<close> needs: it runs in the page \<open>r\<close>, the next page is \<open>p\<close>, and
  the lists, the screen, the messages and the two pages are apart.\<close>

definition kthread_texts :: "string list" where
  "kthread_texts = [line ''kthread_init start'', line ''kthread_init done'', ''main'', ''idle'']"

definition kthread_ready :: "u32 \<Rightarrow> u32 \<Rightarrow> 'a mstate_scheme \<Rightarrow> bool" where
  "kthread_ready r p s \<longleftrightarrow>
     screen_ok s \<and> running_thread s = r \<and> page_at_hand p s \<and> p AND 0xfffff000 = p \<and> p \<noteq> r \<and>
     (\<forall>m \<in> set kthread_texts. literal s m \<and> span (lit s m) (Suc (length m)) \<inter> (bitmap_space s \<union> span p 4096) = {}) \<and>
     vram (crt_buf s) \<inter> (bitmap_space s \<union> span p 4096) = {} \<and>
     distinct [ready_list s, tailer (ready_list s), all_list s, tailer (all_list s)] \<and>
     (\<forall>e \<in> {ready_list s, tailer (ready_list s), all_list s, tailer (all_list s)}. 4096 \<le> e - r \<and> 4096 \<le> e - p) \<and>
     4096 \<le> all_list_tag r - p \<and> all_list_tag r \<notin> {ready_list s, tailer (ready_list s), all_list s, tailer (all_list s)}"

lemma Make_Main_Thread_eq:
  fixes s :: "'a ostate_scheme"
  assumes r: "running_thread s = r" and h: "ready s []" "holds (all_list s) s []"
    and name: "cstring (mem s) (lit s ''main'') cs" "length cs < 16"
    and far: "\<forall>e \<in> set (nodes (ready_list s) []) \<union> set (nodes (all_list s) []). 4096 \<le> e - r"
    and apart: "set (nodes (ready_list s) []) \<inter> set (nodes (all_list s) []) = {}"
  shows "\<exists>s'. Make_Main_Thread s = Inr s' \<and> s' = s\<lparr>main_thread := r, entries := entries s', threads := threads s'\<rparr> \<and>
    ready s' [] \<and> holds (all_list s) s' [all_list_tag r] \<and> status (threads s' r) = TASK_RUNNING"
proof -
  let ?t = "s\<lparr>main_thread := r\<rparr>"
  obtain u where u: "Thread_init r (lit s ''main'') 31 ?t = Inr u" "status (threads u r) = TASK_RUNNING"
    using Thread_init_eq [of ?t "lit s ''main''" cs r 31] name by auto
  note o = Thread_init_page [OF u(1)]
  note f = own_page_fields [OF o]
  have l: "holds (ready_list s) u []" "holds (all_list s) u []"
    using h far own_page_holds [OF o] by (auto simp: ready_def holds_def)
  have tag: "all_list_tag r - r = 100" by (simp add: all_list_tag_def)
  have n: "all_list_tag r \<notin> set (nodes (ready_list s) []) \<union> set (nodes (all_list s) [])"
  proof
    assume "all_list_tag r \<in> set (nodes (ready_list s) []) \<union> set (nodes (all_list s) [])"
    then have "4096 \<le> all_list_tag r - r" using far by blast
    then show False by (simp add: tag)
  qed
  then have sl: "slot (ready_list s) (all_list_tag r)" "slot (all_list s) (all_list_tag r)" by (simp_all add: set_nodes)
  define s' where "s' = list_append (all_list s) (all_list_tag r) u"
  have "Make_Main_Thread s = Inr s'"
    using u(1) append_new_eq [OF l(2), of "all_list_tag r"] r f by (simp add: Make_Main_Thread_def Let_def s'_def)
  moreover have "holds (all_list s) s' ([] @ [all_list_tag r])"
    unfolding s'_def by (rule holds_append [OF l(2)]) (use sl in simp_all)
  moreover have "holds (ready_list s) s' []"
    unfolding s'_def by (rule append_frame [OF l(2,1)]) (use sl apart in \<open>auto simp: set_nodes\<close>)
  moreover have "u = ?t\<lparr>entries := entries u, threads := threads u\<rparr>" using o unfolding own_page_def by blast
  then have "s' = s\<lparr>main_thread := r, entries := entries s', threads := threads s'\<rparr>"
    unfolding s'_def list_append_def list_insert_before_eq by (rule ssubst) simp
  ultimately show ?thesis using u(2) f by (auto simp: ready_def s'_def)
qed

lemma sched_inv_frame:
  fixes s s' :: "'a ostate_scheme"
  assumes "console_frame s s'" "sched_inv T st s q"
  shows "sched_inv T st s' q"
  using assms unfolding console_frame_def
  by (auto simp: sched_inv_def ready_def holds_def queueable_def running_thread_def at_home_def)

lemma new_thread_frame:
  fixes s s' :: "'a ostate_scheme"
  assumes "console_frame s s'" "new_thread p fn arg s" "span p 4096 \<inter> vram (crt_buf s) = {}"
    "ctx_esp (context_of (threads s p)) = p + 4008"
  shows "new_thread p fn arg s'"
proof -
  have "read32 (mem s') a = read32 (mem s) a" if "a = p + 4012 \<or> a = p + 4016" for a
  proof (rule read32_cong)
    fix x assume x: "x \<in> span a 4"
    have "span (p + of_nat 4012) 4 \<subseteq> span p 4096" "span (p + of_nat 4016) 4 \<subseteq> span p 4096" by (rule span_shift; simp)+
    then have "x \<in> span p 4096" using x that by auto
    then have "x \<notin> vram (crt_buf s)" using assms(3) by blast
    then show "mem s' x = mem s x" by (rule frame_fields(2) [OF assms(1)])
  qed
  moreover have "threads s' = threads s" "entry_code s' = entry_code s" using assms(1) by (auto simp: console_frame_def)
  ultimately show ?thesis
    using assms(2,4) by (simp add: new_thread_def at_home_def kernel_thread_entry_def)
qed

text \<open>The state in which \<^verbatim>\<open>Make_Main_Thread\<close> leaves the system.\<close>

definition main_made :: "u32 \<Rightarrow> 'a ostate_scheme \<Rightarrow> 'a ostate_scheme \<Rightarrow> bool" where
  "main_made r s v \<longleftrightarrow>
     v = s\<lparr>main_thread := r, entries := entries v, threads := threads v, mem := mem v, crt_pos := crt_pos v, port_writes := port_writes v\<rparr> \<and>
     ready v [] \<and> holds (all_list s) v [all_list_tag r] \<and> status (threads v r) = TASK_RUNNING \<and> screen_ok v \<and>
     (\<forall>a. a \<notin> vram (crt_buf s) \<longrightarrow> mem v a = mem s a)"

lemma main_made_rec:
  fixes v :: "'a ostate_scheme"
  shows "v = s\<lparr>main_thread := r, entries := h, threads := t, mem := m, crt_pos := c, port_writes := w\<rparr> \<Longrightarrow>
    v = s\<lparr>main_thread := r, entries := entries v, threads := threads v, mem := mem v, crt_pos := crt_pos v, port_writes := port_writes v\<rparr>"
  by simp

lemma main_made_fields:
  fixes s v :: "'a pstate_scheme"
  assumes "main_made r s v"
  shows "ready_list v = ready_list s" "all_list v = all_list s" "regs v = regs s" "lit v = lit s" "main_thread v = r"
    "pools v = pools s" "kernel_pool v = kernel_pool s" "kernel_vaddr v = kernel_vaddr s" "pt v = pt s" "crt_buf v = crt_buf s"
    "idle_at v = idle_at s" "eflags v = eflags s" "running_thread v = running_thread s"
  unfolding running_thread_def by (subst assms [unfolded main_made_def, THEN conjunct1], simp)+

lemma lists_made:
  assumes "distinct [ready_list t, tailer (ready_list t), all_list t, tailer (all_list t)]"
  shows "ready (list_init (all_list t) (list_init (ready_list t) t)) []"
    "holds (all_list t) (list_init (all_list t) (list_init (ready_list t) t)) []"
proof -
  let ?u = "list_init (all_list t) (list_init (ready_list t) t)"
  show "holds (all_list t) ?u []" by (rule holds_init)
  have "dlist (entries (list_init (ready_list t) t)) (ready_list t) []" using holds_init [of "ready_list t" t] by (simp add: holds_def)
  then have "dlist (entries ?u) (ready_list t) []"
    by (rule dlist_frame) (use assms in \<open>auto simp: list_init_eq init_heap_def nodes_def upd_next_def upd_prev_def\<close>)
  then show "ready ?u []" by (simp add: ready_def holds_def list_init_eq)
qed

lemma kthread_texts_ok:
  assumes "kthread_ready r p s" "m \<in> set kthread_texts"
  shows "literal s m" "span (lit s m) (Suc (length m)) \<inter> (bitmap_space s \<union> span p 4096) = {}"
  using assms unfolding kthread_ready_def by blast+

lemma kthread_texts_in:
  "line ''kthread_init start'' \<in> set kthread_texts" "line ''kthread_init done'' \<in> set kthread_texts"
  "''main'' \<in> set kthread_texts" "''idle'' \<in> set kthread_texts"
  by (simp_all add: kthread_texts_def)

lemma kthread_main:
  fixes s :: "'a pstate_scheme"
  assumes "kthread_ready r p s"
  shows "\<exists>t v. say (line ''kthread_init start'') s = Inr t \<and> main_made r s v \<and>
    Make_Main_Thread (list_init (all_list t) (list_init (ready_list t) t)) = Inr v"
proof -
  note h = assms [unfolded kthread_ready_def]
  note tx = kthread_texts_ok [OF assms]
  obtain t where t: "say (line ''kthread_init start'') s = Inr t" "screen_ok t" "console_frame s t"
    "\<And>m. literal s m \<Longrightarrow> literal t m"
    using say_frame [of s "line ''kthread_init start''"] h tx(1) [OF kthread_texts_in(1)] by blast
  note ft = frame_fields [OF t(3)]
  have gt: "ready_list t = ready_list s" "all_list t = all_list s" using t(3) by (auto simp: console_frame_def)
  define u where "u = list_init (all_list t) (list_init (ready_list t) t)"
  have u: "u = t\<lparr>entries := entries u\<rparr>" by (simp add: u_def list_init_eq)
  have gu: "ready_list u = ready_list s" "all_list u = all_list s" "running_thread u = r" "lit u = lit s" "mem u = mem t"
    using h ft gt by (subst u, simp add: running_thread_def)+
  have d: "distinct [ready_list s, tailer (ready_list s), all_list s, tailer (all_list s)]" using h by blast
  have hu: "ready u []" "holds (all_list s) u []" using lists_made [of t] d by (simp_all add: u_def gt)
  have "cstring (mem u) (lit u ''main'') (map of_char ''main'')"
    using t(4) [OF tx(1) [OF kthread_texts_in(3)]] ft by (simp add: literal_def gu)
  from Make_Main_Thread_eq [OF gu(3) hu(1) _ this] obtain v where v: "Make_Main_Thread u = Inr v"
    "v = u\<lparr>main_thread := r, entries := entries v, threads := threads v\<rparr>"
    "ready v []" "holds (all_list s) v [all_list_tag r]" "status (threads v r) = TASK_RUNNING"
    using hu(2) h by (auto simp: gu nodes_def)
  obtain m c w where "t = s\<lparr>mem := m, crt_pos := c, port_writes := w\<rparr>" using t(3) by (auto simp: console_frame_def)
  then have "v = s\<lparr>main_thread := r, entries := entries v, threads := threads v, mem := m, crt_pos := c, port_writes := w\<rparr>"
    by (subst v(2), subst u) simp
  note e = main_made_rec [OF this]
  have "mem v = mem t" "screen_ok v = screen_ok t" by (subst v(2), subst u, simp add: screen_ok_def)+
  then have "main_made r s v" unfolding main_made_def using v(3-5) t(2) ft(2) e by simp
  then show ?thesis using t(1) v(1) unfolding u_def by blast
qed

lemma kthread_idle:
  fixes s v :: "'a pstate_scheme"
  assumes k: "kthread_ready r p s" and m: "main_made r s v"
  shows "\<exists>x. thread_start (lit v ''idle'') 10 (idle_at v) NULL v = Inr (p, x) \<and> only_threads v x \<and>
    sched_inv {r, p} TASK_RUNNING (x\<lparr>idle_thread := p\<rparr>) [p] \<and> holds (all_list s) x [all_list_tag r, all_list_tag p] \<and>
    new_thread p (idle_at s) NULL x \<and>
    (\<forall>msg \<in> set kthread_texts. \<forall>a \<in> span (lit s msg) (Suc (length msg)). mem x a = mem s a) \<and>
    (\<exists>w. get_kernel_pages 1 v = Inr (p, w) \<and> pt x = pt w \<and> (\<forall>a. a \<notin> span p 4096 \<longrightarrow> mem x a = mem w a))"
proof -
  note h = k [unfolded kthread_ready_def] and gv = main_made_fields [OF m] and v = m [unfolded main_made_def, THEN conjunct2]
  let ?keep = "bitmap_space s \<union> span p 4096"
  have kept: "mem v a = mem s a" if "a \<in> bitmap_space s" for a using that h v by blast
  have "page_at_hand p s" using h by blast
  then have pv: "page_at_hand p v" by (rule page_at_hand_cong) (simp_all add: gv kept)
  have bv: "bitmap_space v = bitmap_space s" by (simp add: bitmap_space_def pool_bits_def gv)
  obtain w where w: "get_kernel_pages 1 v = Inr (p, w)" using page_at_hand_get [OF pv] by blast
  have mt: "mem w a = mem s a" "a \<notin> span p 4096" if "msg \<in> set kthread_texts" "a \<in> span (lit s msg) (Suc (length msg))" for msg a
  proof -
    have a: "a \<notin> ?keep" "a \<notin> vram (crt_buf s)" using kthread_texts_ok [OF k that(1)] that(2) by (auto simp: literal_def)
    then show "mem w a = mem s a" "a \<notin> span p 4096" using kernel_page_mem [OF pv w, of a] v by (auto simp: bv)
  qed
  have "cstring (mem s) (lit s ''idle'') (map of_char ''idle'')"
    using kthread_texts_ok(1) [OF k kthread_texts_in(4)] by (simp add: literal_def)
  then have li: "cstring (mem w) (lit v ''idle'') (map of_char ''idle'')"
    using cstring_cong [of "lit s ''idle''" "map of_char ''idle''" "mem w" "mem s"] mt(1) [OF kthread_texts_in(4)] by (simp add: gv)
  have la: "lists_apart p v [] [all_list_tag r]"
    unfolding lists_apart_def gv using v h by (auto simp: nodes_def)
  have nz: "p \<noteq> NULL" "p AND 0xfffff000 = p" "r \<noteq> p" using h by (auto simp: page_at_hand_def Let_def)
  have ne: "length (map of_char ''idle'' :: u8 list) < 16" "p \<noteq> main_thread v" using nz by (auto simp: gv)
  obtain x where x: "thread_start (lit v ''idle'') 10 (idle_at s) NULL v = Inr (p, x)" "ready x ([] @ [p])"
    "holds (all_list s) x ([all_list_tag r] @ [all_list_tag p])" "new_thread p (idle_at s) NULL x" "status (threads x p) = TASK_READY"
    "threads x r = threads v r" "only_threads v x" "\<And>a. a \<notin> span p 4096 \<Longrightarrow> mem x a = mem w a" "pt x = pt w"
    using thread_start_eq [OF w nz(1,2) li ne(1) la, of 10 "idle_at s" NULL] nz(3) ne(2) unfolding gv(2) by auto
  note fx = only_threads_fields [OF x(7)]
  have tag: "general_tag r - r = 92" by (simp add: general_tag_def)
  have "general_tag r \<notin> {ready_list s, tailer (ready_list s)}"
  proof
    assume "general_tag r \<in> {ready_list s, tailer (ready_list s)}"
    then have "4096 \<le> general_tag r - r" using h by blast
    then show False by (simp add: tag)
  qed
  then have "queueable x r" by (simp add: queueable_def slot_def fx gv)
  moreover have "running_thread x = r" using h by (simp add: fx(6) gv)
  ultimately have "sched_inv {r, p} TASK_RUNNING (x\<lparr>idle_thread := p\<rparr>) [p]"
    using x(2,4-6) v nz(3) ready_last_queueable [OF x(2)]
    by (auto simp: sched_inv_def ready_def holds_def queueable_def running_thread_def at_home_def new_thread_def)
  moreover have "mem x a = mem s a" if "msg \<in> set kthread_texts" "a \<in> span (lit s msg) (Suc (length msg))" for msg a
    using mt [OF that] x(8) by simp
  moreover have "\<exists>w. get_kernel_pages 1 v = Inr (p, w) \<and> pt x = pt w \<and> (\<forall>a. a \<notin> span p 4096 \<longrightarrow> mem x a = mem w a)"
    using w x(8,9) by blast
  ultimately show ?thesis using x(1,3,4,7) by (simp add: gv)
qed

text \<open>What \<^verbatim>\<open>kthread_init\<close> may change.\<close>

definition kthread_frame :: "'a ostate_scheme \<Rightarrow> 'a ostate_scheme \<Rightarrow> bool" where
  "kthread_frame s s' \<longleftrightarrow>
     s' = s\<lparr>main_thread := main_thread s', idle_thread := idle_thread s', entries := entries s', threads := threads s', mem := mem s',
       pt := pt s', crt_pos := crt_pos s', port_writes := port_writes s'\<rparr>"

lemma kthread_frame_steps:
  assumes v: "main_made r s v" and x: "only_threads v x" and z: "console_frame (x\<lparr>idle_thread := p\<rparr>) z"
  shows "kthread_frame s z"
proof -
  obtain m c w where "z = x\<lparr>idle_thread := p, mem := m, crt_pos := c, port_writes := w\<rparr>"
    using z unfolding console_frame_def by auto
  then have "z = s\<lparr>main_thread := r, idle_thread := p, entries := entries x, threads := threads x, mem := m,
       pt := pt x, crt_pos := c, port_writes := w\<rparr>"
    by (subst (asm) x [unfolded only_threads_def], subst (asm) v [unfolded main_made_def, THEN conjunct1]) simp
  then show ?thesis unfolding kthread_frame_def by simp
qed

lemma kthread_init_eq:
  fixes s :: "'a pstate_scheme"
  assumes k: "kthread_ready r p s"
  shows "\<exists>s'. kthread_init s = Inr s' \<and> sched_inv {r, p} TASK_RUNNING s' [p] \<and> running_thread s' = r \<and>
    main_thread s' = r \<and> idle_thread s' = p \<and> holds (all_list s) s' [all_list_tag r, all_list_tag p] \<and>
    new_thread p (idle_at s) NULL s' \<and> kthread_frame s s' \<and>
    (\<exists>v w. main_made r s v \<and> get_kernel_pages 1 v = Inr (p, w) \<and> pt s' = pt w \<and>
       (\<forall>a. a \<notin> span p 4096 \<union> vram (crt_buf s) \<longrightarrow> mem s' a = mem w a))"
proof -
  obtain t v where t: "say (line ''kthread_init start'') s = Inr t" "main_made r s v"
    "Make_Main_Thread (list_init (all_list t) (list_init (ready_list t) t)) = Inr v"
    using kthread_main [OF k] by blast
  note h = k [unfolded kthread_ready_def] and gv = main_made_fields [OF t(2)] and v = t(2) [unfolded main_made_def, THEN conjunct2]
  obtain x where x: "thread_start (lit v ''idle'') 10 (idle_at v) NULL v = Inr (p, x)" "only_threads v x"
    "sched_inv {r, p} TASK_RUNNING (x\<lparr>idle_thread := p\<rparr>) [p]" "holds (all_list s) x [all_list_tag r, all_list_tag p]"
    "new_thread p (idle_at s) NULL x"
    "\<And>msg a. msg \<in> set kthread_texts \<Longrightarrow> a \<in> span (lit s msg) (Suc (length msg)) \<Longrightarrow> mem x a = mem s a"
    and pg: "\<exists>w. get_kernel_pages 1 v = Inr (p, w) \<and> pt x = pt w \<and> (\<forall>a. a \<notin> span p 4096 \<longrightarrow> mem x a = mem w a)"
    using kthread_idle [OF k t(2)] by blast
  note fx = only_threads_fields [OF x(2)]
  let ?y = "x\<lparr>idle_thread := p\<rparr>"
  have cx: "lit x = lit s" "crt_buf x = crt_buf s" "crt_pos x = crt_pos v"
    by (subst x(2) [unfolded only_threads_def], simp add: gv)+
  have ly: "literal ?y (line ''kthread_init done'')"
    by (rule literal_cong [OF kthread_texts_ok(1) [OF k kthread_texts_in(2)]])
      (use x(6) [OF kthread_texts_in(2)] in \<open>simp_all add: cx\<close>)
  have "screen_ok ?y" using v by (simp add: screen_ok_def cx gv)
  then obtain z where z: "say (line ''kthread_init done'') ?y = Inr z" "console_frame ?y z"
    using say_frame [OF _ ly] by blast
  have "new_thread p (idle_at s) NULL z"
  proof (rule new_thread_frame [OF z(2)])
    have "new_thread p (idle_at s) NULL ?y = new_thread p (idle_at s) NULL x"
      by (simp add: new_thread_def at_home_def kernel_thread_entry_def)
    then show "new_thread p (idle_at s) NULL ?y" using x(5) by (simp only:)
    show "span p 4096 \<inter> vram (crt_buf ?y) = {}" using h by (auto simp: cx)
    show "ctx_esp (context_of (threads ?y p)) = p + 4008" using x(5) by (simp add: new_thread_def)
  qed
  moreover have "kthread_init s = Inr z"
    using t(1,3) x(1) z(1) by (simp add: kthread_init_def)
  moreover have "kthread_frame s z" by (rule kthread_frame_steps [OF t(2) x(2) z(2)])
  moreover have "running_thread z = r" "main_thread z = r" "idle_thread z = p" "entries z = entries x"
    using z(2) h fx(1,5) by (auto simp: console_frame_def running_thread_def gv)
  moreover have "sched_inv {r, p} TASK_RUNNING z [p]" by (rule sched_inv_frame [OF z(2) x(3)])
  moreover have "\<exists>v w. main_made r s v \<and> get_kernel_pages 1 v = Inr (p, w) \<and> pt z = pt w \<and>
       (\<forall>a. a \<notin> span p 4096 \<union> vram (crt_buf s) \<longrightarrow> mem z a = mem w a)"
  proof -
    have "pt z = pt x" using z(2) by (auto simp: console_frame_def)
    moreover have "mem z a = mem x a" if "a \<notin> vram (crt_buf s)" for a
      using frame_fields(2) [OF z(2), of a] that by (simp add: cx)
    ultimately show ?thesis using pg t(2) by (metis UnCI)
  qed
  moreover have "holds (all_list s) z [all_list_tag r, all_list_tag p]"
    using x(4) \<open>entries z = entries x\<close> by (simp add: holds_def)
  ultimately show ?thesis by blast
qed

section \<open>Properties\<close>

lemma borrowed_directory:
  assumes "pgdir (threads s p) = - 1"
  shows "cr3 (process_activate p s) = (pt s 0xfffffffc AND 0xfffff000) + 0xfff" "tss_esp0 (process_activate p s) = p + 4096"
  using assms by (simp_all add: process_activate_def page_dir_activate_def update_tss_esp_def addr_v2p_def pte_addr_def PTE_IDX_def Let_def)

text \<open>C8. \<^verbatim>\<open>thread_start\<close> makes a thread of a fresh page: it goes to the end of the ready queue and of the list of all threads, on its
  first switch it calls its function with its argument on its own stack, and the invariant of the scheduler holds with the
  new thread among the others. But its page directory
  is \<open>- 1\<close> and not \<^verbatim>\<open>NULL\<close> (\<^verbatim>\<open>Thread_init\<close> overruns its table), so that activating it does not load the kernel's
  directory: it stays in the address space of whoever ran before.\<close>

theorem thread_start_enqueues:
  fixes s :: "'a mstate_scheme"
  assumes "get_kernel_pages 1 s = Inr (p, s1)" "p \<noteq> NULL" "p AND 0xfffff000 = p"
    and "cstring (mem s1) name cs" "length cs < 16"
    and "lists_apart p s q al" "sched_inv T st s q" "p \<notin> T" "p \<noteq> main_thread s"
  shows "\<exists>s'. thread_start name prio fn arg s = Inr (p, s') \<and> sched_inv (insert p T) st s' (q @ [p]) \<and>
    holds (all_list s) s' (al @ [all_list_tag p]) \<and> new_thread p fn arg s' \<and>
    cr3 (process_activate p s') = (pt s' 0xfffffffc AND 0xfffff000) + 0xfff"
  using thread_start_inv [OF assms, of prio fn arg] borrowed_directory by blast

definition sample_start :: mstate where
  "sample_start = list_init 0x200 sample_memory"

lemma sample_start_eq: "sample_start = sample_memory\<lparr>entries := entries sample_start\<rparr>"
  by (simp add: sample_start_def list_init_eq)

lemma sample_start_fields [simp]:
  "kernel_vaddr sample_start = kernel_vaddr sample_memory" "kernel_pool sample_start = 0xa00" "pools sample_start = pools sample_memory"
  "mem sample_start = sample_fmt" "pt sample_start w = 1" "ready_list sample_start = 0x100" "all_list sample_start = 0x200"
  "entries sample_start = init_heap 0x200 (entries sample_sched)"
proof -
  show "entries sample_start = init_heap 0x200 (entries sample_sched)"
    by (simp add: sample_start_def list_init_eq sample_memory_def ostate.defs sample_console_def sstate.defs sample_sync_def tstate.defs)
  have f: "ready_list sample_memory = 0x100" "all_list sample_memory = 0x200"
    by (simp_all add: sample_memory_def ostate.defs sample_console_def sstate.defs sample_sync_def tstate.defs sample_sched_def
        list_append_def list_init_eq list_insert_before_eq)
  show "kernel_vaddr sample_start = kernel_vaddr sample_memory" "kernel_pool sample_start = 0xa00" "pools sample_start = pools sample_memory"
    "mem sample_start = sample_fmt" "pt sample_start w = 1" "ready_list sample_start = 0x100" "all_list sample_start = 0x200"
    by (subst sample_start_eq, simp add: f)+
qed

lemma sample_start_threads:
  "threads sample_start = threads sample_sched" "regs sample_start = regs sample_sched" "idle_thread sample_start = 0x20000"
  "main_thread sample_start = 0x10000"
  by (simp_all add: sample_start_def list_init_eq sample_memory_def ostate.defs sample_console_def sstate.defs sample_sync_def
      tstate.defs sample_sched_def list_append_def list_insert_before_eq)

lemma sample_start_page: "\<exists>s1. get_kernel_pages 1 sample_start = Inr (0xc0100000, clear_range 0xc0100000 (1 * 4096) s1)"
proof -
  let ?s = sample_start
  have va: "va_of PF_KERNEL ?s = \<lparr>vaddr_bitmap = \<lparr>bitmap_len = 16, bitmap_bits = 0x5020\<rparr>, vaddr_start = 0xc0100000\<rparr>"
    by (simp add: va_of_def)
  have pb: "pool_bits 0xa00 ?s = \<lparr>bitmap_len = 16, bitmap_bits = 0x5000\<rparr>" by (simp add: pool_bits_def)
  have scan: "bitmap_scan (mem ?s) (vaddr_bitmap (va_of PF_KERNEL ?s)) 1 = Inr 0" unfolding va by (simp add: sample_scan)
  have ap: "apart \<lparr>bitmap_len = 16, bitmap_bits = 0x5020\<rparr> (128 + 1) \<lparr>bitmap_len = 16, bitmap_bits = 0x5000\<rparr>"
    by (rule sample_apart [where p = "0x5000" and i = 0 and j = 32]) simp_all
  have "0 < bm.free_count (pool_bits 0xa00 ?s) (mem ?s)"
    unfolding bm.free_count_def by (subst card_gt_0_iff) (auto simp: pb bm_size_def bm_bit_def sample_fmt_high intro!: exI [of _ 0])
  then have "\<exists>s1. malloc_pages PF_KERNEL 1 ?s = Inr (0xc0100000, s1)"
    using ap by (intro malloc_pages_returns [OF scan])
      (simp_all add: va pb pool_of_def bm_size_def present_def below_tables_def pool_ok_def Suc_le_eq)
  then show ?thesis by (auto simp: get_kernel_pages_def)
qed

lemma sample_start_lists: "lists_apart 0xc0100000 sample_start [0x30000] []"
proof -
  have "dlist (entries sample_sched) 0x100 [0x3005c]"
    using sample_sched_inv by (simp add: sched_inv_def ready_def sample_sched_fields general_tag_def holds_def)
  then have "dlist (entries sample_start) 0x100 [0x3005c]"
    by (rule dlist_frame) (auto simp: init_heap_def nodes_def tailer_def)
  moreover have "holds 0x200 sample_start []" unfolding sample_start_def by (rule holds_init)
  ultimately show ?thesis
    by (auto simp: lists_apart_def ready_def holds_def general_tag_def nodes_def tailer_def)
qed

theorem thread_start_enqueues_witness:
  "\<exists>s'. thread_start 0xc0100100 31 0xc0002000 7 sample_start = Inr (0xc0100000, s') \<and>
     sched_inv {0xc0100000, 0x10000, 0x20000, 0x30000} TASK_RUNNING s' [0x30000, 0xc0100000]"
proof -
  obtain u where u: "get_kernel_pages 1 sample_start = Inr (0xc0100000, clear_range 0xc0100000 (1 * 4096) u)"
    using sample_start_page by blast
  have c: "cstring (mem (clear_range 0xc0100000 (1 * 4096) u)) 0xc0100100 []" by (simp add: mem_clear_range)
  have "ready sample_start [0x30000]" using sample_start_lists by (simp add: lists_apart_def)
  then have inv: "sched_inv {0x10000, 0x20000, 0x30000} TASK_RUNNING sample_start [0x30000]"
    by (intro sched_inv_links [OF sample_sched_inv])
      (simp_all add: sample_sched_fields ready_def general_tag_def sample_start_threads)
  from thread_start_enqueues [OF u _ _ c _ sample_start_lists inv, of 31 "0xc0002000" 7] show ?thesis
    by (auto simp: sample_start_threads)
qed

text \<open>The scheduler starts well: \<^verbatim>\<open>kthread_init\<close> makes the running code the main thread and creates the idle
  thread, the only one in the ready queue; both are in the list of all threads, the invariant that every later scheduling
  operation keeps holds for the first time, and the idle thread will begin in its loop.\<close>

theorem kthread_init_establishes:
  fixes s :: "'a pstate_scheme"
  assumes "kthread_ready r p s"
  shows "\<exists>s'. kthread_init s = Inr s' \<and> sched_inv {r, p} TASK_RUNNING s' [p] \<and> running_thread s' = r \<and>
    main_thread s' = r \<and> idle_thread s' = p \<and> holds (all_list s) s' [all_list_tag r, all_list_tag p] \<and>
    new_thread p (idle_at s) NULL s'"
  using kthread_init_eq [OF assms] by blast

lemma sample_boot_pools:
  "pools sample_boot = pools sample_memory" "kernel_pool sample_boot = 0xa00" "user_pool sample_boot = 0xa40" "pt sample_boot w = 1"
proof -
  have "user_pool sample_memory = 0xa40" by (simp add: sample_memory_def ostate.defs)
  then show "pools sample_boot = pools sample_memory" "kernel_pool sample_boot = 0xa00" "user_pool sample_boot = 0xa40"
    "pt sample_boot w = 1"
    by (simp_all add: sample_boot_def mstate.defs)
qed

lemma sample_ide_pools:
  "pools sample_ide = pools sample_boot" "kernel_pool sample_ide = kernel_pool sample_boot"
  "user_pool sample_ide = user_pool sample_boot" "pt sample_ide = pt sample_boot"
  by (simp_all add: sample_ide_def list_init_eq dstate.defs)

definition sample_first :: pstate where
  "sample_first = fstate.extend (istate.extend (sample_ide\<lparr>mem := texts kthread_texts, lit := text_addr kthread_texts,
       all_list := 0x200, crt_pos := 0\<rparr>) \<lparr>cur_part = 0, file_table = []\<rparr>)
     \<lparr>eax = 0, fs_sel = 0, idle_at = 0xc0001600, process_start_at = 0xc0001700\<rparr>"

lemma sample_ide_kernel:
  "kernel_vaddr sample_ide = kernel_vaddr sample_memory" "crt_buf sample_ide = 0xc00b8000"
  by (simp_all add: sample_ide_def list_init_eq dstate.defs, simp_all add: sample_boot_def mstate.defs)

lemma sample_first_fields [simp]:
  "mem sample_first = texts kthread_texts" "lit sample_first = text_addr kthread_texts" "ready_list sample_first = 0x100"
  "all_list sample_first = 0x200" "crt_buf sample_first = 0xc00b8000" "crt_pos sample_first = 0"
  "pools sample_first = pools sample_memory" "kernel_pool sample_first = 0xa00" "pt sample_first w = 1"
  "kernel_vaddr sample_first = kernel_vaddr sample_memory" "running_thread sample_first = 0x10000"
  using sample_sched_fields(3)
  by (simp_all add: sample_first_def fstate.defs istate.defs sample_ide_pools sample_boot_pools sample_ide_kernel running_thread_def)

lemma texts_below: "unat x < 0x7000 \<Longrightarrow> texts msgs x = 0"
  by (simp add: texts_def Let_def)

lemma sample_first_page: "page_at_hand 0xc0100000 sample_first"
proof -
  have pb: "pool_bits 0xa00 sample_first = \<lparr>bitmap_len = 16, bitmap_bits = 0x5000\<rparr>" by (simp add: pool_bits_def)
  have "apart \<lparr>bitmap_len = 16, bitmap_bits = 0x5020\<rparr> (128 + 1) \<lparr>bitmap_len = 16, bitmap_bits = 0x5000\<rparr>"
    by (rule sample_apart [where p = "0x5000" and i = 0 and j = 32]) simp_all
  moreover have "\<not> bm_bit (texts kthread_texts) \<lparr>bitmap_len = 16, bitmap_bits = 0x5020\<rparr> 0"
    "\<not> bm_bit (texts kthread_texts) \<lparr>bitmap_len = 16, bitmap_bits = 0x5000\<rparr> 0"
    by (simp_all add: bm_bit_def texts_below)
  ultimately show ?thesis
    by (auto simp: page_at_hand_def Let_def pb bm_size_def pool_ok_def present_def below_tables_def intro!: exI [of _ 0])
qed

lemma kthread_texts_plain: "list_all plain_text kthread_texts" "length kthread_texts \<le> 100"
  by (simp_all add: kthread_texts_def plain_text_def line_def of_char_def)

lemma sample_first_ready: "kthread_ready 0x10000 0xc0100000 sample_first"
proof -
  have sp: "bitmap_space sample_first = span 0x5020 16 \<union> span 0x5000 16"
    by (simp add: bitmap_space_def bitmap_span_def pool_bits_def)
  have "literal sample_first m \<and> span (text_addr kthread_texts m) (Suc (length m)) \<inter> (bitmap_space sample_first \<union> span 0xc0100000 4096) = {}"
    if m: "m \<in> set kthread_texts" for m
  proof -
    have l: "literal sample_first m" by (rule literal_texts [OF _ _ _ kthread_texts_plain m]) simp_all
    have "plain_text m" using kthread_texts_plain(1) m by (simp add: list_all_iff)
    then have j: "Suc (length m) \<le> 64" by (simp add: plain_text_def)
    have "span b 16 \<inter> span (text_addr kthread_texts m) (Suc (length m)) = {}" if "unat b + 16 \<le> 0x7000" for b
      using that j text_addr_range [OF m kthread_texts_plain(2)] by (intro span_below) simp_all
    then have "span 0x5020 16 \<inter> span (text_addr kthread_texts m) (Suc (length m)) = {}"
      "span 0x5000 16 \<inter> span (text_addr kthread_texts m) (Suc (length m)) = {}" by simp_all
    moreover have "span (text_addr kthread_texts m) (Suc (length m)) \<inter> span 0xc0100000 4096 = {}"
      by (rule text_span [OF m kthread_texts_plain(2) j]) simp_all
    ultimately show ?thesis using l unfolding sp by blast
  qed
  moreover have "vram 0xc00b8000 \<inter> (bitmap_space sample_first \<union> span 0xc0100000 4096) = {}"
  proof -
    have "span 0x5020 16 \<inter> vram 0xc00b8000 = {}" "span 0x5000 16 \<inter> vram 0xc00b8000 = {}" "vram 0xc00b8000 \<inter> span 0xc0100000 4096 = {}"
      unfolding vram_def by (rule span_below; simp)+
    then show ?thesis unfolding sp by blast
  qed
  ultimately show ?thesis
    unfolding kthread_ready_def using sample_first_page by (simp add: screen_ok_def tailer_def all_list_tag_def)
qed

theorem kthread_init_establishes_witness:
  "\<exists>s'. kthread_init sample_first = Inr s' \<and> sched_inv {0x10000, 0xc0100000} TASK_RUNNING s' [0xc0100000]"
  using kthread_init_establishes [OF sample_first_ready] by blast

end
