(* ===== verification/Translation.thy ===== *)
theory Translation
  imports Kthreads
begin

text \<open>
  What the processor makes of the page directory and the page tables: the page walk, after the architecture manual, on
  physical memory. \<^verbatim>\<open>kernel/mem.c\<close> reads and writes the tables through the last four megabytes of the
  address space, which the last entry of the directory maps onto the tables themselves; Paging and Memory take that window for
  granted (\<open>pt\<close>). Here it is shown that the window is the tables, so that what Memory says of \<open>addr_v2p\<close> holds of the
  processor's translation.
\<close>

section \<open>The page walk\<close>

text \<open>\<open>table_word f i\<close> is the address of word \<open>i\<close> of the table in the frame that the entry \<open>f\<close> names.\<close>

definition table_word :: "u32 \<Rightarrow> u32 \<Rightarrow> u32" where
  "table_word f i = (f AND 0xfffff000) + i * 4"

definition directory_entry :: "bmem \<Rightarrow> u32 \<Rightarrow> u32 \<Rightarrow> u32" where
  "directory_entry m pd va = read32 m (table_word pd (PDE_IDX va))"

definition pte_place :: "bmem \<Rightarrow> u32 \<Rightarrow> u32 \<Rightarrow> u32" where
  "pte_place m pd va = table_word (directory_entry m pd va) (PTE_IDX va)"

definition page_walk :: "bmem \<Rightarrow> u32 \<Rightarrow> u32 \<Rightarrow> u32 option" where
  "page_walk m pd va =
     (let pde = directory_entry m pd va; pte = read32 m (pte_place m pd va)
      in if pde AND 1 = 0 \<or> pte AND 1 = 0 then None else Some ((pte AND 0xfffff000) + (va AND 0xfff)))"

text \<open>The words a program sees at the virtual addresses of the window.\<close>

definition seen_word :: "bmem \<Rightarrow> u32 \<Rightarrow> u32 \<Rightarrow> u32" where
  "seen_word m pd va = (case page_walk m pd va of Some pa \<Rightarrow> read32 m pa | None \<Rightarrow> 0)"

text \<open>The directory maps itself with its last entry.\<close>

definition self_mapped :: "bmem \<Rightarrow> u32 \<Rightarrow> bool" where
  "self_mapped m pd \<longleftrightarrow>
     (let e = read32 m (table_word pd 1023) in e AND 1 \<noteq> 0 \<and> e AND 0xfffff000 = pd AND 0xfffff000)"

section \<open>Addresses\<close>

lemma frame_mask: "(f :: u32) AND 0xfffff000 = push_bit 12 (drop_bit 12 f)"
proof -
  have e: "(0xfffff000 :: u32) = NOT (mask 12)" by (simp add: mask_eq_exp_minus_1)
  show ?thesis unfolding e by (rule bit_word_eqI) (auto simp: bit_simps)
qed

lemma unat_masked: "unat (f AND 0xfffff000) = 4096 * unat (page_of f)"
proof -
  have "unat (page_of f) * 4096 < 2 ^ 32" using page_of_le [of f] by simp
  then show ?thesis unfolding frame_mask page_of_def [symmetric]
    by (simp add: push_bit_eq_mult unat_word_ariths)
qed

lemma unat_table_word:
  assumes "unat i < 1024"
  shows "unat (table_word f i) = 4096 * unat (page_of f) + 4 * unat i"
proof -
  have i: "unat (i * 4) = 4 * unat i" using assms by (simp add: unat_word_ariths)
  have "4096 * unat (page_of f) + 4 * unat i < 2 ^ 32" using assms page_of_le [of f] by simp
  then show ?thesis unfolding table_word_def by (subst unat_add_nowrap) (simp_all add: unat_masked i)
qed

lemma unat_PDE_IDX: "unat (PDE_IDX a) = unat (page_of a) div 1024"
proof -
  have m: "(0xffc00000 :: u32) = NOT (mask 22)" by (simp add: mask_eq_exp_minus_1)
  have "PDE_IDX a = drop_bit 10 (page_of a)"
    unfolding PDE_IDX_def page_of_def m by (rule bit_word_eqI) (auto simp: bit_simps dest: bit_imp_le_length)
  then show ?thesis by (simp add: unat_drop_bit_eq drop_bit_eq_div unat_div)
qed

lemma unat_PTE_IDX: "unat (PTE_IDX a) = unat (page_of a) mod 1024"
proof -
  have m: "(0x003ff000 :: u32) = push_bit 12 (mask 10)" by (simp add: mask_eq_exp_minus_1)
  have "PTE_IDX a = take_bit 10 (page_of a)"
    unfolding PTE_IDX_def page_of_def m by (rule bit_word_eqI) (auto simp: bit_simps dest: bit_imp_le_length)
  then have "unat (PTE_IDX a) = take_bit 10 (unat (page_of a))" by (simp only: unsigned_take_bit_eq)
  then show ?thesis by (simp add: take_bit_eq_mod)
qed

lemma index_less [simp]: "unat (PDE_IDX a) < 1024" "unat (PTE_IDX a) < 1024"
proof -
  show "unat (PDE_IDX a) < 1024" using page_of_le [of a] by (simp add: unat_PDE_IDX less_mult_imp_div_less)
  show "unat (PTE_IDX a) < 1024" by (simp add: unat_PTE_IDX)
qed

text \<open>Words at different multiples of four do not overlap.\<close>

lemma aligned_apart:
  fixes a b :: u32
  assumes "4 dvd unat a" "4 dvd unat b" "a \<noteq> b"
  shows "span a 4 \<inter> span b 4 = {}"
proof -
  obtain i j where ij: "unat a = 4 * i" "unat b = 4 * j" using assms(1,2) by (auto elim!: dvdE)
  have ne: "i \<noteq> j" using assms(3) ij by (metis of_nat_unat_id)
  have l: "unat a < 2 ^ 32" "unat b < 2 ^ 32" by (rule unat_u32_less)+
  then have "i < 2 ^ 30" "j < 2 ^ 30" using ij by simp_all
  then have e: "unat a + 4 \<le> 2 ^ 32" "unat b + 4 \<le> 2 ^ 32" using ij by simp_all
  consider "i < j" | "j < i" using ne by linarith
  then show ?thesis
  proof cases
    case 1
    then show ?thesis using ij by (intro span_below [OF e(2)]) simp
  next
    case 2
    then have "span b 4 \<inter> span a 4 = {}" using ij by (intro span_below [OF e(1)]) simp
    then show ?thesis by blast
  qed
qed

lemma table_word_aligned: "unat i < 1024 \<Longrightarrow> 4 dvd unat (table_word f i)"
  by (simp add: unat_table_word dvd_add)

lemma read_write_aligned:
  assumes "4 dvd unat a" "4 dvd unat b" "a \<noteq> b"
  shows "read32 (write32 b v m) a = read32 m a"
proof (rule read32_cong)
  fix x assume x: "x \<in> span a 4"
  show "write32 b v m x = m x" by (rule write32_other) (use aligned_apart [OF assms] x in blast)
qed

lemma table_word_inj:
  assumes "unat i < 1024" "unat j < 1024"
  shows "table_word f i = table_word g j \<longleftrightarrow> page_of f = page_of g \<and> i = j"
proof
  assume "table_word f i = table_word g j"
  then have "unat (table_word f i) = unat (table_word g j)" by simp
  then have e: "4096 * unat (page_of f) + 4 * unat i = 4096 * unat (page_of g) + 4 * unat j"
    by (simp only: unat_table_word [OF assms(1)] unat_table_word [OF assms(2)])
  then have "1024 * unat (page_of f) + unat i = 1024 * unat (page_of g) + unat j" by simp
  then have "(1024 * unat (page_of f) + unat i) mod 1024 = (1024 * unat (page_of g) + unat j) mod 1024" by (rule arg_cong)
  then have "unat i = unat j" using assms by simp
  moreover from this e have "unat (page_of f) = unat (page_of g)" by simp
  ultimately show "page_of f = page_of g \<and> i = j" by (metis of_nat_unat_id)
next
  assume "page_of f = page_of g \<and> i = j"
  then show "table_word f i = table_word g j" by (simp add: table_word_def frame_mask page_of_def)
qed

section \<open>The window\<close>

lemma unat_pte_addr: "unat (pte_addr a) = 0xffc00000 + 4 * unat (page_of a)"
  using page_of_le [of a] unfolding pt_index by (subst unat_add_nowrap) (simp_all add: unat_page_word)

lemma page_of_pte_addr: "unat (page_of (pte_addr a)) = 0xffc00 + unat (PDE_IDX a)"
  using page_of_le [of a] by (simp add: unat_page_of unat_pte_addr unat_PDE_IDX)

lemma unat_inj: "unat x = unat y \<Longrightarrow> x = (y :: u32)"
  by (metis of_nat_unat_id)

lemma unat_low12: "unat (x AND 0xfff) = unat (x :: u32) mod 4096"
proof -
  have m: "(0xfff :: u32) = mask 12" by (simp add: mask_eq_exp_minus_1)
  show ?thesis unfolding m take_bit_eq_mask [symmetric] unsigned_take_bit_eq by (simp add: take_bit_eq_mod)
qed

lemma index_pte_addr [simp]:
  "PDE_IDX (pte_addr a) = 1023" "PTE_IDX (pte_addr a) = PDE_IDX a" "pte_addr a AND 0xfff = PTE_IDX a * 4"
proof -
  have "unat (PDE_IDX (pte_addr a)) = (0xffc00 + unat (PDE_IDX a)) div 1024" by (simp add: unat_PDE_IDX [of "pte_addr a"] page_of_pte_addr)
  also have "\<dots> = 1023" using index_less(1) [of a] by (intro div_nat_eqI) simp_all
  finally show "PDE_IDX (pte_addr a) = 1023" by (intro unat_inj) simp
  have "unat (PTE_IDX (pte_addr a)) = (0xffc00 + unat (PDE_IDX a)) mod 1024" by (simp add: unat_PTE_IDX [of "pte_addr a"] page_of_pte_addr)
  also have "\<dots> = unat (PDE_IDX a)" using index_less(1) [of a] by (simp add: mod_add_left_eq [symmetric])
  finally show "PTE_IDX (pte_addr a) = PDE_IDX a" by (rule unat_inj)
  have "unat (pte_addr a AND 0xfff) = unat (pte_addr a) mod 4096" by (rule unat_low12)
  also have "\<dots> = (4 * unat (page_of a) + 0xffc00 * 4096) mod 4096" by (simp add: unat_pte_addr add.commute)
  also have "\<dots> = 4 * unat (page_of a) mod (4 * 1024)" by (simp only: mod_mult_self1) simp
  also have "\<dots> = 4 * unat (PTE_IDX a)" by (simp only: unat_PTE_IDX mult_mod_right)
  also have "\<dots> = unat (PTE_IDX a * 4)" using unat_table_word [OF index_less(2), of 0 a] by (simp add: table_word_def page_of_def)
  finally show "pte_addr a AND 0xfff = PTE_IDX a * 4" by (rule unat_inj)
qed

lemma self_mapped_entry:
  assumes "self_mapped m pd"
  shows "directory_entry m pd (pte_addr va) AND 1 \<noteq> 0" "pte_place m pd (pte_addr va) = table_word pd (PDE_IDX va)"
  using assms by (simp_all add: self_mapped_def directory_entry_def pte_place_def table_word_def Let_def)

lemma walk_pte_addr:
  assumes "self_mapped m pd"
  shows "page_walk m pd (pte_addr va) = (if directory_entry m pd va AND 1 = 0 then None else Some (pte_place m pd va))"
  using self_mapped_entry [OF assms, of va]
  by (simp add: page_walk_def Let_def) (simp add: directory_entry_def pte_place_def table_word_def)

lemma walk_pde_addr:
  assumes "self_mapped m pd"
  shows "page_walk m pd (pde_addr va) = Some (table_word pd (PDE_IDX va))"
  using self_mapped_entry [OF assms, of va] walk_pte_addr [OF assms, of "pte_addr va"] by (simp add: pde_addr_pte)

text \<open>\<open>windowed D m pd t\<close>: \<open>t\<close> is what the window shows of the tables, in the part \<open>D\<close> of the directory. The kernel's
  own directory has the first megabyte twice, with one table, so that its part is the upper quarter; that of a process
  has no table twice.\<close>

definition windowed :: "u32 set \<Rightarrow> bmem \<Rightarrow> u32 \<Rightarrow> (u32 \<Rightarrow> u32) \<Rightarrow> bool" where
  "windowed D m pd t \<longleftrightarrow> self_mapped m pd \<and> 1023 \<in> D \<and>
     (\<forall>va. PDE_IDX va \<in> D \<and> page_walk m pd (pte_addr va) \<noteq> None \<longrightarrow> t (pte_addr va) = seen_word m pd (pte_addr va))"

lemma windowed_self: "windowed D m pd t \<Longrightarrow> self_mapped m pd"
  by (simp add: windowed_def)

lemma windowed_words:
  assumes "windowed D m pd t"
  shows "t (pde_addr va) = directory_entry m pd va"
    and "PDE_IDX va \<in> D \<Longrightarrow> directory_entry m pd va AND 1 \<noteq> 0 \<Longrightarrow> t (pte_addr va) = read32 m (pte_place m pd va)"
proof -
  note s = windowed_self [OF assms]
  have w: "PDE_IDX a \<in> D \<Longrightarrow> page_walk m pd (pte_addr a) \<noteq> None \<Longrightarrow> t (pte_addr a) = seen_word m pd (pte_addr a)" for a
    using assms by (simp add: windowed_def)
  show "t (pde_addr va) = directory_entry m pd va"
    using w [of "pte_addr va"] walk_pde_addr [OF s, of va] assms
    by (simp add: pde_addr_pte seen_word_def directory_entry_def windowed_def)
  show "t (pte_addr va) = read32 m (pte_place m pd va)" if "PDE_IDX va \<in> D" "directory_entry m pd va AND 1 \<noteq> 0"
    using w [of va] walk_pte_addr [OF s, of va] that by (simp add: seen_word_def)
qed

lemma windowedI:
  assumes "self_mapped m pd" "1023 \<in> D"
    and "\<And>va. PDE_IDX va \<in> D \<Longrightarrow> directory_entry m pd va AND 1 \<noteq> 0 \<Longrightarrow> t (pte_addr va) = read32 m (pte_place m pd va)"
  shows "windowed D m pd t"
  using assms walk_pte_addr [OF assms(1)] by (auto simp: windowed_def seen_word_def)

lemma walk_windowed:
  assumes "windowed D m pd (pt s)" "PDE_IDX va \<in> D"
  shows "page_walk m pd va =
    (if pt s (pde_addr va) AND 1 = 0 \<or> pt s (pte_addr va) AND 1 = 0 then None else Some (addr_v2p va s))"
  using windowed_words [OF assms(1), of va] assms(2)
  by (auto simp: page_walk_def Let_def addr_v2p_def)

section \<open>Mapping a page through the window\<close>

lemma entry_of_bits [simp]: "entry_of pa AND 0xfffff000 = pa AND 0xfffff000" "entry_of pa AND 1 = 1"
proof -
  have e: "entry_of pa = pa OR 7" by (simp add: entry_of_def or.assoc)
  have "(7 :: u32) AND 0xfffff000 = 0" "(7 :: u32) AND 1 = 1" by simp_all
  then show "entry_of pa AND 0xfffff000 = pa AND 0xfffff000" unfolding e by (simp add: bit.conj_disj_distrib2)
  show "entry_of pa AND 1 = 1" unfolding e by (rule bit_word_eqI) (auto simp: bit_simps bit_1_iff)
qed

lemma frame_of_aligned: "x AND 0xfff = 0 \<Longrightarrow> x AND 0xfffff000 = (x :: u32)"
  using entry_of_frame [of x] by simp

text \<open>The table of \<open>va\<close> serves no other entry of the directory, in the part that counts.\<close>

definition own_table :: "u32 set \<Rightarrow> bmem \<Rightarrow> u32 \<Rightarrow> u32 \<Rightarrow> bool" where
  "own_table D m pd va \<longleftrightarrow> directory_entry m pd va AND 1 \<noteq> 0 \<and> PDE_IDX va \<in> D \<and> PDE_IDX va \<noteq> 1023 \<and> 1023 \<in> D \<and>
     (\<forall>a. PDE_IDX a \<in> D \<and> directory_entry m pd a AND 1 \<noteq> 0 \<and> page_of (directory_entry m pd a) = page_of (directory_entry m pd va) \<longrightarrow>
       PDE_IDX a = PDE_IDX va)"

definition set_entry :: "u32 \<Rightarrow> u32 \<Rightarrow> u32 \<Rightarrow> bmem \<Rightarrow> bmem" where
  "set_entry pd va e m = write32 (pte_place m pd va) e m"

lemma page_eq_index: "page_of a = page_of b \<longleftrightarrow> PDE_IDX a = PDE_IDX b \<and> PTE_IDX a = PTE_IDX b"
proof
  assume i: "PDE_IDX a = PDE_IDX b \<and> PTE_IDX a = PTE_IDX b"
  have e: "unat (page_of x) = 1024 * unat (PDE_IDX x) + unat (PTE_IDX x)" for x
    by (simp add: unat_PDE_IDX unat_PTE_IDX)
  show "page_of a = page_of b" using e [of a] e [of b] i by (intro unat_inj) simp
next
  assume "page_of a = page_of b"
  then show "PDE_IDX a = PDE_IDX b \<and> PTE_IDX a = PTE_IDX b"
    by (auto intro!: unat_inj simp: unat_PDE_IDX unat_PTE_IDX)
qed

lemma own_table_self:
  assumes "self_mapped m pd" "own_table D m pd va"
  shows "page_of (directory_entry m pd va) \<noteq> page_of pd"
proof
  assume e: "page_of (directory_entry m pd va) = page_of pd"
  let ?w = "pte_addr va"
  have "directory_entry m pd ?w AND 0xfffff000 = pd AND 0xfffff000"
    using assms(1) by (simp add: self_mapped_def directory_entry_def Let_def)
  then have "page_of (directory_entry m pd ?w) = page_of pd"
    using unat_masked [of "directory_entry m pd ?w"] unat_masked [of pd] by (intro unat_inj) simp
  then have "PDE_IDX ?w \<in> D \<and> directory_entry m pd ?w AND 1 \<noteq> 0 \<and> page_of (directory_entry m pd ?w) = page_of (directory_entry m pd va)"
    using assms(2) e self_mapped_entry(1) [OF assms(1), of va] by (simp add: own_table_def)
  then have "PDE_IDX ?w = PDE_IDX va" using assms(2) unfolding own_table_def by blast
  then show False using assms(2) by (simp add: own_table_def)
qed

lemma set_entry_directory:
  assumes "self_mapped m pd" "own_table D m pd va"
  shows "directory_entry (set_entry pd va e m) pd a = directory_entry m pd a"
proof -
  have "table_word pd (PDE_IDX a) \<noteq> pte_place m pd va"
    using own_table_self [OF assms] by (simp add: pte_place_def table_word_inj)
  then show ?thesis
    by (simp add: directory_entry_def set_entry_def) (simp add: read_write_aligned table_word_aligned pte_place_def)
qed

lemma set_entry_self:
  assumes "self_mapped m pd" "own_table D m pd va"
  shows "self_mapped (set_entry pd va e m) pd"
  using set_entry_directory [OF assms, of e "pte_addr va"] assms(1)
  by (simp add: self_mapped_def directory_entry_def)

lemma set_entry_word:
  "read32 (set_entry pd va e m) (pte_place m pd a) = (if pte_place m pd a = pte_place m pd va then e else read32 m (pte_place m pd a))"
proof -
  have "4 dvd unat (pte_place m pd x)" for x by (simp add: pte_place_def table_word_aligned)
  then show ?thesis
    using read_write32 [of "pte_place m pd va" e m] by (cases "pte_place m pd a = pte_place m pd va") (simp_all add: set_entry_def read_write_aligned)
qed

text \<open>Two addresses share a page table entry: their walks go through the same word. That is so for the addresses of one
  page, and for pages in different parts of the directory when these parts have one table, as the first megabyte of the
  kernel has at \<open>0\<close> and at \<open>0xc0000000\<close>.\<close>

definition shares :: "bmem \<Rightarrow> u32 \<Rightarrow> u32 \<Rightarrow> u32 \<Rightarrow> bool" where
  "shares m pd a va \<longleftrightarrow> directory_entry m pd a AND 1 \<noteq> 0 \<and> directory_entry m pd va AND 1 \<noteq> 0 \<and> pte_place m pd a = pte_place m pd va"

lemma shares_trans: "shares m pd a b \<Longrightarrow> shares m pd a c \<Longrightarrow> shares m pd b c"
  by (simp add: shares_def)

lemma shares_in_part:
  assumes "own_table D m pd va" "PDE_IDX a \<in> D"
  shows "shares m pd a va \<longleftrightarrow> page_of a = page_of va"
  using assms by (auto simp: shares_def pte_place_def table_word_inj page_eq_index own_table_def directory_entry_def)

lemma shares_page: "own_table D m pd va \<Longrightarrow> page_of a = page_of va \<Longrightarrow> shares m pd a va"
  using shares_in_part [of D m pd va a] by (simp add: page_eq_index own_table_def)

lemma shares_set_entry:
  "self_mapped m pd \<Longrightarrow> own_table D m pd va \<Longrightarrow> shares (set_entry pd va e m) pd a b \<longleftrightarrow> shares m pd a b"
  by (simp add: shares_def pte_place_def set_entry_directory)

text \<open>One entry set: the pages that share it have the new frame, and every other page the translation it had.\<close>

lemma walk_set_entry:
  assumes "self_mapped m pd" "own_table D m pd va"
  shows "page_walk (set_entry pd va (entry_of pa) m) pd a =
    (if shares m pd a va then Some ((pa AND 0xfffff000) + (a AND 0xfff)) else page_walk m pd a)"
proof (cases "directory_entry m pd a AND 1 = 0")
  case True
  then show ?thesis by (simp add: page_walk_def set_entry_directory [OF assms] shares_def)
next
  case False
  have "pte_place (set_entry pd va (entry_of pa) m) pd a = pte_place m pd a"
    by (simp add: pte_place_def set_entry_directory [OF assms])
  then show ?thesis using False assms(2)
    by (simp add: page_walk_def Let_def set_entry_directory [OF assms] set_entry_word shares_def own_table_def)
qed

lemma windowed_set_entry:
  assumes "windowed D m pd t" "own_table D m pd va"
  shows "windowed D (set_entry pd va e m) pd (t(pte_addr va := e))"
proof -
  have s: "self_mapped m pd" using assms(1) by (simp add: windowed_def)
  show ?thesis
  proof (rule windowedI [OF set_entry_self [OF s assms(2)]])
    show "1023 \<in> D" using assms(1) by (simp add: windowed_def)
    fix a assume D: "PDE_IDX a \<in> D" and "directory_entry (set_entry pd va e m) pd a AND 1 \<noteq> 0"
    then have d: "directory_entry m pd a AND 1 \<noteq> 0" by (simp add: set_entry_directory [OF s assms(2)])
    have "pte_place (set_entry pd va e m) pd a = pte_place m pd a"
      by (simp add: pte_place_def set_entry_directory [OF s assms(2)])
    then show "(t(pte_addr va := e)) (pte_addr a) = read32 (set_entry pd va e m) (pte_place (set_entry pd va e m) pd a)"
      using windowed_words(2) [OF assms(1) D d] shares_in_part [OF assms(2) D] d assms(2)
      by (auto simp: set_entry_word pte_addr_inj shares_def own_table_def)
  qed
qed

section \<open>The interface of an address space\<close>

text \<open>What the allocator needs of the translation: a page that is mapped translates to its frame, as do those that share
  its entry, the others keep theirs, and the pages that could be mapped still can.\<close>

locale address_space =
  fixes same :: "'s \<Rightarrow> u32 \<Rightarrow> u32 \<Rightarrow> bool"
    and ok :: "'s \<Rightarrow> bool"
    and mappable :: "u32 \<Rightarrow> 's \<Rightarrow> bool"
    and translation :: "'s \<Rightarrow> u32 \<Rightarrow> u32 option"
    and map_page :: "u32 \<Rightarrow> u32 \<Rightarrow> 's \<Rightarrow> 's"
  assumes map_ok: "ok x \<Longrightarrow> mappable va x \<Longrightarrow> ok (map_page va pa x)"
    and map_mappable: "ok x \<Longrightarrow> mappable va x \<Longrightarrow> mappable a x \<Longrightarrow> mappable a (map_page va pa x)"
    and same_trans: "same x a b \<Longrightarrow> same x a c \<Longrightarrow> same x b c"
    and same_map: "ok x \<Longrightarrow> mappable va x \<Longrightarrow> same (map_page va pa x) a b \<longleftrightarrow> same x a b"
    and translation_map: "ok x \<Longrightarrow> mappable va x \<Longrightarrow> translation (map_page va pa x) a =
      (if same x a va then Some ((pa AND 0xfffff000) + (a AND 0xfff)) else translation x a)"
begin

primrec map_run :: "u32 list \<Rightarrow> u32 \<Rightarrow> 's \<Rightarrow> 's" where
  "map_run [] va x = x"
| "map_run (pa # pas) va x = map_run pas (va + 4096) (map_page va pa x)"

lemma map_run_ok:
  assumes "ok x" "\<And>i. i < length pas \<Longrightarrow> mappable (va + 4096 * of_nat i) x"
  shows "ok (map_run pas va x) \<and> (\<forall>a. mappable a x \<longrightarrow> mappable a (map_run pas va x))"
  using assms
proof (induction pas arbitrary: va x)
  case (Cons pa pas)
  have m: "mappable va x" using Cons.prems(2) [of 0] by simp
  have "mappable (va + 4096 + 4096 * of_nat i) (map_page va pa x)" if "i < length pas" for i
    using Cons.prems(2) [of "Suc i"] that map_mappable [OF Cons.prems(1) m] by (simp add: algebra_simps)
  then show ?case using Cons.IH [OF map_ok [OF Cons.prems(1) m]] map_mappable [OF Cons.prems(1) m] by simp
qed simp

lemma map_run_other:
  assumes "ok x" "\<And>i. i < length pas \<Longrightarrow> mappable (va + 4096 * of_nat i) x"
    and "\<And>i. i < length pas \<Longrightarrow> \<not> same x a (va + 4096 * of_nat i)"
  shows "translation (map_run pas va x) a = translation x a"
  using assms
proof (induction pas arbitrary: va x)
  case (Cons pa pas)
  have m: "mappable va x" "\<not> same x a va" using Cons.prems(2,3) [of 0] by simp_all
  have "mappable (va + 4096 + 4096 * of_nat i) (map_page va pa x)" "\<not> same (map_page va pa x) a (va + 4096 + 4096 * of_nat i)"
    if "i < length pas" for i
    using Cons.prems(2,3) [of "Suc i"] that map_mappable [OF Cons.prems(1) m(1)] same_map [OF Cons.prems(1) m(1)]
    by (simp_all add: algebra_simps)
  then show ?case
    using Cons.IH [OF map_ok [OF Cons.prems(1) m(1)]] translation_map [OF Cons.prems(1) m(1)] m(2) by simp
qed simp

lemma map_run_nth:
  assumes "ok x" "\<And>i. i < length pas \<Longrightarrow> mappable (va + 4096 * of_nat i) x"
    and "\<And>i j. i < j \<Longrightarrow> j < length pas \<Longrightarrow> \<not> same x (va + 4096 * of_nat i) (va + 4096 * of_nat j)" "i < length pas"
    and "same x a (va + 4096 * of_nat i)"
  shows "translation (map_run pas va x) a = Some ((pas ! i AND 0xfffff000) + (a AND 0xfff))"
  using assms
proof (induction pas arbitrary: va x i)
  case (Cons pa pas)
  note p = Cons.prems
  have m: "mappable va x" using p(2) [of 0] by simp
  have n: "mappable (va + 4096 + 4096 * of_nat j) (map_page va pa x)" if "j < length pas" for j
    using p(2) [of "Suc j"] that map_mappable [OF p(1) m] by (simp add: algebra_simps)
  note sm = same_map [OF p(1) m, of pa]
  have d: "\<not> same (map_page va pa x) (va + 4096 + 4096 * of_nat i) (va + 4096 + 4096 * of_nat j)" if "i < j" "j < length pas" for i j
    using p(3) [of "Suc i" "Suc j"] that by (simp add: sm algebra_simps)
  have d0: "\<not> same x va (va + 4096 + 4096 * of_nat j)" if "j < length pas" for j
    using p(3) [of 0 "Suc j"] that by (simp add: algebra_simps)
  note o = map_ok [OF p(1) m, of pa]
  show ?case
  proof (cases i)
    case 0
    have a: "same x a va" using 0 p(5) by simp
    have "translation (map_run pas (va + 4096) (map_page va pa x)) a = translation (map_page va pa x) a"
      by (rule map_run_other [OF o n]) (use d0 same_trans [OF a] sm in auto)
    then show ?thesis using 0 a translation_map [OF p(1) m] by simp
  next
    case (Suc j)
    then show ?thesis using Cons.IH [OF o n d, of j] p(4,5) by (simp add: sm algebra_simps)
  qed
qed simp

end

text \<open>The tables in memory and what the window shows of them; a page is mapped by a store through the window.\<close>

definition window_map :: "u32 \<Rightarrow> u32 \<Rightarrow> u32 \<Rightarrow> bmem \<times> (u32 \<Rightarrow> u32) \<Rightarrow> bmem \<times> (u32 \<Rightarrow> u32)" where
  "window_map pd va pa x = (set_entry pd va (entry_of pa) (fst x), (snd x)(pte_addr va := entry_of pa))"

lemma own_table_set:
  assumes "self_mapped m pd" "own_table D m pd va" "own_table D m pd a"
  shows "own_table D (set_entry pd va e m) pd a"
  unfolding own_table_def set_entry_directory [OF assms(1,2)] by (rule assms(3) [unfolded own_table_def])

interpretation hw: address_space "\<lambda>x. shares (fst x) pd" "\<lambda>x. windowed D (fst x) pd (snd x)" "\<lambda>va x. own_table D (fst x) pd va"
  "\<lambda>x. page_walk (fst x) pd" "window_map pd" for D pd
proof unfold_locales
  fix x :: "bmem \<times> (u32 \<Rightarrow> u32)" and a b c
  show "shares (fst x) pd a b \<Longrightarrow> shares (fst x) pd a c \<Longrightarrow> shares (fst x) pd b c" by (rule shares_trans)
next
  fix x :: "bmem \<times> (u32 \<Rightarrow> u32)" and va pa a b
  assume w: "windowed D (fst x) pd (snd x)" and o: "own_table D (fst x) pd va"
  note s = windowed_self [OF w]
  show "windowed D (fst (window_map pd va pa x)) pd (snd (window_map pd va pa x))"
    using windowed_set_entry [OF w o] by (simp add: window_map_def)
  show "own_table D (fst (window_map pd va pa x)) pd a" if "own_table D (fst x) pd a"
    using own_table_set [OF s o that] by (simp add: window_map_def)
  show "page_walk (fst (window_map pd va pa x)) pd a =
    (if shares (fst x) pd a va then Some ((pa AND 0xfffff000) + (a AND 0xfff)) else page_walk (fst x) pd a)"
    using walk_set_entry [OF s o] by (simp add: window_map_def)
  show "shares (fst (window_map pd va pa x)) pd a b \<longleftrightarrow> shares (fst x) pd a b"
    using shares_set_entry [OF s o] by (simp add: window_map_def)
qed

section \<open>Allocation on the tables\<close>

lemma run_pages:
  assumes "below_tables v n" "i < n"
  shows "unat (page_of (v + 4096 * of_nat i)) = unat (page_of v) + i"
proof -
  have b: "unat v + 4096 * n \<le> 0xffc00000" using assms(1) by (simp add: below_tables_def)
  then have "4096 * i < 2 ^ 32" "unat v + 4096 * i < 2 ^ 32" using assms(2) by simp_all
  moreover from this(1) have "unat (of_nat (4096 * i) :: u32) = 4096 * i" by (subst unat_of_nat) simp
  ultimately have "unat (v + of_nat (4096 * i)) = unat v + 4096 * i" by (subst unat_add_nowrap) simp_all
  then have "unat (v + 4096 * of_nat i) = unat v + 4096 * i" by simp
  then show ?thesis by (simp add: unat_page_of)
qed

lemma run_seen: "snd (hw.map_run pd pas va x) = map_frames pas va (snd x)"
  by (induction pas arbitrary: va x) (simp_all add: window_map_def)

lemma frame_masked:
  assumes "pool_ok p s" "n < bm_size (pool_bits p s)"
  shows "frame p s n AND 0xfffff000 = frame p s n"
  using entry_of_frame [OF frame_aligned(1) [OF assms]] by simp

lemma own_present:
  assumes "windowed D m pd t" "\<And>i. i < n \<Longrightarrow> own_table D m pd (v + 4096 * of_nat i)"
  shows "present v n t"
  using assms(2) windowed_words(1) [OF assms(1)] by (auto simp: present_def own_table_def)

text \<open>The window is the tables: with the last entry of the directory on the directory itself, the addresses that
  \<^verbatim>\<open>pde_addr\<close> and \<^verbatim>\<open>pte_addr\<close> compute for an address translate to the places of its
  directory entry and, if that is present, of its page table entry; so that a program reads and writes the tables there.\<close>

theorem window_shows_tables:
  assumes "self_mapped m pd"
  shows "page_walk m pd (pde_addr va) = Some (table_word pd (PDE_IDX va)) \<and>
    seen_word m pd (pde_addr va) = directory_entry m pd va \<and>
    (directory_entry m pd va AND 1 \<noteq> 0 \<longrightarrow>
       page_walk m pd (pte_addr va) = Some (pte_place m pd va) \<and>
       seen_word m pd (pte_addr va) = read32 m (pte_place m pd va))"
  using walk_pde_addr [OF assms] walk_pte_addr [OF assms] by (simp add: seen_word_def directory_entry_def)

text \<open>A directory with the first table of the kernel and itself.\<close>

definition sample_tables :: bmem where
  "sample_tables = write32 (table_word 0x100000 768) 0x101007 (write32 (table_word 0x100000 1023) 0x100007 (\<lambda>_. 0))"

lemma sample_tables_entry:
  "unat i < 1024 \<Longrightarrow> read32 sample_tables (table_word 0x100000 i) = (if i = 768 then 0x101007 else if i = 1023 then 0x100007 else 0)"
  unfolding sample_tables_def
  by (cases "i = 768"; cases "i = 1023")
    (simp_all add: read_write32 read_write_aligned table_word_aligned table_word_inj, simp_all add: read32_def)

lemma sample_tables_self: "self_mapped sample_tables 0x100000"
  by (simp add: self_mapped_def sample_tables_entry)

theorem window_shows_tables_witness:
  "page_walk sample_tables 0x100000 (pde_addr 0xc0100000) = Some 0x100c00 \<and>
   seen_word sample_tables 0x100000 (pte_addr 0xc0100000) = read32 sample_tables 0x101400"
  using window_shows_tables [OF sample_tables_self, of "0xc0100000"]
  by (simp add: directory_entry_def pte_place_def sample_tables_entry PDE_IDX_def PTE_IDX_def) (simp add: table_word_def)

text \<open>C3. \<^verbatim>\<open>malloc_pages\<close> maps, in the eyes of the processor: when the scan finds \<open>n\<close> free virtual
  pages, the pool has \<open>n\<close> free physical ones and the page tables are there, each serving one part of the directory, it
  returns the first virtual page. The stores through the window leave tables \<open>m'\<close> by which the \<open>n\<close> virtual pages
  translate to \<open>n\<close> different frames of the pool that were not in use and are now marked, as does every page that
  shares one of their entries; every address of the whole address space that shares none of these entries translates as
  before, and the window shows the new tables. In the part \<open>D\<close> of the directory only the new pages themselves share
  their entries. Outside it others may: under the directory of the kernel, whose entries 0 and 768 have one table
  (\<^verbatim>\<open>boot/loader.S\<close>), a page mapped at \<open>0xc0100000\<close> appears at \<open>0x00100000\<close> too.\<close>

theorem malloc_pages_translates:
  assumes "bitmap_scan (mem s) (vaddr_bitmap (va_of pf s)) n = Inr start" "0 < n"
    and "v = vaddr_start (va_of pf s) + start * 4096" "v \<noteq> NULL" "pf = PF_USER \<longrightarrow> v < 0xc0000000 - 4096"
    and "bm_size (vaddr_bitmap (va_of pf s)) \<le> 2 ^ 20" "pool_ok (pool_of pf s) s" "below_tables v (unat n)"
    and "apart (vaddr_bitmap (va_of pf s)) (bm_size (vaddr_bitmap (va_of pf s)) + unat n) (pool_bits (pool_of pf s) s)"
    and "unat n \<le> card {k. k < bm_size (pool_bits (pool_of pf s) s) \<and> \<not> bm_bit (mem s) (pool_bits (pool_of pf s) s) k}"
    and "windowed D m pd (pt s)" "\<And>i. i < unat n \<Longrightarrow> own_table D m pd (v + 4096 * of_nat i)"
  shows "\<exists>s' ns m'. malloc_pages pf n s = Inr (v, s') \<and> windowed D m' pd (pt s') \<and> length ns = unat n \<and> distinct ns \<and>
    (\<forall>k \<in> set ns. k < bm_size (pool_bits (pool_of pf s) s) \<and> \<not> bm_bit (mem s) (pool_bits (pool_of pf s) s) k) \<and>
    (\<forall>k < bm_size (pool_bits (pool_of pf s) s).
       bm_bit (mem s') (pool_bits (pool_of pf s) s) k \<longleftrightarrow> k \<in> set ns \<or> bm_bit (mem s) (pool_bits (pool_of pf s) s) k) \<and>
    (\<forall>i < unat n. \<forall>a. page_of a = page_of (v + 4096 * of_nat i) \<or> shares m pd a (v + 4096 * of_nat i) \<longrightarrow>
       page_walk m' pd a = Some (frame (pool_of pf s) s (ns ! i) + (a AND 0xfff))) \<and>
    (\<forall>a. (\<forall>i < unat n. \<not> shares m pd a (v + 4096 * of_nat i)) \<longrightarrow> page_walk m' pd a = page_walk m pd a) \<and>
    (\<forall>i < unat n. \<forall>a. PDE_IDX a \<in> D \<longrightarrow> shares m pd a (v + 4096 * of_nat i) = (page_of a = page_of (v + 4096 * of_nat i)))"
proof -
  let ?p = "pool_of pf s"
  note pr = own_present [OF assms(11,12)]
  obtain s' where s': "malloc_pages pf n s = Inr (v, s')"
    using malloc_pages_returns [OF assms(1-7) pr assms(8,9)] assms(10) by (auto simp: bm.free_count_def)
  obtain ns where ns: "length ns = unat n" "distinct ns"
      "\<forall>k \<in> set ns. k < bm_size (pool_bits ?p s) \<and> \<not> bm_bit (mem s) (pool_bits ?p s) k"
      "\<forall>k < bm_size (pool_bits ?p s). bm_bit (mem s') (pool_bits ?p s) k \<longleftrightarrow> k \<in> set ns \<or> bm_bit (mem s) (pool_bits ?p s) k"
      "pt s' = map_frames (map (frame ?p s) ns) v (pt s)"
    using malloc_pages_run [OF s' assms(4,2,6,7) pr assms(8,9)] by blast
  let ?fs = "map (frame ?p s) ns" and ?x = "(m, pt s)"
  define y where "y = hw.map_run pd ?fs v ?x"
  have o: "own_table D (fst ?x) pd (v + 4096 * of_nat i)" if "i < length ?fs" for i
    using assms(12) that ns(1) by simp
  have w: "windowed D (fst ?x) pd (snd ?x)" using assms(11) by simp
  have part: "shares m pd a (v + 4096 * of_nat i) = (page_of a = page_of (v + 4096 * of_nat i))"
    if "i < unat n" "PDE_IDX a \<in> D" for i a
    by (rule shares_in_part [OF assms(12) [OF that(1)] that(2)])
  have pages: "\<not> shares (fst ?x) pd (v + 4096 * of_nat i) (v + 4096 * of_nat j)" if "i < j" "j < length ?fs" for i j
  proof -
    have l: "i < unat n" "j < unat n" using that ns(1) by simp_all
    have "page_of (v + 4096 * of_nat i) \<noteq> page_of (v + 4096 * of_nat j)"
    proof
      assume "page_of (v + 4096 * of_nat i) = page_of (v + 4096 * of_nat j)"
      then have "unat (page_of (v + 4096 * of_nat i)) = unat (page_of (v + 4096 * of_nat j))" by (rule arg_cong)
      then show False using run_pages [OF assms(8) l(1)] run_pages [OF assms(8) l(2)] that(1) by linarith
    qed
    moreover have "PDE_IDX (v + 4096 * of_nat i) \<in> D" using assms(12) [OF l(1)] unfolding own_table_def by blast
    ultimately show ?thesis using part [OF l(2), of "v + 4096 * of_nat i"] by (simp only: fst_conv) blast
  qed
  have "windowed D (fst y) pd (pt s')"
    using hw.map_run_ok [where pas = ?fs and va = v, OF w o] run_seen [of pd ?fs v ?x] ns(5) by (simp add: y_def)
  moreover have "page_walk (fst y) pd a = Some (frame ?p s (ns ! i) + (a AND 0xfff))"
    if "i < unat n" "page_of a = page_of (v + 4096 * of_nat i) \<or> shares m pd a (v + 4096 * of_nat i)" for i a
  proof -
    have "shares m pd a (v + 4096 * of_nat i)" using that shares_page [OF assms(12)] by blast
    then show ?thesis
      using hw.map_run_nth [where pas = ?fs and va = v and i = i and a = a, OF w o pages] that(1) ns(1,3) frame_masked [OF assms(7), of "ns ! i"] by (simp add: y_def)
  qed
  moreover have "page_walk (fst y) pd a = page_walk m pd a" if "\<forall>i < unat n. \<not> shares m pd a (v + 4096 * of_nat i)" for a
    using hw.map_run_other [where pas = ?fs and va = v and a = a, OF w o] that ns(1) by (simp add: y_def)
  ultimately show ?thesis using s' ns(1-4) part
    by (intro exI [of _ s'] exI [of _ ns] exI [of _ "fst y"]) (simp del: index_less)
qed

lemma sample_tables_own: "own_table {768..1023} sample_tables 0x100000 0xc0100000"
proof -
  have i: "PDE_IDX 0xc0100000 = 768" by (simp add: PDE_IDX_def)
  have "PDE_IDX a = 768" if "directory_entry sample_tables 0x100000 a AND 1 \<noteq> 0"
    "page_of (directory_entry sample_tables 0x100000 a) = page_of 0x101007" for a
  proof (rule ccontr)
    assume n: "PDE_IDX a \<noteq> 768"
    then have "directory_entry sample_tables 0x100000 a = 0x100007"
      using that(1) by (cases "PDE_IDX a = 1023") (simp_all add: directory_entry_def sample_tables_entry)
    then show False using that(2) by (simp add: page_of_def)
  qed
  moreover have "directory_entry sample_tables 0x100000 0xc0100000 = 0x101007"
    by (simp add: directory_entry_def sample_tables_entry i)
  ultimately show ?thesis unfolding own_table_def i by simp
qed

theorem malloc_pages_translates_witness:
  "\<exists>s' k m'. malloc_pages PF_KERNEL 1 (sample_memory\<lparr>pt := seen_word sample_tables 0x100000\<rparr>) = Inr (0xc0100000, s') \<and> k < 128 \<and>
     page_walk m' 0x100000 0xc0100123 = Some (0x200123 + of_nat k * 4096)"
proof -
  let ?s = "sample_memory\<lparr>pt := seen_word sample_tables 0x100000\<rparr>"
  have va: "va_of PF_KERNEL ?s = \<lparr>vaddr_bitmap = \<lparr>bitmap_len = 16, bitmap_bits = 0x5020\<rparr>, vaddr_start = 0xc0100000\<rparr>"
    by (simp add: va_of_def)
  have pb: "pool_bits 0xa00 ?s = \<lparr>bitmap_len = 16, bitmap_bits = 0x5000\<rparr>" by (simp add: pool_bits_def)
  have scan: "bitmap_scan (mem ?s) (vaddr_bitmap (va_of PF_KERNEL ?s)) 1 = Inr 0"
    unfolding va by (simp add: sample_scan)
  have ap: "apart \<lparr>bitmap_len = 16, bitmap_bits = 0x5020\<rparr> (128 + 1) \<lparr>bitmap_len = 16, bitmap_bits = 0x5000\<rparr>"
    by (rule sample_apart [where p = "0x5000" and i = 0 and j = 32]) simp_all
  have "0 \<in> {k. k < bm_size (pool_bits 0xa00 ?s) \<and> \<not> bm_bit (mem ?s) (pool_bits 0xa00 ?s) k}"
    by (simp add: pb bm_size_def bm_bit_def sample_fmt_high)
  then have "0 < card {k. k < bm_size (pool_bits 0xa00 ?s) \<and> \<not> bm_bit (mem ?s) (pool_bits 0xa00 ?s) k}"
    by (subst card_gt_0_iff) auto
  moreover have "windowed {768..1023} sample_tables 0x100000 (pt ?s)" by (simp add: windowed_def sample_tables_self)
  moreover have e: "page_of 0xc0100123 = page_of 0xc0100000" by (simp add: page_of_def)
  ultimately have "\<exists>s' ns m'. malloc_pages PF_KERNEL 1 ?s = Inr (0xc0100000, s') \<and> length ns = 1 \<and>
      (\<forall>k \<in> set ns. k < 128) \<and> page_walk m' 0x100000 0xc0100123 = Some (frame 0xa00 ?s (ns ! 0) + (0xc0100123 AND 0xfff))"
    using malloc_pages_translates [OF scan, of "0xc0100000" "{768..1023}" sample_tables "0x100000"] ap sample_tables_own
    apply (simp add: va pb pool_of_def bm_size_def below_tables_def pool_ok_def Suc_le_eq)
    apply (elim exE conjE)
    subgoal for s' ns m'
      by (intro conjI exI [of _ s'] exI [of _ ns] exI [of _ m']) (simp_all add: e)
    done
  then show ?thesis
    by (fastforce simp: length_Suc_conv frame_def)
qed

declare index_less [simp del] index_pte_addr [simp del] entry_of_bits [simp del]

end
