(* ===== verification/Process.thy ===== *)
theory Process
  imports Translation
begin

text \<open>
  Processes: \<^verbatim>\<open>kernel/proc.c\<close>, and the return to the interrupted code in
  \<^verbatim>\<open>kernel/kernel.S\<close> by which a process enters user mode for the first time. The words of the page
  tables are read through their window at the end of the address space, from which a new page directory copies the
  kernel's half.
\<close>

section \<open>Processes (proc.c)\<close>

text \<open>The bytes of the address space with the window in which the page table words stand.\<close>

definition window_mem :: "'a vstate_scheme \<Rightarrow> bmem" where
  "window_mem s a =
     (if 0xffc00000 \<le> a then ucast (drop_bit (8 * unat (a AND 3)) (pt s (a AND NOT 3))) else mem s a)"

definition copy_window :: "u32 \<Rightarrow> u32 \<Rightarrow> u32 \<Rightarrow> 'a vstate_scheme \<Rightarrow> 'a vstate_scheme" where
  "copy_window dst src n s =
     (let m = snd (memcpy dst src n (window_mem s))
      in s\<lparr>mem := (\<lambda>a. if 0xffc00000 \<le> a then mem s a else m a),
           pt := (\<lambda>a. if 0xffc00000 \<le> a \<and> a AND 3 = 0 then read32 m a else pt s a)\<rparr>)"

definition create_page_dir :: "'a mstate_scheme \<Rightarrow> (u32 \<times> 'a mstate_scheme) res" where
  "create_page_dir s =
     bind_res (get_kernel_pages 1 s) (\<lambda>(page_dir_vaddr, s).
       if page_dir_vaddr = NULL then
         bind_res (say (line ''create_page_dir: get_kernel_pages failed!'') s) (\<lambda>s. Inr (NULL, s))
       else
         let s = copy_window (page_dir_vaddr + 0x300 * 4) (0xfffff000 + 0x300 * 4) 1024 s;
             new_page_dir_phy_addr = addr_v2p page_dir_vaddr s
         in Inr (page_dir_vaddr, store32 (page_dir_vaddr + 1023 * 4) (entry_of new_page_dir_phy_addr) s))"

definition create_user_vaddr_bitmap :: "u32 \<Rightarrow> 'a mstate_scheme \<Rightarrow> 'a mstate_scheme res" where
  "create_user_vaddr_bitmap user_prog s =
     (let upd = (\<lambda>f. upd_thread user_prog (\<lambda>t. t\<lparr>userprog_vaddr := f (userprog_vaddr t)\<rparr>));
          s = upd (vaddr_start_update (\<lambda>_. 0x8048000)) s;
          bitmap_pg_cnt = DIV_ROUND_UP ((0xc0000000 - 0x8048000) div 4096 div 8) 4096
      in bind_res (get_kernel_pages bitmap_pg_cnt s) (\<lambda>(bits, s).
           let s = upd (\<lambda>va. va\<lparr>vaddr_bitmap := \<lparr>bitmap_len = (0xc0000000 - 0x8048000) div 4096 div 8,
                     bitmap_bits = bits\<rparr>\<rparr>) s
           in Inr (s\<lparr>mem := bitmap_init (vaddr_bitmap (userprog_vaddr (threads s user_prog))) (mem s)\<rparr>)))"

text \<open>The second assertion looks for the tag of the ready list in the list of all threads.\<close>

definition process_execute :: "u32 \<Rightarrow> u32 \<Rightarrow> 'a pstate_scheme \<Rightarrow> 'a pstate_scheme res" where
  "process_execute filename name s =
     bind_res (get_kernel_pages 1 s) (\<lambda>(thread, s).
     bind_res (Thread_init thread name 31 s) (\<lambda>s.
     bind_res (create_user_vaddr_bitmap thread s) (\<lambda>s.
     let s = Thread_create thread (process_start_at s) filename s
     in bind_res (create_page_dir s) (\<lambda>(dir, s).
        let s = upd_thread thread (\<lambda>t. t\<lparr>pgdir := dir\<rparr>) s;
            (old_status, s) = intr_disable s
        in bind_res (append_new ''!list_find(&thread_ready_list, &thread->general_tag)''
                      (ready_list s) (general_tag thread) (general_tag thread) s) (\<lambda>s.
           bind_res (append_new ''!list_find(&thread_list_all, &thread->general_tag)''
                      (all_list s) (general_tag thread) (all_list_tag thread) s) (\<lambda>s.
             Inr (snd (set_intr_status old_status s))))))))"

subsection \<open>Entering user mode\<close>

text \<open>The words of a \<^verbatim>\<open>struct trapframe\<close>, by their number.\<close>

definition frame_word :: "u32 \<Rightarrow> nat \<Rightarrow> 'a vstate_scheme \<Rightarrow> u32" where
  "frame_word fr k s = read32 (mem s) (fr + 4 * of_nat k)"

definition set_frame_word :: "u32 \<Rightarrow> nat \<Rightarrow> u32 \<Rightarrow> 'a vstate_scheme \<Rightarrow> 'a vstate_scheme" where
  "set_frame_word fr k v s = store32 (fr + 4 * of_nat k) v s"

text \<open>\<^verbatim>\<open>intr_exit\<close> pops the frame; \<^verbatim>\<open>iret\<close> pops stack pointer and stack segment too
  when the privilege of the code segment is lower than the current one.\<close>

definition intr_exit :: "'a pstate_scheme \<Rightarrow> 'a pstate_scheme" where
  "intr_exit s =
     (let sp = ctx_esp (regs s);
          w = (\<lambda>k. frame_word sp k s);
          outer = (ucast (segs s ! 4) AND 3 < w 15 AND 3)
      in s\<lparr>regs := \<lparr>ctx_eip = w 14, ctx_esp = (if outer then w 17 else sp + 68), ctx_ebx = w 5, ctx_ecx = w 7,
                    ctx_edx = w 6, ctx_esi = w 2, ctx_edi = w 1, ctx_ebp = w 3\<rparr>,
           eax := w 8, fs_sel := ucast (w 10), eflags := w 16,
           segs := [ucast (w 11), ucast (w 12), if outer then ucast (w 18) else segs s ! 2, ucast (w 9), ucast (w 15)]\<rparr>)"

text \<open>The frame of a new process: numbers of words and what is stored there before the stack is allocated.\<close>

definition start_frame :: "u32 \<Rightarrow> (nat \<times> u32) list" where
  "start_frame fn =
     [(4, 0), (3, 0), (2, 0), (1, 0), (8, 0), (7, 0), (6, 0), (5, 0), (9, 0),
      (10, ucast SELECTOR_U_DATA), (11, ucast SELECTOR_U_DATA), (12, ucast SELECTOR_U_DATA),
      (14, fn), (15, ucast SELECTOR_U_CODE), (16, push_bit 12 0 OR push_bit 1 1 OR push_bit 9 1)]"

definition process_start :: "u32 \<Rightarrow> 'a pstate_scheme \<Rightarrow> 'a pstate_scheme res" where
  "process_start filename s =
     (let proc_stack = tf (threads s (running_thread s));
          s = fold (\<lambda>(k, v). set_frame_word proc_stack k v) (start_frame filename) s
      in bind_res (get_a_page PF_USER (0xc0000000 - 0x1000) s) (\<lambda>(page, s).
           let s = set_frame_word proc_stack 17 (page + 4096) s;
               s = set_frame_word proc_stack 18 (ucast SELECTOR_U_DATA) s
           in Inr (intr_exit (s\<lparr>regs := (regs s)\<lparr>ctx_esp := proc_stack\<rparr>\<rparr>))))"

section \<open>The page table window\<close>

lemma mask_2: "(3 :: u32) = mask 2"
  by (simp add: mask_eq_exp_minus_1)

lemma aligned_plus:
  fixes a i :: u32
  assumes "a AND 3 = 0" "i < 4"
  shows "(a + i) AND 3 = i" "(a + i) AND NOT 3 = a"
proof -
  have a: "\<not> bit a n" if "n < 2" for n
  proof -
    have "\<not> bit (a AND 3) n" by (simp only: assms(1) bit_0_eq) simp
    then show ?thesis using that by (simp add: mask_2 bit_simps)
  qed
  have "unat (take_bit 2 i) = unat i"
    using assms(2) by (simp add: unsigned_take_bit_eq take_bit_nat_eq_self word_less_nat_alt)
  then have "take_bit 2 i = i" by (metis of_nat_unat_id)
  then have i: "bit i n \<Longrightarrow> n < 2" for n by (metis bit_take_bit_iff)
  have e: "a + i = a OR i" by (rule disjunctive_add) (use a i in blast)
  show "(a + i) AND 3 = i" "(a + i) AND NOT 3 = a"
    unfolding e mask_2 by (rule bit_word_eqI, use a i in \<open>auto simp: bit_simps\<close>)+
qed

lemma aligned_le:
  fixes a i :: u32
  assumes "a AND 3 = 0" "i < 4"
  shows "a \<le> a + i"
proof -
  have "a = (a + i) AND NOT 3" using aligned_plus(2) [OF assms] by simp
  also have "\<dots> \<le> a + i" by (rule word_and_le2)
  finally show ?thesis .
qed

lemma read_window:
  assumes "a AND 3 = 0" "0xffc00000 \<le> a"
  shows "read32 (window_mem s) a = pt s a"
proof -
  have le: "0xffc00000 \<le> a + i" if "i < 4" for i
    using aligned_le [OF assms(1) that] assms(2) by simp
  have w: "window_mem s (a + i) = ucast (drop_bit (8 * unat i) (pt s a))" if "i < 4" for i
    using aligned_plus [OF assms(1) that] le [OF that] by (simp add: window_mem_def)
  have w0: "window_mem s a = ucast (drop_bit 0 (pt s a))" using w [of 0] by simp
  show ?thesis unfolding read32_def w0 w [of 1, simplified] w [of 2, simplified] w [of 3, simplified]
  proof (rule bit_word_eqI)
    fix n assume "n < LENGTH(32)"
    then have "n < 8 \<or> (8 \<le> n \<and> n < 16) \<or> (16 \<le> n \<and> n < 24) \<or> (24 \<le> n \<and> n < 32)" by auto
    then show "bit (ucast (ucast (drop_bit 0 (pt s a)) :: u8) OR push_bit 8 (ucast (ucast (drop_bit 8 (pt s a)) :: u8)) OR
      push_bit 16 (ucast (ucast (drop_bit 16 (pt s a)) :: u8)) OR
      push_bit 24 (ucast (ucast (drop_bit 24 (pt s a)) :: u8)) :: u32) n = bit (pt s a) n"
      by (elim disjE) (auto simp: bit_simps)
  qed
qed

section \<open>A new page directory\<close>

lemma read32_offset:
  assumes "\<And>i. i < 4 \<Longrightarrow> m (p + of_nat (n + i)) = m' (q + of_nat (n + i))"
  shows "read32 m (p + of_nat n) = read32 m' (q + of_nat n)"
  using assms [of 0] assms [of 1] assms [of 2] assms [of 3] by (simp add: read32_def algebra_simps)

lemma unat_page_plus:
  assumes "unat p + 4096 \<le> 0xffc00000" "x < 4096"
  shows "unat (p + of_nat x :: u32) = unat p + x" "p + of_nat x < (0xffc00000 :: u32)"
proof -
  have "unat (of_nat x :: u32) = x" using assms(2) by (simp add: unat_of_nat)
  then show u: "unat (p + of_nat x) = unat p + x" using assms by (subst unat_add_nowrap) simp_all
  show "p + of_nat x < 0xffc00000" using assms by (simp add: word_less_nat_alt u)
qed

lemma copied_half:
  assumes "unat p + 4096 \<le> 0xffc00000" "x < 4096"
  shows "copied 0xfffffc00 (p + 0xc00) 1024 m (p + of_nat x) =
    (if x < 3072 then m (p + of_nat x) else m (0xfffff000 + of_nat x))"
proof (cases "x < 3072")
  case True
  have "p + of_nat x - (p + 0xc00) = of_nat x - 0xc00" by simp
  moreover have "unat (of_nat x - 0xc00 :: u32) = 2 ^ 32 + x - 3072"
    using True by (simp add: unat_sub_if_size word_size unat_of_nat)
  ultimately show ?thesis using True by (simp add: copied_def)
next
  case False
  have d: "p + of_nat x - (p + 0xc00) = (of_nat (x - 3072) :: u32)" using False by (simp add: of_nat_diff)
  moreover have "unat (of_nat (x - 3072) :: u32) = x - 3072" using assms(2) by (simp add: unat_of_nat)
  moreover have "of_nat (x - 3072) + 0xfffffc00 = (0xfffff000 + of_nat x :: u32)" using False by (simp add: of_nat_diff)
  moreover have "x - 3072 < 1024" using False assms(2) by linarith
  ultimately show ?thesis using False by (simp only: copied_def if_True if_False)
qed

lemma dir_aligned:
  assumes "k < 1024"
  shows "(0xfffff000 + 4 * of_nat k :: u32) AND 3 = 0" "(0xffc00000 :: u32) \<le> 0xfffff000 + 4 * of_nat k"
proof -
  have "unat (4 * of_nat k :: u32) = 4 * k" using assms by (simp add: unat_mult_lem unat_of_nat unat_word_ariths)
  then have u: "unat (0xfffff000 + 4 * of_nat k :: u32) = 0xfffff000 + 4 * k"
    using assms by (subst unat_add_nowrap) simp_all
  show "(0xffc00000 :: u32) \<le> 0xfffff000 + 4 * of_nat k" by (simp add: word_le_nat_alt u)
  have "unat ((0xfffff000 + 4 * of_nat k :: u32) AND 3) = 0" by (simp add: and_3_mod unat_mod u)
  then show "(0xfffff000 + 4 * of_nat k :: u32) AND 3 = 0" by (simp only: unat_eq_0)
qed

lemma create_page_dir_eq:
  assumes g: "get_kernel_pages 1 s = Inr (p, s1)" "p \<noteq> NULL" and low: "unat p + 4096 \<le> 0xffc00000"
  shows "\<exists>m. create_page_dir s = Inr (p, s1\<lparr>mem := m\<rparr>) \<and>
    (\<forall>k < 768. read32 m (p + 4 * of_nat k) = 0) \<and>
    (\<forall>k. 768 \<le> k \<longrightarrow> k < 1023 \<longrightarrow> read32 m (p + 4 * of_nat k) = pt s1 (0xfffff000 + 4 * of_nat k)) \<and>
    read32 m (p + 4 * 1023) = entry_of (addr_v2p p s1) \<and>
    (\<forall>a. a \<notin> span p 4096 \<longrightarrow> m a = mem s1 a)"
proof -
  have fresh: "mem s1 a = 0" if "a - p < 4096" for a
  proof -
    from kernel_pages_eq [OF g] obtain u where u: "s1 = clear_range p (1 * 4096) u" by blast
    show ?thesis unfolding u using that by (simp add: mem_clear_range)
  qed
  define m where "m = copied 0xfffffc00 (p + 0xc00) 1024 (window_mem s1)"
  have m: "m (p + of_nat x) = (if x < 3072 then mem s1 (p + of_nat x) else window_mem s1 (0xfffff000 + of_nat x))"
    if "x < 4096" for x
    using copied_half [OF low that] unat_page_plus [OF low that] by (auto simp: m_def window_mem_def)
  have other: "m a = window_mem s1 a" if "a \<notin> span p 4096" for a
  proof (rule ccontr)
    assume "m a \<noteq> window_mem s1 a"
    then have lt: "unat (a - (p + 0xc00)) < 1024" by (auto simp: m_def copied_def split: if_splits)
    have "a = p + of_nat (3072 + unat (a - (p + 0xc00)))" by simp
    then have "a \<in> span p 4096" using lt in_spanI [of "3072 + unat (a - (p + 0xc00))" 4096 p]
      by simp
    then show False using that by blast
  qed
  define c where "c = copy_window (p + 0x300 * 4) (0xfffff000 + 0x300 * 4) 1024 s1"
  have far: "\<not> clobbers (p + 0xc00 - 0xfffffc00) 1024"
  proof -
    have "p + 0xc00 - 0xfffffc00 = p + (0x1000 :: u32)" by simp
    moreover have "unat (p + (0x1000 :: u32)) = unat p + 0x1000" using low by (subst unat_add_nowrap) simp_all
    ultimately have "unat (p + 0xc00 - 0xfffffc00) = unat p + 0x1000" by (simp only:)
    then show ?thesis unfolding clobbers_def by linarith
  qed
  then have cm: "snd (memcpy (p + 0xc00) 0xfffffc00 1024 (window_mem s1)) = m"
    using memcpy_eq [of "p + 0xc00" "0xfffffc00" 1024] by (simp add: m_def)
  have high: "a \<notin> span p 4096" if "0xffc00000 \<le> a" for a
  proof
    assume "a \<in> span p 4096"
    then obtain i where "i < 4096" "a = p + of_nat i" by (auto simp: span_def)
    then show False using unat_page_plus(2) [OF low, of i] that by (simp add: not_le [symmetric])
  qed
  have "read32 m a = pt s1 a" if "0xffc00000 \<le> a" "a AND 3 = 0" for a
  proof -
    have "read32 m a = read32 (window_mem s1) a"
    proof (rule read32_cong)
      fix x assume "x \<in> span a 4"
      then obtain i where i: "x = a + of_nat i" "i < 4" by (auto simp: span_def)
      then have "(of_nat i :: u32) < 4" by (simp add: word_less_nat_alt unat_of_nat)
      from aligned_le [OF that(2) this] show "m x = window_mem s1 x" using that(1) i(1) by (intro other high) simp
    qed
    then show ?thesis using read_window [OF that(2,1)] by simp
  qed
  then have pt: "(\<lambda>a. if 0xffc00000 \<le> a \<and> a AND 3 = 0 then read32 m a else pt s1 a) = pt s1" by auto
  have c: "c = s1\<lparr>mem := \<lambda>a. if 0xffc00000 \<le> a then mem s1 a else m a\<rparr>"
    by (simp add: c_def copy_window_def cm pt)
  have cmem: "mem c (p + of_nat x) = m (p + of_nat x)" if "x < 4096" for x
    using unat_page_plus(2) [OF low that] by (simp add: c not_le [symmetric])
  have v: "addr_v2p p c = addr_v2p p s1" by (simp add: c addr_v2p_def)
  define d where "d = store32 (p + 4092) (entry_of (addr_v2p p s1)) c"
  have run: "create_page_dir s = Inr (p, d)"
  proof -
    have "copy_window (p + 3072) 4294966272 1024 s1 = c" by (simp add: c_def)
    then show ?thesis using g by (simp add: create_page_dir_def d_def v Let_def)
  qed
  have rec: "s1\<lparr>mem := mem d\<rparr> = d" by (simp add: d_def store32_def c)
  have self: "read32 (mem d) (p + 4092) = entry_of (addr_v2p p s1)" by (simp add: d_def)
  have dm: "mem d (p + of_nat x) = m (p + of_nat x)" if "x < 4092" for x
  proof -
    have "p + of_nat x \<notin> span (p + 4092) 4"
    proof
      assume "p + of_nat x \<in> span (p + 4092) 4"
      then obtain i where i: "i < 4" "p + of_nat x = p + 4092 + of_nat i" by (auto simp: span_def)
      then have "p + of_nat x = p + of_nat (4092 + i)" by (simp add: algebra_simps)
      then show False using unat_page_plus(1) [OF low, of x] unat_page_plus(1) [OF low, of "4092 + i"] that i(1) by simp
    qed
    then have "mem d (p + of_nat x) = mem c (p + of_nat x)" unfolding d_def by (rule mem_store32_other)
    then show ?thesis using cmem that by simp
  qed
  have apart: "mem d a = mem s1 a" if "a \<notin> span p 4096" for a
  proof -
    have "span (p + 4092) 4 \<subseteq> span p 4096" using span_shift [of 4092 4 4096 p] by simp
    then have "a \<notin> span (p + 4092) 4" using that by blast
    then have "mem d a = mem c a" unfolding d_def by (rule mem_store32_other)
    then show ?thesis using other [OF that] by (simp add: c window_mem_def)
  qed
  have user: "read32 (mem d) (p + 4 * of_nat k) = 0" if "k < 768" for k
  proof -
    have "mem d (p + of_nat (4 * k + i)) = 0" if "i < 4" for i
    proof -
      have x: "4 * k + i < 3072" using \<open>k < 768\<close> that by linarith
      then have "unat (of_nat (4 * k + i) :: u32) < 4096" by (simp only: unat_of_nat) simp
      then have "mem s1 (p + of_nat (4 * k + i)) = 0" using fresh by (simp add: word_less_nat_alt)
      then show ?thesis using dm [of "4 * k + i"] m [of "4 * k + i"] x by simp
    qed
    from read32_offset [of "mem d" p "4 * k" "\<lambda>_. 0" p] this show ?thesis by (simp add: read32_def)
  qed
  have kernel: "read32 (mem d) (p + 4 * of_nat k) = pt s1 (0xfffff000 + 4 * of_nat k)" if "768 \<le> k" "k < 1023" for k
  proof -
    have "mem d (p + of_nat (4 * k + i)) = window_mem s1 (0xfffff000 + of_nat (4 * k + i))" if "i < 4" for i
      using \<open>768 \<le> k\<close> \<open>k < 1023\<close> that dm [of "4 * k + i"] m [of "4 * k + i"] by simp
    from read32_offset [of "mem d" p "4 * k" "window_mem s1" "0xfffff000", OF this]
    have "read32 (mem d) (p + 4 * of_nat k) = read32 (window_mem s1) (0xfffff000 + 4 * of_nat k)" by simp
    also have "\<dots> = pt s1 (0xfffff000 + 4 * of_nat k)" by (rule read_window) (use dir_aligned that in auto)
    finally show ?thesis .
  qed
  show ?thesis
    unfolding run by (intro exI [of _ "mem d"] conjI allI impI) (simp only: rec, rule user, assumption, rule kernel,
      assumption+, simp add: self, rule apart)
qed

section \<open>Entering user mode\<close>

lemma get_user_page_mem:
  assumes ok: "pools_ok s" and g: "get_a_page PF_USER v s = Inr (p, s')"
    and va: "va = userprog_vaddr (threads s (running_thread s))"
    and a: "a \<notin> bitmap_span (pool_bits (kernel_pool s) s)" "a \<notin> bitmap_span (pool_bits (user_pool s) s)"
      "a \<noteq> bitmap_bits (vaddr_bitmap va) + of_nat (unat ((v - vaddr_start va) div 4096) div 8)"
  shows "mem s' a = mem s a"
proof -
  from g obtain t u w d where t: "lock_acquire (pool_lk (user_pool s)) s = Inr t"
    and u: "bitmap_set (vaddr_bitmap (userprog_vaddr (threads t (running_thread t))))
        ((v - vaddr_start (userprog_vaddr (threads t (running_thread t)))) div 4096) 1 (mem t) = Inr u"
    and w: "alloc_physical_pages (user_pool t) (t\<lparr>mem := u\<rparr>) = Inr (d, w)"
    and r: "(d = NULL \<and> s' = w) \<or> (\<exists>e. insert_page_table v d w = Inr e \<and> lock_release (pool_lk (pool_of PF_USER e)) e = Inr s')"
    by (auto simp: get_a_page_def Let_def res_iffs pool_of_def on_mem_def split: if_splits)
  note ft = only_locks_pools [OF acquire_locks [OF t]]
  have ow: "only_locks (t\<lparr>mem := u\<rparr>) w" by (rule only_locks_pages [OF alloc_pages [OF w]])
  note fw = only_locks_pools [OF ow]
  have st: "pool_ok q x \<longleftrightarrow> pool_ok q s" "pool_bits q x = pool_bits q s"
    if "pools x = pools s" for q and x :: "'a mstate_scheme"
    using that by (simp_all add: pool_ok_def pool_bits_def)
  have kp: "pool_ok (kernel_pool s) s" "pool_ok (user_pool s) s" using ok by (auto simp: pools_ok_def)
  have "running_thread t = running_thread s" by (simp add: running_thread_def ft)
  then have "mem (t\<lparr>mem := u\<rparr>) a = mem t a"
    using u a(3) by (auto simp: bitmap_set_eq ft va [symmetric] set_bit_mem_other)
  also have "mem t a = mem s a" using lock_mem(1) [OF t] by simp
  finally have "mem w a = mem s a"
    using alloc_mem [OF _ w, of a] kp a(2) st [of "t\<lparr>mem := u\<rparr>"] by (simp add: ft)
  moreover have "mem s' a = mem w a"
    using r
  proof
    assume "\<exists>e. insert_page_table v d w = Inr e \<and> lock_release (pool_lk (pool_of PF_USER e)) e = Inr s'"
    then obtain e where e: "insert_page_table v d w = Inr e" "lock_release (pool_lk (pool_of PF_USER e)) e = Inr s'" by blast
    have pw: "pools w = pools s" "kernel_pool w = kernel_pool s" by (simp_all add: fw ft)
    have "mem e a = mem w a"
      by (rule insert_mem [OF _ e(1)]) (use kp a(1) st [OF pw(1)] in \<open>simp_all add: pw(2)\<close>)
    then show ?thesis using lock_mem(2) [OF e(2)] by simp
  qed simp
  ultimately show ?thesis by simp
qed

text \<open>The words of a frame are apart.\<close>

lemma frame_word_set:
  assumes "j < 19" "k < 19"
  shows "frame_word fr j (set_frame_word fr k v s) = (if j = k then v else frame_word fr j s)"
proof (cases "j = k")
  case True
  then show ?thesis by (simp add: frame_word_def set_frame_word_def)
next
  case False
  have "fr + 4 * of_nat j + of_nat i \<noteq> fr + 4 * of_nat k + (of_nat l :: u32)" if "i < 4" "l < 4" for i l
  proof
    assume "fr + 4 * of_nat j + of_nat i = fr + 4 * of_nat k + (of_nat l :: u32)"
    then have "(of_nat (4 * j + i) :: u32) = of_nat (4 * k + l)" by (simp add: algebra_simps)
    then have "unat (of_nat (4 * j + i) :: u32) = unat (of_nat (4 * k + l) :: u32)" by (simp only:)
    moreover have "4 * j + i < 2 ^ 32" "4 * k + l < 2 ^ 32" using assms that by simp_all
    ultimately have "4 * j + i = 4 * k + l" by (simp only: unat_of_nat) simp
    then have "j = k" using that by presburger
    then show False using False by simp
  qed
  then have "span (fr + 4 * of_nat j) 4 \<inter> span (fr + 4 * of_nat k) 4 = {}"
    unfolding span_def by (auto simp del: of_nat_numeral)
  then show ?thesis using False by (simp add: frame_word_def set_frame_word_def read_store32_apart)
qed

lemma frame_word_cong:
  assumes "k < 19" "\<And>a. a \<in> span fr 76 \<Longrightarrow> mem s a = mem t a"
  shows "frame_word fr k s = frame_word fr k t"
proof -
  have "span (fr + of_nat (4 * k)) 4 \<subseteq> span fr 76" by (rule span_shift) (use assms(1) in simp)
  then have "span (fr + 4 * of_nat k) 4 \<subseteq> span fr 76" by simp
  then show ?thesis unfolding frame_word_def by (intro read32_cong assms(2)) blast
qed

lemma frame_word_other:
  assumes "a \<notin> span fr 76" "k < 19"
  shows "mem (set_frame_word fr k v t) a = mem t a"
proof -
  have "span (fr + of_nat (4 * k)) 4 \<subseteq> span fr 76" by (rule span_shift) (use assms(2) in simp)
  then have "a \<notin> span (fr + 4 * of_nat k) 4" using assms(1) by auto
  then show ?thesis unfolding set_frame_word_def by (rule mem_store32_other)
qed

definition start_state :: "u32 \<Rightarrow> u32 \<Rightarrow> 'a vstate_scheme \<Rightarrow> 'a vstate_scheme" where
  "start_state fr fn s = fold (\<lambda>(k, v). set_frame_word fr k v) (start_frame fn) s"

lemma start_state_mem: "start_state fr fn s = s\<lparr>mem := mem (start_state fr fn s)\<rparr>"
  by (simp add: start_state_def start_frame_def set_frame_word_def store32_def)

lemma start_state_words:
  "frame_word fr 1 (start_state fr fn s) = 0" "frame_word fr 2 (start_state fr fn s) = 0"
  "frame_word fr 3 (start_state fr fn s) = 0" "frame_word fr 5 (start_state fr fn s) = 0"
  "frame_word fr 6 (start_state fr fn s) = 0" "frame_word fr 7 (start_state fr fn s) = 0"
  "frame_word fr 8 (start_state fr fn s) = 0" "frame_word fr 9 (start_state fr fn s) = 0"
  "frame_word fr 10 (start_state fr fn s) = 0x33" "frame_word fr 11 (start_state fr fn s) = 0x33"
  "frame_word fr 12 (start_state fr fn s) = 0x33" "frame_word fr 14 (start_state fr fn s) = fn"
  "frame_word fr 15 (start_state fr fn s) = 0x2b" "frame_word fr 16 (start_state fr fn s) = 0x202"
  by (simp_all add: start_state_def start_frame_def frame_word_set SELECTOR_U_DATA_def SELECTOR_U_CODE_def)

lemma process_start_eq:
  fixes s :: "'a pstate_scheme"
  assumes fr: "fr = tf (threads s (running_thread s))"
    and g: "get_a_page PF_USER 0xbffff000 (start_state fr fn s) = Inr (page, v)"
    and kept: "\<And>a. a \<in> span fr 76 \<Longrightarrow> mem v a = mem (start_state fr fn s) a"
    and cpl: "segs s ! 4 AND 3 = 0"
  shows "\<exists>s'. process_start fn s = Inr s' \<and>
    regs s' = \<lparr>ctx_eip = fn, ctx_esp = page + 4096, ctx_ebx = 0, ctx_ecx = 0, ctx_edx = 0, ctx_esi = 0, ctx_edi = 0, ctx_ebp = 0\<rparr> \<and>
    eax s' = 0 \<and> eflags s' = 0x202 \<and> segs s' = [0x33, 0x33, 0x33, 0, 0x2b] \<and> fs_sel s' = 0x33 \<and>
    pt s' = pt v \<and> (\<forall>a. a \<notin> span fr 76 \<longrightarrow> mem s' a = mem v a)"
proof -
  define u where "u = start_state fr fn s"
  define w where "w = set_frame_word fr 18 (ucast SELECTOR_U_DATA) (set_frame_word fr 17 (page + 4096) v)"
  have sv: "segs v = segs s"
  proof -
    have "segs (start_state fr fn s) = segs s" by (subst start_state_mem) simp
    then show ?thesis using only_locks_segs [OF get_a_page_locks [OF g]] by simp
  qed
  have fw: "frame_word fr k w = (if k = 18 then 0x33 else if k = 17 then page + 4096 else frame_word fr k u)" if "k < 19" for k
    using that frame_word_cong [OF that, of fr v u] kept
    by (simp add: w_def frame_word_set SELECTOR_U_DATA_def u_def)
  have c0: "ucast (segs s ! 4) AND (3 :: u32) = 0"
  proof -
    have "ucast (segs s ! 4) AND (3 :: u32) = ucast (segs s ! 4 AND 3)" by (simp add: unsigned_and_eq)
    then show ?thesis using cpl by simp
  qed
  let ?x = "w\<lparr>regs := (regs w)\<lparr>ctx_esp := fr\<rparr>\<rparr>"
  have x: "frame_word fr k ?x = frame_word fr k w" for k by (simp add: frame_word_def)
  have "process_start fn s = Inr (intr_exit ?x)"
    using g by (simp add: process_start_def fr [symmetric] w_def start_state_def Let_def)
  moreover have "segs ?x = segs s" "pt ?x = pt v" using sv by (simp_all add: w_def set_frame_word_def store32_def)
  moreover have "mem ?x a = mem v a" if "a \<notin> span fr 76" for a
    by (simp add: w_def frame_word_other [OF that])
  ultimately show ?thesis
    using start_state_words [of fr fn s] c0 by (simp add: intr_exit_def x fw u_def Let_def)
qed

text \<open>A page table that is missing is allocated from the kernel's pool and cleared.\<close>

definition new_table :: "u32 \<Rightarrow> u32 \<Rightarrow> (u32 \<Rightarrow> u32) \<Rightarrow> u32 \<Rightarrow> u32" where
  "new_table v e t = (\<lambda>a. if a - (pte_addr v AND 0xfffff000) < 4096 then 0 else (t(pde_addr v := e)) a)"

lemma insert_absent:
  assumes "pt s (pde_addr v) AND 1 = 0" "pool_ok (kernel_pool s) s"
    and "bm.claim (pool_bits (kernel_pool s) s) (mem s) = Inr (j, m)"
  shows "insert_page_table v pa s =
    Inr (s\<lparr>mem := m, pt := (new_table v (entry_of (frame (kernel_pool s) s j)) (pt s))(pte_addr v := entry_of pa)\<rparr>)"
  using assms(1,3) by (simp add: insert_page_table_def alloc_eq [OF assms(2)] new_table_def Let_def cong: if_cong)

text \<open>\<open>mappable_stack\<close>: the page table of the user stack is there, or a frame for it.\<close>

definition mappable_stack :: "'a mstate_scheme \<Rightarrow> bool" where
  "mappable_stack s \<longleftrightarrow> pt s (pde_addr 0xbffff000) AND 1 \<noteq> 0 \<or>
     (\<exists>j < bm_size (pool_bits (kernel_pool s) s). \<not> bm_bit (mem s) (pool_bits (kernel_pool s) s) j)"

lemma entry_present: "entry_of pa AND 1 \<noteq> 0"
proof -
  have e: "entry_of pa = pa OR 7" by (simp add: entry_of_def or.assoc)
  have "entry_of pa AND 1 = 1" unfolding e by (rule bit_word_eqI) (auto simp: bit_simps bit_1_iff)
  then show ?thesis by simp
qed

lemma insert_stack:
  assumes "mappable_stack s" "pool_ok (kernel_pool s) s"
  shows "\<exists>m t. insert_page_table 0xbffff000 pa s = Inr (s\<lparr>mem := m, pt := t\<rparr>) \<and>
    t (pte_addr 0xbffff000) = entry_of pa \<and> t (pde_addr 0xbffff000) AND 1 \<noteq> 0 \<and>
    (\<forall>a. a \<notin> bitmap_span (pool_bits (kernel_pool s) s) \<longrightarrow> m a = mem s a)"
proof -
  have ad: "pte_addr 0xbffff000 = 0xffeffffc" "pde_addr 0xbffff000 = 0xfffffbfc"
    by (simp_all add: pte_addr_def pde_addr_def PTE_IDX_def PDE_IDX_def)
  show ?thesis
  proof (cases "pt s (pde_addr 0xbffff000) AND 1 = 0")
    case True
    let ?b = "pool_bits (kernel_pool s) s"
    have "0 < bm.free_count ?b (mem s)"
      using True assms(1) by (auto simp: mappable_stack_def bm.free_count_def card_gt_0_iff)
    then obtain j m where c: "bm.claim ?b (mem s) = Inr (j, m)" using bm.claim_ok_iff [OF pool_ok_size [OF assms(2)]] by blast
    let ?t = "(new_table 0xbffff000 (entry_of (frame (kernel_pool s) s j)) (pt s))(pte_addr 0xbffff000 := entry_of pa)"
    have "?t (pde_addr 0xbffff000) = entry_of (frame (kernel_pool s) s j)" by (simp add: new_table_def ad)
    then have "?t (pde_addr 0xbffff000) AND 1 \<noteq> 0" by (simp only: entry_present not_False_eq_True)
    moreover have "\<forall>a. a \<notin> bitmap_span ?b \<longrightarrow> m a = mem s a"
      using alloc_mem [OF assms(2), of "frame (kernel_pool s) s j" "s\<lparr>mem := m\<rparr>"] by (simp add: alloc_eq [OF assms(2)] c)
    ultimately show ?thesis
      using insert_absent [OF True assms(2) c, of pa] by (intro exI [of _ m] exI [of _ ?t]) simp
  next
    case False
    then show ?thesis
      by (intro exI [of _ "mem s"] exI [of _ "(pt s)(pte_addr 0xbffff000 := entry_of pa)"]) (simp add: insert_present ad)
  qed
qed

text \<open>The allocation of the page of the user stack succeeds when the pool's lock is free, a page is left and the page table
  is there or can be had.\<close>

lemma get_stack_page_returns:
  fixes s :: "'a mstate_scheme"
  assumes pg: "pgdir (threads s (running_thread s)) \<noteq> NULL"
    and lk: "lock_ok (locks s (pool_lk (user_pool s)))" "locked (locks s (pool_lk (user_pool s))) = 0" "running_thread s \<noteq> NULL"
    and va: "va = userprog_vaddr (threads s (running_thread s))" "0 < sint ((0xbffff000 - vaddr_start va) div 4096)"
    and ok: "pool_ok (user_pool s) s" "pool_ok (kernel_pool s) s" and table: "mappable_stack s"
    and free: "n < bm_size (pool_bits (user_pool s) s)" "\<not> bm_bit (mem s) (pool_bits (user_pool s) s) n"
    and apart: "bitmap_bits (vaddr_bitmap va) + of_nat (unat ((0xbffff000 - vaddr_start va) div 4096) div 8) \<notin>
      bitmap_span (pool_bits (user_pool s) s) \<union> bitmap_span (pool_bits (kernel_pool s) s)"
      "bitmap_span (pool_bits (user_pool s) s) \<inter> bitmap_span (pool_bits (kernel_pool s) s) = {}"
  shows "\<exists>s' k. get_a_page PF_USER 0xbffff000 s = Inr (0xbffff000, s') \<and> k < bm_size (pool_bits (user_pool s) s) \<and>
    \<not> bm_bit (mem s) (pool_bits (user_pool s) s) k \<and> bm_bit (mem s') (pool_bits (user_pool s) s) k \<and>
    pt s' (pte_addr 0xbffff000) = entry_of (frame (user_pool s) s k) \<and> pt s' (pde_addr 0xbffff000) AND 1 \<noteq> 0"
proof -
  let ?p = "user_pool s" and ?v = "0xbffff000 :: u32" and ?kb = "pool_bits (kernel_pool s) s"
  let ?idx = "(?v - vaddr_start va) div 4096"
  let ?b = "pool_bits ?p s" and ?lk = "pool_lk ?p"
  define t where "t = taken ?lk s"
  have t: "lock_acquire ?lk s = Inr t" unfolding t_def by (rule acquire_taken [OF lk])
  have ft: "threads t = threads s" "running_thread t = running_thread s" "user_pool t = ?p" "kernel_pool t = kernel_pool s"
    "pools t = pools s" "mem t = mem s" "pt t = pt s"
    "locks t ?lk = \<lparr>locked = 1, holder = running_thread s, number_of = 1\<rparr>"
    by (simp_all add: t_def taken_def running_thread_def)
  define u where "u = t\<lparr>mem := set_bit_mem (vaddr_bitmap va) (unat ?idx) True (mem s)\<rparr>"
  have mark: "on_mem (bitmap_set (vaddr_bitmap va) ?idx 1) t = Inr u"
    by (simp add: on_mem_def bitmap_set_eq u_def ft)
  have fu: "pool_ok q u = pool_ok q s" "pool_bits q u = pool_bits q s" "frame q u i = frame q s i" for q i
    by (simp_all add: u_def pool_ok_def pool_bits_def frame_def ft)
  have ub: "bm_bit (mem u) (pool_bits q s) i = bm_bit (mem s) (pool_bits q s) i"
    if "q = ?p \<or> q = kernel_pool s" "i < bm_size (pool_bits q s)" for q i
  proof -
    have "bitmap_bits (pool_bits q s) + of_nat (i div 8) \<in> bitmap_span (pool_bits q s)"
      unfolding bitmap_span_def by (rule in_spanI) (use that(2) in \<open>simp add: bm_size_def\<close>)
    then have "bitmap_bits (pool_bits q s) + of_nat (i div 8) \<noteq> bitmap_bits (vaddr_bitmap va) + of_nat (unat ?idx div 8)"
      using apart(1) that(1) by (metis Un_iff)
    then show ?thesis by (simp add: bm_bit_def u_def set_bit_mem_other)
  qed
  have "0 < bm.free_count ?b (mem u)"
    using free ub [of ?p n] by (auto simp: bm.free_count_def card_gt_0_iff)
  then obtain k m where c: "bm.claim ?b (mem u) = Inr (k, m)"
    using bm.claim_ok_iff [OF pool_ok_size [OF ok(1)]] by blast
  note cl = bm.claim_Inr [OF pool_ok_size [OF ok(1)] c]
  have alloc: "alloc_physical_pages ?p u = Inr (frame ?p s k, u\<lparr>mem := m\<rparr>)" by (simp add: alloc_eq ok fu c)
  have nz: "frame ?p s k \<noteq> NULL" using frame_aligned(2) [OF ok(1) cl(2)] .
  let ?w = "u\<lparr>mem := m\<rparr>"
  have mk: "m a = mem u a" if "a \<notin> bitmap_span ?b" for a
    using alloc_mem [of ?p u, OF _ alloc] that by (simp add: fu ok)
  have fw: "kernel_pool ?w = kernel_pool s" "pool_bits q ?w = pool_bits q s" "pool_ok q ?w = pool_ok q s" "pt ?w = pt s" for q
    by (simp_all add: u_def pool_bits_def pool_ok_def ft)
  have "mappable_stack ?w"
  proof (cases "pt s (pde_addr ?v) AND 1 = 0")
    case True
    then obtain j where j: "j < bm_size ?kb" "\<not> bm_bit (mem s) ?kb j" using table by (auto simp: mappable_stack_def)
    have "bitmap_bits ?kb + of_nat (j div 8) \<in> bitmap_span ?kb"
      unfolding bitmap_span_def by (rule in_spanI) (use j(1) in \<open>simp add: bm_size_def\<close>)
    then have "m (bitmap_bits ?kb + of_nat (j div 8)) = mem u (bitmap_bits ?kb + of_nat (j div 8))"
      by (intro mk) (use apart(2) in blast)
    then have "bm_bit m ?kb j = bm_bit (mem u) ?kb j" by (simp add: bm_bit_def)
    then have "\<not> bm_bit m ?kb j" using ub [of "kernel_pool s" j] j by simp
    then show ?thesis unfolding mappable_stack_def fw using j(1) by auto
  qed (simp add: mappable_stack_def fw)
  then obtain m' t' where ins: "insert_page_table ?v (frame ?p s k) ?w = Inr (?w\<lparr>mem := m', pt := t'\<rparr>)"
    and t': "t' (pte_addr ?v) = entry_of (frame ?p s k)" "t' (pde_addr ?v) AND 1 \<noteq> 0"
    and m': "\<forall>a. a \<notin> bitmap_span ?kb \<longrightarrow> m' a = m a"
    using insert_stack [of ?w "frame ?p s k"] ok(2) by (auto simp: fw)
  define z where "z = ?w\<lparr>mem := m', pt := t'\<rparr>"
  have fz: "running_thread z = running_thread s" "locks z = locks t" "user_pool z = ?p" "user_pool u = ?p"
    using ft(2) by (simp_all add: z_def u_def running_thread_def ft(3))
  have rel: "lock_release ?lk z = Inr (let_go ?lk z)"
    by (rule release_taken) (use ft(8) lk(3) fz in simp_all)
  have "get_a_page PF_USER ?v s = Inr (?v, let_go ?lk z)"
    using t pg va mark alloc nz ins [folded z_def] rel by (simp add: get_a_page_def pool_of_def Let_def ft fz)
  moreover have "pt (let_go ?lk z) = t'" "mem (let_go ?lk z) = m'" by (simp_all add: let_go_def z_def)
  moreover have "bm_bit m' ?b k"
  proof -
    have "bitmap_bits ?b + of_nat (k div 8) \<in> bitmap_span ?b"
      unfolding bitmap_span_def by (rule in_spanI) (use cl(2) in \<open>simp add: bm_size_def\<close>)
    then have "m' (bitmap_bits ?b + of_nat (k div 8)) = m (bitmap_bits ?b + of_nat (k div 8))" using m' apart(2) by blast
    then show ?thesis using cl(4) [OF cl(2)] by (simp add: bm_bit_def)
  qed
  ultimately show ?thesis using cl(2,3) ub [of ?p k] t' by auto
qed

text \<open>What a thread that is about to enter user mode finds: a page directory, the user pool's lock free, a page left in the
  pool, one in the kernel's pool for the page table of the stack unless there is one, and its frame where no bitmap is. A
  process that starts has none: its directory maps nothing below \<open>0xc0000000\<close>.\<close>

definition stack_bit :: "'a tstate_scheme \<Rightarrow> u32" where
  "stack_bit s = bitmap_bits (vaddr_bitmap (userprog_vaddr (threads s (running_thread s)))) + 94198"

definition process_ready :: "'a dstate_scheme \<Rightarrow> bool" where
  "process_ready s \<longleftrightarrow>
     (let cur = threads s (running_thread s); b = pool_bits (user_pool s) s; fr = tf cur
      in pgdir cur \<noteq> NULL \<and> vaddr_start (userprog_vaddr cur) = 0x8048000 \<and>
         lock_ok (locks s (pool_lk (user_pool s))) \<and> locked (locks s (pool_lk (user_pool s))) = 0 \<and> running_thread s \<noteq> NULL \<and>
         pools_ok s \<and> mappable_stack s \<and> segs s ! 4 AND 3 = 0 \<and>
         (\<exists>n < bm_size b. \<not> bm_bit (mem s) b n) \<and>
         stack_bit s \<notin> bitmap_span b \<union> bitmap_span (pool_bits (kernel_pool s) s) \<and>
         bitmap_span b \<inter> bitmap_span (pool_bits (kernel_pool s) s) = {} \<and>
         span fr 76 \<inter> (bitmap_span b \<union> bitmap_span (pool_bits (kernel_pool s) s) \<union> {stack_bit s}) = {})"

lemma start_state_other:
  assumes "a \<notin> span fr 76"
  shows "mem (start_state fr fn s) a = mem s a"
  by (simp add: start_state_def start_frame_def frame_word_other [OF assms])

lemma process_start_user_eq:
  fixes s :: "'a pstate_scheme"
  assumes "process_ready s"
  shows "\<exists>s' k. process_start fn s = Inr s' \<and>
    regs s' = \<lparr>ctx_eip = fn, ctx_esp = 0xc0000000, ctx_ebx = 0, ctx_ecx = 0, ctx_edx = 0, ctx_esi = 0, ctx_edi = 0, ctx_ebp = 0\<rparr> \<and>
    eax s' = 0 \<and> eflags s' = 0x202 \<and> segs s' = [0x33, 0x33, 0x33, 0, 0x2b] \<and> fs_sel s' = 0x33 \<and>
    k < bm_size (pool_bits (user_pool s) s) \<and> \<not> bm_bit (mem s) (pool_bits (user_pool s) s) k \<and>
    bm_bit (mem s') (pool_bits (user_pool s) s) k \<and>
    pt s' (pde_addr 0xbffff000) AND 1 \<noteq> 0 \<and> pt s' (pte_addr 0xbffff000) = entry_of (frame (user_pool s) s k)"
proof -
  define fr where "fr = tf (threads s (running_thread s))"
  define u where "u = start_state fr fn s"
  note r = assms [unfolded process_ready_def Let_def, folded fr_def]
  have u: "u = s\<lparr>mem := mem u\<rparr>" unfolding u_def by (rule start_state_mem)
  have fu: "threads u = threads s" "locks u = locks s" "user_pool u = user_pool s" "kernel_pool u = kernel_pool s"
    "pools u = pools s" "pt u = pt s" "regs u = regs s"
    by (subst u, simp)+
  have ru: "running_thread u = running_thread s" by (simp add: running_thread_def fu)
  have pu: "pool_ok q u = pool_ok q s" "pool_bits q u = pool_bits q s" "pools_ok u = pools_ok s" "frame q u i = frame q s i" for q i
    by (simp_all add: pool_ok_def pool_bits_def pools_ok_def frame_def fu)
  let ?b = "pool_bits (user_pool s) s" and ?kb = "pool_bits (kernel_pool s) s"
  have out: "bitmap_bits q + of_nat (n div 8) \<notin> span fr 76" if "n < bm_size q" "q = ?b \<or> q = ?kb" for n q
  proof -
    have "bitmap_bits q + of_nat (n div 8) \<in> bitmap_span q"
      unfolding bitmap_span_def by (rule in_spanI) (use that(1) in \<open>simp add: bm_size_def\<close>)
    then show ?thesis using r that(2) by blast
  qed
  have bits: "bm_bit (mem u) q n = bm_bit (mem s) q n" if "n < bm_size q" "q = ?b \<or> q = ?kb" for n q
    using out [OF that] by (simp add: bm_bit_def u_def start_state_other)
  obtain n where n: "n < bm_size ?b" "\<not> bm_bit (mem s) ?b n" using r by blast
  then have n': "\<not> bm_bit (mem u) ?b n" using bits by simp
  have table: "mappable_stack u"
    using r bits unfolding mappable_stack_def fu pu by blast
  have sb: "bitmap_bits (vaddr_bitmap va) + of_nat (unat ((0xbffff000 - vaddr_start va) div 4096) div 8) = stack_bit s"
    if "va = userprog_vaddr (threads s (running_thread s))" for va
    using r that by (simp add: stack_bit_def)
  obtain v k where v: "get_a_page PF_USER 0xbffff000 u = Inr (0xbffff000, v)" "k < bm_size ?b" "\<not> bm_bit (mem u) ?b k"
      "bm_bit (mem v) ?b k" "pt v (pte_addr 0xbffff000) = entry_of (frame (user_pool s) s k)" "pt v (pde_addr 0xbffff000) AND 1 \<noteq> 0"
    using get_stack_page_returns [of u "userprog_vaddr (threads s (running_thread s))" n, unfolded fu ru pu] r n(1) n' table sb [OF refl]
    by (auto simp: pools_ok_def)
  have "mem v a = mem u a" if "a \<in> span fr 76" for a
    using get_user_page_mem [OF _ v(1) refl, of a] r that sb [OF refl] by (auto simp: fu ru pu)
  from process_start_eq [OF fr_def v(1) [unfolded u_def] this [unfolded u_def]] r obtain s' where
    s': "process_start fn s = Inr s'"
    "regs s' = \<lparr>ctx_eip = fn, ctx_esp = 0xc0000000, ctx_ebx = 0, ctx_ecx = 0, ctx_edx = 0, ctx_esi = 0, ctx_edi = 0, ctx_ebp = 0\<rparr>"
    "eax s' = 0" "eflags s' = 0x202" "segs s' = [0x33, 0x33, 0x33, 0, 0x2b]" "fs_sel s' = 0x33"
    "pt s' = pt v" "\<forall>a. a \<notin> span fr 76 \<longrightarrow> mem s' a = mem v a"
    by auto
  have "bm_bit (mem s') ?b k" using v(4) s'(8) out [OF v(2)] by (simp add: bm_bit_def)
  then show ?thesis using s' v(2,3,5,6) bits [OF v(2)] by (intro exI [of _ s'] exI [of _ k]) simp
qed

section \<open>Properties\<close>

text \<open>\<^verbatim>\<open>create_page_dir\<close> makes an address space that shares the kernel's: in the new directory the entries of user space are
  empty, those from 768 on are the entries of the active directory, and the last one maps the directory itself, so that the
  page table functions work in the new space too. Outside the new page nothing changes, the active directory included.\<close>

theorem create_page_dir_shares_kernel:
  assumes "get_kernel_pages 1 s = Inr (p, s1)" "p \<noteq> NULL" "unat p + 4096 \<le> 0xffc00000"
  shows "\<exists>m. create_page_dir s = Inr (p, s1\<lparr>mem := m\<rparr>) \<and>
    (\<forall>k < 768. read32 m (p + 4 * of_nat k) = 0) \<and>
    (\<forall>k. 768 \<le> k \<longrightarrow> k < 1023 \<longrightarrow> read32 m (p + 4 * of_nat k) = pt s1 (pde_addr (push_bit 22 (of_nat k)))) \<and>
    read32 m (p + 4 * 1023) = entry_of (addr_v2p p s1) \<and>
    (\<forall>a. a \<notin> span p 4096 \<longrightarrow> m a = mem s1 a)"
proof -
  have "pde_addr (push_bit 22 (of_nat k)) = 0xfffff000 + 4 * of_nat k" if "k < 1023" for k
  proof -
    have "PDE_IDX (push_bit 22 (of_nat k)) = of_nat k"
    proof (rule bit_word_eqI)
      fix n assume n: "n < LENGTH(32)"
      have m: "(0xffc00000 :: u32) = NOT (mask 22)" by (simp add: mask_eq_exp_minus_1)
      have "take_bit 10 k = k" using that by (intro take_bit_nat_eq_self) simp
      then have "n < 10" if "bit k n" using that by (metis bit_take_bit_iff)
      then show "bit (PDE_IDX (push_bit 22 (of_nat k))) n = bit (of_nat k :: u32) n"
        using n unfolding PDE_IDX_def m by (auto simp: bit_simps)
    qed
    then show ?thesis by (simp add: pde_addr_def)
  qed
  then show ?thesis using create_page_dir_eq [OF assms] by auto
qed

theorem create_page_dir_shares_kernel_witness:
  "\<exists>s'. create_page_dir sample_start = Inr (0xc0100000, s') \<and> read32 (mem s') 0xc0100000 = 0"
proof -
  obtain u where u: "get_kernel_pages 1 sample_start = Inr (0xc0100000, clear_range 0xc0100000 (1 * 4096) u)"
    using sample_start_page by blast
  from create_page_dir_shares_kernel [OF u] obtain m where
    m: "create_page_dir sample_start = Inr (0xc0100000, (clear_range 0xc0100000 (1 * 4096) u)\<lparr>mem := m\<rparr>)"
    "\<forall>k < 768. read32 m (0xc0100000 + 4 * of_nat k) = 0"
    by auto
  from m(2) [rule_format, of 0] m(1) show ?thesis by auto
qed

text \<open>C9. A process enters user mode as it should: its thread, set up with a page directory, fills the frame at the top of its
  kernel stack, takes a page for the user stack and returns from the interrupt into its function with cleared registers, user
  code and data selectors, the stack pointer at the end of user space, and interrupts enabled. The page below the stack
  pointer is mapped to a frame of the user pool that was free and is now in use; its page table, which a new process does not
  have, is allocated first.\<close>

theorem process_start_enters_user:
  fixes s :: "'a pstate_scheme"
  assumes "process_ready s"
  shows "\<exists>s'. process_start fn s = Inr s' \<and>
    regs s' = \<lparr>ctx_eip = fn, ctx_esp = 0xc0000000, ctx_ebx = 0, ctx_ecx = 0, ctx_edx = 0, ctx_esi = 0, ctx_edi = 0, ctx_ebp = 0\<rparr> \<and>
    eax s' = 0 \<and> eflags s' = 0x202 \<and> get_intr_status s' = INTR_ON \<and>
    segs s' = [SELECTOR_U_DATA, SELECTOR_U_DATA, SELECTOR_U_DATA, 0, SELECTOR_U_CODE] \<and> fs_sel s' = SELECTOR_U_DATA \<and>
    (\<exists>k < bm_size (pool_bits (user_pool s) s). \<not> bm_bit (mem s) (pool_bits (user_pool s) s) k \<and>
       bm_bit (mem s') (pool_bits (user_pool s) s) k \<and> pt s' (pde_addr 0xbffff000) AND 1 \<noteq> 0 \<and>
       addr_v2p 0xbffff000 s' = frame (user_pool s) s k)"
proof -
  have "SELECTOR_U_DATA = 0x33" "SELECTOR_U_CODE = 0x2b" by (simp_all add: SELECTOR_U_DATA_def SELECTOR_U_CODE_def)
  moreover have "get_intr_status t = INTR_ON" if "eflags t = 0x202" for t :: "'a pstate_scheme"
    by (simp add: get_intr_status_def EFLAGS_IF_def that)
  moreover obtain s' k where s': "process_start fn s = Inr s'"
    "regs s' = \<lparr>ctx_eip = fn, ctx_esp = 0xc0000000, ctx_ebx = 0, ctx_ecx = 0, ctx_edx = 0, ctx_esi = 0, ctx_edi = 0, ctx_ebp = 0\<rparr>"
    "eax s' = 0" "eflags s' = 0x202" "segs s' = [0x33, 0x33, 0x33, 0, 0x2b]" "fs_sel s' = 0x33"
    and k: "k < bm_size (pool_bits (user_pool s) s)" "\<not> bm_bit (mem s) (pool_bits (user_pool s) s) k"
      "bm_bit (mem s') (pool_bits (user_pool s) s) k" "pt s' (pde_addr 0xbffff000) AND 1 \<noteq> 0"
      "pt s' (pte_addr 0xbffff000) = entry_of (frame (user_pool s) s k)"
    using process_start_user_eq [OF assms, of fn] by blast
  moreover have "addr_v2p 0xbffff000 s' = frame (user_pool s) s k"
  proof -
    have "pool_ok (user_pool s) s" using assms by (auto simp: process_ready_def Let_def pools_ok_def)
    then show ?thesis using entry_of_frame [OF frame_aligned(1) [OF _ k(1)]] by (simp add: addr_v2p_def k(5))
  qed
  ultimately show ?thesis by (intro exI [of _ s']) auto
qed

definition sample_process :: pstate where
  "sample_process = fstate.extend (istate.extend sample_ide \<lparr>cur_part = 0, file_table = replicate 32 \<lparr>fd_pos = 0, fd_flag = 0, fd_inode = 0\<rparr>\<rparr>)
     \<lparr>eax = 0, fs_sel = 0, idle_at = 0xc0001600, process_start_at = 0xc0001700\<rparr>
     \<lparr>mem := (\<lambda>_. 0), pt := (\<lambda>_. 0), segs := [0x10, 0x10, 0x10, 0x18, 0x8],
      threads := (\<lambda>_. zero_thread\<lparr>pgdir := 0xc0102000, tf := 0x10fb4,
        userprog_vaddr := \<lparr>vaddr_bitmap = \<lparr>bitmap_len = 94199, bitmap_bits = 0xc0103000\<rparr>, vaddr_start = 0x8048000\<rparr>\<rparr>)\<rparr>"

lemma sample_process_fields:
  "regs sample_process = regs sample_sched" "pools sample_process = pools sample_memory" "kernel_pool sample_process = 0xa00"
  "user_pool sample_process = 0xa40" "locks sample_process l = \<lparr>locked = 0, holder = NULL, number_of = 0\<rparr>"
  "pt sample_process w = 0" "mem sample_process = (\<lambda>_. 0)" "segs sample_process ! 4 = 0x8"
  "threads sample_process p = zero_thread\<lparr>pgdir := 0xc0102000, tf := 0x10fb4,
     userprog_vaddr := \<lparr>vaddr_bitmap = \<lparr>bitmap_len = 94199, bitmap_bits = 0xc0103000\<rparr>, vaddr_start = 0x8048000\<rparr>\<rparr>"
  by (simp_all add: sample_process_def fstate.defs istate.defs sample_ide_pools sample_boot_pools)

lemma sample_process_ready: "process_ready sample_process"
proof -
  let ?s = sample_process
  note f = sample_process_fields
  have run: "running_thread ?s = 0x10000" using sample_sched_fields(3) by (simp add: running_thread_def f)
  have pb: "pool_bits 0xa00 ?s = \<lparr>bitmap_len = 16, bitmap_bits = 0x5000\<rparr>" "pool_bits 0xa40 ?s = \<lparr>bitmap_len = 16, bitmap_bits = 0x5010\<rparr>"
    by (simp_all add: pool_bits_def f)
  have ok: "pools_ok ?s" by (simp add: pools_ok_def pool_ok_def pool_bits_def bm_size_def f)
  have sp: "bitmap_span (pool_bits (user_pool ?s) ?s) = span 0x5010 16" "bitmap_span (pool_bits (kernel_pool ?s) ?s) = span 0x5000 16"
    by (simp_all add: bitmap_span_def f pb)
  have "span 0x10fb4 76 \<inter> span 0x5010 16 = {}" "span 0x10fb4 76 \<inter> span 0x5000 16 = {}"
    by (simp_all add: span_below Int_commute)
  moreover have "stack_bit ?s = 0xc0119ff6" by (simp add: stack_bit_def run f)
  moreover have "0xc0119ff6 \<notin> span 0x10fb4 76" "0xc0119ff6 \<notin> span 0x5010 16" "0xc0119ff6 \<notin> span 0x5000 16"
    by (simp_all add: in_span_iff)
  ultimately have "span 0x10fb4 76 \<inter> (span 0x5010 16 \<union> span 0x5000 16 \<union> {stack_bit ?s}) = {}"
    "stack_bit ?s \<notin> span 0x5010 16 \<union> span 0x5000 16"
    by auto
  moreover have "span 0x5010 16 \<inter> span 0x5000 16 = {}" by (simp add: span_below Int_commute)
  moreover have "mappable_stack ?s" unfolding mappable_stack_def
    by (intro disjI2 exI [of _ 0]) (simp add: f pb bm_size_def bm_bit_def)
  moreover have "\<exists>n < bm_size (pool_bits (user_pool ?s) ?s). \<not> bm_bit (mem ?s) (pool_bits (user_pool ?s) ?s) n"
    by (rule exI [of _ 0]) (simp add: f pb bm_size_def bm_bit_def)
  ultimately show ?thesis
    using ok unfolding process_ready_def Let_def sp by (simp add: run f lock_ok_def)
qed

theorem process_start_enters_user_witness:
  "pt sample_process (pde_addr 0xbffff000) AND 1 = 0 \<and>
   (\<exists>s'. process_start 0xc0001800 sample_process = Inr s' \<and> ctx_eip (regs s') = 0xc0001800 \<and> ctx_esp (regs s') = 0xc0000000 \<and>
      pt s' (pde_addr 0xbffff000) AND 1 \<noteq> 0)"
  using process_start_enters_user [OF sample_process_ready, of "0xc0001800"] sample_process_fields(6) by auto

text \<open>C10. A process gets an address space of its own that shares the kernel's. Let \<open>M\<close> be the physical memory, whose tables under
  the active directory \<open>pd\<close> are those the kernel sees in its window, and let the new page hold in \<open>M\<close> what
  \<^verbatim>\<open>create_page_dir\<close> wrote. Then under the new directory the processor translates every address of the kernel, up to
  the window, as before, no address of user space at all, and the window shows the new directory itself.\<close>

theorem create_page_dir_translates:
  assumes "get_kernel_pages 1 s = Inr (p, s1)" "p \<noteq> NULL" "unat p + 4096 \<le> 0xffc00000"
    and "windowed D M pd (pt s1)" "q = addr_v2p p s1"
    and "\<And>m k. create_page_dir s = Inr (p, s1\<lparr>mem := m\<rparr>) \<Longrightarrow> k < 1024 \<Longrightarrow>
      read32 M (table_word q (of_nat k)) = read32 m (p + 4 * of_nat k)"
  shows "\<exists>s'. create_page_dir s = Inr (p, s') \<and> self_mapped M q \<and>
    (\<forall>va. va < 0xc0000000 \<longrightarrow> page_walk M q va = None) \<and>
    (\<forall>va. 0xc0000000 \<le> va \<and> va < 0xffc00000 \<longrightarrow> page_walk M q va = page_walk M pd va)"
proof -
  obtain m where m: "create_page_dir s = Inr (p, s1\<lparr>mem := m\<rparr>)" "\<forall>k < 768. read32 m (p + 4 * of_nat k) = 0"
      "\<forall>k. 768 \<le> k \<longrightarrow> k < 1023 \<longrightarrow> read32 m (p + 4 * of_nat k) = pt s1 (0xfffff000 + 4 * of_nat k)"
      "read32 m (p + 4 * 1023) = entry_of q"
    using create_page_dir_eq [OF assms(1-3)] assms(5) by blast
  note M = assms(6) [OF m(1)]
  have e: "directory_entry M q va = read32 m (p + 4 * PDE_IDX va)" for va
    using M [of "unat (PDE_IDX va)"] index_less(1) [of va] by (simp add: directory_entry_def)
  have i: "unat (PDE_IDX va) = unat va div 0x400000" for va
    by (simp add: unat_PDE_IDX unat_page_of flip: div_mult2_eq)
  have "page_walk M q va = None" if "va < 0xc0000000" for va
  proof -
    have "unat (PDE_IDX va) < 768" using that unfolding i by (simp add: word_less_nat_alt less_mult_imp_div_less)
    then have "directory_entry M q va = 0" using m(2) e [of va] by (metis of_nat_unat_id)
    then show ?thesis by (simp add: page_walk_def Let_def)
  qed
  moreover have "page_walk M q va = page_walk M pd va" if "0xc0000000 \<le> va" "va < 0xffc00000" for va
  proof -
    have "768 \<le> unat (PDE_IDX va)" "unat (PDE_IDX va) < 1023"
      using that unfolding i by (simp_all add: word_less_nat_alt word_le_nat_alt less_mult_imp_div_less less_eq_div_iff_mult_less_eq)
    then have "directory_entry M q va = pt s1 (0xfffff000 + 4 * PDE_IDX va)"
      using m(3) [rule_format, of "unat (PDE_IDX va)"] e [of va] by simp
    also have "\<dots> = directory_entry M pd va"
      using windowed_words(1) [OF assms(4), of va] by (simp add: pde_addr_def mult.commute)
    finally have "directory_entry M q va = directory_entry M pd va" .
    then show ?thesis by (simp add: page_walk_def Let_def pte_place_def)
  qed
  moreover have "self_mapped M q"
    using M [of 1023] m(4) by (simp add: self_mapped_def entry_of_bits)
  ultimately show ?thesis using m(1) by blast
qed

lemma sample_start_frame:
  assumes "get_kernel_pages 1 sample_start = Inr (0xc0100000, s1)"
  shows "\<exists>k < 128. pt s1 = (pt sample_start)(pte_addr 0xc0100000 := entry_of (0x200000 + of_nat k * 4096))"
proof -
  let ?s = sample_start
  have va: "va_of PF_KERNEL ?s = \<lparr>vaddr_bitmap = \<lparr>bitmap_len = 16, bitmap_bits = 0x5020\<rparr>, vaddr_start = 0xc0100000\<rparr>"
    by (simp add: va_of_def)
  have pb: "pool_bits 0xa00 ?s = \<lparr>bitmap_len = 16, bitmap_bits = 0x5000\<rparr>" by (simp add: pool_bits_def)
  have ap: "apart \<lparr>bitmap_len = 16, bitmap_bits = 0x5020\<rparr> (128 + 1) \<lparr>bitmap_len = 16, bitmap_bits = 0x5000\<rparr>"
    by (rule sample_apart [where p = "0x5000" and i = 0 and j = 32]) simp_all
  obtain u where u: "malloc_pages PF_KERNEL 1 ?s = Inr (0xc0100000, u)" "s1 = clear_range 0xc0100000 4096 u"
    using assms by (auto simp: get_kernel_pages_def res_iffs split: if_splits)
  obtain ns where ns: "length ns = 1" "\<forall>k \<in> set ns. k < 128" "pt u = map_frames (map (frame 0xa00 ?s) ns) 0xc0100000 (pt ?s)"
    using malloc_pages_run [OF u(1)] ap
    by (auto simp: va pb pool_of_def bm_size_def present_def below_tables_def pool_ok_def)
  then obtain k where "ns = [k]" by (cases ns) auto
  then show ?thesis using ns u(2) by (auto simp: frame_def clear_range_def)
qed

theorem create_page_dir_translates_witness:
  "\<exists>s' M q. create_page_dir sample_start = Inr (0xc0100000, s') \<and> self_mapped M q \<and> page_walk M q 0x8048000 = None"
proof -
  obtain u where u: "get_kernel_pages 1 sample_start = Inr (0xc0100000, clear_range 0xc0100000 (1 * 4096) u)"
    using sample_start_page by blast
  define s1 where "s1 = clear_range 0xc0100000 (1 * 4096) u"
  note u = u [folded s1_def]
  obtain k where k: "k < 128" "pt s1 = (pt sample_start)(pte_addr 0xc0100000 := entry_of (0x200000 + of_nat k * 4096))"
    using sample_start_frame [OF u] by blast
  obtain m where m: "create_page_dir sample_start = Inr (0xc0100000, s1\<lparr>mem := m\<rparr>)"
    using create_page_dir_eq [OF u] by auto
  define M :: bmem where "M = (\<lambda>a. if a < 4096 then if a AND 3 = 0 then 1 else 0 else m (0xc0100000 + (a AND 0xfff)))"
  define q where "q = 0x200000 + (of_nat k :: u32) * 4096"
  have kq: "unat (of_nat k * 4096 :: u32) = k * 4096" using k(1) by (simp add: unat_word_ariths unat_of_nat)
  then have q: "unat q = 0x200000 + k * 4096" unfolding q_def using k(1) by (subst unat_add_nowrap) simp_all
  have q0: "q AND 0xfff = 0" by (rule unat_inj) (simp add: unat_low12 q)
  have low: "read32 M (table_word f i) = 1" if "page_of f = 0" "unat i < 1024" for f i
  proof -
    have t: "unat (table_word f i + of_nat j) = 4 * unat i + j" if "j < 4" for j
      using unat_table_word [OF \<open>unat i < 1024\<close>, of f] \<open>page_of f = 0\<close> \<open>unat i < 1024\<close> that
      by (subst unat_add_nowrap) (simp_all add: unat_of_nat)
    have "M (table_word f i + of_nat j) = (if j = 0 then 1 else 0)" if "j < 4" for j
    proof -
      have "table_word f i + of_nat j < 4096" using t [OF that] \<open>unat i < 1024\<close> that by (simp add: word_less_nat_alt)
      moreover have "unat ((table_word f i + of_nat j) AND 3) = j"
        using t [OF that] that by (simp add: and_3_mod unat_mod)
      then have "(table_word f i + of_nat j) AND 3 = 0 \<longleftrightarrow> j = 0" by (metis unat_eq_0)
      ultimately show ?thesis by (simp add: M_def)
    qed
    from this [of 0] this [of 1] this [of 2] this [of 3] show ?thesis by (simp add: read32_def)
  qed
  have new: "read32 M (table_word q (of_nat j)) = read32 m (0xc0100000 + 4 * of_nat j)" if "j < 1024" for j
  proof -
    have "M (q + of_nat (4 * j + i)) = m (0xc0100000 + of_nat (4 * j + i))" if "i < 4" for i
    proof -
      have x: "4 * j + i < 4096" using \<open>j < 1024\<close> that by linarith
      then have "unat (of_nat (4 * j + i) :: u32) = 4 * j + i" by (simp only: unat_of_nat) simp
      then have u: "unat (q + of_nat (4 * j + i)) = 0x200000 + k * 4096 + (4 * j + i)"
        using q k(1) x by (subst unat_add_nowrap) simp_all
      have "0x200000 + k * 4096 + (4 * j + i) = (4 * j + i) + (512 + k) * 4096" by simp
      then have "unat ((q + of_nat (4 * j + i)) AND 0xfff) = 4 * j + i"
        unfolding unat_low12 u using x by (simp only: mod_mult_self1 mod_less)
      then have "(q + of_nat (4 * j + i)) AND 0xfff = of_nat (4 * j + i)" by (metis of_nat_unat_id)
      moreover have "\<not> q + of_nat (4 * j + i) < 4096" unfolding word_less_nat_alt u by simp
      ultimately show ?thesis by (simp only: M_def if_False)
    qed
    from read32_offset [of M q "4 * j" m "0xc0100000", OF this] show ?thesis
      using frame_of_aligned [OF q0] by (simp add: table_word_def mult.commute)
  qed
  have e: "entry_of q AND 0xfffff000 = q" by (rule entry_of_frame [OF q0])
  have qa: "q = addr_v2p 0xc0100000 s1" using e by (simp add: addr_v2p_def k(2) q_def)
  have i: "PDE_IDX 0xc0100000 = 768" by (simp add: PDE_IDX_def)
  have "windowed {1023} M 0 (pt s1)"
  proof (rule windowedI)
    show "self_mapped M 0" using low [of 0 1023] by (simp add: self_mapped_def page_of_def)
    fix va assume va: "PDE_IDX va \<in> {1023 :: u32}"
    then have "page_of va \<noteq> page_of 0xc0100000" by (auto simp: page_eq_index i)
    then have "pt s1 (pte_addr va) = 1" by (simp add: k(2) pte_addr_inj)
    moreover have "directory_entry M 0 va = 1" using low [of 0 "PDE_IDX va"] by (simp add: directory_entry_def page_of_def index_less)
    ultimately show "pt s1 (pte_addr va) = read32 M (pte_place M 0 va)"
      using low [of 1 "PTE_IDX va"] by (simp add: pte_place_def page_of_def index_less)
  qed simp
  moreover have "read32 M (table_word q (of_nat j)) = read32 m' (0xc0100000 + 4 * of_nat j)"
    if "create_page_dir sample_start = Inr (0xc0100000, s1\<lparr>mem := m'\<rparr>)" "j < 1024" for m' j
  proof -
    have "mem (s1\<lparr>mem := m'\<rparr>) = mem (s1\<lparr>mem := m\<rparr>)" using that(1) m by simp
    then show ?thesis using new [OF that(2)] by simp
  qed
  ultimately obtain s' where s': "create_page_dir sample_start = Inr (0xc0100000, s')" "self_mapped M q"
      "\<forall>va < 0xc0000000. page_walk M q va = None"
    using create_page_dir_translates [OF u _ _ _ qa, of "{1023}" M 0] by auto
  have "page_walk M q 0x8048000 = None" by (rule s'(3) [rule_format]) simp
  then show ?thesis using s'(1,2) by blast
qed

end
