(* ===== verification/Interrupts.thy ===== *)
theory Interrupts
  imports Process
begin

text \<open>
  The interrupts: what the processor and the entry stubs of \<^verbatim>\<open>kernel/kernel.S\<close> push, the
  dispatch in \<^verbatim>\<open>kernel/interrupt.c\<close>, \<^verbatim>\<open>kernel/keyboard.c\<close> and
  \<^verbatim>\<open>kernel/panic.c\<close>. An interrupt is given in two parts, its entry with the handler and
  \<^verbatim>\<open>intr_exit\<close> of Process, since the handler of the clock may run other threads in between.
\<close>

section \<open>Entry (kernel.S)\<close>

definition push32 :: "u32 \<Rightarrow> 'a tstate_scheme \<Rightarrow> 'a tstate_scheme" where
  "push32 v s = (let sp = ctx_esp (regs s) - 4 in store32 sp v (s\<lparr>regs := (regs s)\<lparr>ctx_esp := sp\<rparr>\<rparr>))"

text \<open>The processor: from user mode it changes to the stack that the task state segment names, and
  pushes the old one; for some exceptions it pushes an error code. The gates are interrupt gates, which clear the
  interrupt flag.\<close>

definition from_user :: "'a dstate_scheme \<Rightarrow> bool" where
  "from_user s \<longleftrightarrow> segs s ! 4 AND 3 \<noteq> 0"

definition has_error_code :: "u8 \<Rightarrow> bool" where
  "has_error_code v \<longleftrightarrow> v \<in> {8, 10, 11, 12, 13, 14, 17}"

definition trap_words :: "u8 \<Rightarrow> u32 \<Rightarrow> 'a dstate_scheme \<Rightarrow> u32 list" where
  "trap_words v err s =
     (if from_user s then [ucast (segs s ! 2), ctx_esp (regs s)] else []) @
     [eflags s, ucast (segs s ! 4), ctx_eip (regs s)] @ (if has_error_code v then [err] else [])"

definition cpu_trap :: "u8 \<Rightarrow> u32 \<Rightarrow> 'a dstate_scheme \<Rightarrow> 'a dstate_scheme" where
  "cpu_trap v err s =
     (let ws = trap_words v err s;
          s = (if from_user s then s\<lparr>regs := (regs s)\<lparr>ctx_esp := tss_esp0 s\<rparr>, segs := (segs s)[2 := ucast (tss_ss0 (tss s))]\<rparr>
               else s);
          s = fold push32 ws s
      in cli (s\<lparr>segs := (segs s)[4 := SELECTOR_KERNEL_CODE]\<rparr>))"

text \<open>The stub of vector \<open>v\<close>: a zero where it expects no error code, the segment registers,
  \<^verbatim>\<open>pushal\<close>, the number; then the end of interrupt for both controllers.\<close>

definition stub_expects_code :: "u8 \<Rightarrow> bool" where
  "stub_expects_code v \<longleftrightarrow> v \<in> {8, 9, 10, 11, 12, 13, 14, 17}"

definition stub_words :: "u8 \<Rightarrow> 'a pstate_scheme \<Rightarrow> u32 list" where
  "stub_words v s =
     (let err = (if stub_expects_code v then [] else [0]);
          esp = ctx_esp (regs s) - 4 * of_nat (length err) - 16
      in err @ [ucast (segs s ! 1), ucast (segs s ! 0), ucast (fs_sel s), ucast (segs s ! 3)] @
         [eax s, ctx_ecx (regs s), ctx_edx (regs s), ctx_ebx (regs s), esp, ctx_ebp (regs s), ctx_esi (regs s), ctx_edi (regs s)] @
         [ucast v])"

definition vector_stub :: "u8 \<Rightarrow> 'a pstate_scheme \<Rightarrow> 'a pstate_scheme" where
  "vector_stub v s =
     (let s = fold push32 (stub_words v s) s;
          s = s\<lparr>eax := (eax s AND NOT 0xff) OR 0x20\<rparr>
      in outb 0x20 0x20 (outb 0xa0 0x20 s))"

definition interrupt_entry :: "u8 \<Rightarrow> u32 \<Rightarrow> 'a pstate_scheme \<Rightarrow> 'a pstate_scheme" where
  "interrupt_entry v err s = vector_stub v (cpu_trap v err s)"

section \<open>Handlers (interrupt.c, keyboard.c)\<close>

definition keyboard_intr_handler :: "'a ostate_scheme \<Rightarrow> 'a ostate_scheme" where
  "keyboard_intr_handler s = snd (inb 0x60 (kputchar (of_char CHR ''k'') s))"

definition keyboard_init :: "'a ostate_scheme \<Rightarrow> 'a ostate_scheme res" where
  "keyboard_init s =
     bind_res (say (line ''keyboard init start'') s) (\<lambda>s. say (line ''keyboard init done'') s)"

definition general_intr_handler :: "u8 \<Rightarrow> 'a pstate_scheme \<Rightarrow> 'a pstate_scheme res" where
  "general_intr_handler vecno s =
     (if vecno = 0x27 \<or> vecno = 0x2f then Inr s
      else if vecno = 14 then
        bind_res (kprintf (lit s (line ''page fault vaddr is 0x%x'')) [cr2 s] s) (\<lambda>_. Inl Diverge)
      else if vecno = 32 then timer_intr_handler s
      else if vecno = 46 \<or> vecno = 47 then hd_intr_handler vecno s
      else if vecno = 33 then
        bind_res (say (line ''keyboard interrupt occurred'') s) (\<lambda>s. Inr (keyboard_intr_handler s))
      else bind_res (kprintf (lit s (line ''int vector no: %d'')) [ucast vecno] s) (\<lambda>(s, _). Inr s))"

section \<open>Panics (panic.c)\<close>

text \<open>\<open>is_panic\<close> is the static variable. \<open>panic_report\<close> is what \<^verbatim>\<open>__panic\<close> does
  before its loop: \<open>ap\<close> is the address of the variable arguments, which is printed in the place of the
  first of them. \<open>kvprintf\<close> of \<^verbatim>\<open>__warn\<close> gets the arguments themselves.\<close>

record bstate = pstate +
  is_panic :: u32

definition panic_report :: "u32 \<Rightarrow> u32 \<Rightarrow> u32 \<Rightarrow> u32 \<Rightarrow> u32 \<Rightarrow> 'a bstate_scheme \<Rightarrow> 'a bstate_scheme res" where
  "panic_report file ln fn fmt ap s =
     bind_res
       (if is_panic s \<noteq> 0 then Inr s
        else
          let s = s\<lparr>is_panic := 1\<rparr>
          in bind_res (kprintf (lit s (line ''kernel panic at %s:%d:%s'')) [file, ln, fn] s) (\<lambda>(s, _).
             bind_res (kprintf fmt [ap] s) (\<lambda>(s, _). say (line '''') s)))
       (\<lambda>s. Inr (snd (intr_disable s)))"

definition kernel_panic :: "u32 \<Rightarrow> u32 \<Rightarrow> u32 \<Rightarrow> u32 \<Rightarrow> u32 \<Rightarrow> 'a bstate_scheme \<Rightarrow> 'a bstate_scheme res" where
  "kernel_panic file ln fn fmt ap s = bind_res (panic_report file ln fn fmt ap s) (\<lambda>_. Inl Diverge)"

definition kernel_warn :: "u32 \<Rightarrow> u32 \<Rightarrow> u32 \<Rightarrow> u32 \<Rightarrow> u32 list \<Rightarrow> 'a ostate_scheme \<Rightarrow> 'a ostate_scheme res" where
  "kernel_warn file ln fn fmt args s =
     bind_res (kprintf (lit s (line ''kernel warning at %s:%d:%s'')) [file, ln, fn] s) (\<lambda>(s, _).
     bind_res (kvprintf fmt args s) (\<lambda>(s, _). say (line '''') s))"

definition is_kernel_panic :: "'a bstate_scheme \<Rightarrow> u32" where
  "is_kernel_panic s = is_panic s"

section \<open>The frame an interrupt leaves\<close>

definition push_mem :: "u32 \<Rightarrow> u32 \<times> bmem \<Rightarrow> u32 \<times> bmem" where
  "push_mem v x = (fst x - 4, write32 (fst x - 4) v (snd x))"

lemma push_state:
  "fold push32 vs s = s\<lparr>regs := (regs s)\<lparr>ctx_esp := fst (fold push_mem vs (ctx_esp (regs s), mem s))\<rparr>,
     mem := snd (fold push_mem vs (ctx_esp (regs s), mem s))\<rparr>"
proof (induction vs arbitrary: s)
  case (Cons v vs)
  have "push32 v s = s\<lparr>regs := (regs s)\<lparr>ctx_esp := ctx_esp (regs s) - 4\<rparr>, mem := write32 (ctx_esp (regs s) - 4) v (mem s)\<rparr>"
    by (simp add: push32_def store32_def Let_def)
  moreover have "push_mem v (ctx_esp (regs s), mem s) = (ctx_esp (regs s) - 4, write32 (ctx_esp (regs s) - 4) v (mem s))"
    by (simp add: push_mem_def)
  ultimately show ?case by (simp add: Cons.IH)
qed simp

lemma push_esp: "fst (fold push_mem vs x) = fst x - 4 * of_nat (length vs)"
  by (induction vs arbitrary: x) (simp_all add: push_mem_def)

definition mem_word :: "bmem \<Rightarrow> u32 \<Rightarrow> nat \<Rightarrow> u32" where
  "mem_word m fr k = read32 m (fr + 4 * of_nat k)"

lemma frame_word_mem: "frame_word fr k s = mem_word (mem s) fr k"
  by (simp add: frame_word_def mem_word_def)

lemma mem_word_push:
  shows "mem_word (write32 (sp - 4) v m) (sp - 4) 0 = v"
    "Suc k < 19 \<Longrightarrow> mem_word (write32 (sp - 4) v m) (sp - 4) (Suc k) = mem_word m sp k"
proof -
  let ?s = "undefined\<lparr>mem := m\<rparr> :: vstate"
  have "mem (set_frame_word (sp - 4) 0 v ?s) = write32 (sp - 4) v m" by (simp add: set_frame_word_def store32_def)
  then show "mem_word (write32 (sp - 4) v m) (sp - 4) 0 = v"
    "Suc k < 19 \<Longrightarrow> mem_word (write32 (sp - 4) v m) (sp - 4) (Suc k) = mem_word m sp k"
    using frame_word_set [of 0 0 "sp - 4" v ?s] frame_word_set [of "Suc k" 0 "sp - 4" v ?s]
    by (simp_all add: frame_word_mem) (simp add: mem_word_def)
qed

lemma pushed_words:
  assumes "length vs \<le> 19" "k < length vs"
  shows "mem_word (snd (fold push_mem vs x)) (fst (fold push_mem vs x)) k = rev vs ! k"
  using assms
proof (induction vs arbitrary: k rule: rev_induct)
  case (snoc v vs)
  have p: "fold push_mem (vs @ [v]) x = (fst y - 4, write32 (fst y - 4) v (snd y))" if "y = fold push_mem vs x" for y
    using that by (simp add: push_mem_def)
  show ?case using snoc by (cases k) (simp_all only: p [OF refl] fst_conv snd_conv, simp_all add: mem_word_push)
qed simp

text \<open>Where the frame of an interrupt begins, and its words from the lowest address up.\<close>

definition entry_frame :: "'a pstate_scheme \<Rightarrow> u32" where
  "entry_frame s = (if from_user s then tss_esp0 s - 76 else ctx_esp (regs s) - 68)"

definition entry_words :: "u8 \<Rightarrow> u32 \<Rightarrow> u32 \<Rightarrow> 'a pstate_scheme \<Rightarrow> u32 list" where
  "entry_words v err dummy s =
     [ucast v, ctx_edi (regs s), ctx_esi (regs s), ctx_ebp (regs s), dummy, ctx_ebx (regs s), ctx_edx (regs s), ctx_ecx (regs s),
      eax s, ucast (segs s ! 3), ucast (fs_sel s), ucast (segs s ! 0), ucast (segs s ! 1), err, ctx_eip (regs s),
      ucast (segs s ! 4), eflags s] @ (if from_user s then [ctx_esp (regs s), ucast (segs s ! 2)] else [])"

lemma has_error_code_stub: "v \<noteq> 9 \<Longrightarrow> stub_expects_code v \<longleftrightarrow> has_error_code v"
  by (auto simp: has_error_code_def stub_expects_code_def)

lemma pushed_entry:
  assumes "v \<noteq> 9"
  shows "\<exists>d e. rev (trap_words v err s @ stub_words v (cpu_trap v err s)) = entry_words v e d s"
proof -
  define u where "u = cpu_trap v err s"
  have u: "eax u = eax s" "fs_sel u = fs_sel s" "ctx_edi (regs u) = ctx_edi (regs s)" "ctx_esi (regs u) = ctx_esi (regs s)"
    "ctx_ebp (regs u) = ctx_ebp (regs s)" "ctx_ebx (regs u) = ctx_ebx (regs s)" "ctx_ecx (regs u) = ctx_ecx (regs s)"
    "ctx_edx (regs u) = ctx_edx (regs s)" "segs u ! 0 = segs s ! 0" "segs u ! Suc 0 = segs s ! Suc 0" "segs u ! 3 = segs s ! 3"
    by (simp_all add: u_def cpu_trap_def Let_def push_state cli_def)
  show ?thesis
    unfolding u_def [symmetric] by (simp add: trap_words_def stub_words_def Let_def has_error_code_stub [OF assms] entry_words_def u)
qed

lemma push_other:
  assumes "length vs \<le> 19" "a \<notin> span (fst x - 4 * of_nat (length vs)) (4 * length vs)"
  shows "snd (fold push_mem vs x) a = snd x a"
  using assms
proof (induction vs rule: rev_induct)
  case (snoc v vs)
  define y where "y = fold push_mem vs x"
  have y: "fst y = fst x - 4 * of_nat (length vs)" by (simp add: y_def push_esp)
  have sp: "fst x - 4 * of_nat (length (vs @ [v])) = fst y - 4" by (simp add: y)
  have "span (fst y) (4 * length vs) \<subseteq> span (fst y - 4) (4 * length (vs @ [v]))"
    using span_shift [of 4 "4 * length vs" "4 * length (vs @ [v])" "fst y - 4"] by (simp del: span_numeral)
  then have "a \<notin> span (fst y) (4 * length vs)" using snoc.prems(2) unfolding sp by blast
  then have "snd y a = snd x a" using snoc.IH snoc.prems(1) by (simp add: y_def [symmetric] y)
  moreover have "span (fst y - 4) 4 \<subseteq> span (fst y - 4) (4 * length (vs @ [v]))"
    using span_shift [of 0 4 "4 * length (vs @ [v])" "fst y - 4"] by (simp del: span_numeral)
  then have "a \<notin> span (fst y - 4) 4" using snoc.prems(2) unfolding sp by blast
  then have "write32 (fst y - 4) v (snd y) a = snd y a" by (rule write32_other)
  ultimately show ?case by (simp add: y_def [symmetric]) (simp add: push_mem_def)
qed simp

lemma interrupt_entry_eq:
  fixes s :: "'a pstate_scheme"
  assumes "v \<noteq> 9"
  shows "\<exists>m d e c. interrupt_entry v err s =
      s\<lparr>regs := (regs s)\<lparr>ctx_esp := entry_frame s\<rparr>, mem := m, eax := c, eflags := eflags s AND NOT EFLAGS_IF,
        segs := (if from_user s then (segs s)[2 := ucast (tss_ss0 (tss s))] else segs s)[4 := SELECTOR_KERNEL_CODE],
        port_writes := port_writes s @ [(0xa0, Byte 0x20), (0x20, Byte 0x20)]\<rparr> \<and>
    (\<forall>k < length (entry_words v e d s). mem_word m (entry_frame s) k = entry_words v e d s ! k) \<and>
    (\<forall>a. a \<notin> span (entry_frame s) 76 \<longrightarrow> m a = mem s a)"
proof -
  define ws where "ws = trap_words v err s @ stub_words v (cpu_trap v err s)"
  define base where "base = (if from_user s then tss_esp0 s else ctx_esp (regs s))"
  define m where "m = snd (fold push_mem ws (base, mem s))"
  obtain d e where r: "rev ws = entry_words v e d s" using pushed_entry [OF assms, of err s] unfolding ws_def by blast
  have "length ws = length (rev ws)" by simp
  then have l: "length ws = (if from_user s then 19 else 17)" by (simp only: r) (simp add: entry_words_def)
  have fr: "fst (fold push_mem ws (base, mem s)) = entry_frame s"
    by (simp add: push_esp l base_def entry_frame_def)
  have t: "cpu_trap v err s =
      s\<lparr>regs := (regs s)\<lparr>ctx_esp := fst (fold push_mem (trap_words v err s) (base, mem s))\<rparr>,
        mem := snd (fold push_mem (trap_words v err s) (base, mem s)), eflags := eflags s AND NOT EFLAGS_IF,
        segs := (if from_user s then (segs s)[2 := ucast (tss_ss0 (tss s))] else segs s)[4 := SELECTOR_KERNEL_CODE]\<rparr>"
    by (simp add: cpu_trap_def Let_def push_state base_def cli_def)
  have "\<exists>c. interrupt_entry v err s =
      s\<lparr>regs := (regs s)\<lparr>ctx_esp := entry_frame s\<rparr>, mem := m, eax := c, eflags := eflags s AND NOT EFLAGS_IF,
        segs := (if from_user s then (segs s)[2 := ucast (tss_ss0 (tss s))] else segs s)[4 := SELECTOR_KERNEL_CODE],
        port_writes := port_writes s @ [(0xa0, Byte 0x20), (0x20, Byte 0x20)]\<rparr>"
  proof -
    define u where "u = cpu_trap v err s"
    have u: "(ctx_esp (regs u), mem u) = fold push_mem (trap_words v err s) (base, mem s)"
      "port_writes u = port_writes s" "regs u = (regs s)\<lparr>ctx_esp := ctx_esp (regs u)\<rparr>"
      unfolding u_def t by simp_all
    have w: "fold push_mem (stub_words v u) (ctx_esp (regs u), mem u) = fold push_mem ws (base, mem s)"
      by (simp add: ws_def u_def [symmetric] u(1))
    have stub: "vector_stub v u = u\<lparr>regs := (regs u)\<lparr>ctx_esp := entry_frame s\<rparr>, mem := m, eax := (eax u AND NOT 0xff) OR 0x20,
        port_writes := port_writes s @ [(0xa0, Byte 0x20), (0x20, Byte 0x20)]\<rparr>"
      by (simp add: vector_stub_def Let_def push_state w fr m_def [symmetric] outb_def u(2))
    have "(regs u)\<lparr>ctx_esp := entry_frame s\<rparr> = (regs s)\<lparr>ctx_esp := entry_frame s\<rparr>" by (subst u(3)) simp
    then have "vector_stub v u = s\<lparr>regs := (regs s)\<lparr>ctx_esp := entry_frame s\<rparr>, mem := m, eax := (eax u AND NOT 0xff) OR 0x20,
        eflags := eflags s AND NOT EFLAGS_IF,
        segs := (if from_user s then (segs s)[2 := ucast (tss_ss0 (tss s))] else segs s)[4 := SELECTOR_KERNEL_CODE],
        port_writes := port_writes s @ [(0xa0, Byte 0x20), (0x20, Byte 0x20)]\<rparr>"
      unfolding stub by (simp only:) (simp add: u_def t)
    then show ?thesis by (auto simp: interrupt_entry_def u_def)
  qed
  moreover have "mem_word m (entry_frame s) k = entry_words v e d s ! k" if "k < length (entry_words v e d s)" for k
    using pushed_words [of ws k "(base, mem s)"] that l by (simp add: m_def fr r [symmetric])
  moreover have "m a = mem s a" if "a \<notin> span (entry_frame s) 76" for a
  proof -
    have "span (entry_frame s) (4 * length ws) \<subseteq> span (entry_frame s) 76"
      using span_shift [of 0 "4 * length ws" 76 "entry_frame s"] l by (simp del: span_numeral)
    then have "a \<notin> span (base - 4 * of_nat (length ws)) (4 * length ws)"
      using that fr by (auto simp: push_esp simp del: span_numeral)
    then show ?thesis using push_other [of ws a "(base, mem s)"] l by (simp add: m_def del: span_numeral)
  qed
  ultimately show ?thesis by blast
qed

definition frame_size :: "'a dstate_scheme \<Rightarrow> nat" where
  "frame_size s = (if from_user s then 76 else 68)"

lemma ring_bits: "ucast (cs :: u16) AND (3 :: u32) = ucast (cs AND 3)"
  by (simp add: unsigned_and_eq)

lemma narrow_widened [simp]: "ucast (ucast (x :: u16) :: u32) = x"
  by transfer (simp add: min_def)

lemma widened_zero: "(ucast (x :: u16) :: u32) = 0 \<longleftrightarrow> x = 0"
  by transfer (simp add: min_def)

lemma intr_exit_returns:
  fixes s t :: "'a pstate_scheme"
  assumes v: "v \<noteq> 9" and five: "length (segs s) = 5"
    and sp: "ctx_esp (regs t) = entry_frame s"
    and same: "\<And>a. a \<in> span (entry_frame s) (frame_size s) \<Longrightarrow> mem t a = mem (interrupt_entry v err s) a"
    and sg: "segs t = segs (interrupt_entry v err s)"
  shows "regs (intr_exit t) = regs s \<and> eax (intr_exit t) = eax s \<and> eflags (intr_exit t) = eflags s \<and>
    segs (intr_exit t) = segs s \<and> fs_sel (intr_exit t) = fs_sel s"
proof -
  let ?fr = "entry_frame s"
  obtain m d e c where i: "interrupt_entry v err s =
      s\<lparr>regs := (regs s)\<lparr>ctx_esp := entry_frame s\<rparr>, mem := m, eax := c, eflags := eflags s AND NOT EFLAGS_IF,
        segs := (if from_user s then (segs s)[2 := ucast (tss_ss0 (tss s))] else segs s)[4 := SELECTOR_KERNEL_CODE],
        port_writes := port_writes s @ [(0xa0, Byte 0x20), (0x20, Byte 0x20)]\<rparr>"
    and w: "\<And>k. k < length (entry_words v e d s) \<Longrightarrow> mem_word m ?fr k = entry_words v e d s ! k"
    using interrupt_entry_eq [OF v, of err s] by blast
  have n: "4 * length (entry_words v e d s) = frame_size s" by (simp add: entry_words_def frame_size_def)
  have fw: "frame_word ?fr k t = entry_words v e d s ! k" if k: "k < length (entry_words v e d s)" for k
  proof -
    have "span (?fr + of_nat (4 * k)) 4 \<subseteq> span ?fr (frame_size s)" by (rule span_shift) (use k n in simp)
    then have "span (?fr + 4 * of_nat k) 4 \<subseteq> span ?fr (frame_size s)" by simp
    then have "mem_word (mem t) ?fr k = mem_word m ?fr k"
      unfolding mem_word_def using same i by (intro read32_cong) auto
    then show ?thesis using w [OF k] by (simp add: frame_word_mem)
  qed
  have f: "frame_word ?fr (Suc 0) t = ctx_edi (regs s)" "frame_word ?fr 2 t = ctx_esi (regs s)" "frame_word ?fr 3 t = ctx_ebp (regs s)"
    "frame_word ?fr 5 t = ctx_ebx (regs s)" "frame_word ?fr 6 t = ctx_edx (regs s)" "frame_word ?fr 7 t = ctx_ecx (regs s)"
    "frame_word ?fr 8 t = eax s" "frame_word ?fr 9 t = ucast (segs s ! 3)" "frame_word ?fr 10 t = ucast (fs_sel s)"
    "frame_word ?fr 11 t = ucast (segs s ! 0)" "frame_word ?fr 12 t = ucast (segs s ! Suc 0)" "frame_word ?fr 14 t = ctx_eip (regs s)"
    "frame_word ?fr 15 t = ucast (segs s ! 4)" "frame_word ?fr 16 t = eflags s"
    using fw by (simp_all add: entry_words_def)
  have u: "frame_word ?fr 17 t = ctx_esp (regs s)" "frame_word ?fr 18 t = ucast (segs s ! 2)" if "from_user s"
    using fw that by (simp_all add: entry_words_def)
  have "segs t ! 4 = 8" using five by (simp add: sg i SELECTOR_KERNEL_CODE_def)
  moreover have "(0 :: u32) < ucast (segs s ! 4 AND 3) \<longleftrightarrow> from_user s"
    by (simp only: from_user_def word_neq_0_conv [symmetric] widened_zero)
  ultimately have outer: "ucast (segs t ! 4) AND 3 < frame_word ?fr 15 t AND 3 \<longleftrightarrow> from_user s"
    by (simp add: f ring_bits)
  have ss: "segs t ! 2 = segs s ! 2" if "\<not> from_user s" using that five by (simp add: sg i)
  have list5: "[segs s ! 0, segs s ! 1, segs s ! 2, segs s ! 3, segs s ! 4] = segs s"
    using five by (auto simp: length_Suc_conv numeral_eq_Suc)
  have esp: "ctx_esp (regs s) = ?fr + 68" if "\<not> from_user s" using that by (simp add: entry_frame_def)
  have r: "\<lparr>ctx_eip = ctx_eip r, ctx_esp = ctx_esp r, ctx_ebx = ctx_ebx r, ctx_ecx = ctx_ecx r, ctx_edx = ctx_edx r,
    ctx_esi = ctx_esi r, ctx_edi = ctx_edi r, ctx_ebp = ctx_ebp r\<rparr> = r" for r by simp
  have "regs (intr_exit t) = regs s" using u(1) esp outer r [of "regs s"] by (simp add: intr_exit_def Let_def sp f)
  moreover have "segs (intr_exit t) = segs s"
    using u(2) ss outer list5 by (simp add: intr_exit_def Let_def sp f)
  ultimately show ?thesis by (simp add: intr_exit_def Let_def sp f)
qed

section \<open>Properties\<close>

text \<open>C6. Interrupts are transparent: whatever a handler does, when it leaves the frame, the stack pointer and the segment
  registers as it found them, \<^verbatim>\<open>intr_exit\<close> returns to the interrupted code with all its registers, its
  segments and its flags, from the kernel to the kernel and from a process through the stack of its thread. This is so for
  every vector but 9, whose stub takes the flags for the error code that the processor does not push.\<close>

theorem interrupt_transparent:
  fixes s t :: "'a pstate_scheme"
  assumes "v \<noteq> 9" "length (segs s) = 5" "ctx_esp (regs t) = entry_frame s"
    and "\<And>a. a \<in> span (entry_frame s) (frame_size s) \<Longrightarrow> mem t a = mem (interrupt_entry v err s) a"
    and "segs t = segs (interrupt_entry v err s)"
  shows "regs (intr_exit t) = regs s \<and> eax (intr_exit t) = eax s \<and> eflags (intr_exit t) = eflags s \<and>
    segs (intr_exit t) = segs s \<and> fs_sel (intr_exit t) = fs_sel s"
  by (rule intr_exit_returns [OF assms])

theorem interrupt_transparent_witness:
  "let s = sample_process\<lparr>segs := [0x33, 0x33, 0x33, 0, 0x2b], tss_esp0 := 0x11000\<rparr>; t = interrupt_entry 13 5 s
   in regs (intr_exit (t\<lparr>eax := 7, ticks := 1\<rparr>)) = regs s \<and> segs (intr_exit (t\<lparr>eax := 7, ticks := 1\<rparr>)) = segs s"
proof -
  let ?s = "sample_process\<lparr>segs := [0x33, 0x33, 0x33, 0, 0x2b], tss_esp0 := 0x11000\<rparr>"
  have "ctx_esp (regs (interrupt_entry 13 5 ?s)) = entry_frame ?s" using interrupt_entry_eq [of 13 5 ?s] by auto
  then show ?thesis
    unfolding Let_def using interrupt_transparent [of 13 ?s "(interrupt_entry 13 5 ?s)\<lparr>eax := 7, ticks := 1\<rparr>" 5] by simp
qed

text \<open>C39. A clock interrupt that does not end the time slice goes unnoticed: from user or kernel mode, the handler counts the
  tick for the system and for the thread on whose stack it runs, takes one from its slice, and \<^verbatim>\<open>intr_exit\<close>
  restores the interrupted code; no memory but the frame changes.\<close>

theorem clock_tick_unnoticed:
  fixes s :: "'a pstate_scheme"
  assumes "length (segs s) = 5" "p = entry_frame s AND 0xfffff000"
    and "stack_magic (threads s p) = 0x19870916" "ticks_left (threads s p) \<noteq> 0"
  shows "\<exists>t. general_intr_handler 32 (interrupt_entry 32 err s) = Inr t \<and>
    regs (intr_exit t) = regs s \<and> eax (intr_exit t) = eax s \<and> eflags (intr_exit t) = eflags s \<and>
    segs (intr_exit t) = segs s \<and> fs_sel (intr_exit t) = fs_sel s \<and>
    ticks t = ticks s + 1 \<and>
    threads t = (threads s)(p := (threads s p)\<lparr>elapsed_ticks := elapsed_ticks (threads s p) + 1,
      ticks_left := ticks_left (threads s p) - 1\<rparr>) \<and>
    (\<forall>a. a \<notin> span (entry_frame s) 76 \<longrightarrow> mem t a = mem s a)"
proof -
  define e where "e = interrupt_entry 32 err s"
  obtain m d x c where i: "interrupt_entry 32 err s =
      s\<lparr>regs := (regs s)\<lparr>ctx_esp := entry_frame s\<rparr>, mem := m, eax := c, eflags := eflags s AND NOT EFLAGS_IF,
        segs := (if from_user s then (segs s)[2 := ucast (tss_ss0 (tss s))] else segs s)[4 := SELECTOR_KERNEL_CODE],
        port_writes := port_writes s @ [(0xa0, Byte 0x20), (0x20, Byte 0x20)]\<rparr>"
    and m: "\<forall>a. a \<notin> span (entry_frame s) 76 \<longrightarrow> m a = mem s a"
    using interrupt_entry_eq [of 32 err s] by auto
  have e: "threads e = threads s" "ticks e = ticks s" "mem e = m" "ctx_esp (regs e) = entry_frame s" "running_thread e = p"
    by (simp_all add: e_def i running_thread_def assms(2))
  let ?f = "\<lambda>t. t\<lparr>elapsed_ticks := elapsed_ticks t + 1, ticks_left := ticks_left t - 1\<rparr>"
  define t where "t = (upd_thread p ?f e)\<lparr>ticks := ticks s + 1\<rparr>"
  have "general_intr_handler 32 e = Inr t"
    using assms(3,4) by (simp add: general_intr_handler_def timer_intr_handler_def Let_def e t_def upd_thread_def)
  moreover have "regs (intr_exit t) = regs s \<and> eax (intr_exit t) = eax s \<and> eflags (intr_exit t) = eflags s \<and>
    segs (intr_exit t) = segs s \<and> fs_sel (intr_exit t) = fs_sel s"
    by (rule intr_exit_returns [OF _ assms(1), of 32 _ err])
      (simp_all add: t_def e(3,4) e_def [symmetric] upd_thread_def)
  moreover have "threads t = (threads s)(p := ?f (threads s p))" "ticks t = ticks s + 1" "mem t = m"
    by (simp_all add: t_def upd_thread_def e)
  ultimately show ?thesis using m by (auto simp: e_def)
qed

theorem clock_tick_unnoticed_witness:
  "let s = sample_process\<lparr>segs := [0x33, 0x33, 0x33, 0, 0x2b], tss_esp0 := 0x11000,
             threads := (\<lambda>_. zero_thread\<lparr>stack_magic := 0x19870916, ticks_left := 5\<rparr>)\<rparr>
   in \<exists>t. general_intr_handler 32 (interrupt_entry 32 0 s) = Inr t \<and> regs (intr_exit t) = regs s \<and>
        ticks_left (threads t 0x10000) = 4"
proof -
  let ?s = "sample_process\<lparr>segs := [0x33, 0x33, 0x33, 0, 0x2b], tss_esp0 := 0x11000,
             threads := (\<lambda>_. zero_thread\<lparr>stack_magic := 0x19870916, ticks_left := 5\<rparr>)\<rparr>"
  have "entry_frame ?s = 0x10fb4" by (simp add: entry_frame_def from_user_def)
  then show ?thesis
    unfolding Let_def using clock_tick_unnoticed [of ?s "0x10000" 0] by auto
qed

text \<open>C40. The disk behind the second controller never wakes its reader: \<^verbatim>\<open>hd_intr_handler\<close> would serve vector
  \<open>0x2f\<close>, but \<^verbatim>\<open>general_intr_handler\<close> returns before it dispatches it, so that the thread stays
  blocked on a semaphore that nobody raises.\<close>

theorem second_channel_interrupt_lost:
  fixes s :: "'a pstate_scheme"
  assumes "sched_inv T TASK_RUNNING s q" "p \<in> T" "p \<noteq> running_thread s" "p \<notin> set q"
    and "c = channel_at 1 s" "irq_no (ide_channels s c) = 0x2f" "expecting_intr (ide_channels s c) \<noteq> 0"
    and "semas s (disk_done c) = 0" "holds (waiters (disk_done c)) s (general_tag p # ws)"
      "set (nodes (waiters (disk_done c)) (general_tag p # ws)) \<inter> set (nodes (ready_list s) (map general_tag q)) = {}"
  shows "(\<exists>s'. hd_intr_handler 0x2f s = Inr s' \<and> sched_inv T TASK_RUNNING s' (p # q) \<and> semas s' (disk_done c) = 1) \<and>
    (\<exists>s'. general_intr_handler 0x2f s = Inr s' \<and> \<not> sched_inv T TASK_RUNNING s' (p # q) \<and> semas s' (disk_done c) = 0)"
proof
  show "\<exists>s'. hd_intr_handler 0x2f s = Inr s' \<and> sched_inv T TASK_RUNNING s' (p # q) \<and> semas s' (disk_done c) = 1"
    using hd_intr_handler_wakes_eq [OF assms(1-4) _ _ assms(6-10)] assms(5) by auto
  have "\<not> ready s (p # q)"
    using ready_find [of s "p # q" p] ready_find [of s q p] assms(1,4) by (auto simp: sched_inv_def)
  then show "\<exists>s'. general_intr_handler 0x2f s = Inr s' \<and> \<not> sched_inv T TASK_RUNNING s' (p # q) \<and> semas s' (disk_done c) = 0"
    using assms(8) by (auto simp: general_intr_handler_def sched_inv_def)
qed

definition sample_second :: pstate where
  "sample_second = fstate.extend (istate.extend
     (sample_ide_waiting\<lparr>channels_at := 0x49b0, ide_channels := (\<lambda>_. \<lparr>port_base = 0x170, irq_no = 0x2f, expecting_intr = 1\<rparr>)\<rparr>)
     \<lparr>cur_part = 0, file_table = []\<rparr>)
     \<lparr>eax = 0, fs_sel = 0, idle_at = 0, process_start_at = 0\<rparr>"

lemma sample_second_fields [simp]:
  "ide_channels sample_second c = \<lparr>port_base = 0x170, irq_no = 0x2f, expecting_intr = 1\<rparr>" "channels_at sample_second = 0x49b0"
  "semas sample_second l = 0" "threads sample_second = threads sample_sched" "regs sample_second = regs sample_sched"
  "ready_list sample_second = 0x100" "idle_thread sample_second = 0x20000" "entries sample_second = entries sample_ide_waiting"
  by (simp_all add: sample_second_def fstate.defs istate.defs)

theorem second_channel_interrupt_lost_witness:
  "\<exists>s'. general_intr_handler 0x2f sample_second = Inr s' \<and> semas s' 0x501c = 0"
proof -
  note w = sample_ide_waiting_lists
  have inv: "sched_inv {0x10000, 0x20000, 0x30000} TASK_RUNNING sample_second [0x30000]"
    by (intro sched_inv_links [OF sample_sched_inv]) (use w(2) in \<open>simp_all add: sample_sched_fields general_tag_def holds_def\<close>)
  have "running_thread sample_second = 0x10000" using sample_sched_fields(3) by (simp add: running_thread_def)
  then show ?thesis
    using second_channel_interrupt_lost [OF inv, of "0x20000" "0x5000" "[]"] w
    by (auto simp: channel_at_def disk_done_def waiters_def general_tag_def nodes_def tailer_def holds_def)
qed

end
