(* ===== verification/Stubs.thy ===== *)
theory Stubs
  imports Interrupts
begin

text \<open>
  The code of \<^verbatim>\<open>kernel/kernel.S\<close>, instruction by instruction: the stubs of the vectors 0 to 50, the exit and the table of
  the entries. Run on the state, it does what \<open>vector_stub\<close> and \<open>intr_exit\<close> say.
\<close>

section \<open>Instructions\<close>

datatype sreg = DS | ES | FS | GS

datatype instr =
    Pushl u32
  | Push sreg
  | Pushal
  | Movb_al u8
  | Outb_al u8
  | Call_general_intr_handler
  | Jmp_intr_exit
  | Addl_esp u32
  | Popal
  | Pop sreg
  | Iret

fun sreg_value :: "sreg \<Rightarrow> 'a pstate_scheme \<Rightarrow> u16" where
  "sreg_value ES s = segs s ! 0"
| "sreg_value DS s = segs s ! 1"
| "sreg_value GS s = segs s ! 3"
| "sreg_value FS s = fs_sel s"

fun set_sreg :: "sreg \<Rightarrow> u16 \<Rightarrow> 'a pstate_scheme \<Rightarrow> 'a pstate_scheme" where
  "set_sreg ES v s = s\<lparr>segs := (segs s)[0 := v]\<rparr>"
| "set_sreg DS v s = s\<lparr>segs := (segs s)[1 := v]\<rparr>"
| "set_sreg GS v s = s\<lparr>segs := (segs s)[3 := v]\<rparr>"
| "set_sreg FS v s = s\<lparr>fs_sel := v\<rparr>"

definition add_esp :: "u32 \<Rightarrow> 'a tstate_scheme \<Rightarrow> 'a tstate_scheme" where
  "add_esp n s = s\<lparr>regs := (regs s)\<lparr>ctx_esp := ctx_esp (regs s) + n\<rparr>\<rparr>"

definition top32 :: "'a tstate_scheme \<Rightarrow> u32" where
  "top32 s = read32 (mem s) (ctx_esp (regs s))"

text \<open>\<^verbatim>\<open>pushal\<close> pushes the stack pointer it finds, \<^verbatim>\<open>popal\<close> skips it; \<^verbatim>\<open>iret\<close>
  to an outer ring pops stack pointer and stack segment too.\<close>

definition pushal :: "'a pstate_scheme \<Rightarrow> 'a pstate_scheme" where
  "pushal s =
     (let r = regs s
      in fold push32 [eax s, ctx_ecx r, ctx_edx r, ctx_ebx r, ctx_esp r, ctx_ebp r, ctx_esi r, ctx_edi r] s)"

definition pop_to :: "(u32 \<Rightarrow> 'a tstate_scheme \<Rightarrow> 'a tstate_scheme) \<Rightarrow> 'a tstate_scheme \<Rightarrow> 'a tstate_scheme" where
  "pop_to f s = f (top32 s) (add_esp 4 s)"

definition popal :: "'a pstate_scheme \<Rightarrow> 'a pstate_scheme" where
  "popal s =
     (let s = pop_to (\<lambda>v s. s\<lparr>regs := (regs s)\<lparr>ctx_edi := v\<rparr>\<rparr>) s;
          s = pop_to (\<lambda>v s. s\<lparr>regs := (regs s)\<lparr>ctx_esi := v\<rparr>\<rparr>) s;
          s = pop_to (\<lambda>v s. s\<lparr>regs := (regs s)\<lparr>ctx_ebp := v\<rparr>\<rparr>) s;
          s = add_esp 4 s;
          s = pop_to (\<lambda>v s. s\<lparr>regs := (regs s)\<lparr>ctx_ebx := v\<rparr>\<rparr>) s;
          s = pop_to (\<lambda>v s. s\<lparr>regs := (regs s)\<lparr>ctx_edx := v\<rparr>\<rparr>) s;
          s = pop_to (\<lambda>v s. s\<lparr>regs := (regs s)\<lparr>ctx_ecx := v\<rparr>\<rparr>) s
      in pop_to (\<lambda>v s. s\<lparr>eax := v\<rparr>) s)"

definition iret :: "'a pstate_scheme \<Rightarrow> 'a pstate_scheme" where
  "iret s =
     (let ring = ucast (segs s ! 4) AND (3 :: u32);
          s = pop_to (\<lambda>v s. s\<lparr>regs := (regs s)\<lparr>ctx_eip := v\<rparr>\<rparr>) s;
          outer = ring < top32 s AND 3;
          s = pop_to (\<lambda>v s. s\<lparr>segs := (segs s)[4 := ucast v]\<rparr>) s;
          s = pop_to (\<lambda>v s. s\<lparr>eflags := v\<rparr>) s
      in if outer then
           let esp = top32 s; s = add_esp 4 s; ss = top32 s
           in s\<lparr>regs := (regs s)\<lparr>ctx_esp := esp\<rparr>, segs := (segs s)[2 := ucast ss]\<rparr>
         else s)"

text \<open>One instruction. The call of the handler and the jump to the exit end a stretch of code; they are in the claim below.\<close>

fun exec :: "instr \<Rightarrow> 'a pstate_scheme \<Rightarrow> 'a pstate_scheme" where
  "exec (Pushl v) s = push32 v s"
| "exec (Push r) s = push32 (ucast (sreg_value r s)) s"
| "exec Pushal s = pushal s"
| "exec (Movb_al v) s = s\<lparr>eax := (eax s AND NOT 0xff) OR ucast v\<rparr>"
| "exec (Outb_al p) s = outb (ucast p) (ucast (eax s)) s"
| "exec (Addl_esp n) s = add_esp n s"
| "exec Popal s = popal s"
| "exec (Pop r) s = pop_to (\<lambda>v. set_sreg r (ucast v)) s"
| "exec Iret s = iret s"
| "exec Call_general_intr_handler s = s"
| "exec Jmp_intr_exit s = s"

section \<open>The code\<close>

definition vectors_0 :: "instr list list" where
  "vectors_0 =
     [[Pushl 0, Push DS, Push ES, Push FS, Push GS, Pushal, Pushl 0, Movb_al 0x20, Outb_al 0xa0, Outb_al 0x20, Call_general_intr_handler, Jmp_intr_exit],
      [Pushl 0, Push DS, Push ES, Push FS, Push GS, Pushal, Pushl 1, Movb_al 0x20, Outb_al 0xa0, Outb_al 0x20, Call_general_intr_handler, Jmp_intr_exit],
      [Pushl 0, Push DS, Push ES, Push FS, Push GS, Pushal, Pushl 2, Movb_al 0x20, Outb_al 0xa0, Outb_al 0x20, Call_general_intr_handler, Jmp_intr_exit],
      [Pushl 0, Push DS, Push ES, Push FS, Push GS, Pushal, Pushl 3, Movb_al 0x20, Outb_al 0xa0, Outb_al 0x20, Call_general_intr_handler, Jmp_intr_exit],
      [Pushl 0, Push DS, Push ES, Push FS, Push GS, Pushal, Pushl 4, Movb_al 0x20, Outb_al 0xa0, Outb_al 0x20, Call_general_intr_handler, Jmp_intr_exit],
      [Pushl 0, Push DS, Push ES, Push FS, Push GS, Pushal, Pushl 5, Movb_al 0x20, Outb_al 0xa0, Outb_al 0x20, Call_general_intr_handler, Jmp_intr_exit],
      [Pushl 0, Push DS, Push ES, Push FS, Push GS, Pushal, Pushl 6, Movb_al 0x20, Outb_al 0xa0, Outb_al 0x20, Call_general_intr_handler, Jmp_intr_exit],
      [Pushl 0, Push DS, Push ES, Push FS, Push GS, Pushal, Pushl 7, Movb_al 0x20, Outb_al 0xa0, Outb_al 0x20, Call_general_intr_handler, Jmp_intr_exit],
      [Push DS, Push ES, Push FS, Push GS, Pushal, Pushl 8, Movb_al 0x20, Outb_al 0xa0, Outb_al 0x20, Call_general_intr_handler, Jmp_intr_exit],
      [Push DS, Push ES, Push FS, Push GS, Pushal, Pushl 9, Movb_al 0x20, Outb_al 0xa0, Outb_al 0x20, Call_general_intr_handler, Jmp_intr_exit]]"

definition vectors_10 :: "instr list list" where
  "vectors_10 =
     [[Push DS, Push ES, Push FS, Push GS, Pushal, Pushl 10, Movb_al 0x20, Outb_al 0xa0, Outb_al 0x20, Call_general_intr_handler, Jmp_intr_exit],
      [Push DS, Push ES, Push FS, Push GS, Pushal, Pushl 11, Movb_al 0x20, Outb_al 0xa0, Outb_al 0x20, Call_general_intr_handler, Jmp_intr_exit],
      [Push DS, Push ES, Push FS, Push GS, Pushal, Pushl 12, Movb_al 0x20, Outb_al 0xa0, Outb_al 0x20, Call_general_intr_handler, Jmp_intr_exit],
      [Push DS, Push ES, Push FS, Push GS, Pushal, Pushl 13, Movb_al 0x20, Outb_al 0xa0, Outb_al 0x20, Call_general_intr_handler, Jmp_intr_exit],
      [Push DS, Push ES, Push FS, Push GS, Pushal, Pushl 14, Movb_al 0x20, Outb_al 0xa0, Outb_al 0x20, Call_general_intr_handler, Jmp_intr_exit],
      [Pushl 0, Push DS, Push ES, Push FS, Push GS, Pushal, Pushl 15, Movb_al 0x20, Outb_al 0xa0, Outb_al 0x20, Call_general_intr_handler, Jmp_intr_exit],
      [Pushl 0, Push DS, Push ES, Push FS, Push GS, Pushal, Pushl 16, Movb_al 0x20, Outb_al 0xa0, Outb_al 0x20, Call_general_intr_handler, Jmp_intr_exit],
      [Push DS, Push ES, Push FS, Push GS, Pushal, Pushl 17, Movb_al 0x20, Outb_al 0xa0, Outb_al 0x20, Call_general_intr_handler, Jmp_intr_exit],
      [Pushl 0, Push DS, Push ES, Push FS, Push GS, Pushal, Pushl 18, Movb_al 0x20, Outb_al 0xa0, Outb_al 0x20, Call_general_intr_handler, Jmp_intr_exit],
      [Pushl 0, Push DS, Push ES, Push FS, Push GS, Pushal, Pushl 19, Movb_al 0x20, Outb_al 0xa0, Outb_al 0x20, Call_general_intr_handler, Jmp_intr_exit]]"

definition vectors_20 :: "instr list list" where
  "vectors_20 =
     [[Pushl 0, Push DS, Push ES, Push FS, Push GS, Pushal, Pushl 20, Movb_al 0x20, Outb_al 0xa0, Outb_al 0x20, Call_general_intr_handler, Jmp_intr_exit],
      [Pushl 0, Push DS, Push ES, Push FS, Push GS, Pushal, Pushl 21, Movb_al 0x20, Outb_al 0xa0, Outb_al 0x20, Call_general_intr_handler, Jmp_intr_exit],
      [Pushl 0, Push DS, Push ES, Push FS, Push GS, Pushal, Pushl 22, Movb_al 0x20, Outb_al 0xa0, Outb_al 0x20, Call_general_intr_handler, Jmp_intr_exit],
      [Pushl 0, Push DS, Push ES, Push FS, Push GS, Pushal, Pushl 23, Movb_al 0x20, Outb_al 0xa0, Outb_al 0x20, Call_general_intr_handler, Jmp_intr_exit],
      [Pushl 0, Push DS, Push ES, Push FS, Push GS, Pushal, Pushl 24, Movb_al 0x20, Outb_al 0xa0, Outb_al 0x20, Call_general_intr_handler, Jmp_intr_exit],
      [Pushl 0, Push DS, Push ES, Push FS, Push GS, Pushal, Pushl 25, Movb_al 0x20, Outb_al 0xa0, Outb_al 0x20, Call_general_intr_handler, Jmp_intr_exit],
      [Pushl 0, Push DS, Push ES, Push FS, Push GS, Pushal, Pushl 26, Movb_al 0x20, Outb_al 0xa0, Outb_al 0x20, Call_general_intr_handler, Jmp_intr_exit],
      [Pushl 0, Push DS, Push ES, Push FS, Push GS, Pushal, Pushl 27, Movb_al 0x20, Outb_al 0xa0, Outb_al 0x20, Call_general_intr_handler, Jmp_intr_exit],
      [Pushl 0, Push DS, Push ES, Push FS, Push GS, Pushal, Pushl 28, Movb_al 0x20, Outb_al 0xa0, Outb_al 0x20, Call_general_intr_handler, Jmp_intr_exit],
      [Pushl 0, Push DS, Push ES, Push FS, Push GS, Pushal, Pushl 29, Movb_al 0x20, Outb_al 0xa0, Outb_al 0x20, Call_general_intr_handler, Jmp_intr_exit]]"

definition vectors_30 :: "instr list list" where
  "vectors_30 =
     [[Pushl 0, Push DS, Push ES, Push FS, Push GS, Pushal, Pushl 30, Movb_al 0x20, Outb_al 0xa0, Outb_al 0x20, Call_general_intr_handler, Jmp_intr_exit],
      [Pushl 0, Push DS, Push ES, Push FS, Push GS, Pushal, Pushl 31, Movb_al 0x20, Outb_al 0xa0, Outb_al 0x20, Call_general_intr_handler, Jmp_intr_exit],
      [Pushl 0, Push DS, Push ES, Push FS, Push GS, Pushal, Pushl 32, Movb_al 0x20, Outb_al 0xa0, Outb_al 0x20, Call_general_intr_handler, Jmp_intr_exit],
      [Pushl 0, Push DS, Push ES, Push FS, Push GS, Pushal, Pushl 33, Movb_al 0x20, Outb_al 0xa0, Outb_al 0x20, Call_general_intr_handler, Jmp_intr_exit],
      [Pushl 0, Push DS, Push ES, Push FS, Push GS, Pushal, Pushl 34, Movb_al 0x20, Outb_al 0xa0, Outb_al 0x20, Call_general_intr_handler, Jmp_intr_exit],
      [Pushl 0, Push DS, Push ES, Push FS, Push GS, Pushal, Pushl 35, Movb_al 0x20, Outb_al 0xa0, Outb_al 0x20, Call_general_intr_handler, Jmp_intr_exit],
      [Pushl 0, Push DS, Push ES, Push FS, Push GS, Pushal, Pushl 36, Movb_al 0x20, Outb_al 0xa0, Outb_al 0x20, Call_general_intr_handler, Jmp_intr_exit],
      [Pushl 0, Push DS, Push ES, Push FS, Push GS, Pushal, Pushl 37, Movb_al 0x20, Outb_al 0xa0, Outb_al 0x20, Call_general_intr_handler, Jmp_intr_exit],
      [Pushl 0, Push DS, Push ES, Push FS, Push GS, Pushal, Pushl 38, Movb_al 0x20, Outb_al 0xa0, Outb_al 0x20, Call_general_intr_handler, Jmp_intr_exit],
      [Pushl 0, Push DS, Push ES, Push FS, Push GS, Pushal, Pushl 39, Movb_al 0x20, Outb_al 0xa0, Outb_al 0x20, Call_general_intr_handler, Jmp_intr_exit]]"

definition vectors_40 :: "instr list list" where
  "vectors_40 =
     [[Pushl 0, Push DS, Push ES, Push FS, Push GS, Pushal, Pushl 40, Movb_al 0x20, Outb_al 0xa0, Outb_al 0x20, Call_general_intr_handler, Jmp_intr_exit],
      [Pushl 0, Push DS, Push ES, Push FS, Push GS, Pushal, Pushl 41, Movb_al 0x20, Outb_al 0xa0, Outb_al 0x20, Call_general_intr_handler, Jmp_intr_exit],
      [Pushl 0, Push DS, Push ES, Push FS, Push GS, Pushal, Pushl 42, Movb_al 0x20, Outb_al 0xa0, Outb_al 0x20, Call_general_intr_handler, Jmp_intr_exit],
      [Pushl 0, Push DS, Push ES, Push FS, Push GS, Pushal, Pushl 43, Movb_al 0x20, Outb_al 0xa0, Outb_al 0x20, Call_general_intr_handler, Jmp_intr_exit],
      [Pushl 0, Push DS, Push ES, Push FS, Push GS, Pushal, Pushl 44, Movb_al 0x20, Outb_al 0xa0, Outb_al 0x20, Call_general_intr_handler, Jmp_intr_exit],
      [Pushl 0, Push DS, Push ES, Push FS, Push GS, Pushal, Pushl 45, Movb_al 0x20, Outb_al 0xa0, Outb_al 0x20, Call_general_intr_handler, Jmp_intr_exit],
      [Pushl 0, Push DS, Push ES, Push FS, Push GS, Pushal, Pushl 46, Movb_al 0x20, Outb_al 0xa0, Outb_al 0x20, Call_general_intr_handler, Jmp_intr_exit],
      [Pushl 0, Push DS, Push ES, Push FS, Push GS, Pushal, Pushl 47, Movb_al 0x20, Outb_al 0xa0, Outb_al 0x20, Call_general_intr_handler, Jmp_intr_exit],
      [Pushl 0, Push DS, Push ES, Push FS, Push GS, Pushal, Pushl 48, Movb_al 0x20, Outb_al 0xa0, Outb_al 0x20, Call_general_intr_handler, Jmp_intr_exit],
      [Pushl 0, Push DS, Push ES, Push FS, Push GS, Pushal, Pushl 49, Movb_al 0x20, Outb_al 0xa0, Outb_al 0x20, Call_general_intr_handler, Jmp_intr_exit],
      [Pushl 0, Push DS, Push ES, Push FS, Push GS, Pushal, Pushl 50, Movb_al 0x20, Outb_al 0xa0, Outb_al 0x20, Call_general_intr_handler, Jmp_intr_exit]]"

definition intr_exit_code :: "instr list" where
  "intr_exit_code = [Addl_esp 4, Popal, Pop GS, Pop FS, Pop ES, Pop DS, Addl_esp 4, Iret]"

text \<open>The table, with the numbers of its labels.\<close>

definition entry_labels :: "nat list" where
  "entry_labels =
     [0, 1, 2, 3, 4, 5, 6, 7, 8, 9, 10, 11, 12, 13, 14, 15, 16,
      17, 18, 19, 20, 21, 22, 23, 24, 25, 26, 27, 28, 29, 30, 31, 32, 33,
      34, 35, 36, 37, 38, 39, 40, 41, 42, 43, 44, 45, 46, 47, 48, 49, 50]"

definition vector_code :: "nat \<Rightarrow> instr list" where
  "vector_code k = (vectors_0 @ vectors_10 @ vectors_20 @ vectors_30 @ vectors_40) ! (entry_labels ! k)"

section \<open>What it does\<close>

definition stub_code :: "nat \<Rightarrow> instr list" where
  "stub_code v =
     (if stub_expects_code (of_nat v) then [] else [Pushl 0]) @
     [Push DS, Push ES, Push FS, Push GS, Pushal, Pushl (of_nat v), Movb_al 0x20, Outb_al 0xa0, Outb_al 0x20]"

lemma below_51: "[0..<51] = map of_nat [0, 1, 2, 3, 4, 5, 6, 7, 8, 9, 10, 11, 12, 13, 14, 15, 16, 17, 18, 19, 20, 21, 22, 23, 24, 25,
    26, 27, 28, 29, 30, 31, 32, 33, 34, 35, 36, 37, 38, 39, 40, 41, 42, 43, 44, 45, 46, 47, 48, 49, 50]"
  by (simp add: numeral_eq_Suc upt_rec)

lemma vector_code_eq:
  assumes "v < 51"
  shows "vector_code v = stub_code v @ [Call_general_intr_handler, Jmp_intr_exit]"
proof -
  have "list_all (\<lambda>v. vector_code v = stub_code v @ [Call_general_intr_handler, Jmp_intr_exit]) [0..<51]"
    unfolding below_51
    by (simp add: vector_code_def entry_labels_def vectors_0_def vectors_10_def vectors_20_def vectors_30_def vectors_40_def
        stub_code_def stub_expects_code_def)
  then show ?thesis using assms by (simp add: list_all_iff)
qed

lemma push32_fields [simp]:
  "segs (push32 v s) = segs s" "eax (push32 v t) = eax t" "fs_sel (push32 v t) = fs_sel t"
  "ctx_esp (regs (push32 v u)) = ctx_esp (regs u) - 4" "ctx_ecx (regs (push32 v u)) = ctx_ecx (regs u)"
  "ctx_edx (regs (push32 v u)) = ctx_edx (regs u)" "ctx_ebx (regs (push32 v u)) = ctx_ebx (regs u)"
  "ctx_ebp (regs (push32 v u)) = ctx_ebp (regs u)" "ctx_esi (regs (push32 v u)) = ctx_esi (regs u)"
  "ctx_edi (regs (push32 v u)) = ctx_edi (regs u)"
  by (simp_all add: push32_def Let_def store32_def)

lemma al_part: "ucast ((x :: u32) AND NOT 0xff OR 0x20) = (0x20 :: u8)"
proof -
  have m: "(0xff :: u32) = mask 8" by (simp add: mask_eq_exp_minus_1)
  have "ucast (x AND NOT 0xff) = (0 :: u8)" unfolding m by (rule bit_word_eqI) (simp add: bit_simps)
  then show ?thesis by (simp add: unsigned_or_eq)
qed

lemma number_word: "v < 51 \<Longrightarrow> ucast (of_nat v :: u8) = (of_nat v :: u32)"
  by (rule unat_inj) (simp add: unat_of_nat unsigned_ucast_eq take_bit_nat_eq_self_iff)

lemma stub_code_runs: "v < 51 \<Longrightarrow> fold exec (stub_code v) s = vector_stub (of_nat v) s"
  by (simp add: stub_code_def vector_stub_def stub_words_def pushal_def Let_def number_word al_part [simplified] outb_def)

lemma top_pushed: "top32 (push32 v s) = v"
  by (simp add: top32_def push32_def store32_def Let_def read_write32)

lemma vector_stub_top: "top32 (vector_stub v s) = ucast v"
  by (simp add: vector_stub_def stub_words_def Let_def outb_def top32_def push32_def store32_def read_write32)

lemma popal_eq:
  "popal s = s\<lparr>eax := frame_word (ctx_esp (regs s)) 7 s, regs := \<lparr>ctx_eip = ctx_eip (regs s), ctx_esp = ctx_esp (regs s) + 32,
     ctx_ebx = frame_word (ctx_esp (regs s)) 4 s, ctx_ecx = frame_word (ctx_esp (regs s)) 6 s,
     ctx_edx = frame_word (ctx_esp (regs s)) 5 s, ctx_esi = frame_word (ctx_esp (regs s)) 1 s,
     ctx_edi = frame_word (ctx_esp (regs s)) 0 s, ctx_ebp = frame_word (ctx_esp (regs s)) 2 s\<rparr>\<rparr>"
  by (cases "regs s", rule pstate.equality) (simp_all add: popal_def pop_to_def top32_def add_esp_def Let_def frame_word_def add.commute)

lemma updates_order:
  "s\<lparr>regs := r, eax := x, fs_sel := f, eflags := e, segs := l\<rparr> = s\<lparr>eax := x, fs_sel := f, eflags := e, regs := r, segs := l\<rparr>"
  by (rule pstate.equality) simp_all

lemma intr_exit_updates:
  assumes g: "segs s = [a, b, c, d, e]"
  shows "intr_exit s =
    (let sp = ctx_esp (regs s); w = (\<lambda>k. frame_word sp k s); outer = (ucast e AND 3 < w 15 AND 3)
     in s\<lparr>eax := w 8, fs_sel := ucast (w 10), eflags := w 16,
          regs := \<lparr>ctx_eip = w 14, ctx_esp = (if outer then w 17 else sp + 68), ctx_ebx = w 5, ctx_ecx = w 7,
                    ctx_edx = w 6, ctx_esi = w 2, ctx_edi = w 1, ctx_ebp = w 3\<rparr>,
          segs := [ucast (w 11), ucast (w 12), if outer then ucast (w 18) else c, ucast (w 9), ucast (w 15)]\<rparr>)"
proof -
  have n: "segs s ! 4 = e" "segs s ! 2 = c" by (simp_all add: g)
  show ?thesis unfolding intr_exit_def Let_def updates_order n ..
qed

lemma intr_exit_code_runs:
  assumes "length (segs s) = 5"
  shows "fold exec intr_exit_code s = intr_exit s"
proof -
  obtain a b c d e where g: "segs s = [a, b, c, d, e]" using assms by (auto simp: numeral_eq_Suc length_Suc_conv)
  define u where "u = fold exec [Addl_esp 4, Popal, Pop GS, Pop FS, Pop ES, Pop DS, Addl_esp 4] s"
  have run: "fold exec intr_exit_code s = iret u" by (simp add: intr_exit_code_def u_def)
  have u: "u = s\<lparr>eax := frame_word (ctx_esp (regs s)) 8 s, fs_sel := ucast (frame_word (ctx_esp (regs s)) 10 s),
     regs := \<lparr>ctx_eip = ctx_eip (regs s), ctx_esp = ctx_esp (regs s) + 56, ctx_ebx = frame_word (ctx_esp (regs s)) 5 s,
       ctx_ecx = frame_word (ctx_esp (regs s)) 7 s, ctx_edx = frame_word (ctx_esp (regs s)) 6 s,
       ctx_esi = frame_word (ctx_esp (regs s)) 2 s, ctx_edi = frame_word (ctx_esp (regs s)) 1 s,
       ctx_ebp = frame_word (ctx_esp (regs s)) 3 s\<rparr>,
     segs := [ucast (frame_word (ctx_esp (regs s)) 11 s), ucast (frame_word (ctx_esp (regs s)) 12 s), c,
       ucast (frame_word (ctx_esp (regs s)) 9 s), e]\<rparr>"
    by (simp add: u_def popal_eq pop_to_def top32_def add_esp_def frame_word_def g add.commute)
  show ?thesis unfolding run intr_exit_updates [OF g]
    by (cases "ucast e AND 3 < frame_word (ctx_esp (regs s)) 15 s AND 3")
      (simp_all add: u iret_def pop_to_def top32_def add_esp_def Let_def frame_word_def add.commute)
qed

text \<open>C7. The assembly does what the model of the entry and exit says: for each of the 51 vectors, the instructions behind its label in
  the table, up to the call of \<^verbatim>\<open>general_intr_handler\<close>, are the stub \<open>vector_stub\<close> of that number,
  a zero pushed exactly for the vectors that expect no error code; the argument the call finds on the stack is the number;
  behind the call there is the jump to \<^verbatim>\<open>intr_exit\<close>, whose instructions are \<open>intr_exit\<close>.\<close>

theorem vector_code_refines:
  assumes "v < 51" "length (segs t) = 5"
  shows "\<exists>pre. vector_code v = pre @ [Call_general_intr_handler, Jmp_intr_exit] \<and>
    fold exec pre s = vector_stub (of_nat v) s \<and> top32 (vector_stub (of_nat v) s) = of_nat v \<and>
    fold exec intr_exit_code t = intr_exit t"
  using vector_code_eq [OF assms(1)] stub_code_runs [OF assms(1)] vector_stub_top [of "of_nat v" s] number_word [OF assms(1)]
    intr_exit_code_runs [OF assms(2)]
  by auto

theorem vector_code_refines_witness:
  "\<exists>pre. vector_code 14 = pre @ [Call_general_intr_handler, Jmp_intr_exit] \<and> fold exec pre sample_process = vector_stub 14 sample_process \<and>
     fold exec intr_exit_code sample_process = intr_exit sample_process"
  using vector_code_refines [of 14 sample_process sample_process] by (auto simp: sample_process_def)

end
