(* ===== verification/Boot.thy ===== *)
theory Boot
  imports Stubs
begin

text \<open>
  The start of the system: \<^verbatim>\<open>clock_init\<close>, \<^verbatim>\<open>init_all\<close> of
  \<^verbatim>\<open>kernel/init.c\<close> and \<^verbatim>\<open>kernel/main.c\<close>, and the theorem that puts the
  initialisations of all parts together: the tables, the page pools (\<open>fresh_pools\<close>, and \<open>heap_started\<close> once the idle
  thread has its page), the clock and the threads.
\<close>

section \<open>Definitions\<close>

text \<open>Where the linker put the code of \<^verbatim>\<open>main.c\<close>, and its counters.\<close>

record sysstate = bstate +
  kthread_a :: u32
  kthread_b :: u32
  uprog_a :: u32
  uprog_b :: u32
  test_var_a :: u32
  test_var_b :: u32

definition clock_init :: "'a ostate_scheme \<Rightarrow> 'a ostate_scheme res" where
  "clock_init s = say (line ''clock_init done'') (s\<lparr>ticks := 0\<rparr>)"

definition init_all :: "'a pstate_scheme \<Rightarrow> 'a pstate_scheme res" where
  "init_all s =
     (let s = cons_init s
      in bind_res (idt_init s) (\<lambda>s.
         bind_res (mem_init s) (\<lambda>s.
         bind_res (clock_init s) (\<lambda>s.
         bind_res (keyboard_init s) (\<lambda>s.
         bind_res (tss_init s) kthread_init)))))"

text \<open>\<^verbatim>\<open>main\<close> up to its loop, and one pass of each loop of the file.\<close>

definition main_start :: "'a sysstate_scheme \<Rightarrow> 'a sysstate_scheme res" where
  "main_start s =
     bind_res (init_all s) (\<lambda>s.
     bind_res (thread_start (lit s ''kthread_a'') 31 (kthread_a s) (lit s ''argA'') s) (\<lambda>(_, s).
     bind_res (thread_start (lit s ''kthread_b'') 31 (kthread_b s) (lit s ''argB'') s) (\<lambda>(_, s).
     bind_res (process_execute (uprog_a s) (lit s ''user_prog_a'') s) (\<lambda>s.
     bind_res (process_execute (uprog_b s) (lit s ''user_prog_b'') s) (\<lambda>s.
       Inr (snd (intr_enable s)))))))"

definition main_pass :: "'a ostate_scheme \<Rightarrow> 'a ostate_scheme res" where
  "main_pass s = say ''Main '' s"

definition kthread_a_pass :: "'a sysstate_scheme \<Rightarrow> 'a sysstate_scheme res" where
  "kthread_a_pass s = bind_res (kprintf_lock (lit s ''v_a: %d '') [test_var_a s] s) (\<lambda>(s, _). Inr s)"

definition kthread_b_pass :: "'a sysstate_scheme \<Rightarrow> 'a sysstate_scheme res" where
  "kthread_b_pass s = bind_res (kprintf_lock (lit s ''v_b: %d '') [test_var_b s] s) (\<lambda>(s, _). Inr s)"

definition uprog_a_pass :: "'a sysstate_scheme \<Rightarrow> 'a sysstate_scheme" where
  "uprog_a_pass s = s\<lparr>test_var_a := test_var_a s + 1\<rparr>"

definition uprog_b_pass :: "'a sysstate_scheme \<Rightarrow> 'a sysstate_scheme" where
  "uprog_b_pass s = s\<lparr>test_var_b := test_var_b s + 1\<rparr>"

section \<open>Messages with a number\<close>

definition plain :: "string \<Rightarrow> bool" where
  "plain m \<longleftrightarrow> of_char CHR ''%'' \<notin> (of_char ` set m :: u8 set)"

text \<open>A text of the program that stands where the screen is not.\<close>

definition text_at :: "'a ostate_scheme \<Rightarrow> string \<Rightarrow> bool" where
  "text_at s m \<longleftrightarrow> cstring (mem s) (lit s m) (map of_char m) \<and> span (lit s m) (Suc (length m)) \<inter> vram (crt_buf s) = {}"

lemma literal_text: "literal s m \<longleftrightarrow> text_at s m \<and> plain m"
  by (auto simp: literal_def text_at_def plain_def)

lemma kprintf_hex:
  assumes ok: "screen_ok s" and t: "text_at s m" and m: "m = pre @ ''%x'' @ post" "plain pre" "plain post"
  shows "\<exists>t n. kprintf (lit s m) [v] s = Inr (t, n) \<and> screen_ok t \<and> console_frame s t"
proof -
  let ?p = "map (\<lambda>c. Plain (of_char c))"
  let ?ds = "?p pre @ [Number_arg Hex no_spec (ucast v)] @ ?p post"
  have pl: "concat (map (text_of \<circ> (\<lambda>c. Plain (of_char c))) xs) = map of_char xs"
    "concat (map (slots_of \<circ> (\<lambda>c. Plain (of_char c))) xs) = []" for xs
    by (induction xs) simp_all
  have oc: "of_char CHR ''%'' = (0x25 :: u8)" "of_char CHR ''x'' = (0x78 :: u8)" by (simp_all add: of_char_def)
  have nz: "0 \<notin> set (map of_char m :: u8 list)" using t cstring_nonzero by (auto simp: text_at_def)
  have tx: "concat (map text_of ?ds) = map of_char m" by (simp add: pl m(1) oc conv_char_def)
  have "ucast (ucast v :: u64) = v" by transfer (simp add: min_def)
  then have sl: "concat (map slots_of ?ds) = [v]" by (simp add: pl no_spec_def)
  have "\<forall>d \<in> set ?ds. directive_ok (mem s) (- vram (crt_buf s)) d" using m(2,3) by (auto simp: plain_def oc)
  moreover have "cstring (mem s) (lit s m) (concat (map text_of ?ds))"
    "span (lit s m) (Suc (length (concat (map text_of ?ds)))) \<inter> vram (crt_buf s) = {}"
    using t unfolding tx by (simp_all add: text_at_def)
  ultimately show ?thesis using kprintf_eq [OF ok, of "lit s m" ?ds "[]"] unfolding sl by auto
qed

section \<open>The memory of a fresh system\<close>

declare span_numeral [simp del]

lemma filled_out: "a \<notin> span s n \<Longrightarrow> filled s n c m a = m a"
  using in_spanI [of "unat (a - s)" n s] by (auto simp: filled_def)

lemma filled_in: "x < n \<Longrightarrow> n \<le> 2 ^ 32 \<Longrightarrow> filled s n c m (s + of_nat x) = c"
  by (simp add: filled_def unat_of_nat)

lemma bitmap_init_filled: "bitmap_init b m = filled (bitmap_bits b) (unat (bitmap_len b)) 0 m"
  by (simp add: bitmap_init_def memset_eq)

text \<open>\<open>fill3 k u m\<close>: the three bitmaps behind each other are cleared.\<close>

definition fill3 :: "nat \<Rightarrow> nat \<Rightarrow> bmem \<Rightarrow> bmem" where
  "fill3 k u m = filled (0xc009a000 + of_nat (k + u)) k 0 (filled (0xc009a000 + of_nat k) u 0 (filled 0xc009a000 k 0 m))"

lemma fill3_in:
  assumes "x < 2 * k + u" "k \<le> 2 ^ 20" "u \<le> 2 ^ 20"
  shows "fill3 k u m (0xc009a000 + of_nat x) = 0"
proof -
  have z: "filled s n 0 m' a = 0" if "m' a = 0" for s n a and m' :: bmem using that by (simp add: filled_def)
  consider "x < k" | "k \<le> x" "x < k + u" | "k + u \<le> x" by linarith
  then show ?thesis
  proof cases
    case 1
    then have "filled 0xc009a000 k 0 m (0xc009a000 + of_nat x) = 0" using assms by (intro filled_in) simp_all
    then show ?thesis unfolding fill3_def by (rule z [OF z])
  next
    case 2
    then have e: "0xc009a000 + of_nat x = 0xc009a000 + of_nat k + (of_nat (x - k) :: u32)" by (simp add: of_nat_diff)
    have "filled (0xc009a000 + of_nat k) u 0 m' (0xc009a000 + of_nat x) = 0" for m'
      unfolding e using 2 assms by (intro filled_in) simp_all
    then show ?thesis unfolding fill3_def by (rule z)
  next
    case 3
    then have e: "0xc009a000 + of_nat x = 0xc009a000 + of_nat (k + u) + (of_nat (x - (k + u)) :: u32)" by (simp add: of_nat_diff)
    show ?thesis unfolding fill3_def e using 3 assms by (intro filled_in) simp_all
  qed
qed

lemma fill3_out:
  assumes "a \<notin> span 0xc009a000 0x3000" "2 * k + u \<le> 0x3000"
  shows "fill3 k u m a = m a"
proof -
  have "span (0xc009a000 + of_nat j) n \<subseteq> span 0xc009a000 0x3000" if "j + n \<le> 0x3000" for j n
    using that by (rule span_shift)
  then have "a \<notin> span (0xc009a000 + of_nat j) n" if "j + n \<le> 0x3000" for j n using assms(1) that by blast
  from this [of "k + u" k] this [of k u] this [of 0 k] show ?thesis using assms(2) by (simp add: fill3_def filled_out)
qed

definition boot_area :: "u32 set" where
  "boot_area = span 0xc0000d28 24 \<union> span 0xc009a000 0x3000 \<union> span 0xc0100000 4096"

text \<open>A text that the initialisation leaves alone.\<close>

definition boot_text :: "'a ostate_scheme \<Rightarrow> string \<Rightarrow> bool" where
  "boot_text s m \<longleftrightarrow> text_at s m \<and> span (lit s m) (Suc (length m)) \<inter> boot_area = {}"

text \<open>\<open>booted s t\<close>: what the memory and table initialisations leave alone.\<close>

definition booted :: "'a pstate_scheme \<Rightarrow> 'a pstate_scheme \<Rightarrow> bool" where
  "booted s t \<longleftrightarrow> lit t = lit s \<and> crt_buf t = crt_buf s \<and> regs t = regs s \<and> eflags t = eflags s \<and>
     ready_list t = ready_list s \<and> all_list t = all_list s \<and> pt t = pt s \<and> kernel_pool t = kernel_pool s \<and> user_pool t = user_pool s \<and>
     tss_at t = tss_at s \<and> idle_at t = idle_at s \<and> idt t = idt s \<and> idtr t = idtr s \<and> (\<forall>a. a \<notin> boot_area \<union> vram (crt_buf s) \<longrightarrow> mem t a = mem s a)"

lemma booted_refl [simp]: "booted s s"
  by (simp add: booted_def)

lemma booted_trans: "booted s t \<Longrightarrow> booted t u \<Longrightarrow> booted s u"
  by (simp add: booted_def)

lemma booted_text:
  assumes "booted s t" "boot_text s m"
  shows "boot_text t m"
proof -
  have "mem t a = mem s a" if "a \<in> span (lit s m) (Suc (length m))" for a
    using that assms by (auto simp: booted_def boot_text_def text_at_def)
  then have "cstring (mem t) (lit s m) (map of_char m)"
    using assms(2) cstring_cong [of "lit s m" "map of_char m" "mem t" "mem s"] by (simp add: boot_text_def text_at_def)
  then show ?thesis using assms by (simp add: booted_def boot_text_def text_at_def)
qed

lemma booted_frame: "console_frame s t \<Longrightarrow> booted s t" for s t :: "'a pstate_scheme"
  unfolding console_frame_def booted_def by auto

lemma say_booted:
  fixes s :: "'a pstate_scheme"
  assumes "screen_ok s" "boot_text s m" "plain m"
  shows "\<exists>t. say m s = Inr t \<and> screen_ok t \<and> console_frame s t"
  using say_frame [of s m] assms by (auto simp: literal_text boot_text_def)

lemma kprintf_hex_booted:
  fixes s :: "'a pstate_scheme"
  assumes "screen_ok s" "boot_text s m" "m = pre @ ''%x'' @ post" "plain pre" "plain post"
  shows "\<exists>t n. kprintf (lit s m) [v] s = Inr (t, n) \<and> screen_ok t \<and> console_frame s t"
  using kprintf_hex [of s m pre post v] assms by (simp add: boot_text_def)

text \<open>The lengths of the bitmaps in bytes, and the pools with their bitmaps cleared.\<close>

definition kernel_bytes :: "u32 \<Rightarrow> nat" where "kernel_bytes M = unat (kernel_free_pages M) div 8"
definition user_bytes :: "u32 \<Rightarrow> nat" where "user_bytes M = unat (user_free_pages M) div 8"

definition fresh_pools :: "u32 \<Rightarrow> 'a mstate_scheme \<Rightarrow> bool" where
  "fresh_pools M s \<longleftrightarrow>
     pool_bits (kernel_pool s) s = \<lparr>bitmap_len = of_nat (kernel_bytes M), bitmap_bits = 0xc009a000\<rparr> \<and>
     kernel_vaddr s = \<lparr>vaddr_bitmap = \<lparr>bitmap_len = of_nat (kernel_bytes M), bitmap_bits = 0xc009a000 + of_nat (kernel_bytes M + user_bytes M)\<rparr>,
       vaddr_start = 0xc0100000\<rparr> \<and>
     pools s (kernel_pool s) = \<lparr>pool_bitmap = \<lparr>bitmap_len = of_nat (kernel_bytes M), bitmap_bits = 0xc009a000\<rparr>,
       paddr_start = 0x200000, pool_size = ucast (kernel_free_pages M) * 4096\<rparr> \<and>
     pools s (user_pool s) = \<lparr>pool_bitmap = \<lparr>bitmap_len = of_nat (user_bytes M), bitmap_bits = 0xc009a000 + of_nat (kernel_bytes M)\<rparr>,
       paddr_start = 0x200000 + ucast (kernel_free_pages M) * 4096, pool_size = ucast (user_free_pages M) * 4096\<rparr> \<and>
     pool_ok (kernel_pool s) s \<and>
     (\<forall>x < 2 * kernel_bytes M + user_bytes M. mem s (0xc009a000 + of_nat x) = 0)"

lemma bitmap_bytes:
  assumes "0x210000 \<le> M" "M < 0x10200000"
  shows "2 * kernel_bytes M + user_bytes M \<le> 0x3000" "0 < kernel_bytes M" "free_pages_of M < 2 ^ 16"
    "kernel_bytes M \<le> 2 ^ 12" "user_bytes M \<le> 2 ^ 12"
proof -
  have m: "0x210000 \<le> unat M" "unat M < 0x10200000" using assms by (simp_all add: word_le_nat_alt word_less_nat_alt)
  show f: "free_pages_of M < 2 ^ 16" unfolding free_pages_of_def using m(2) by (intro less_mult_imp_div_less) simp
  have "16 \<le> free_pages_of M" unfolding free_pages_of_def using m(1) by (simp add: less_eq_div_iff_mult_less_eq)
  moreover have "0x200000 \<le> M" using assms(1) by (simp add: word_le_nat_alt)
  moreover have "n div 2 div 8 = n div 16" "8 * ((n - n div 2) div 8) \<le> n - n div 2" "2 * (n div 2) \<le> n" for n :: nat
    by simp_all
  ultimately have n: "16 \<le> free_pages_of M" "kernel_bytes M = free_pages_of M div 2 div 8"
      "user_bytes M = (free_pages_of M - free_pages_of M div 2) div 8"
    using f by (simp_all add: kernel_bytes_def user_bytes_def free_pages_words)
  show "2 * kernel_bytes M + user_bytes M \<le> 0x3000" "0 < kernel_bytes M" "kernel_bytes M \<le> 2 ^ 12" "user_bytes M \<le> 2 ^ 12"
    using n(1) f unfolding n(2,3) by (simp_all add: less_eq_div_iff_mult_less_eq, linarith?)
qed

lemma fresh_page:
  assumes f: "fresh_pools M s" and M: "0x210000 \<le> M" "M < 0x10200000" and pd: "pt s (pde_addr 0xc0100000) AND 1 \<noteq> 0"
  shows "page_at_hand 0xc0100000 s" "bitmap_space s \<subseteq> span 0xc009a000 0x3000"
proof -
  note b = bitmap_bytes [OF M] and f = f [unfolded fresh_pools_def]
  let ?k = "kernel_bytes M" and ?u = "user_bytes M"
  have u: "unat (of_nat ?k :: u32) = ?k" using b(4) by (simp add: unat_of_nat)
  have vb: "bm_size (vaddr_bitmap (kernel_vaddr s)) = 8 * ?k" "bm_size (pool_bits (kernel_pool s) s) = 8 * ?k"
    using f u by (simp_all add: bm_size_def)
  have z: "\<forall>x < 2 * ?k + ?u. mem s (0xc009a000 + of_nat x) = 0" using f by blast
  have "mem s (0xc009a000 + of_nat 0) = 0" by (rule z [rule_format]) (use b(2) in simp)
  moreover have "mem s (0xc009a000 + of_nat (?k + ?u)) = 0" by (rule z [rule_format]) (use b(2) in simp)
  ultimately have "\<not> bm_bit (mem s) (vaddr_bitmap (kernel_vaddr s)) 0" "\<not> bm_bit (mem s) (pool_bits (kernel_pool s) s) 0"
    using f by (simp_all add: bm_bit_def)
  moreover have "apart (vaddr_bitmap (kernel_vaddr s)) (8 * ?k + 1) (pool_bits (kernel_pool s) s)"
    by (rule sample_apart [where p = "0xc009a000" and i = 0 and j = "?k + ?u"]) (use f u b(4,5) in simp_all)
  ultimately show "page_at_hand 0xc0100000 s"
    using f b(2,4) pd unfolding page_at_hand_def Let_def vb
    by (auto simp: present_def below_tables_def intro!: exI [of _ 0])
  have "span (0xc009a000 + of_nat (?k + ?u)) ?k \<subseteq> span 0xc009a000 0x3000" "span (0xc009a000 + of_nat 0) ?k \<subseteq> span 0xc009a000 0x3000"
    using b(1) by (intro span_shift; simp)+
  then show "bitmap_space s \<subseteq> span 0xc009a000 0x3000"
    using f u by (simp add: bitmap_space_def bitmap_span_def)
qed

lemma bitmaps_off_screen: "span 0xc009a000 0x3000 \<inter> vram 0xc00b8000 = {}"
  unfolding vram_def by (rule span_below) simp_all

text \<open>What keeps the pools fresh: their records stay, and no byte of the bitmaps changes.\<close>

lemma fresh_cong:
  fixes s t :: "'a mstate_scheme"
  assumes f: "fresh_pools M s" and b: "2 * kernel_bytes M + user_bytes M \<le> 0x3000"
    and e: "pools t = pools s" "kernel_pool t = kernel_pool s" "user_pool t = user_pool s" "kernel_vaddr t = kernel_vaddr s"
    and m: "\<And>a. a \<in> span 0xc009a000 0x3000 \<Longrightarrow> mem t a = mem s a"
  shows "fresh_pools M t"
proof -
  have "mem t (0xc009a000 + of_nat x) = mem s (0xc009a000 + of_nat x)" if "x < 2 * kernel_bytes M + user_bytes M" for x
    by (rule m, rule in_spanI) (use that b in simp)
  moreover have "pool_bits p t = pool_bits p s" "pool_ok p t = pool_ok p s" for p using e by (simp_all add: pool_bits_def pool_ok_def)
  ultimately show ?thesis using f e by (simp add: fresh_pools_def)
qed

lemma fresh_frame:
  fixes s t :: "'a mstate_scheme"
  assumes "fresh_pools M s" "2 * kernel_bytes M + user_bytes M \<le> 0x3000" "console_frame s t" "crt_buf s = 0xc00b8000"
  shows "fresh_pools M t"
proof (rule fresh_cong [OF assms(1,2)])
  show "pools t = pools s" "kernel_pool t = kernel_pool s" "user_pool t = user_pool s" "kernel_vaddr t = kernel_vaddr s"
    using assms(3) by (auto simp: console_frame_def)
  show "mem t a = mem s a" if "a \<in> span 0xc009a000 0x3000" for a
    using that bitmaps_off_screen assms(4) by (intro frame_fields(2) [OF assms(3)]) auto
qed

text \<open>\<open>heap_started M s\<close>: the memory once the first page of the kernel's heap is given out. The pools and the
  kernel's addresses have their bitmaps behind each other, the first bit of the kernel's two is all that is set, and
  the page stands for the first frame above 2 MB.\<close>

definition heap_started :: "u32 \<Rightarrow> 'a mstate_scheme \<Rightarrow> bool" where
  "heap_started M s \<longleftrightarrow>
     pools s (kernel_pool s) = \<lparr>pool_bitmap = \<lparr>bitmap_len = of_nat (kernel_bytes M), bitmap_bits = 0xc009a000\<rparr>,
       paddr_start = 0x200000, pool_size = ucast (kernel_free_pages M) * 4096\<rparr> \<and>
     pools s (user_pool s) = \<lparr>pool_bitmap = \<lparr>bitmap_len = of_nat (user_bytes M), bitmap_bits = 0xc009a000 + of_nat (kernel_bytes M)\<rparr>,
       paddr_start = 0x200000 + ucast (kernel_free_pages M) * 4096, pool_size = ucast (user_free_pages M) * 4096\<rparr> \<and>
     kernel_vaddr s = \<lparr>vaddr_bitmap = \<lparr>bitmap_len = of_nat (kernel_bytes M), bitmap_bits = 0xc009a000 + of_nat (kernel_bytes M + user_bytes M)\<rparr>,
       vaddr_start = 0xc0100000\<rparr> \<and>
     (\<forall>j < 8 * kernel_bytes M. bm_bit (mem s) (pool_bits (kernel_pool s) s) j \<longleftrightarrow> j = 0) \<and>
     (\<forall>j < 8 * user_bytes M. \<not> bm_bit (mem s) (pool_bits (user_pool s) s) j) \<and>
     (\<forall>j < 8 * kernel_bytes M. bm_bit (mem s) (vaddr_bitmap (kernel_vaddr s)) j \<longleftrightarrow> j = 0) \<and>
     addr_v2p 0xc0100000 s = 0x200000"

text \<open>The bits, from the bytes.\<close>

lemma one_bit_bytes:
  assumes m: "\<forall>x < n. m (0xc009a000 + of_nat x) = (if x \<in> S then 1 else 0)"
    and b: "bitmap_bits b = 0xc009a000 + of_nat i" "i + j div 8 < n"
  shows "bm_bit m b j \<longleftrightarrow> i + j div 8 \<in> S \<and> j mod 8 = 0"
proof -
  have e: "bitmap_bits b + of_nat (j div 8) = 0xc009a000 + of_nat (i + j div 8)" by (simp add: b(1) add.assoc)
  have "bm_bit m b j = bit (if i + j div 8 \<in> S then 1 else 0 :: u8) (j mod 8)"
    unfolding bm_bit_def e m [rule_format, OF b(2)] ..
  then show ?thesis by (simp add: bit_1_iff)
qed

lemma heap_startedI:
  assumes p: "pools s (kernel_pool s) = \<lparr>pool_bitmap = \<lparr>bitmap_len = of_nat (kernel_bytes M), bitmap_bits = 0xc009a000\<rparr>,
       paddr_start = 0x200000, pool_size = ucast (kernel_free_pages M) * 4096\<rparr>"
    "pools s (user_pool s) = \<lparr>pool_bitmap = \<lparr>bitmap_len = of_nat (user_bytes M), bitmap_bits = 0xc009a000 + of_nat (kernel_bytes M)\<rparr>,
       paddr_start = 0x200000 + ucast (kernel_free_pages M) * 4096, pool_size = ucast (user_free_pages M) * 4096\<rparr>"
    "kernel_vaddr s = \<lparr>vaddr_bitmap = \<lparr>bitmap_len = of_nat (kernel_bytes M), bitmap_bits = 0xc009a000 + of_nat (kernel_bytes M + user_bytes M)\<rparr>,
       vaddr_start = 0xc0100000\<rparr>"
    and m: "\<forall>x < 2 * kernel_bytes M + user_bytes M. mem s (0xc009a000 + of_nat x) = (if x \<in> {0, kernel_bytes M + user_bytes M} then 1 else 0)"
    and t: "addr_v2p 0xc0100000 s = 0x200000" and k: "0 < kernel_bytes M"
  shows "heap_started M s"
proof -
  let ?k = "kernel_bytes M" and ?u = "user_bytes M"
  have lt: "j div 8 < n" if "j < 8 * n" for j n :: nat using that by (simp add: less_mult_imp_div_less mult.commute)
  have d: "j div 8 = 0 \<and> j mod 8 = 0 \<longleftrightarrow> j = 0" for j :: nat by auto
  have "bm_bit (mem s) (pool_bits (kernel_pool s) s) j \<longleftrightarrow> j = 0" if "j < 8 * ?k" for j
    using one_bit_bytes [OF m, of "pool_bits (kernel_pool s) s" 0 j] lt [OF that] d [of j] by (auto simp: pool_bits_def p)
  moreover have "\<not> bm_bit (mem s) (pool_bits (user_pool s) s) j" if "j < 8 * ?u" for j
    using one_bit_bytes [OF m, of "pool_bits (user_pool s) s" ?k j] lt [OF that] k
    by (auto simp: pool_bits_def p)
  moreover have "bm_bit (mem s) (vaddr_bitmap (kernel_vaddr s)) j \<longleftrightarrow> j = 0" if "j < 8 * ?k" for j
    using one_bit_bytes [OF m, of "vaddr_bitmap (kernel_vaddr s)" "?k + ?u" j] lt [OF that] d [of j] by (auto simp: p)
  ultimately show ?thesis using p t by (simp add: heap_started_def)
qed

text \<open>The bit the first page of the kernel's heap takes in each of the two bitmaps is the first one.\<close>

lemma first_bit:
  assumes "0 < unat (bitmap_len b)" "m (bitmap_bits b) = 0"
  shows "List.find (\<lambda>n. \<not> bm_bit m b n) [0..<bm_size b] = Some 0"
    "set_bit_mem b 0 True m = m(bitmap_bits b := 1)"
  using assms by (simp_all add: find_upt_Some_iff bm_bit_def bm_size_def set_bit_mem_def)

lemma first_page_bytes:
  fixes v :: "'a mstate_scheme"
  assumes f: "fresh_pools M v" and M: "0x210000 \<le> M" "M < 0x10200000" and pd: "pt v (pde_addr 0xc0100000) AND 1 \<noteq> 0"
    and w: "get_kernel_pages 1 v = Inr (0xc0100000, w)"
  shows "\<exists>u. w = clear_range 0xc0100000 4096 u \<and>
    u = v\<lparr>mem := (mem v)(0xc009a000 + of_nat (kernel_bytes M + user_bytes M) := 1, 0xc009a000 := 1),
          pt := (pt v)(pte_addr 0xc0100000 := entry_of 0x200000)\<rparr>"
proof -
  let ?k = "kernel_bytes M" and ?u = "user_bytes M"
  let ?vb = "vaddr_bitmap (kernel_vaddr v)" and ?pb = "pool_bits (kernel_pool v) v"
  note b = bitmap_bytes [OF M] and F = f [unfolded fresh_pools_def] and h = fresh_page [OF f M pd]
  note pg = h(1) [unfolded page_at_hand_def Let_def]
  have va: "va_of PF_KERNEL v = kernel_vaddr v" "pool_of PF_KERNEL v = kernel_pool v" by (simp_all add: va_of_def pool_of_def)
  obtain u where m: "malloc_pages PF_KERNEL 1 v = Inr (0xc0100000, u)" and u: "w = clear_range 0xc0100000 4096 u"
    using w by (auto simp: get_kernel_pages_def res_iffs)
  obtain st m1 ns m2 where g: "bitmap_scan (mem v) ?vb 1 = Inr st" "set_run (unat 1) ?vb st 1 (mem v) = Inr m1"
    "bm.claims ?pb (unat 1) m1 = Inr (ns, m2)"
    "u = v\<lparr>mem := m2, pt := map_frames (map (frame (kernel_pool v) v) ns) 0xc0100000 (pt v)\<rparr>"
    by (rule malloc_pages_eq [OF m, unfolded va]) (use pg in simp_all)
  have z: "\<forall>x < 2 * ?k + ?u. mem v (0xc009a000 + of_nat x) = 0" using F by blast
  have z0: "mem v (0xc009a000 + of_nat 0) = 0" "mem v (0xc009a000 + of_nat (?k + ?u)) = 0"
    by (rule z [rule_format]; use b(2) in simp)+
  have bits: "bitmap_bits ?vb = 0xc009a000 + of_nat (?k + ?u)" "bitmap_bits ?pb = 0xc009a000"
    "unat (bitmap_len ?vb) = ?k" "unat (bitmap_len ?pb) = ?k"
    using F b(4) by (simp_all add: unat_of_nat)
  have v1: "List.find (\<lambda>n. \<not> bm_bit (mem v) ?vb n) [0..<bm_size ?vb] = Some 0"
    "set_bit_mem ?vb 0 True (mem v) = (mem v)(bitmap_bits ?vb := 1)"
    by (rule first_bit; use bits b(2) z0 in simp)+
  have "st = 0" using g(1) v1(1) by (simp add: bitmap_scan_one)
  then have m1: "m1 = (mem v)(0xc009a000 + of_nat (?k + ?u) := 1)"
    using g(2) v1(2) by (simp add: bitmap_set_eq bits(1))
  have "(0xc009a000 :: u32) + of_nat 0 \<noteq> 0xc009a000 + of_nat (?k + ?u)"
    using b by (subst offset_eq) simp_all
  then have "m1 (bitmap_bits ?pb) = 0" using z0(1) unfolding m1 bits(2) by simp
  then have p1: "List.find (\<lambda>n. \<not> bm_bit m1 ?pb n) [0..<bm_size ?pb] = Some 0"
    "set_bit_mem ?pb 0 True m1 = m1(bitmap_bits ?pb := 1)"
    by (rule first_bit [rotated]; use bits b(2) in simp)+
  have "bm_size ?pb \<le> 2 ^ 32" using pg pool_ok_size by blast
  then have "scan_one ?pb m1 = Inr 0" using p1(1) by (simp add: scan_one_Inr)
  then have "ns = [0]" "m2 = m1(0xc009a000 := 1)"
    using g(3) p1(2) by (simp_all add: bm.claim_def bits(2))
  moreover have "frame (kernel_pool v) v 0 = 0x200000" using F by (simp add: frame_def)
  ultimately show ?thesis using u g(4) m1 by simp
qed

lemma first_page:
  fixes v w t :: "'a mstate_scheme"
  assumes f: "fresh_pools M v" and M: "0x210000 \<le> M" "M < 0x10200000" and pd: "pt v (pde_addr 0xc0100000) AND 1 \<noteq> 0"
    and w: "get_kernel_pages 1 v = Inr (0xc0100000, w)"
    and t: "pools t = pools v" "kernel_pool t = kernel_pool v" "user_pool t = user_pool v" "kernel_vaddr t = kernel_vaddr v" "pt t = pt w"
    "\<And>a. a \<in> span 0xc009a000 0x3000 \<Longrightarrow> mem t a = mem w a"
  shows "heap_started M t"
proof (rule heap_startedI)
  let ?k = "kernel_bytes M" and ?u = "user_bytes M"
  note b = bitmap_bytes [OF M] and F = f [unfolded fresh_pools_def]
  obtain u where u: "w = clear_range 0xc0100000 4096 u"
    "u = v\<lparr>mem := (mem v)(0xc009a000 + of_nat (?k + ?u) := 1, 0xc009a000 := 1),
          pt := (pt v)(pte_addr 0xc0100000 := entry_of 0x200000)\<rparr>"
    using first_page_bytes [OF f M pd w] by blast
  have "pt t = (pt v)(pte_addr 0xc0100000 := entry_of 0x200000)" by (simp add: t(5) u clear_range_def)
  then show "addr_v2p 0xc0100000 t = 0x200000" by (simp add: addr_v2p_def entry_of_frame)
  have "mem t (0xc009a000 + of_nat x) = (if x \<in> {0, ?k + ?u} then 1 else 0)" if x: "x < 2 * ?k + ?u" for x
  proof -
    have a: "0xc009a000 + of_nat x \<in> span 0xc009a000 0x3000" by (rule in_spanI) (use x b(1) in simp)
    have "span 0xc009a000 0x3000 \<inter> span 0xc0100000 4096 = {}" by (rule span_below) simp_all
    then have "0xc009a000 + of_nat x \<notin> span 0xc0100000 4096" using a by blast
    then have "mem w (0xc009a000 + of_nat x) = mem u (0xc009a000 + of_nat x)"
      by (simp add: u(1) clear_range_def memset_eq filled_out)
    moreover have "mem v (0xc009a000 + of_nat x) = 0" using F x by blast
    moreover have "(0xc009a000 :: u32) + of_nat x = 0xc009a000 + of_nat (?k + ?u) \<longleftrightarrow> x = ?k + ?u"
      "(0xc009a000 :: u32) + of_nat x = 0xc009a000 + of_nat 0 \<longleftrightarrow> x = 0"
      using x b by (subst offset_eq; simp)+
    ultimately show ?thesis using t(6) [OF a] unfolding u(2) by simp
  qed
  then show "\<forall>x < 2 * ?k + ?u. mem t (0xc009a000 + of_nat x) = (if x \<in> {0, ?k + ?u} then 1 else 0)" by blast
qed (use f bitmap_bytes(2) [OF M] t in \<open>simp_all add: fresh_pools_def\<close>)

text \<open>The bitmaps and the kernel's addresses, between the two blocks of messages.\<close>

definition clear_bitmaps :: "u32 \<Rightarrow> 'a mstate_scheme \<Rightarrow> 'a mstate_scheme" where
  "clear_bitmaps M s =
     (let s = init_pool_bitmap (user_pool s) (init_pool_bitmap (kernel_pool s) s);
          s = set_kernel_vaddr M s
      in lock_init (pool_lk (user_pool s)) (lock_init (pool_lk (kernel_pool s)) s))"

lemma init_pool_bitmap_user: "user_pool (init_pool_bitmap p s) = user_pool s"
  by (simp add: init_pool_bitmap_def)

lemma lock_init_locks: "\<exists>lk. lock_init a (lock_init b s) = s\<lparr>locks := lk\<rparr>"
proof -
  have "lock_init a (lock_init b s) = s\<lparr>locks := locks (lock_init a (lock_init b s))\<rparr>"
    by (simp add: lock_init_def spinlock_init_def upd_lock_def)
  then show ?thesis by blast
qed

lemma clear_bitmaps_eq:
  assumes ne: "kernel_pool s \<noteq> user_pool s" and b: "kernel_bytes M \<le> 2 ^ 12" "user_bytes M \<le> 2 ^ 12"
    and p: "pools s = pools (set_pools M s)"
  shows "\<exists>lk. clear_bitmaps M s =
    s\<lparr>mem := fill3 (kernel_bytes M) (user_bytes M) (mem s), locks := lk,
      kernel_vaddr := \<lparr>vaddr_bitmap = \<lparr>bitmap_len = of_nat (kernel_bytes M), bitmap_bits = 0xc009a000 + of_nat (kernel_bytes M + user_bytes M)\<rparr>,
        vaddr_start = 0xc0100000\<rparr>\<rparr>"
proof -
  have w: "ucast (kernel_free_pages M) div 8 = (of_nat (kernel_bytes M) :: u32)"
    "ucast (user_free_pages M) div 8 = (of_nat (user_bytes M) :: u32)"
    by (simp_all only: kernel_bytes_def user_bytes_def pages_words(2) [symmetric] of_nat_unat_id)
  note f = set_pools_fields [OF ne, of M]
  have u: "unat (of_nat (kernel_bytes M) :: u32) = kernel_bytes M" "unat (of_nat (user_bytes M) :: u32) = user_bytes M"
    using b by (simp_all add: unat_of_nat)
  obtain lk where "clear_bitmaps M s = (set_kernel_vaddr M (init_pool_bitmap (user_pool s) (init_pool_bitmap (kernel_pool s) s)))\<lparr>locks := lk\<rparr>"
    unfolding clear_bitmaps_def Let_def using lock_init_locks by (metis init_pool_bitmap_user)
  then show ?thesis
    by (intro exI [of _ lk])
      (simp add: init_pool_bitmap_def set_kernel_vaddr_def Let_def p f(1,2) bitmap_init_filled w u fill3_def add.assoc)
qed

definition mem_texts :: "string list" where
  "mem_texts = [line ''mem_init start'', line ''mem_pool_init start'', line ''kernel_pool_bitmap_start: %x'',
     line ''kernel_pool_paddr_start: %x'', line ''mem_pool_init done'', line ''mem_init done'']"

lemma mem_plain:
  "plain (line ''mem_init start'')" "plain (line ''mem_pool_init start'')" "plain (line ''mem_pool_init done'')"
  "plain (line ''mem_init done'')" "plain ''kernel_pool_bitmap_start: ''" "plain ''kernel_pool_paddr_start: ''" "plain (line [])"
  by (simp_all add: plain_def line_def of_char_def)

lemma hex_texts:
  "line ''kernel_pool_bitmap_start: %x'' = ''kernel_pool_bitmap_start: '' @ ''%x'' @ line []"
  "line ''kernel_pool_paddr_start: %x'' = ''kernel_pool_paddr_start: '' @ ''%x'' @ line []"
  by (simp_all add: line_def)

lemma set_pools_twice:
  assumes "pools c = pools (set_pools M a)" "kernel_pool c = kernel_pool a" "user_pool c = user_pool a"
  shows "pools (set_pools M c) = pools c"
  by (simp add: set_pools_def Let_def upd_pool_def assms)

lemma booted_set_pools:
  fixes s :: "'a pstate_scheme"
  shows "booted s (set_pools M s)" "screen_ok (set_pools M s) = screen_ok s" "mem (set_pools M s) = mem s"
  by (simp_all add: booted_def set_pools_def upd_pool_def screen_ok_def Let_def)

lemma booted_clear:
  fixes s :: "'a pstate_scheme"
  assumes "kernel_pool s \<noteq> user_pool s" "0x210000 \<le> M" "M < 0x10200000" "pools s = pools (set_pools M s)"
  shows "booted s (clear_bitmaps M s)" "screen_ok (clear_bitmaps M s) = screen_ok s" "fresh_pools M (clear_bitmaps M s)"
proof -
  note b = bitmap_bytes [OF assms(2,3)]
  let ?k = "kernel_bytes M" and ?u = "user_bytes M" and ?t = "clear_bitmaps M s"
  obtain lk where t: "?t = s\<lparr>mem := fill3 ?k ?u (mem s), locks := lk,
      kernel_vaddr := \<lparr>vaddr_bitmap = \<lparr>bitmap_len = of_nat ?k, bitmap_bits = 0xc009a000 + of_nat (?k + ?u)\<rparr>, vaddr_start = 0xc0100000\<rparr>\<rparr>"
    using clear_bitmaps_eq [OF assms(1) b(4,5) assms(4)] by blast
  show "screen_ok ?t = screen_ok s" by (simp add: t screen_ok_def)
  have "fill3 ?k ?u (mem s) a = mem s a" if "a \<notin> boot_area" for a
    by (rule fill3_out) (use that b(1) in \<open>simp_all add: boot_area_def\<close>)
  then show "booted s ?t" by (simp add: booted_def t)
  have "fill3 ?k ?u (mem s) (0xc009a000 + of_nat x) = 0" if "x < 2 * ?k + ?u" for x
    by (rule fill3_in) (use that b(4,5) in simp_all)
  moreover have "0x200000 \<le> M" using assms(2) by (simp add: word_le_nat_alt)
  then have "pools_ok (set_pools M s)" using set_pools_eq(1) [OF _ b(3) assms(1)] by blast
  then have "pool_ok (kernel_pool s) (set_pools M s)"
    using set_pools_fields(3) [OF assms(1), of M] by (simp add: pools_ok_def)
  then have "pool_ok (kernel_pool s) ?t" using assms(4) by (simp add: pool_ok_def pool_bits_def t)
  moreover have w: "ucast (kernel_free_pages M) div 8 = (of_nat ?k :: u32)" "ucast (user_free_pages M) div 8 = (of_nat ?u :: u32)"
    by (simp_all only: kernel_bytes_def user_bytes_def pages_words(2) [symmetric] of_nat_unat_id)
  then have "pool_bits (kernel_pool s) ?t = \<lparr>bitmap_len = of_nat ?k, bitmap_bits = 0xc009a000\<rparr>"
    using set_pools_fields(1) [OF assms(1), of M] assms(4) by (simp add: pool_bits_def t)
  moreover have "pools s (kernel_pool s) = \<lparr>pool_bitmap = \<lparr>bitmap_len = of_nat ?k, bitmap_bits = 0xc009a000\<rparr>,
       paddr_start = 0x200000, pool_size = ucast (kernel_free_pages M) * 4096\<rparr>"
    "pools s (user_pool s) = \<lparr>pool_bitmap = \<lparr>bitmap_len = of_nat ?u, bitmap_bits = 0xc009a000 + of_nat ?k\<rparr>,
       paddr_start = 0x200000 + ucast (kernel_free_pages M) * 4096, pool_size = ucast (user_free_pages M) * 4096\<rparr>"
    using set_pools_fields(1,2) [OF assms(1), of M, unfolded w] by (simp_all only: assms(4) [symmetric])
  ultimately show "fresh_pools M ?t" by (simp add: fresh_pools_def t)
qed

lemma mem_pool_init_boots:
  fixes s :: "'a pstate_scheme"
  assumes s: "screen_ok s" "crt_buf s = 0xc00b8000" "\<forall>m \<in> set mem_texts. boot_text s m" "kernel_pool s \<noteq> user_pool s"
    and M: "0x210000 \<le> M" "M < 0x10200000"
  shows "\<exists>t. mem_pool_init M s = Inr t \<and> screen_ok t \<and> booted s t \<and> fresh_pools M t"
proof -
  have tx: "boot_text t m" if "booted s t" "m \<in> set mem_texts" for m t using that s(3) booted_text by blast
  have mt: "line ''mem_pool_init start'' \<in> set mem_texts" "line ''kernel_pool_bitmap_start: %x'' \<in> set mem_texts"
    "line ''kernel_pool_paddr_start: %x'' \<in> set mem_texts" "line ''mem_pool_init done'' \<in> set mem_texts"
    by (simp_all add: mem_texts_def)
  obtain a where a: "say (line ''mem_pool_init start'') s = Inr a" "screen_ok a" "console_frame s a"
    using say_booted [OF s(1) tx [OF booted_refl mt(1)] mem_plain(2)] by blast
  let ?p = "set_pools M a"
  have p: "booted s ?p" "screen_ok ?p" using booted_trans [OF booted_frame [OF a(3)]] booted_set_pools a(2) by blast+
  obtain b n where b: "kprintf (lit ?p (line ''kernel_pool_bitmap_start: %x'')) [bitmap_bits (pool_bitmap (pools ?p (kernel_pool ?p)))] ?p = Inr (b, n)"
    "screen_ok b" "console_frame ?p b"
    using kprintf_hex_booted [OF p(2) tx [OF p(1) mt(2)] hex_texts(1) mem_plain(5,7)] by blast
  have bb: "booted s b" using booted_trans [OF p(1) booted_frame [OF b(3)]] .
  obtain c k where c: "kprintf (lit b (line ''kernel_pool_paddr_start: %x'')) [paddr_start (pools ?p (kernel_pool ?p))] b = Inr (c, k)"
    "screen_ok c" "console_frame b c"
    using kprintf_hex_booted [OF b(2) tx [OF bb mt(3)] hex_texts(2) mem_plain(6,7)] by blast
  have bc: "booted s c" using booted_trans [OF bb booted_frame [OF c(3)]] .
  have kp: "kernel_pool c = kernel_pool s" "user_pool c = user_pool s" using bc by (simp_all add: booted_def)
  have "pools c = pools b" "pools b = pools ?p" "kernel_pool c = kernel_pool a" "user_pool c = user_pool a"
    using c(3) b(3) bc booted_frame [OF a(3)] by (auto simp: console_frame_def booted_def)
  then have "pools c = pools (set_pools M c)" using set_pools_twice [of c M a] by simp
  then have d: "booted c (clear_bitmaps M c)" "screen_ok (clear_bitmaps M c)" "fresh_pools M (clear_bitmaps M c)"
    using booted_clear [of c M] s(4) M c(2) kp by simp_all
  note bd = booted_trans [OF bc d(1)]
  obtain t where t: "say (line ''mem_pool_init done'') (clear_bitmaps M c) = Inr t" "screen_ok t" "console_frame (clear_bitmaps M c) t"
    using say_booted [OF d(2) tx [OF bd mt(4)] mem_plain(3)] by blast
  have "mem_pool_init M s = Inr t"
    using a(1) b(1) c(1) t(1) by (simp add: mem_pool_init_def Let_def clear_bitmaps_def)
  moreover have "booted s t" using booted_trans [OF bd booted_frame [OF t(3)]] .
  moreover have "fresh_pools M t"
    using fresh_frame [OF d(3) bitmap_bytes(1) [OF M] t(3)] bd s(2) by (simp add: booted_def)
  ultimately show ?thesis using t(2) by blast
qed

lemma init_descs: "\<exists>h. fold (init_desc a) xs s = s\<lparr>entries := h\<rparr>"
proof (induction xs arbitrary: s)
  case Nil
  show ?case by (rule exI [of _ "entries s"]) simp
next
  case (Cons x xs)
  obtain h where "fold (init_desc a) (x # xs) s = (init_desc a x s)\<lparr>entries := h\<rparr>" using Cons.IH by auto
  also have "\<dots> = s\<lparr>entries := h\<rparr>" by (simp add: init_desc_def list_init_eq)
  finally show ?case by blast
qed

lemma mem_init_boots:
  fixes s :: "'a pstate_scheme"
  assumes s: "screen_ok s" "crt_buf s = 0xc00b8000" "\<forall>m \<in> set mem_texts. boot_text s m" "kernel_pool s \<noteq> user_pool s"
    and M: "read32 (mem s) 0xd00 = M" "0x210000 \<le> M" "M < 0x10200000"
  shows "\<exists>t. mem_init s = Inr t \<and> screen_ok t \<and> booted s t \<and> fresh_pools M t"
proof -
  have tx: "boot_text t m" if "booted s t" "m \<in> set mem_texts" for m t using that s(3) booted_text by blast
  have mt: "line ''mem_init start'' \<in> set mem_texts" "line ''mem_init done'' \<in> set mem_texts" by (simp_all add: mem_texts_def)
  obtain a where a: "say (line ''mem_init start'') s = Inr a" "screen_ok a" "console_frame s a"
    using say_booted [OF s(1) tx [OF booted_refl mt(1)] mem_plain(1)] by blast
  note ba = booted_frame [OF a(3)]
  have "span 0xd00 4 \<inter> vram 0xc00b8000 = {}" unfolding vram_def by (rule span_below) simp_all
  then have "read32 (mem a) 0xd00 = M"
    unfolding M(1) [symmetric] using s(2) by (intro read32_cong frame_fields(2) [OF a(3)]) auto
  moreover obtain b where b: "mem_pool_init M a = Inr b" "screen_ok b" "booted a b" "fresh_pools M b"
    using mem_pool_init_boots [OF a(2) _ _ _ M(2,3)] s(2,4) ba tx by (auto simp: booted_def)
  ultimately have run: "mem_init s = (let (ds, s) = block_desc_init (descs_at b) b; s = s\<lparr>k_block_descs := ds\<rparr>;
      s = lock_init (pool_lk (user_pool s)) (lock_init (pool_lk (kernel_pool s)) s) in say (line ''mem_init done'') s)"
    by (simp add: mem_init_def a(1))
  obtain h where h: "snd (block_desc_init (descs_at b) b) = b\<lparr>entries := h\<rparr>" using init_descs [of "descs_at b" "[0..<7]" b] unfolding block_desc_init_def snd_conv by blast
  define c where "c = b\<lparr>entries := h, k_block_descs := fst (block_desc_init (descs_at b) b)\<rparr>"
  define d where "d = lock_init (pool_lk (user_pool c)) (lock_init (pool_lk (kernel_pool c)) c)"
  obtain lk where d: "d = c\<lparr>locks := lk\<rparr>" using lock_init_locks unfolding d_def by blast
  have run: "mem_init s = say (line ''mem_init done'') d"
    unfolding run using h by (simp add: Let_def split_beta d_def c_def)
  have bd: "booted s d" using booted_trans [OF ba b(3)] by (simp add: booted_def d c_def)
  have sd: "screen_ok d" using b(2) by (simp add: screen_ok_def d c_def)
  have fd: "fresh_pools M d" by (rule fresh_cong [OF b(4) bitmap_bytes(1) [OF M(2,3)]]) (simp_all add: d c_def)
  obtain t where t: "say (line ''mem_init done'') d = Inr t" "screen_ok t" "console_frame d t"
    using say_booted [OF sd tx [OF bd mt(2)] mem_plain(4)] by blast
  have "fresh_pools M t" using fresh_frame [OF fd bitmap_bytes(1) [OF M(2,3)] t(3)] bd s(2) by (simp add: booted_def)
  then show ?thesis using run t booted_trans [OF bd booted_frame [OF t(3)]] by simp
qed

section \<open>The other parts\<close>

lemma tss_frame_booted:
  fixes s t :: "'a pstate_scheme"
  assumes "tss_frame s t"
  shows "booted s t"
  using assms unfolding tss_frame_def booted_def boot_area_def by auto

lemma tss_frame_fresh:
  fixes s t :: "'a pstate_scheme"
  assumes "fresh_pools M s" "2 * kernel_bytes M + user_bytes M \<le> 0x3000" "tss_frame s t" "crt_buf s = 0xc00b8000"
  shows "fresh_pools M t"
proof (rule fresh_cong [OF assms(1,2)])
  show "pools t = pools s" "kernel_pool t = kernel_pool s" "user_pool t = user_pool s" "kernel_vaddr t = kernel_vaddr s"
    using assms(3) by (auto simp: tss_frame_def)
  have "span 0xc0000d28 24 \<inter> span 0xc009a000 0x3000 = {}" by (rule span_below) simp_all
  then show "mem t a = mem s a" if "a \<in> span 0xc009a000 0x3000" for a
    using that bitmaps_off_screen assms(3,4) by (fastforce simp: tss_frame_def)
qed

lemma vga_init_eq:
  "vga_init s = s\<lparr>crt_buf := 0xc00b8000, addr_6845 := 0x03d4, port_writes := port_writes (vga_init s),
     port_inputs := port_inputs (vga_init s),
     crt_pos := push_bit 8 (ucast (ucast (port_inputs s 0x3d5 0) :: u8)) OR ucast (ucast (port_inputs s 0x3d5 1) :: u8)\<rparr>"
  by (simp add: vga_init_def Let_def outb_def inb_def inw_def)

lemma cons_init_booted:
  fixes s :: "'a pstate_scheme"
  assumes "unat (push_bit 8 (ucast (ucast (port_inputs s 0x3d5 0) :: u8)) OR ucast (ucast (port_inputs s 0x3d5 1) :: u8) :: u16) < 2000"
  shows "screen_ok (cons_init s)" "booted (s\<lparr>crt_buf := 0xc00b8000\<rparr>) (cons_init s)"
    "\<exists>w i p a lk. cons_init s = s\<lparr>crt_buf := 0xc00b8000, addr_6845 := a, port_writes := w, port_inputs := i, crt_pos := p, locks := lk\<rparr>"
proof -
  obtain lk where c: "cons_init s = (vga_init s)\<lparr>locks := lk\<rparr>"
    by (simp add: cons_init_def Let_def lock_init_def spinlock_init_def upd_lock_def)
  show "screen_ok (cons_init s)" unfolding c by (subst vga_init_eq) (use assms in \<open>simp add: screen_ok_def\<close>)
  show "booted (s\<lparr>crt_buf := 0xc00b8000\<rparr>) (cons_init s)" unfolding c by (subst vga_init_eq) (simp add: booted_def)
  have "cons_init s = s\<lparr>crt_buf := 0xc00b8000, addr_6845 := 0x03d4, port_writes := port_writes (vga_init s),
     port_inputs := port_inputs (vga_init s),
     crt_pos := push_bit 8 (ucast (ucast (port_inputs s 0x3d5 0) :: u8)) OR ucast (ucast (port_inputs s 0x3d5 1) :: u8), locks := lk\<rparr>"
    unfolding c by (subst vga_init_eq) simp
  then show "\<exists>w i p a lk. cons_init s = s\<lparr>crt_buf := 0xc00b8000, addr_6845 := a, port_writes := w, port_inputs := i, crt_pos := p, locks := lk\<rparr>"
    by blast
qed

definition init_texts :: "string list" where
  "init_texts = mem_texts @ kthread_texts @
     [line ''idt_init start'', line ''idt_desc_init start'', line ''idt_desc_init done'', line ''pic_init start'',
      ''pic_init done'', line ''idt_init done'', line ''clock_init done'', line ''keyboard init start'', line ''keyboard init done'',
      line ''tss_init start'', line ''tss_init and ltr done'']"

text \<open>How the loader leaves the system: the cursor is on the screen, the texts stand clear of what is initialised, the word
  at \<open>0xd00\<close> holds a memory size for which the pools are right, the page table of the kernel's heap is there, and the
  stack is in a page of its own.\<close>

definition boot_ready :: "u32 \<Rightarrow> 'a pstate_scheme \<Rightarrow> bool" where
  "boot_ready r s \<longleftrightarrow>
     unat (push_bit 8 (ucast (ucast (port_inputs s 0x3d5 0) :: u8)) OR ucast (ucast (port_inputs s 0x3d5 1) :: u8) :: u16) < 2000 \<and>
     (\<forall>m \<in> set init_texts. boot_text (s\<lparr>crt_buf := 0xc00b8000\<rparr>) m) \<and>
     50 \<le> length (idt s) \<and> kernel_pool s \<noteq> user_pool s \<and>
     0x210000 \<le> read32 (mem s) 0xd00 \<and> read32 (mem s) 0xd00 < 0x10200000 \<and> pt s (pde_addr 0xc0100000) AND 1 \<noteq> 0 \<and>
     running_thread s = r \<and> r \<noteq> 0xc0100000 \<and>
     distinct [ready_list s, tailer (ready_list s), all_list s, tailer (all_list s)] \<and>
     (\<forall>e \<in> {ready_list s, tailer (ready_list s), all_list s, tailer (all_list s)}. 4096 \<le> e - r \<and> 4096 \<le> e - 0xc0100000) \<and>
     4096 \<le> all_list_tag r - 0xc0100000 \<and> all_list_tag r \<notin> {ready_list s, tailer (ready_list s), all_list s, tailer (all_list s)}"

lemma init_plain: "m \<in> {line ''idt_init start'', line ''idt_desc_init start'', line ''idt_desc_init done'', line ''pic_init start'',
      ''pic_init done'', line ''idt_init done'', line ''clock_init done'', line ''keyboard init start'', line ''keyboard init done'',
      line ''tss_init start'', line ''tss_init and ltr done''} \<union> set kthread_texts \<Longrightarrow> plain m"
  by (auto simp: plain_def line_def of_char_def kthread_texts_def)

lemma keyboard_init_boots:
  fixes s :: "'a pstate_scheme"
  assumes "screen_ok s" "boot_text s (line ''keyboard init start'')" "boot_text s (line ''keyboard init done'')"
  shows "\<exists>t. keyboard_init s = Inr t \<and> screen_ok t \<and> console_frame s t"
proof -
  have p: "plain (line ''keyboard init start'')" "plain (line ''keyboard init done'')" by (rule init_plain, simp)+
  obtain a where a: "say (line ''keyboard init start'') s = Inr a" "screen_ok a" "console_frame s a"
    using say_booted [OF assms(1,2) p(1)] by blast
  obtain t where "say (line ''keyboard init done'') a = Inr t" "screen_ok t" "console_frame a t"
    using say_booted [OF a(2) booted_text [OF booted_frame [OF a(3)] assms(3)] p(2)] by blast
  then show ?thesis using a frame_trans by (auto simp: keyboard_init_def)
qed

text \<open>Tables, memory, clock and keyboard, up to the task state segment.\<close>

lemma tables_boot:
  fixes s :: "'a pstate_scheme"
  assumes b: "boot_ready r s"
  shows "\<exists>t. init_all s = bind_res (tss_init t) kthread_init \<and> screen_ok t \<and>
    booted (s\<lparr>crt_buf := 0xc00b8000, idt := with_gates s, idtr := (399, idt_at s)\<rparr>) t \<and>
    fresh_pools (read32 (mem s) 0xd00) t \<and> ticks t = 0"
proof -
  define S where "S = s\<lparr>crt_buf := 0xc00b8000, idt := with_gates s, idtr := (399, idt_at s)\<rparr>"
  define M where "M = read32 (mem s) 0xd00"
  note b = b [unfolded boot_ready_def, folded M_def]
  have M: "0x210000 \<le> M" "M < 0x10200000" using b by blast+
  have "boot_text S m" if "m \<in> set init_texts" for m using b that by (simp add: boot_text_def text_at_def S_def)
  then have tx: "boot_text t m" if "booted S t" "m \<in> set init_texts" for t m using that booted_text by blast
  define c where "c = cons_init s"
  note ci = cons_init_booted [of s, folded c_def]
  have c: "screen_ok c" "booted (s\<lparr>crt_buf := 0xc00b8000\<rparr>) c" using ci(1,2) b by blast+
  obtain w i p a lk where ce: "c = s\<lparr>crt_buf := 0xc00b8000, addr_6845 := a, port_writes := w, port_inputs := i, crt_pos := p, locks := lk\<rparr>"
    using ci(3) b by blast
  have g: "with_gates c = with_gates s" "idt_at c = idt_at s" "length (idt c) = length (idt s)" by (simp_all add: ce with_gates_def)
  have "literal c m" if "boot_text S m" "plain m" for m
    using that by (auto simp: literal_text boot_text_def text_at_def ce S_def)
  then have lits: "\<forall>m \<in> {line ''idt_init start'', line ''idt_desc_init start'', line ''idt_desc_init done'', line ''pic_init start'',
           ''pic_init done'', line ''idt_init done''}. literal c m"
    using tx [OF booted_refl] init_plain by (simp add: init_texts_def)
  obtain t1 where t1: "idt_init c = Inr t1" "screen_ok t1" "console_frame (c\<lparr>idt := with_gates s, idtr := (399, idt_at s)\<rparr>) t1"
    using idt_init_eq [OF c(1) _ lits] b unfolding g by auto
  have "booted S (c\<lparr>idt := with_gates s, idtr := (399, idt_at s)\<rparr>)" using c(2) by (simp add: booted_def S_def)
  then have b1: "booted S t1" using booted_trans booted_frame [OF t1(3)] by blast
  have "span 0xd00 4 \<inter> (boot_area \<union> vram 0xc00b8000) = {}"
  proof -
    have "span 0xd00 4 \<inter> span 0xc0000d28 24 = {}" "span 0xd00 4 \<inter> span 0xc009a000 0x3000 = {}" "span 0xd00 4 \<inter> span 0xc0100000 4096 = {}"
      "span 0xd00 4 \<inter> vram 0xc00b8000 = {}" unfolding vram_def by (rule span_below; simp)+
    then show ?thesis unfolding boot_area_def by blast
  qed
  then have "read32 (mem t1) 0xd00 = M"
    unfolding M_def using b1 by (intro read32_cong) (auto simp: booted_def S_def)
  moreover have "\<forall>m \<in> set mem_texts. boot_text t1 m" using tx [OF b1] by (simp add: init_texts_def)
  ultimately obtain t2 where t2: "mem_init t1 = Inr t2" "screen_ok t2" "booted t1 t2" "fresh_pools M t2"
    using mem_init_boots [OF t1(2) _ _ _ _ M] b1 b by (auto simp: booted_def S_def)
  note b2 = booted_trans [OF b1 t2(3)]
  let ?u = "t2\<lparr>ticks := 0\<rparr>"
  have u: "screen_ok ?u" "booted S ?u" using t2(2) b2 by (simp_all add: screen_ok_def booted_def)
  have uf: "fresh_pools M ?u" by (rule fresh_cong [OF t2(4) bitmap_bytes(1) [OF M]]) simp_all
  have pc: "plain (line ''clock_init done'')" by (rule init_plain) simp
  have mem: "line ''clock_init done'' \<in> set init_texts" "line ''keyboard init start'' \<in> set init_texts" "line ''keyboard init done'' \<in> set init_texts"
    by (simp_all add: init_texts_def)
  obtain t3 where t3: "say (line ''clock_init done'') ?u = Inr t3" "screen_ok t3" "console_frame ?u t3"
    using say_booted [OF u(1) tx [OF u(2) mem(1)] pc] by blast
  have b3: "booted S t3" by (rule booted_trans [OF u(2) booted_frame [OF t3(3)]])
  obtain t4 where t4: "keyboard_init t3 = Inr t4" "screen_ok t4" "console_frame t3 t4"
    using keyboard_init_boots [OF t3(2) tx [OF b3 mem(2)] tx [OF b3 mem(3)]] by blast
  have fr: "console_frame ?u t4" by (rule frame_trans [OF t3(3) t4(3)])
  have "fresh_pools M t4"
    using fresh_frame [OF uf bitmap_bytes(1) [OF M] fr] u(2) by (simp add: booted_def S_def)
  moreover have "ticks t4 = 0" using fr by (auto simp: console_frame_def)
  moreover have "booted S t4" by (rule booted_trans [OF b3 booted_frame [OF t4(3)]])
  moreover have "init_all s = bind_res (tss_init t4) kthread_init"
    using t1(1) t2(1) t3(1) t4(1) by (simp add: init_all_def c_def [symmetric] clock_init_def Let_def)
  ultimately show ?thesis using t4(2) unfolding S_def M_def by blast
qed

lemma kthread_boots:
  fixes s t :: "'a pstate_scheme"
  assumes b: "boot_ready r s" and t: "screen_ok t" "booted (s\<lparr>crt_buf := 0xc00b8000, idt := i, idtr := g\<rparr>) t"
    "fresh_pools (read32 (mem s) 0xd00) t"
  shows "kthread_ready r 0xc0100000 t"
proof -
  note b = b [unfolded boot_ready_def]
  have f: "crt_buf t = 0xc00b8000" "regs t = regs s" "ready_list t = ready_list s" "all_list t = all_list s" "pt t = pt s" "lit t = lit s"
    using t(2) by (simp_all add: booted_def)
  have M: "0x210000 \<le> read32 (mem s) 0xd00" "read32 (mem s) 0xd00 < 0x10200000" using b by blast+
  have pd: "pt t (pde_addr 0xc0100000) AND 1 \<noteq> 0" using b by (simp add: f)
  note pg = fresh_page [OF t(3) M pd]
  have "vram 0xc00b8000 \<inter> span 0xc0100000 4096 = {}" unfolding vram_def by (rule span_below) simp_all
  then have v: "vram (crt_buf t) \<inter> (bitmap_space t \<union> span 0xc0100000 4096) = {}"
    using pg(2) bitmaps_off_screen unfolding f by blast
  have "literal t m \<and> span (lit t m) (Suc (length m)) \<inter> (bitmap_space t \<union> span 0xc0100000 4096) = {}" if m: "m \<in> set kthread_texts" for m
  proof -
    have "boot_text (s\<lparr>crt_buf := 0xc00b8000\<rparr>) m" using b m by (auto simp: init_texts_def)
    then have "boot_text (s\<lparr>crt_buf := 0xc00b8000, idt := i, idtr := g\<rparr>) m" by (simp add: boot_text_def text_at_def)
    then have "boot_text t m" by (rule booted_text [OF t(2)])
    moreover have "plain m" by (rule init_plain) (use m in simp)
    ultimately show ?thesis using pg(2) by (auto simp: literal_text boot_text_def boot_area_def)
  qed
  then show ?thesis
    unfolding kthread_ready_def using t(1) pg(1) v b by (simp add: f running_thread_def)
qed

lemma gdt_off_screen: "span 0xc0000d28 24 \<inter> vram 0xc00b8000 = {}"
  unfolding vram_def by (rule span_below) simp_all

lemma kthread_heap:
  fixes u z :: "'a pstate_scheme"
  assumes fr: "kthread_frame u z"
    and g: "\<exists>v w. main_made r u v \<and> get_kernel_pages 1 v = Inr (0xc0100000, w) \<and> pt z = pt w \<and>
       (\<forall>a. a \<notin> span 0xc0100000 4096 \<union> vram (crt_buf u) \<longrightarrow> mem z a = mem w a)"
    and f: "fresh_pools M u" and M: "0x210000 \<le> M" "M < 0x10200000"
    and c: "crt_buf u = 0xc00b8000" and pd: "pt u (pde_addr 0xc0100000) AND 1 \<noteq> 0"
  shows "heap_started M z"
proof -
  obtain v w where v: "main_made r u v" "get_kernel_pages 1 v = Inr (0xc0100000, w)" "pt z = pt w"
    "\<forall>a. a \<notin> span 0xc0100000 4096 \<union> vram (crt_buf u) \<longrightarrow> mem z a = mem w a"
    using g by blast
  note gv = main_made_fields [OF v(1)]
  have uv: "user_pool v = user_pool u" by (subst v(1) [unfolded main_made_def, THEN conjunct1], simp)
  have fv: "fresh_pools M v"
  proof (rule fresh_cong [OF f bitmap_bytes(1) [OF M]])
    show "mem v a = mem u a" if "a \<in> span 0xc009a000 0x3000" for a
      using v(1) that bitmaps_off_screen c by (auto simp: main_made_def)
  qed (simp_all add: gv uv)
  have "pools z = pools u" "kernel_pool z = kernel_pool u" "user_pool z = user_pool u" "kernel_vaddr z = kernel_vaddr u"
    by (subst fr [unfolded kthread_frame_def], simp)+
  moreover have "span 0xc009a000 0x3000 \<inter> span 0xc0100000 4096 = {}" by (rule span_below) simp_all
  then have "mem z a = mem w a" if "a \<in> span 0xc009a000 0x3000" for a
    using v(4) that bitmaps_off_screen c by auto
  ultimately show ?thesis
    using pd by (intro first_page [OF fv M _ v(2)]) (simp_all add: gv uv v(3))
qed

lemma init_all_eq:
  fixes s :: "'a pstate_scheme"
  assumes b: "boot_ready r s"
  shows "\<exists>s'. init_all s = Inr s' \<and> sched_inv {r, 0xc0100000} TASK_RUNNING s' [0xc0100000] \<and> running_thread s' = r \<and>
    idle_thread s' = 0xc0100000 \<and> new_thread 0xc0100000 (idle_at s) NULL s' \<and>
    idtr s' = (399, idt_at s) \<and> idt s' = with_gates s \<and> gdtr s' = (55, 0xc0000d08) \<and> task_reg s' = 0x20 \<and>
    ticks s' = 0 \<and> eflags s' = eflags s \<and> heap_started (read32 (mem s) 0xd00) s'"
proof -
  let ?S = "s\<lparr>crt_buf := 0xc00b8000, idt := with_gates s, idtr := (399, idt_at s)\<rparr>" and ?M = "read32 (mem s) 0xd00"
  note B = b [unfolded boot_ready_def]
  obtain t where t: "init_all s = bind_res (tss_init t) kthread_init" "screen_ok t" "booted ?S t" "fresh_pools ?M t" "ticks t = 0"
    using tables_boot [OF b] by blast
  have tx: "boot_text t m" if "m \<in> set init_texts" for m
  proof -
    have "boot_text ?S m" using B that by (simp add: boot_text_def text_at_def)
    then show ?thesis by (rule booted_text [OF t(3)])
  qed
  have m: "line ''tss_init start'' \<in> set init_texts" "line ''tss_init and ltr done'' \<in> set init_texts" by (simp_all add: init_texts_def)
  have p: "plain (line ''tss_init start'')" "plain (line ''tss_init and ltr done'')" by (rule init_plain, simp)+
  have cb: "crt_buf t = 0xc00b8000" using t(3) by (simp add: booted_def)
  have l: "literal t (line ''tss_init start'')" "literal t (line ''tss_init and ltr done'')"
    using tx [OF m(1)] tx [OF m(2)] p by (simp_all add: literal_text boot_text_def)
  have "Suc (length (line ''tss_init and ltr done'')) = 23" by (simp add: line_def)
  then have sp: "span 0xc0000d28 24 \<inter> span (lit t (line ''tss_init and ltr done'')) 23 = {}"
    using tx [OF m(2)] by (auto simp: boot_text_def boot_area_def)
  obtain u where u: "tss_init t = Inr u" "gdtr u = (55, 0xc0000d08)" "task_reg u = 0x20" "screen_ok u" "tss_frame t u"
    using tss_init_eq [OF t(2) l _ sp] gdt_off_screen cb by auto
  have bu: "booted ?S u" by (rule booted_trans [OF t(3) tss_frame_booted [OF u(5)]])
  have M: "0x210000 \<le> ?M" "?M < 0x10200000" using B by blast+
  have fu: "fresh_pools ?M u" by (rule tss_frame_fresh [OF t(4) bitmap_bytes(1) [OF M] u(5) cb])
  have tu: "ticks u = 0" using u(5) t(5) by (auto simp: tss_frame_def)
  obtain z where z: "kthread_init u = Inr z" "sched_inv {r, 0xc0100000} TASK_RUNNING z [0xc0100000]" "running_thread z = r"
    "idle_thread z = 0xc0100000" "new_thread 0xc0100000 (idle_at u) NULL z" "kthread_frame u z"
    "\<exists>v w. main_made r u v \<and> get_kernel_pages 1 v = Inr (0xc0100000, w) \<and> pt z = pt w \<and>
       (\<forall>a. a \<notin> span 0xc0100000 4096 \<union> vram (crt_buf u) \<longrightarrow> mem z a = mem w a)"
    using kthread_init_eq [OF kthread_boots [OF b u(4) bu fu]] by blast
  have "crt_buf u = 0xc00b8000" "pt u (pde_addr 0xc0100000) AND 1 \<noteq> 0" using bu B by (simp_all add: booted_def)
  then have hs: "heap_started ?M z" by (rule kthread_heap [OF z(6,7) fu M])
  have "idtr z = idtr u" "idt z = idt u" "gdtr z = gdtr u" "task_reg z = task_reg u" "ticks z = ticks u" "eflags z = eflags u"
    by (subst z(6) [unfolded kthread_frame_def], simp)+
  then have "idtr z = (399, idt_at s)" "idt z = with_gates s" "gdtr z = (55, 0xc0000d08)" "task_reg z = 0x20" "ticks z = 0"
    "eflags z = eflags s" "idle_at u = idle_at s"
    using bu u(2,3) tu by (simp_all add: booted_def)
  then show ?thesis using t(1) u(1) z(1-5) hs by auto
qed

section \<open>Properties\<close>

text \<open>C1. The system comes up: from the state in which the loader leaves it, with between 2112 KB and 258 MB of memory,
  \<^verbatim>\<open>init_all\<close> runs through without a panic. Afterwards the interrupt table has the gate of every vector, the
  registers of the descriptor tables and of the task state are set, the clock stands at zero, the main thread runs with the idle thread in the ready queue
  and the invariant of the scheduler holds, the first page of the kernel's heap being the idle thread's. The two pools
  share the memory above 2 MB, their bitmaps behind each other; everything is free but the idle thread's page, which stands for
  the first frame of the kernel's pool. The interrupt flag is as it was before, on or off
  (\<^verbatim>\<open>main\<close> sets it afterwards).\<close>

theorem init_all_boots:
  fixes s :: "'a pstate_scheme"
  assumes "boot_ready r s"
  shows "\<exists>s'. init_all s = Inr s' \<and> sched_inv {r, 0xc0100000} TASK_RUNNING s' [0xc0100000] \<and> running_thread s' = r \<and>
    idle_thread s' = 0xc0100000 \<and> new_thread 0xc0100000 (idle_at s) NULL s' \<and>
    idtr s' = (8 * 50 - 1, idt_at s) \<and> (\<forall>i < 50. gate_offset (idt s' ! i) = intr_entry_table s ! i) \<and>
    gdtr s' = (55, 0xc0000d08) \<and> task_reg s' = 0x20 \<and> ticks s' = 0 \<and> eflags s' = eflags s \<and>
    heap_started (read32 (mem s) 0xd00) s'"
proof -
  have "gate_offset (with_gates s ! i) = intr_entry_table s ! i" if "i < 50" for i
    using that by (simp add: with_gates_def nth_append gate_offset_make)
  then show ?thesis using init_all_eq [OF assms] by auto
qed

definition sample_loader :: pstate where
  "sample_loader = sample_first\<lparr>mem := write32 0xd00 0x2000000 (texts init_texts), lit := text_addr init_texts,
     port_inputs := (\<lambda>_ _. 0), idt := replicate 50 (make_intr_descriptor 0 0)\<rparr>"

lemma init_texts_short: "list_all short_text init_texts" "length init_texts \<le> 100"
  by (simp_all add: init_texts_def mem_texts_def kthread_texts_def short_text_def line_def of_char_def)

lemma sample_loader_text:
  assumes m: "m \<in> set init_texts"
  shows "boot_text (sample_loader\<lparr>crt_buf := 0xc00b8000\<rparr>) m"
proof -
  let ?s = "sample_loader\<lparr>crt_buf := 0xc00b8000\<rparr>"
  obtain k where k: "k < length init_texts" "init_texts ! k = m" "text_addr init_texts m = 0x7000 + 64 * of_nat k"
    using text_index [OF m] by blast
  have "short_text m" using init_texts_short(1) m by (simp add: list_all_iff)
  then have j: "Suc (length m) \<le> 64" "short_text (init_texts ! k)" using k(2) by (simp_all add: short_text_def)
  note sp = text_span [OF m init_texts_short(2) j(1)]
  have "span 0xd00 4 \<inter> span (text_addr init_texts m) (Suc (length m)) = {}"
    using text_addr_range [OF m init_texts_short(2)] j(1) by (intro span_below) simp_all
  then have "mem ?s a = texts init_texts a" if "a \<in> span (text_addr init_texts m) (Suc (length m))" for a
    using that write32_other [of a "0xd00" "0x2000000" "texts init_texts"] by (auto simp: sample_loader_def)
  then have "cstring (mem ?s) (text_addr init_texts m) (map of_char m)"
    using cstring_texts [OF k(1) init_texts_short(2) j(2)] k(2,3)
      cstring_cong [of "text_addr init_texts m" "map of_char m" "mem ?s" "texts init_texts"] by simp
  moreover have "span (text_addr init_texts m) (Suc (length m)) \<inter> vram 0xc00b8000 = {}"
    unfolding vram_def by (rule sp) simp_all
  moreover have "span (text_addr init_texts m) (Suc (length m)) \<inter> boot_area = {}"
  proof -
    have "span (text_addr init_texts m) (Suc (length m)) \<inter> span 0xc0000d28 24 = {}"
      "span (text_addr init_texts m) (Suc (length m)) \<inter> span 0xc009a000 0x3000 = {}"
      "span (text_addr init_texts m) (Suc (length m)) \<inter> span 0xc0100000 4096 = {}"
      by (rule sp; simp)+
    then show ?thesis unfolding boot_area_def by blast
  qed
  ultimately show ?thesis by (simp add: boot_text_def text_at_def sample_loader_def)
qed

lemma sample_loader_ready: "boot_ready 0x10000 sample_loader"
proof -
  have "running_thread sample_loader = 0x10000" "ready_list sample_loader = 0x100" "all_list sample_loader = 0x200"
    "kernel_pool sample_loader \<noteq> user_pool sample_loader"
    using sample_sched_fields(3)
    by (simp_all add: sample_loader_def running_thread_def sample_first_def fstate.defs istate.defs sample_ide_pools sample_boot_pools)
  moreover have "read32 (mem sample_loader) 0xd00 = 0x2000000" by (simp add: sample_loader_def read_write32)
  moreover have "pt sample_loader w = 1" "length (idt sample_loader) = 50" "port_inputs sample_loader p n = 0" for w p n
    by (simp_all add: sample_loader_def)
  ultimately show ?thesis
    unfolding boot_ready_def using sample_loader_text by (simp add: tailer_def all_list_tag_def)
qed

theorem init_all_boots_witness:
  "\<exists>s'. init_all sample_loader = Inr s' \<and> sched_inv {0x10000, 0xc0100000} TASK_RUNNING s' [0xc0100000] \<and>
    addr_v2p 0xc0100000 s' = 0x200000"
  using init_all_boots [OF sample_loader_ready] unfolding heap_started_def by blast

end
