(* ===== verification/Loader.thy ===== *)
theory Loader
  imports Boot
begin

text \<open>
  The boot loader, \<^verbatim>\<open>boot/loader.S\<close> and \<^verbatim>\<open>boot/helper.S\<close>, on physical memory: its data,
  the page tables it sets up and the loading of the kernel's image. The boot sector, the size of the memory and the way from
  the start to the jump to the kernel are in Handover. The bytes that calls leave on the stack are left out. A
  \<^verbatim>\<open>loop\<close> instruction is a recursion on the count it starts with.
\<close>

section \<open>Paging (loader.S)\<close>

definition PAGE_DIR_TABLE_ADDR :: u32 where "PAGE_DIR_TABLE_ADDR = 0x100000"

definition PG_USER :: u32 where "PG_USER = 4 OR 2 OR 1"

primrec clear_page_dir :: "nat \<Rightarrow> u32 \<Rightarrow> u32 \<Rightarrow> bmem \<Rightarrow> bmem" where
  "clear_page_dir 0 ax si m = m"
| "clear_page_dir (Suc cx) ax si m = clear_page_dir cx ax (si + 4) (write32 (ax + si) 0 m)"

primrec create_pte :: "nat \<Rightarrow> u32 \<Rightarrow> u32 \<Rightarrow> u32 \<Rightarrow> bmem \<Rightarrow> bmem" where
  "create_pte 0 bx si dx m = m"
| "create_pte (Suc cx) bx si dx m = create_pte cx bx (si + 1) (dx + 0x1000) (write32 (bx + si * 4) dx m)"

primrec create_kernel_pde :: "nat \<Rightarrow> u32 \<Rightarrow> u32 \<Rightarrow> u32 \<Rightarrow> bmem \<Rightarrow> bmem" where
  "create_kernel_pde 0 bx si ax m = m"
| "create_kernel_pde (Suc cx) bx si ax m =
     create_kernel_pde cx bx (si + 1) (ax + 0x1000) (write32 (bx + si * 4) ax m)"

definition setup_page :: "bmem \<Rightarrow> bmem" where
  "setup_page m =
     (let m = clear_page_dir 0x400 PAGE_DIR_TABLE_ADDR 0 m;
          bx = PAGE_DIR_TABLE_ADDR + 0x1000;
          ax = bx OR PG_USER;
          m = write32 PAGE_DIR_TABLE_ADDR ax m;
          m = write32 (PAGE_DIR_TABLE_ADDR + 768 * 4) ax m;
          ax = ax - 0x1000;
          m = write32 (PAGE_DIR_TABLE_ADDR + 4092) ax m;
          m = create_pte 256 bx 0 PG_USER m;
          ax = (PAGE_DIR_TABLE_ADDR + 0x2000) OR PG_USER
      in create_kernel_pde 254 PAGE_DIR_TABLE_ADDR 769 ax m)"

section \<open>The data of the loader (loader.S)\<close>

text \<open>The section stands at \<open>0xd00\<close>; the descriptor table is the one \<^verbatim>\<open>tss_init\<close> extends later.\<close>

definition TOTAL_MEM_BYTES :: u32 where "TOTAL_MEM_BYTES = 0xd00"
definition GDT_BASE :: u32 where "GDT_BASE = 0xd08"
definition GDT_DESC :: u32 where "GDT_DESC = 0xd40"
definition ARDS_BUF :: u32 where "ARDS_BUF = 0xd46"
definition ARDS_NUM :: u32 where "ARDS_NUM = 0xed6"

definition loader_gdt :: "u16 list" where
  "loader_gdt = [0, 0, 0, 0] @ [0xffff, 0x0000, 0x9800, 0x00cf] @ [0xffff, 0x0000, 0x9200, 0x00cf] @
     [0x0007, 0x8000, 0x920b, 0x00c0] @ replicate 12 0"

section \<open>The size of the memory (loader.S)\<close>

text \<open>One call of the BIOS service: from a continuation value the next one, the length and the bytes of a descriptor,
  or \<open>None\<close> with the carry flag set, upon which the loader halts.\<close>

type_synonym bios = "u32 \<Rightarrow> (u32 \<times> u16 \<times> u8 list) option"

partial_function (option) e820_mem_get_loop :: "bios \<Rightarrow> u32 \<Rightarrow> u16 \<Rightarrow> bmem \<Rightarrow> bmem res option" where
  "e820_mem_get_loop bios bx di m =
     (case bios bx of
        None \<Rightarrow> Some (Inl Diverge)
      | Some (bx', cx, ards) \<Rightarrow>
          let m = store_bytes (ucast di) ards m;
              m = write16 ARDS_NUM (read16 m ARDS_NUM + 1) m
          in if bx' \<noteq> 0 then e820_mem_get_loop bios bx' (di + cx) m else Some (Inr m))"

text \<open>The comparison is a signed one. A count of 0 stands for the whole range of the register.\<close>

primrec find_max_mem_area :: "nat \<Rightarrow> u32 \<Rightarrow> u32 \<Rightarrow> bmem \<Rightarrow> u32" where
  "find_max_mem_area 0 bx dx m = dx"
| "find_max_mem_area (Suc cx) bx dx m =
     (let ax = read32 m bx + read32 m (bx + 8)
      in find_max_mem_area cx (bx + 0x14) (if sint ax \<le> sint dx then dx else ax) m)"

definition loop_count16 :: "u16 \<Rightarrow> nat" where
  "loop_count16 cx = (if cx = 0 then 2 ^ 16 else unat cx)"

definition loop_count :: "u32 \<Rightarrow> nat" where
  "loop_count cx = (if cx = 0 then 2 ^ 32 else unat cx)"

definition get_memory_size :: "bios \<Rightarrow> bmem \<Rightarrow> bmem res" where
  "get_memory_size bios m =
     bind_res (of_loop (e820_mem_get_loop bios 0 (ucast ARDS_BUF) m)) (\<lambda>r. bind_res r (\<lambda>m.
       Inr (write32 TOTAL_MEM_BYTES (find_max_mem_area (loop_count16 (read16 m ARDS_NUM)) ARDS_BUF 0 m) m)))"

section \<open>Virtual memory (loader.S, helper.S)\<close>

text \<open>Once paging is on, an address is translated; without a handler for page faults, an address that is not mapped stops
  the machine.\<close>

definition at_virtual :: "bmem \<Rightarrow> u32 \<Rightarrow> u32 res" where
  "at_virtual m va = (case page_walk m PAGE_DIR_TABLE_ADDR va of None \<Rightarrow> Inl Fault | Some pa \<Rightarrow> Inr pa)"

definition load8 :: "u32 \<Rightarrow> bmem \<Rightarrow> u8 res" where
  "load8 va m = bind_res (at_virtual m va) (\<lambda>pa. Inr (m pa))"

definition load16 :: "u32 \<Rightarrow> bmem \<Rightarrow> u16 res" where
  "load16 va m = bind_res (load8 va m) (\<lambda>b0. bind_res (load8 (va + 1) m) (\<lambda>b1. Inr (ucast b0 OR push_bit 8 (ucast b1))))"

definition load32 :: "u32 \<Rightarrow> bmem \<Rightarrow> u32 res" where
  "load32 va m =
     bind_res (load16 va m) (\<lambda>w0. bind_res (load16 (va + 2) m) (\<lambda>w1. Inr (ucast w0 OR push_bit 16 (ucast w1))))"

primrec mem_cpy :: "nat \<Rightarrow> u32 \<Rightarrow> u32 \<Rightarrow> bmem \<Rightarrow> bmem res" where
  "mem_cpy 0 dst src m = Inr m"
| "mem_cpy (Suc n) dst src m =
     bind_res (load8 src m) (\<lambda>b. bind_res (at_virtual m dst) (\<lambda>pa. mem_cpy n (dst + 1) (src + 1) (m(pa := b))))"

definition KERNEL_BASE_ADDR :: u32 where "KERNEL_BASE_ADDR = 0x70000"

text \<open>The loop ends at the first header of type 0; one header less than the file has is looked at.\<close>

primrec each_segment :: "nat \<Rightarrow> u32 \<Rightarrow> u32 \<Rightarrow> bmem \<Rightarrow> bmem res" where
  "each_segment 0 bx dx m = Inr m"
| "each_segment (Suc cx) bx dx m =
     bind_res (load32 bx m) (\<lambda>p_type.
       if p_type = 0 then Inr m
       else bind_res (load32 (bx + 16) m) (\<lambda>p_filesz.
            bind_res (load32 (bx + 4) m) (\<lambda>p_offset.
            bind_res (load32 (bx + 8) m) (\<lambda>p_vaddr.
            bind_res (mem_cpy (unat p_filesz) p_vaddr (p_offset + KERNEL_BASE_ADDR) m) (\<lambda>m.
              each_segment cx (bx + dx) dx m)))))"

definition kernel_init :: "bmem \<Rightarrow> bmem res" where
  "kernel_init m =
     bind_res (load16 (KERNEL_BASE_ADDR + 42) m) (\<lambda>e_phentsize.
     bind_res (load32 (KERNEL_BASE_ADDR + 28) m) (\<lambda>e_phoff.
     bind_res (load16 (KERNEL_BASE_ADDR + 44) m) (\<lambda>e_phnum.
       each_segment (loop_count (ucast (e_phnum - 1))) (e_phoff + KERNEL_BASE_ADDR) (ucast e_phentsize) m)))"

section \<open>Facts on paging\<close>

lemma table_word_at: "b AND 0xfff = 0 \<Longrightarrow> b + i * 4 = table_word b i"
  by (simp add: table_word_def frame_of_aligned)

lemma read_word_write:
  assumes "i < 1024" "j < 1024"
  shows "read32 (write32 (table_word b (of_nat i)) v m) (table_word f (of_nat j)) =
    (if page_of f = page_of b \<and> i = j then v else read32 m (table_word f (of_nat j)))"
proof -
  have u: "unat (of_nat i :: u32) = i" "unat (of_nat j :: u32) = j" using assms by (simp_all add: unat_of_nat)
  then have "(of_nat i = (of_nat j :: u32)) = (i = j)" by metis
  moreover have "table_word f (of_nat j) = table_word b (of_nat i) \<longleftrightarrow> page_of f = page_of b \<and> of_nat j = (of_nat i :: u32)"
    by (rule table_word_inj) (simp_all add: u assms)
  moreover have "4 dvd unat (table_word f (of_nat j))" "4 dvd unat (table_word b (of_nat i))"
    using table_word_aligned [of "of_nat j" f] table_word_aligned [of "of_nat i" b] u assms by simp_all
  ultimately show ?thesis using read_write_aligned by (auto simp: read_write32)
qed

lemma create_pte_word:
  assumes "b AND 0xfff = 0" "i + n \<le> 1024" "j < 1024"
  shows "read32 (create_pte n b (of_nat i) v m) (table_word f (of_nat j)) =
    (if page_of f = page_of b \<and> i \<le> j \<and> j < i + n then v + of_nat (j - i) * 0x1000 else read32 m (table_word f (of_nat j)))"
  using assms(2)
proof (induction n arbitrary: i v m)
  case (Suc n)
  have e: "of_nat i + 1 = (of_nat (Suc i) :: u32)" by simp
  have "v + 0x1000 + of_nat (j - Suc i) * 0x1000 = v + of_nat (j - i) * 0x1000" if "Suc i \<le> j"
  proof -
    have "j - i = Suc (j - Suc i)" using that by simp
    then show ?thesis by (simp add: algebra_simps)
  qed
  then show ?case
    using Suc.prems Suc.IH [of "Suc i" "v + 0x1000"] read_word_write [of i j b v m f] assms(3)
    by (auto simp: e table_word_at [OF assms(1)] simp del: of_nat_Suc)
qed auto

lemma create_kernel_pde_pte: "create_kernel_pde n b i v m = create_pte n b i v m"
  by (induction n arbitrary: i v m) simp_all

lemma clear_page_dir_pte:
  "i + n \<le> 1024 \<Longrightarrow> b AND 0xfff = 0 \<Longrightarrow> j < 1024 \<Longrightarrow>
   read32 (clear_page_dir n b (of_nat i * 4) m) (table_word f (of_nat j)) =
   (if page_of f = page_of b \<and> i \<le> j \<and> j < i + n then 0 else read32 m (table_word f (of_nat j)))"
proof (induction n arbitrary: i m)
  case (Suc n)
  have e: "of_nat i * 4 + 4 = (of_nat (Suc i) * 4 :: u32)" by (simp add: algebra_simps)
  show ?case
    using Suc.prems Suc.IH [of "Suc i"] read_word_write [of i j b 0 m f]
    by (auto simp: e table_word_at simp del: of_nat_Suc)
qed auto

text \<open>Bytes outside the two pages stay.\<close>

lemma create_pte_frame:
  assumes "b AND 0xfff = 0" "i + n \<le> 1024" "a \<notin> span b 4096"
  shows "create_pte n b (of_nat i) v m a = m a"
  using assms(2)
proof (induction n arbitrary: i v m)
  case (Suc n)
  have "b + of_nat i * 4 = b + of_nat (4 * i)" by simp
  then have "span (b + of_nat i * 4) 4 \<subseteq> span b 4096" using Suc.prems span_shift [of "4 * i" 4 4096 b] by (simp add: mult.commute)
  then have "write32 (b + of_nat i * 4) v m a = m a" using assms(3) by (intro write32_other) blast
  moreover have "of_nat i + 1 = (of_nat (Suc i) :: u32)" by simp
  ultimately show ?case using Suc.prems Suc.IH [of "Suc i"] by (simp del: of_nat_Suc)
qed simp

lemma clear_page_dir_frame:
  assumes "i + n \<le> 1024" "a \<notin> span b 4096"
  shows "clear_page_dir n b (of_nat i * 4) m a = m a"
  using assms(1)
proof (induction n arbitrary: i m)
  case (Suc n)
  have "b + of_nat i * 4 = b + of_nat (4 * i)" by simp
  then have "span (b + of_nat i * 4) 4 \<subseteq> span b 4096" using Suc.prems span_shift [of "4 * i" 4 4096 b] by (simp add: mult.commute)
  then have "write32 (b + of_nat i * 4) 0 m a = m a" using assms(2) by (intro write32_other) blast
  moreover have "of_nat i * 4 + 4 = (of_nat (Suc i) * 4 :: u32)" by (simp add: algebra_simps)
  ultimately show ?case using Suc.prems Suc.IH [of "Suc i"] by (simp del: of_nat_Suc)
qed simp

lemma setup_page_eq:
  "setup_page m =
     create_pte 254 0x100000 769 0x102007
       (create_pte 256 0x101000 0 7
         (write32 (table_word 0x100000 1023) 0x100007
           (write32 (table_word 0x100000 768) 0x101007 (write32 (table_word 0x100000 0) 0x101007 (clear_page_dir 1024 0x100000 0 m)))))"
  by (simp add: setup_page_def Let_def PAGE_DIR_TABLE_ADDR_def PG_USER_def create_kernel_pde_pte table_word_def)

lemma setup_page_words:
  assumes "j < 1024"
  shows "read32 (setup_page m) (table_word f (of_nat j)) =
    (if page_of f = 0x100 \<and> 769 \<le> j \<and> j < 1023 then 0x102007 + of_nat (j - 769) * 0x1000
     else if page_of f = 0x101 \<and> j < 256 then 7 + of_nat j * 0x1000
     else if page_of f = 0x100 \<and> j = 1023 then 0x100007
     else if page_of f = 0x100 \<and> (j = 768 \<or> j = 0) then 0x101007
     else if page_of f = 0x100 then 0 else read32 m (table_word f (of_nat j)))"
proof -
  have p: "page_of 0x100000 = 0x100" "page_of 0x101000 = 0x101" by (simp_all add: page_of_def)
  have c: "read32 (create_pte 254 0x100000 769 v m) (table_word f (of_nat j)) =
      (if page_of f = 0x100 \<and> 769 \<le> j \<and> j < 1023 then v + of_nat (j - 769) * 0x1000 else read32 m (table_word f (of_nat j)))"
    "read32 (create_pte 256 0x101000 0 v m) (table_word f (of_nat j)) =
      (if page_of f = 0x101 \<and> j < 256 then v + of_nat j * 0x1000 else read32 m (table_word f (of_nat j)))"
    "read32 (clear_page_dir 1024 0x100000 0 m) (table_word f (of_nat j)) =
      (if page_of f = 0x100 then 0 else read32 m (table_word f (of_nat j)))" for v m
    using create_pte_word [OF _ _ assms, of "0x100000" 769 254] create_pte_word [OF _ _ assms, of "0x101000" 0 256]
      clear_page_dir_pte [of 0 1024 "0x100000" j] assms p by simp_all
  have w: "read32 (write32 (table_word 0x100000 1023) v m) (table_word f (of_nat j)) =
      (if page_of f = 0x100 \<and> j = 1023 then v else read32 m (table_word f (of_nat j)))"
    "read32 (write32 (table_word 0x100000 768) v m) (table_word f (of_nat j)) =
      (if page_of f = 0x100 \<and> j = 768 then v else read32 m (table_word f (of_nat j)))"
    "read32 (write32 (table_word 0x100000 0) v m) (table_word f (of_nat j)) =
      (if page_of f = 0x100 \<and> j = 0 then v else read32 m (table_word f (of_nat j)))" for v m
    using read_word_write [OF _ assms, of 1023] read_word_write [OF _ assms, of 768] read_word_write [OF _ assms, of 0] p
    by auto
  show ?thesis unfolding setup_page_eq c w by auto
qed

lemma setup_page_dir:
  "j < 1024 \<Longrightarrow> read32 (setup_page m) (table_word 0x100000 (of_nat j)) =
    (if j = 0 \<or> j = 768 then 0x101007 else if j = 1023 then 0x100007
     else if 768 < j then 0x102007 + of_nat (j - 769) * 0x1000 else 0)"
  using setup_page_words [of j m "0x100000"] by (auto simp: page_of_def)

lemma setup_page_table:
  "j < 1024 \<Longrightarrow> read32 (setup_page m) (table_word 0x101007 (of_nat j)) =
    (if j < 256 then 7 + of_nat j * 0x1000 else read32 m (table_word 0x101000 (of_nat j)))"
  using setup_page_words [of j m "0x101007"] by (simp add: page_of_def table_word_def)

lemma setup_page_frame: "a \<notin> span 0x100000 0x2000 \<Longrightarrow> setup_page m a = m a"
proof -
  assume a: "a \<notin> span 0x100000 0x2000"
  have s: "span (0x100000 + of_nat i) n \<subseteq> span 0x100000 0x2000" if "i + n \<le> 0x2000" for i n
    using that by (rule span_shift)
  have n: "a \<notin> span 0x100000 4096" "a \<notin> span 0x101000 4096" using s [of 0 4096] s [of 4096 4096] a by auto
  have w: "write32 (table_word 0x100000 i) v m' a = m' a" if "unat i < 1024" for i v m'
  proof -
    have "table_word 0x100000 i = 0x100000 + of_nat (4 * unat i)" by (simp add: table_word_def mult.commute)
    then show ?thesis using s [of "4 * unat i" 4] that a by (intro write32_other) auto
  qed
  show ?thesis
    unfolding setup_page_eq
    using create_pte_frame [of "0x100000" 769 254 a] create_pte_frame [of "0x101000" 0 256 a] clear_page_dir_frame [of 0 1024 a "0x100000"] n w
    by simp
qed

text \<open>The first megabyte is mapped twice, and the directory itself.\<close>

lemma setup_page_self: "self_mapped (setup_page m) 0x100000"
  using setup_page_dir [of 1023 m] by (simp add: self_mapped_def)

lemma shifted_frame:
  fixes i :: u32
  shows "(i * 0x1000) AND 0xfff = 0" "7 + i * 0x1000 = entry_of (i * 0x1000)"
proof -
  have s: "i * 0x1000 = push_bit 12 i" by (simp add: push_bit_eq_mult)
  have m: "(0xfff :: u32) = mask 12" "(7 :: u32) = mask 3" by (simp_all add: mask_eq_exp_minus_1)
  show "(i * 0x1000) AND 0xfff = 0" unfolding s m by (rule bit_word_eqI) (auto simp: bit_simps)
  have "7 + i * 0x1000 = 7 OR (i * 0x1000)"
    unfolding s m by (rule disjunctive_add) (auto simp: bit_simps)
  then show "7 + i * 0x1000 = entry_of (i * 0x1000)" by (simp add: entry_of_def ac_simps)
qed

lemma low_directory:
  "unat (PDE_IDX va) = 0 \<or> unat (PDE_IDX va) = 768 \<Longrightarrow> directory_entry (setup_page m) 0x100000 va = 0x101007"
  using setup_page_dir [of "unat (PDE_IDX va)" m] index_less(1) [of va] by (auto simp: directory_entry_def)

text \<open>The first four megabytes share the entries of those at \<open>0xc0000000\<close>.\<close>

lemma setup_page_shares:
  assumes "unat (PDE_IDX a) = 0" "unat (PDE_IDX va) = 768" "PTE_IDX a = PTE_IDX va"
  shows "shares (setup_page m) 0x100000 a va"
  using assms by (simp add: shares_def pte_place_def low_directory)

lemma setup_page_low:
  assumes "unat (PDE_IDX va) = 0 \<or> unat (PDE_IDX va) = 768" "unat (PTE_IDX va) < 256"
  shows "page_walk (setup_page m) 0x100000 va = Some (PTE_IDX va * 0x1000 + (va AND 0xfff))"
proof -
  note d = low_directory [OF assms(1)]
  have p: "read32 (setup_page m) (table_word 0x101007 (PTE_IDX va)) = 7 + PTE_IDX va * 0x1000"
    using setup_page_table [of "unat (PTE_IDX va)" m] assms(2) by simp
  show ?thesis
    using frame_of_aligned [OF shifted_frame(1)]
    by (simp only: page_walk_def pte_place_def d p shifted_frame(2) entry_of_bits Let_def) simp
qed

lemma low_index:
  assumes "pa < 0x100000"
  shows "unat (0xc0000000 + pa) = 0xc0000000 + unat pa" "unat (PDE_IDX pa) = 0" "unat (PTE_IDX pa) = unat (page_of pa)"
    "unat (PDE_IDX (0xc0000000 + pa)) = 768" "unat (PTE_IDX (0xc0000000 + pa)) = unat (page_of pa)" "unat (page_of pa) < 256"
proof -
  have pa: "unat pa < 0x100000" using assms by (simp add: word_less_nat_alt)
  then show v: "unat (0xc0000000 + pa) = 0xc0000000 + unat pa" by (subst unat_add_nowrap) simp_all
  have g: "unat (page_of (0xc0000000 + pa)) = 0xc0000 + unat (page_of pa)" "unat (page_of pa) < 256"
    using pa by (simp_all add: unat_page_of v less_mult_imp_div_less)
  show "unat (page_of pa) < 256" "unat (PDE_IDX pa) = 0" "unat (PTE_IDX pa) = unat (page_of pa)"
    using g(2) by (simp_all add: unat_PDE_IDX unat_PTE_IDX)
  show "unat (PDE_IDX (0xc0000000 + pa)) = 768" unfolding unat_PDE_IDX g(1) using g(2) by (intro div_nat_eqI) simp_all
  have "0xc0000 + unat (page_of pa) = unat (page_of pa) + 768 * 1024" by simp
  then show "unat (PTE_IDX (0xc0000000 + pa)) = unat (page_of pa)"
    unfolding unat_PTE_IDX g(1) using g(2) by (simp only: mod_mult_self1 mod_less)
qed

lemma low_address:
  assumes "pa < 0x100000"
  shows "page_walk (setup_page m) 0x100000 pa = Some pa" "page_walk (setup_page m) 0x100000 (0xc0000000 + pa) = Some pa"
proof -
  note i = low_index(2-5) [OF assms] and v = low_index(1) [OF assms] and g = low_index(6) [OF assms]
  have pa: "unat pa < 0x100000" using assms by (simp add: word_less_nat_alt)
  have e: "PTE_IDX va * 0x1000 + (va AND 0xfff) = pa" if "unat (PTE_IDX va) = unat (page_of pa)" "unat va mod 4096 = unat pa mod 4096" for va
  proof (rule unat_inj)
    have "unat (PTE_IDX va * 0x1000) = unat (page_of pa) * 4096" using g that(1) by (simp add: unat_word_ariths)
    moreover have "unat (va AND 0xfff) = unat pa mod 4096" by (simp add: unat_low12 that(2))
    moreover have "unat (page_of pa) * 4096 + unat pa mod 4096 = unat pa" by (simp add: unat_page_of)
    ultimately show "unat (PTE_IDX va * 0x1000 + (va AND 0xfff)) = unat pa"
      using pa by (subst unat_add_nowrap) simp_all
  qed
  show "page_walk (setup_page m) 0x100000 pa = Some pa"
    using setup_page_low [of pa m] i g e [of pa] by simp
  have "0xc0000000 + unat pa = unat pa + 0xc0000 * 4096" by simp
  then have "unat (0xc0000000 + pa) mod 4096 = unat pa mod 4096" unfolding v by (simp only: mod_mult_self1)
  then show "page_walk (setup_page m) 0x100000 (0xc0000000 + pa) = Some pa"
    using setup_page_low [of "0xc0000000 + pa" m] i g e [of "0xc0000000 + pa"] by simp
qed

text \<open>The tables of the kernel's part are different, so that an allocation there meets the hypotheses of Translation.\<close>

lemma kernel_entry:
  assumes "768 \<le> unat (PDE_IDX va)" "unat (PDE_IDX va) < 1023"
  shows "directory_entry (setup_page m) 0x100000 va AND 1 \<noteq> 0"
    and "unat (page_of (directory_entry (setup_page m) 0x100000 va)) = unat (PDE_IDX va) - 768 + 0x101"
proof -
  let ?j = "unat (PDE_IDX va)"
  have "directory_entry (setup_page m) 0x100000 va = 7 + (0x101 + of_nat (?j - 768)) * 0x1000"
  proof (cases "?j = 768")
    case False
    then have "?j - 768 = Suc (?j - 769)" using assms by simp
    then have "(0x101 + of_nat (?j - 768)) * 0x1000 = 0x102000 + of_nat (?j - 769) * (0x1000 :: u32)" by (simp add: algebra_simps)
    then show ?thesis using setup_page_dir [of ?j m] assms False by (simp add: directory_entry_def)
  qed (use low_directory [of va m] in simp)
  then have e: "directory_entry (setup_page m) 0x100000 va = entry_of ((0x101 + of_nat (?j - 768)) * 0x1000)"
    by (simp only: shifted_frame(2))
  then show "directory_entry (setup_page m) 0x100000 va AND 1 \<noteq> 0" by (simp only: entry_of_bits) simp
  have "unat ((0x101 + of_nat k) :: u32) = 0x101 + k" if "k < 255" for k
    using that by (subst unat_add_nowrap) (simp_all add: unat_of_nat)
  from this [of "?j - 768"] have u: "unat ((0x101 + of_nat (?j - 768)) :: u32) = 0x101 + (?j - 768)"
    using assms by linarith
  then have "unat ((0x101 + of_nat (?j - 768)) * 0x1000 :: u32) = (0x101 + (?j - 768)) * 4096"
    using assms by (subst unat_word_ariths) (simp only: u, simp)
  moreover have "unat (directory_entry (setup_page m) 0x100000 va AND 0xfffff000) = unat ((0x101 + of_nat (?j - 768)) * 0x1000 :: u32)"
    unfolding e entry_of_bits frame_of_aligned [OF shifted_frame(1)] ..
  ultimately have "4096 * unat (page_of (directory_entry (setup_page m) 0x100000 va)) = (0x101 + (?j - 768)) * 4096"
    unfolding unat_masked by (simp only:)
  then show "unat (page_of (directory_entry (setup_page m) 0x100000 va)) = ?j - 768 + 0x101" by simp
qed

lemma self_entry: "PDE_IDX a = 1023 \<Longrightarrow> page_of (directory_entry (setup_page m) 0x100000 a) = 0x100"
  using setup_page_dir [of 1023 m] by (simp add: directory_entry_def page_of_def)

lemma kernel_part_own:
  assumes "0xc0000000 \<le> va" "va < 0xffc00000"
  shows "own_table {768..1023} (setup_page m) 0x100000 va"
proof -
  have i: "unat (PDE_IDX va) = unat va div 0x400000"
    by (simp add: unat_PDE_IDX unat_page_of flip: div_mult2_eq)
  have va: "768 \<le> unat (PDE_IDX va)" "unat (PDE_IDX va) < 1023"
    using assms unfolding i by (simp_all add: word_less_nat_alt word_le_nat_alt less_mult_imp_div_less less_eq_div_iff_mult_less_eq)
  have "PDE_IDX a = PDE_IDX va"
    if a: "PDE_IDX a \<in> {768..1023}" "page_of (directory_entry (setup_page m) 0x100000 a) = page_of (directory_entry (setup_page m) 0x100000 va)" for a
  proof (cases "PDE_IDX a = 1023")
    case True
    then have "unat (page_of (directory_entry (setup_page m) 0x100000 a)) = 0x100" using self_entry by simp
    then show ?thesis using a(2) kernel_entry(2) [OF va] by simp
  next
    case False
    then have "unat (PDE_IDX a) \<noteq> 1023" by (metis of_nat_numeral of_nat_unat_id)
    then have x: "768 \<le> unat (PDE_IDX a)" "unat (PDE_IDX a) < 1023" using a(1) by (auto simp: word_le_nat_alt)
    have "unat (PDE_IDX a) - 768 = unat (PDE_IDX va) - 768"
      using a(2) kernel_entry(2) [OF x, of m] kernel_entry(2) [OF va, of m] by simp
    then show ?thesis using x va by (intro unat_inj) linarith
  qed
  moreover have "PDE_IDX va \<in> {768..1023}" "PDE_IDX va \<noteq> 1023" "(1023 :: u32) \<in> {768..1023}"
    using va by (auto simp: word_le_nat_alt)
  ultimately show ?thesis unfolding own_table_def using kernel_entry(1) [OF va] by blast
qed

text \<open>C15. The loader sets up paging: under the directory that \<^verbatim>\<open>setup_page\<close> writes, the first megabyte
  is mapped at its own addresses and at \<open>0xc0000000\<close>, the rest of user space is not; every directory entry of the
  kernel's part has a table of its own, and the last maps the directory itself, which is what \<^verbatim>\<open>mem.c\<close> needs to map
  pages. Only the directory and the first table are written.\<close>

theorem setup_page_maps:
  shows "(\<forall>pa < 0x100000. page_walk (setup_page m) 0x100000 pa = Some pa \<and> page_walk (setup_page m) 0x100000 (0xc0000000 + pa) = Some pa) \<and>
    (\<forall>va. 0x400000 \<le> va \<and> va < 0xc0000000 \<longrightarrow> page_walk (setup_page m) 0x100000 va = None) \<and>
    (\<forall>va. 0xc0000000 \<le> va \<and> va < 0xffc00000 \<longrightarrow> own_table {768..1023} (setup_page m) 0x100000 va) \<and>
    self_mapped (setup_page m) 0x100000 \<and> (\<forall>a. a \<notin> span 0x100000 0x2000 \<longrightarrow> setup_page m a = m a)"
proof -
  have "page_walk (setup_page m) 0x100000 va = None" if "0x400000 \<le> va" "va < 0xc0000000" for va
  proof -
    have i: "unat (PDE_IDX va) = unat va div 0x400000"
      by (simp add: unat_PDE_IDX unat_page_of flip: div_mult2_eq)
    have "1 \<le> unat (PDE_IDX va)" "unat (PDE_IDX va) < 768"
      using that unfolding i by (simp_all add: word_less_nat_alt word_le_nat_alt less_mult_imp_div_less less_eq_div_iff_mult_less_eq)
    then have "directory_entry (setup_page m) 0x100000 va = 0"
      using setup_page_dir [of "unat (PDE_IDX va)" m] by (simp add: directory_entry_def)
    then show ?thesis by (simp add: page_walk_def Let_def)
  qed
  then show ?thesis using low_address setup_page_self setup_page_frame kernel_part_own by blast
qed

theorem setup_page_maps_witness:
  "page_walk (setup_page (\<lambda>_. 0)) 0x100000 0xc00b8000 = Some 0xb8000 \<and> page_walk (setup_page (\<lambda>_. 0)) 0x100000 0x8048000 = None \<and>
   own_table {768..1023} (setup_page (\<lambda>_. 0)) 0x100000 0xc0100000"
proof -
  note t = setup_page_maps [of "\<lambda>_. 0"]
  have "(0xb8000 :: u32) < 0x100000" by simp
  then have "page_walk (setup_page (\<lambda>_. 0)) 0x100000 (0xc0000000 + 0xb8000) = Some 0xb8000" using t by blast
  moreover have "page_walk (setup_page (\<lambda>_. 0)) 0x100000 0x8048000 = None"
    by (rule t [THEN conjunct2, THEN conjunct1, rule_format]) simp
  moreover have "own_table {768..1023} (setup_page (\<lambda>_. 0)) 0x100000 0xc0100000"
    by (rule t [THEN conjunct2, THEN conjunct2, THEN conjunct1, rule_format]) simp
  ultimately show ?thesis by simp
qed

section \<open>Loading the kernel\<close>

text \<open>\<open>paged m\<close>: the low megabyte is mapped at its own address and at that of the kernel.\<close>

definition paged :: "bmem \<Rightarrow> bool" where
  "paged m \<longleftrightarrow> (\<exists>m0. \<forall>a \<in> span 0x100000 0x2000. m a = setup_page m0 a)"

lemma table_in_span:
  assumes "page_of f = 0x100 \<or> page_of f = 0x101" "unat i < 1024"
  shows "span (table_word f i) 4 \<subseteq> span 0x100000 0x2000"
proof -
  obtain k where k: "k = 0 \<or> k = 4096" "unat (page_of f) * 4096 = 0x100000 + k" using assms(1) by auto
  have "table_word f i = 0x100000 + of_nat (k + 4 * unat i)"
  proof (rule unat_inj)
    have "k + 4 * unat i < 2 ^ 32" "0x100000 + (k + 4 * unat i) < 2 ^ 32" using k(1) assms(2) by auto
    then have "unat (0x100000 + of_nat (k + 4 * unat i) :: u32) = 0x100000 + (k + 4 * unat i)"
      by (subst unat_add_nowrap) (simp_all only: unat_of_nat, simp_all)
    then show "unat (table_word f i) = unat (0x100000 + of_nat (k + 4 * unat i) :: u32)"
      using k(2) unat_table_word [OF assms(2), of f] by (simp only: mult.commute)
  qed
  moreover have "k + 4 * unat i + 4 \<le> 0x2000" using k(1) assms(2) by auto
  ultimately show ?thesis using span_shift [of "k + 4 * unat i" 4 "0x2000" "0x100000"] by simp
qed

lemma paged_low:
  assumes "paged m" "pa < 0x100000"
  shows "at_virtual m pa = Inr pa" "at_virtual m (0xc0000000 + pa) = Inr pa"
proof -
  obtain m0 where m0: "\<forall>a \<in> span 0x100000 0x2000. m a = setup_page m0 a" using assms(1) by (auto simp: paged_def)
  have r: "read32 m (table_word f i) = read32 (setup_page m0) (table_word f i)"
    if "page_of f = 0x100 \<or> page_of f = 0x101" "unat i < 1024" for f i
    using table_in_span [OF that] m0 by (intro read32_cong) blast
  have d: "directory_entry m 0x100000 va = directory_entry (setup_page m0) 0x100000 va" for va
    unfolding directory_entry_def by (rule r) (simp_all add: page_of_def index_less)
  have "page_walk m 0x100000 va = page_walk (setup_page m0) 0x100000 va" if "unat (PDE_IDX va) = 0 \<or> unat (PDE_IDX va) = 768" for va
  proof -
    have "read32 m (table_word 0x101007 (PTE_IDX va)) = read32 (setup_page m0) (table_word 0x101007 (PTE_IDX va))"
      by (rule r) (simp_all add: page_of_def index_less)
    then show ?thesis by (simp add: page_walk_def pte_place_def d low_directory [OF that])
  qed
  then show "at_virtual m pa = Inr pa" "at_virtual m (0xc0000000 + pa) = Inr pa"
    using low_address [OF assms(2), of m0] low_index(2,4) [OF assms(2)] by (simp_all add: at_virtual_def PAGE_DIR_TABLE_ADDR_def)
qed

lemma load8_low: "paged m \<Longrightarrow> a < 0x100000 \<Longrightarrow> load8 a m = Inr (m a)"
  by (simp add: load8_def paged_low)

lemma half_words:
  fixes b0 b1 b2 b3 :: u8
  shows "(ucast (ucast b0 OR push_bit 8 (ucast b1) :: u16) OR push_bit 16 (ucast (ucast b2 OR push_bit 8 (ucast b3) :: u16)) :: u32) =
    ucast b0 OR push_bit 8 (ucast b1) OR push_bit 16 (ucast b2) OR push_bit 24 (ucast b3)"
proof (rule bit_word_eqI)
  fix n assume "n < LENGTH(32)"
  then have "n < 8 \<or> (8 \<le> n \<and> n < 16) \<or> (16 \<le> n \<and> n < 24) \<or> (24 \<le> n \<and> n < 32)" by auto
  then show "bit (ucast (ucast b0 OR push_bit 8 (ucast b1) :: u16) OR push_bit 16 (ucast (ucast b2 OR push_bit 8 (ucast b3) :: u16)) :: u32) n =
    bit (ucast b0 OR push_bit 8 (ucast b1) OR push_bit 16 (ucast b2) OR push_bit 24 (ucast b3) :: u32) n"
    by (elim disjE) (auto simp: bit_simps dest: bit_imp_le_length)
qed

lemma low_step:
  fixes a :: u32
  assumes "unat a + n \<le> 0x100000" "k < n"
  shows "a + of_nat k < 0x100000" "unat (a + of_nat k) = unat a + k"
proof -
  have "unat (of_nat k :: u32) = k" using assms by (simp add: unat_of_nat)
  then show "unat (a + of_nat k) = unat a + k" using assms by (subst unat_add_nowrap) simp_all
  then show "a + of_nat k < 0x100000" using assms by (simp add: word_less_nat_alt)
qed

lemma load16_low:
  assumes "paged m" "unat a + 2 \<le> 0x100000"
  shows "load16 a m = Inr (read16 m a)"
  using low_step(1) [OF assms(2), of 0] low_step(1) [OF assms(2), of 1] load8_low [OF assms(1)]
  by (simp add: load16_def read16_def)

lemma load32_low:
  assumes "paged m" "unat a + 4 \<le> 0x100000"
  shows "load32 a m = Inr (read32 m a)"
proof -
  have "unat (a + 2) + 2 \<le> 0x100000" using low_step(2) [OF assms(2), of 2] assms(2) by simp
  then show ?thesis
    using load16_low [OF assms(1), of a] load16_low [OF assms(1), of "a + 2"] assms(2)
    by (simp add: load32_def read16_def read32_def half_words add.assoc)
qed

lemma high_out: "pa < 0x100000 \<Longrightarrow> pa \<notin> span 0x100000 0x2000"
  by (auto simp: in_span_iff word_less_nat_alt) (simp add: unat_sub_if_size word_size split: if_splits)

lemma paged_upd:
  assumes "paged m" "\<And>a. a \<in> span 0x100000 0x2000 \<Longrightarrow> m' a = m a"
  shows "paged m'"
  using assms unfolding paged_def by metis

lemma mem_cpy_movsb:
  assumes "paged m" "unat pa + n \<le> 0x100000" "unat src + n \<le> 0x100000"
  shows "mem_cpy n (0xc0000000 + pa) src m = Inr (rep_movsb n src pa m) \<and> paged (rep_movsb n src pa m)"
  using assms
proof (induction n arbitrary: pa src m)
  case (Suc n)
  have l: "pa < 0x100000" "src < 0x100000" using Suc.prems(2,3) by (simp_all add: word_less_nat_alt)
  have "unat (pa + 1) = Suc (unat pa)" "unat (src + 1) = Suc (unat src)" using l by (auto intro: unat_Suc_nowrap)
  then have n: "unat (pa + 1) + n \<le> 0x100000" "unat (src + 1) + n \<le> 0x100000" using Suc.prems by simp_all
  have "paged (m(pa := m src))"
    by (rule paged_upd [OF Suc.prems(1)]) (use high_out [OF l(1)] in auto)
  from Suc.IH [OF this n] show ?case
    unfolding mem_cpy.simps rep_movsb.simps load8_low [OF Suc.prems(1) l(2)] paged_low(2) [OF Suc.prems(1) l(1)] bind_res_simps add.assoc .
qed simp

lemma mem_cpy_copies:
  assumes "paged m" "unat pa + n \<le> unat src" "unat src + n \<le> 0x100000"
  shows "mem_cpy n (0xc0000000 + pa) src m = Inr (copied src pa n m)" "paged (copied src pa n m)"
proof -
  have "\<not> clobbers (pa - src) n"
    using assms(2,3) by (auto simp: clobbers_def unat_sub_if_size word_size split: if_splits)
  then show "mem_cpy n (0xc0000000 + pa) src m = Inr (copied src pa n m)" "paged (copied src pa n m)"
    using mem_cpy_movsb [OF assms(1) _ assms(3), of pa] rep_movsb_eq [of n pa src m] assms(2,3) by (auto simp: copied_def)
qed

text \<open>A program header: where the bytes go in physical memory, where they stand in the image, and how many they are.\<close>

definition segment :: "bmem \<Rightarrow> u32 \<Rightarrow> u32 \<times> u32 \<times> nat" where
  "segment m h = (read32 m (h + 8) - 0xc0000000, read32 m (h + 4) + 0x70000, unat (read32 m (h + 16)))"

definition headers :: "bmem \<Rightarrow> u32 list" where
  "headers m = map (\<lambda>k. read32 m 0x7001c + 0x70000 + of_nat k * ucast (read16 m 0x7002a)) [0..<unat (read16 m 0x7002c) - 1]"

definition loadable :: "bmem \<Rightarrow> u32 \<Rightarrow> bool" where
  "loadable m h \<longleftrightarrow> 0x70000 \<le> unat h \<and> unat h + 20 \<le> 0x100000 \<and> read32 m h \<noteq> 0 \<and>
     (case segment m h of (d, s, n) \<Rightarrow> unat d + n \<le> 0x70000 \<and> 0x70000 \<le> unat s \<and> unat s + n \<le> 0x100000)"

definition place :: "u32 \<times> u32 \<times> nat \<Rightarrow> bmem \<Rightarrow> bmem" where
  "place x m = (case x of (d, s, n) \<Rightarrow> copied s d n m)"

lemma copied_above:
  assumes "unat d + n \<le> 0x70000" "0x70000 \<le> unat a"
  shows "copied s d n m a = m a"
  using assms by (auto simp: copied_def unat_sub_if_size word_size)

lemma segment_cong:
  assumes "\<And>x. x \<in> span h 20 \<Longrightarrow> m' x = m x"
  shows "segment m' h = segment m h" "read32 m' h = read32 m h"
proof -
  have "read32 m' (h + of_nat k) = read32 m (h + of_nat k)" if "k + 4 \<le> 20" for k
    using span_shift [OF that, of h] assms by (intro read32_cong) blast
  from this [of 0] this [of 4] this [of 8] this [of 16]
  show "segment m' h = segment m h" "read32 m' h = read32 m h" by (simp_all add: segment_def)
qed

lemma image_span:
  assumes "0x70000 \<le> unat h" "unat h + n \<le> 0x100000" "x \<in> span h n"
  shows "0x70000 \<le> unat x \<and> unat x < unat h + n"
proof -
  obtain i where "i < n" "x = h + of_nat i" using assms(3) by (auto simp: span_def)
  then show ?thesis using low_step(2) [OF assms(2), of i] assms(1) by simp
qed

lemma each_segment_eq:
  assumes "paged m" "\<And>k. k < n \<Longrightarrow> loadable m (h + of_nat k * e)"
  shows "each_segment n h e m = Inr (fold place (map (\<lambda>k. segment m (h + of_nat k * e)) [0..<n]) m)"
  using assms
proof (induction n arbitrary: h m)
  case (Suc n)
  have l: "loadable m h" using Suc.prems(2) [of 0] by simp
  obtain d s c where g: "segment m h = (d, s, c)" by (cases "segment m h")
  have b: "0x70000 \<le> unat h" "unat h + 20 \<le> 0x100000" "read32 m h \<noteq> 0" "unat d + c \<le> 0x70000" "0x70000 \<le> unat s" "unat s + c \<le> 0x100000"
    using l by (simp_all add: loadable_def g)
  have u: "unat (h + 4) = unat h + 4" "unat (h + 8) = unat h + 8" "unat (h + 16) = unat h + 16"
    using low_step(2) [OF b(2), of 4] low_step(2) [OF b(2), of 8] low_step(2) [OF b(2), of 16] by simp_all
  have r: "load32 h m = Inr (read32 m h)" "load32 (h + 4) m = Inr (read32 m (h + 4))" "load32 (h + 8) m = Inr (read32 m (h + 8))"
    "load32 (h + 16) m = Inr (read32 m (h + 16))"
    using b(2) u by (intro load32_low [OF Suc.prems(1)]; simp)+
  have gs: "read32 m (h + 8) = 0xc0000000 + d" "read32 m (h + 4) + 0x70000 = s" "unat (read32 m (h + 16)) = c"
    using g by (auto simp: segment_def)
  define m' where "m' = copied s d c m"
  have c: "mem_cpy c (0xc0000000 + d) s m = Inr m'" "paged m'"
    using mem_cpy_copies [OF Suc.prems(1), of d c s] b by (simp_all add: m'_def)
  have m': "m' a = m a" if "0x70000 \<le> unat a" for a using copied_above [OF b(4) that] by (simp add: m'_def)
  have i: "h + e + of_nat k * e = h + of_nat (Suc k) * e" for k by (simp add: algebra_simps)
  have ld: "loadable m' (h + e + of_nat k * e)" "segment m' (h + e + of_nat k * e) = segment m (h + of_nat (Suc k) * e)" if "k < n" for k
  proof -
    have lk: "loadable m (h + of_nat (Suc k) * e)" using Suc.prems(2) [of "Suc k"] that by simp
    then have hk: "0x70000 \<le> unat (h + of_nat (Suc k) * e)" "unat (h + of_nat (Suc k) * e) + 20 \<le> 0x100000"
      by (simp_all add: loadable_def del: of_nat_Suc)
    have sg: "segment m' (h + of_nat (Suc k) * e) = segment m (h + of_nat (Suc k) * e)"
      "read32 m' (h + of_nat (Suc k) * e) = read32 m (h + of_nat (Suc k) * e)"
      using image_span [OF hk] by (auto intro!: segment_cong m' simp del: of_nat_Suc)
    show "loadable m' (h + e + of_nat k * e)" using lk by (simp only: i loadable_def sg simp_thms)
    show "segment m' (h + e + of_nat k * e) = segment m (h + of_nat (Suc k) * e)" unfolding i by (rule sg(1))
  qed
  have "each_segment (Suc n) h e m = each_segment n (h + e) e m'"
    by (simp add: r b(3) KERNEL_BASE_ADDR_def gs c(1))
  also have "\<dots> = Inr (fold place (map (\<lambda>k. segment m' (h + e + of_nat k * e)) [0..<n]) m')"
    by (rule Suc.IH [OF c(2) ld(1)])
  also have "map (\<lambda>k. segment m' (h + e + of_nat k * e)) [0..<n] = map (\<lambda>k. segment m (h + of_nat (Suc k) * e)) [0..<n]"
    using ld(2) by simp
  also have "fold place (map (\<lambda>k. segment m (h + of_nat (Suc k) * e)) [0..<n]) m' =
    fold place (map (\<lambda>k. segment m (h + of_nat k * e)) [0..<Suc n]) m"
    by (simp add: upt_conv_Cons map_Suc_upt [symmetric] g place_def m'_def comp_def del: upt_Suc of_nat_Suc)
  finally show ?case .
qed simp

definition seg_dest :: "u32 \<times> u32 \<times> nat \<Rightarrow> u32 set" where
  "seg_dest x = (case x of (d, s, n) \<Rightarrow> span d n)"

definition seg_loaded :: "bmem \<Rightarrow> bmem \<Rightarrow> u32 \<times> u32 \<times> nat \<Rightarrow> bool" where
  "seg_loaded m m' x \<longleftrightarrow> (case x of (d, s, n) \<Rightarrow> bytes m' d n = bytes m s n)"

definition seg_ok :: "u32 \<times> u32 \<times> nat \<Rightarrow> bool" where
  "seg_ok x \<longleftrightarrow> (case x of (d, s, n) \<Rightarrow> unat d + n \<le> 0x70000 \<and> 0x70000 \<le> unat s \<and> unat s + n \<le> 0x100000)"

lemma place_other: "seg_ok x \<Longrightarrow> a \<notin> seg_dest x \<Longrightarrow> place x m a = m a"
  by (cases x) (auto simp: place_def seg_dest_def seg_ok_def intro: copied_other)

lemma place_source:
  assumes "seg_ok x" "0x70000 \<le> unat a"
  shows "place x m a = m a"
  using copied_above assms by (cases x) (auto simp: place_def seg_ok_def)

lemma place_loaded: "seg_ok x \<Longrightarrow> seg_loaded m (place x m) x"
  by (cases x) (auto simp: place_def seg_ok_def seg_loaded_def copied_bytes)

lemma fold_place_other:
  "\<forall>x \<in> set xs. seg_ok x \<and> a \<notin> seg_dest x \<Longrightarrow> fold place xs m a = m a"
  by (induction xs arbitrary: m) (simp_all add: place_other)

lemma fold_place_loaded:
  assumes "\<forall>x \<in> set xs. seg_ok x" "sorted_wrt (\<lambda>x y. seg_dest x \<inter> seg_dest y = {}) xs"
  shows "\<forall>x \<in> set xs. seg_loaded m (fold place xs m) x"
  using assms
proof (induction xs arbitrary: m)
  case (Cons y ys)
  have ok: "seg_ok y" "\<forall>x \<in> set ys. seg_ok x" and d: "\<forall>x \<in> set ys. seg_dest y \<inter> seg_dest x = {}"
    using Cons.prems by auto
  let ?m = "place y m"
  have "seg_loaded m (fold place ys ?m) y"
  proof (cases y)
    case (fields e s n)
    have "bytes (fold place ys ?m) e n = bytes ?m e n"
      by (rule bytes_cong, rule fold_place_other) (use d ok(2) fields in \<open>auto simp: seg_dest_def\<close>)
    then show ?thesis using place_loaded [OF ok(1), of m] by (simp add: fields seg_loaded_def)
  qed
  moreover have "seg_loaded m (fold place ys ?m) x" if x: "x \<in> set ys" for x
  proof (cases x)
    case (fields e s n)
    have sx: "0x70000 \<le> unat s" "unat s + n \<le> 0x100000" using ok(2) x by (auto simp: seg_ok_def fields)
    have "bytes ?m s n = bytes m s n"
    proof (rule bytes_cong)
      fix a assume "a \<in> span s n"
      then obtain i where "i < n" "a = s + of_nat i" by (auto simp: span_def)
      then show "?m a = m a" using low_step(2) [OF sx(2), of i] sx(1) by (intro place_source [OF ok(1)]) simp
    qed
    then show ?thesis using Cons.IH [OF ok(2), of ?m] Cons.prems(2) x by (auto simp: seg_loaded_def fields)
  qed
  ultimately show ?case by simp
qed simp

lemma unat_ucast16: "unat (ucast (x :: u16) :: u32) = unat x"
proof -
  have "unat x < 2 ^ 16" by (rule order_less_le_trans [OF unsigned_less]) simp
  then show ?thesis unfolding unsigned_ucast_eq by (intro take_bit_nat_eq_self) simp
qed

lemma kernel_init_eq:
  assumes "paged m" "1 < unat (read16 m 0x7002c)" "\<forall>h \<in> set (headers m). loadable m h"
    and "sorted_wrt (\<lambda>x y. seg_dest x \<inter> seg_dest y = {}) (map (segment m) (headers m))"
  shows "\<exists>m'. kernel_init m = Inr m' \<and> (\<forall>x \<in> set (map (segment m) (headers m)). seg_loaded m m' x) \<and>
    (\<forall>a. (\<forall>x \<in> set (map (segment m) (headers m)). a \<notin> seg_dest x) \<longrightarrow> m' a = m a)"
proof -
  let ?h = "read32 m 0x7001c + 0x70000" and ?e = "ucast (read16 m 0x7002a) :: u32" and ?w = "read16 m 0x7002c"
  have n: "unat (?w - 1) = unat ?w - 1" using assms(2) by (subst unat_minus_one) auto
  have "(ucast (?w - 1) :: u32) \<noteq> 0"
  proof
    assume "(ucast (?w - 1) :: u32) = 0"
    then have "unat (ucast (?w - 1) :: u32) = 0" by simp
    then show False using n assms(2) by (simp add: unat_ucast16)
  qed
  then have c: "loop_count (ucast (?w - 1)) = unat ?w - 1"
    using n by (simp add: loop_count_def unat_ucast16)
  have l: "load16 0x7002a m = Inr (read16 m 0x7002a)" "load16 0x7002c m = Inr ?w" "load32 0x7001c m = Inr (read32 m 0x7001c)"
    using load16_low [OF assms(1)] load32_low [OF assms(1)] by simp_all
  define parts where "parts = map (segment m) (headers m)"
  have parts: "parts = map (\<lambda>k. segment m (?h + of_nat k * ?e)) [0..<unat ?w - 1]" by (simp add: parts_def headers_def)
  have ld: "loadable m (?h + of_nat k * ?e)" if "k < unat ?w - 1" for k using assms(3) that by (simp add: headers_def)
  have "kernel_init m = each_segment (unat ?w - 1) ?h ?e m"
    using l by (simp add: kernel_init_def KERNEL_BASE_ADDR_def c)
  also have "\<dots> = Inr (fold place parts m)" unfolding parts by (rule each_segment_eq [OF assms(1) ld])
  finally have k: "kernel_init m = Inr (fold place parts m)" .
  have "\<forall>x \<in> set parts. seg_ok x" using assms(3) by (auto simp: parts_def loadable_def seg_ok_def)
  then show ?thesis using k fold_place_loaded [of parts m] assms(4) fold_place_other [of parts] unfolding parts_def by blast
qed

text \<open>The loader loads the kernel: with paging on and an ELF image at \<open>0x70000\<close> whose headers, but for the last, name parts of
  the image that go to different places below it, \<^verbatim>\<open>kernel_init\<close> copies each of these parts to its physical place
  and changes no other byte. The last header of the file is not looked at.\<close>

theorem kernel_init_loads:
  assumes "paged m" "1 < unat (read16 m 0x7002c)" "\<forall>h \<in> set (headers m). loadable m h"
    and "sorted_wrt (\<lambda>x y. seg_dest x \<inter> seg_dest y = {}) (map (segment m) (headers m))"
  shows "\<exists>m'. kernel_init m = Inr m' \<and> (\<forall>x \<in> set (map (segment m) (headers m)). seg_loaded m m' x) \<and>
    (\<forall>a. (\<forall>x \<in> set (map (segment m) (headers m)). a \<notin> seg_dest x) \<longrightarrow> m' a = m a)"
  by (rule kernel_init_eq [OF assms])

text \<open>An image with one program header and a spare one.\<close>

definition sample_image :: bmem where
  "sample_image a =
     (if a = 0x7001c then 52 else if a = 0x7002a then 32 else if a = 0x7002c then 2
      else if a = 0x70034 then 1 else if a = 0x70039 then 0x10 else if a = 0x7003d then 0x15 else if a = 0x7003f then 0xc0
      else if a = 0x70044 then 8 else if 0x71000 \<le> a \<and> a < 0x71008 then 0xeb else 0)"

theorem kernel_init_loads_witness:
  "\<exists>m'. kernel_init (setup_page sample_image) = Inr m' \<and> m' 0x1500 = 0xeb"
proof -
  let ?m = "setup_page sample_image"
  have p: "paged ?m" by (auto simp: paged_def)
  have lo: "?m a = sample_image a" if "a < 0x100000" for a by (rule setup_page_frame [OF high_out [OF that]])
  have h: "read16 ?m 0x7002c = 2" "read16 ?m 0x7002a = 32" "read32 ?m 0x7001c = 52"
    by (simp_all add: read16_def read32_def lo sample_image_def)
  have s: "segment ?m 0x70034 = (0x1500, 0x71000, 8)" "read32 ?m 0x70034 = 1"
    by (simp_all add: segment_def read32_def lo sample_image_def)
  then have l: "loadable ?m 0x70034" by (simp add: loadable_def)
  obtain m' where m': "kernel_init ?m = Inr m'" "seg_loaded ?m m' (0x1500, 0x71000, 8)"
    using kernel_init_loads [OF p] by (auto simp: headers_def h s l)
  have "bytes m' 0x1500 8 ! 0 = bytes ?m 0x71000 8 ! 0" using m'(2) by (simp only: seg_loaded_def prod.case)
  then have "m' 0x1500 = ?m 0x71000" by (simp only: nth_bytes) simp
  then show ?thesis using m'(1) by (simp add: lo sample_image_def)
qed

end
