(* ===== verification/Handover.thy ===== *)
theory Handover
  imports Loader
begin

text \<open>
  The boot loader from end to end: the reading of loader and kernel from the disk (\<^verbatim>\<open>boot/mbr.S\<close>), the size of the
  memory, protected mode, paging, and the state in which the kernel is entered (\<^verbatim>\<open>boot/loader.S\<close>). What the
  BIOS answers on the memory is a parameter; its video services are left out.
\<close>

section \<open>The boot sector (mbr.S)\<close>

text \<open>Data are stored at \<open>ds:bx\<close>; \<open>bx\<close> wraps at 64 KB. The drive is asked for its status until it has data, and then
  read for all sectors at once.\<close>

primrec go_on_read :: "nat \<Rightarrow> u16 \<Rightarrow> u16 \<Rightarrow> 'a vstate_scheme \<Rightarrow> 'a vstate_scheme" where
  "go_on_read 0 ds bx s = s"
| "go_on_read (Suc n) ds bx s =
     (let (ax, s) = inw 0x1f0 s in go_on_read n ds (bx + 2) (s\<lparr>mem := write16 (ucast ds * 16 + ucast bx) ax (mem s)\<rparr>))"

partial_function (option) not_ready :: "'a cpu_scheme \<Rightarrow> 'a cpu_scheme option" where
  "not_ready s = (let (al, s) = inb 0x1f7 s in if al AND 0x88 \<noteq> 0x08 then not_ready s else Some s)"

definition rd_disk_m_16 :: "u32 \<Rightarrow> u16 \<Rightarrow> u16 \<Rightarrow> u16 \<Rightarrow> 'a vstate_scheme \<Rightarrow> 'a vstate_scheme option" where
  "rd_disk_m_16 ax cx ds bx s =
     (let s = outb 0x1f2 (ucast cx) s;
          s = outb 0x1f3 (ucast ax) s;
          s = outb 0x1f4 (ucast (drop_bit 8 ax)) s;
          s = outb 0x1f5 (ucast (drop_bit 16 ax)) s;
          s = outb 0x1f6 ((ucast (drop_bit 24 ax) AND 0x0f) OR 0xe0) s;
          s = outb 0x1f7 0x20 s
      in map_option (go_on_read (loop_count16 (cx * 256)) ds bx) (not_ready s))"

definition mbr_start :: "'a vstate_scheme \<Rightarrow> 'a vstate_scheme option" where
  "mbr_start s = Option.bind (rd_disk_m_16 0x2 8 0 0x900 s) (rd_disk_m_16 0xa 127 0x7000 0)"

section \<open>Protected mode (loader.S)\<close>

definition PROMESG :: u32 where "PROMESG = 0xeec"
definition VIRMESG :: u32 where "VIRMESG = 0xf06"

primrec display0 :: "nat \<Rightarrow> u32 \<Rightarrow> u32 \<Rightarrow> bmem \<Rightarrow> bmem" where
  "display0 0 bx si m = m"
| "display0 (Suc cx) bx si m = display0 cx (bx + 2) (si + 1) (write16 (0xb8000 + bx) (0x200 OR ucast (m (PROMESG + si))) m)"

primrec display1 :: "nat \<Rightarrow> u32 \<Rightarrow> u32 \<Rightarrow> bmem \<Rightarrow> bmem res" where
  "display1 0 bx si m = Inr m"
| "display1 (Suc cx) bx si m =
     bind_res (load8 (VIRMESG + si) m) (\<lambda>al.
     bind_res (at_virtual m (0xc00b8000 + bx)) (\<lambda>pa. display1 cx (bx + 2) (si + 1) (write16 pa (0x200 OR ucast al) m)))"

text \<open>The table register: \<^verbatim>\<open>lgdt\<close> and \<^verbatim>\<open>sgdt\<close> at \<open>GDT_DESC\<close>. The descriptor of the screen and the
  table move up to the addresses of the kernel.\<close>

definition lgdt_desc :: "'a dstate_scheme \<Rightarrow> 'a dstate_scheme" where
  "lgdt_desc s = s\<lparr>gdtr := (read16 (mem s) GDT_DESC, read32 (mem s) (GDT_DESC + 2))\<rparr>"

definition sgdt_desc :: "'a dstate_scheme \<Rightarrow> 'a dstate_scheme" where
  "sgdt_desc s = s\<lparr>mem := write32 (GDT_DESC + 2) (snd (gdtr s)) (write16 GDT_DESC (fst (gdtr s)) (mem s))\<rparr>"

definition relocate_gdt :: "bmem \<Rightarrow> bmem" where
  "relocate_gdt m =
     (let bx = read32 m (GDT_DESC + 2);
          m = write32 (bx + 0x1c) (read32 m (bx + 0x1c) OR 0xc0000000) m
      in write32 (GDT_DESC + 2) (read32 m (GDT_DESC + 2) + 0xc0000000) m)"

text \<open>The control register that turns on protected mode and paging. Which of them is on says how an address is translated: the code
  before \<^verbatim>\<open>p_mode_start\<close> and up to the setting of \<open>CR0_PG_ON\<close> addresses physical memory, that after it goes
  through \<open>at_virtual\<close>.\<close>

record xstate = pstate +
  cr0 :: u32

definition CR0_PE_ON :: u32 where "CR0_PE_ON = 0x00000001"
definition CR0_PG_ON :: u32 where "CR0_PG_ON = 0x80000000"

definition p_mode_start :: "'a xstate_scheme \<Rightarrow> 'a xstate_scheme" where
  "p_mode_start s =
     (let s = s\<lparr>segs := [0x10, 0x10, 0x10, 0x18, 0x8], fs_sel := 0x10, regs := (regs s)\<lparr>ctx_esp := 0x900\<rparr>\<rparr>;
          s = s\<lparr>mem := setup_page (display0 0x1a 320 0 (mem s))\<rparr>;
          s = sgdt_desc s;
          s = s\<lparr>mem := relocate_gdt (mem s)\<rparr>;
          s = s\<lparr>regs := (regs s)\<lparr>ctx_esp := ctx_esp (regs s) + 0xc0000000\<rparr>\<rparr>;
          s = s\<lparr>cr3 := PAGE_DIR_TABLE_ADDR\<rparr>;
          s = s\<lparr>cr0 := cr0 s OR CR0_PG_ON\<rparr>
      in lgdt_desc s)"

definition enter_kernel :: "'a dstate_scheme \<Rightarrow> 'a dstate_scheme res" where
  "enter_kernel s =
     bind_res (on_mem kernel_init s) (\<lambda>s.
       Inr (s\<lparr>regs := (regs s)\<lparr>ctx_esp := 0xc009f000, ctx_eip := 0xc0001500\<rparr>\<rparr>))"

definition loader_start :: "bios \<Rightarrow> 'a xstate_scheme \<Rightarrow> 'a xstate_scheme res" where
  "loader_start bios s =
     bind_res (on_mem (get_memory_size bios) s) (\<lambda>s.
     let (al, s) = inb 0x92 s;
         s = outb 0x92 (al OR 2) s;
         s = lgdt_desc s;
         s = s\<lparr>cr0 := cr0 s OR CR0_PE_ON\<rparr>;
         s = p_mode_start s
     in bind_res (on_mem (display1 0x1b 480 0) s) enter_kernel)"

section \<open>The size of the memory\<close>

text \<open>\<open>answers bios c es\<close>: called with the continuation value \<open>c\<close>, the service gives the descriptors \<open>es\<close> one after
  the other. The end of an area, and the greatest one, as the loader computes them.\<close>

fun answers :: "bios \<Rightarrow> u32 \<Rightarrow> u8 list list \<Rightarrow> bool" where
  "answers bios c [] \<longleftrightarrow> False"
| "answers bios c (e # es) \<longleftrightarrow>
     (case bios c of None \<Rightarrow> False
      | Some (c', n, ards) \<Rightarrow> n = 20 \<and> ards = e \<and> length e = 20 \<and> (if es = [] then c' = 0 else c' \<noteq> 0 \<and> answers bios c' es))"

definition area_end :: "u8 list \<Rightarrow> u32" where
  "area_end e = read32 (placed 0 e) 0 + read32 (placed 0 e) 8"

definition largest_end :: "u8 list list \<Rightarrow> u32" where
  "largest_end es = fold (\<lambda>e m. if sint (area_end e) \<le> sint m then m else area_end e) es 0"

lemma bytes_store: "length xs \<le> 2 ^ 32 \<Longrightarrow> bytes (store_bytes a xs m) a (length xs) = xs"
  by (rule nth_equalityI) (auto simp: store_bytes_def Let_def unat_of_nat)

lemma write16_apart: "x \<notin> span a 2 \<Longrightarrow> write16 a v m x = m x"
  by (auto simp: write16_def numeral_2_eq_2 span_Suc)

lemma read16_cong: "(\<And>x. x \<in> span a 2 \<Longrightarrow> m x = m' x) \<Longrightarrow> read16 m a = read16 m' a"
  by (simp add: read16_def numeral_2_eq_2 span_Suc)

lemma e820_loop_eq:
  assumes "answers bios c es" "0xd46 \<le> unat di" "unat di + 20 * length es \<le> 0xed6"
  shows "\<exists>m'. e820_mem_get_loop bios c di m = Some (Inr m') \<and>
    bytes m' (ucast di) (20 * length es) = concat es \<and> read16 m' ARDS_NUM = read16 m ARDS_NUM + of_nat (length es) \<and>
    (\<forall>a. a \<notin> span (ucast di) (20 * length es) \<union> span ARDS_NUM 2 \<longrightarrow> m' a = m a)"
  using assms
proof (induction es arbitrary: c di m)
  case (Cons e es)
  let ?n = "20 * length es" and ?d = "ucast di :: u32"
  obtain c' where b: "bios c = Some (c', 20, e)" "length e = 20" "es = [] \<and> c' = 0 \<or> es \<noteq> [] \<and> c' \<noteq> 0 \<and> answers bios c' es"
    using Cons.prems(1) by (auto split: option.splits if_splits)
  define m1 where "m1 = store_bytes ?d e m"
  define m2 where "m2 = write16 ARDS_NUM (read16 m1 ARDS_NUM + 1) m1"
  have d: "unat ?d = unat di" by (rule unat_ucast16)
  have far: "span ?d (20 + ?n) \<inter> span ARDS_NUM 2 = {}"
    using Cons.prems(3) by (intro span_below) (simp_all add: ARDS_NUM_def d)
  have sub: "span ?d 20 \<subseteq> span ?d (20 + ?n)" "span (?d + 20) ?n \<subseteq> span ?d (20 + ?n)"
    using span_mono [of 20 "20 + ?n" ?d] span_shift [of 20 ?n "20 + ?n" ?d] by simp_all
  have m1: "m1 a = m a" if "a \<notin> span ?d 20" for a using store_bytes_other [of a ?d e m] that b(2) by (simp add: m1_def)
  have m2: "m2 a = m1 a" if "a \<notin> span ARDS_NUM 2" for a unfolding m2_def by (rule write16_apart [OF that])
  have "read16 m1 ARDS_NUM = read16 m ARDS_NUM" by (rule read16_cong) (use m1 far sub(1) in blast)
  then have r2: "read16 m2 ARDS_NUM = read16 m ARDS_NUM + 1" by (simp add: m2_def read_write16)
  have b2: "bytes m2 ?d 20 = e"
  proof -
    have "bytes m2 ?d 20 = bytes m1 ?d 20" by (rule bytes_cong) (use m2 far sub(1) in blast)
    then show ?thesis using bytes_store [of e ?d m] b(2) by (simp only: m1_def) simp
  qed
  have f2: "m2 a = m a" if "a \<notin> span ?d 20 \<union> span ARDS_NUM 2" for a using m1 m2 that by simp
  have run: "e820_mem_get_loop bios c di m = (if es = [] then Some (Inr m2) else e820_mem_get_loop bios c' (di + 20) m2)"
    by (subst e820_mem_get_loop.simps) (use b in \<open>auto simp: m1_def m2_def Let_def\<close>)
  show ?case
  proof (cases "es = []")
    case True
    then show ?thesis using run r2 b2 f2 by simp
  next
    case False
    have di: "unat (di + 20) = unat di + 20" using Cons.prems(3) by (subst unat_add_nowrap) simp_all
    have e: "ucast (di + 20) = ?d + 20"
    proof (rule unat_inj)
      have "unat (?d + 20) = unat di + 20" using Cons.prems(3) d by (subst unat_add_nowrap) simp_all
      then show "unat (ucast (di + 20) :: u32) = unat (?d + 20)" using di by (simp only: unat_ucast16)
    qed
    obtain m' where m': "e820_mem_get_loop bios c' (di + 20) m2 = Some (Inr m')" "bytes m' (?d + 20) ?n = concat es"
        "read16 m' ARDS_NUM = read16 m2 ARDS_NUM + of_nat (length es)"
        "\<forall>a. a \<notin> span (?d + 20) ?n \<union> span ARDS_NUM 2 \<longrightarrow> m' a = m2 a"
      using Cons.IH [of c' "di + 20" m2, unfolded e di] b(3) False Cons.prems(2,3) by fastforce
    have ap: "span ?d 20 \<inter> span (?d + 20) ?n = {}"
      using Cons.prems(3) d by (intro span_below) (simp_all add: di e [symmetric] unat_ucast16)
    have "bytes m' ?d 20 = bytes m2 ?d 20" by (rule bytes_cong) (use m'(4) ap far sub(1) in blast)
    then have "bytes m' ?d (20 + ?n) = concat (e # es)" using m'(2) b2 by (simp only: bytes_add) simp
    moreover have "m' a = m a" if a: "a \<notin> span ?d (20 + ?n) \<union> span ARDS_NUM 2" for a
    proof -
      have "a \<notin> span (?d + 20) ?n \<union> span ARDS_NUM 2" "a \<notin> span ?d 20 \<union> span ARDS_NUM 2" using a sub by blast+
      then show ?thesis using m'(4) f2 by simp
    qed
    ultimately show ?thesis using run False m'(1,3) r2 by (simp add: add.assoc)
  qed
qed simp

lemma read32_bytes:
  assumes "bytes m p n = e" "k + 4 \<le> n" "n \<le> 2 ^ 31"
  shows "read32 m (p + of_nat k) = read32 (placed 0 e) (of_nat k)"
proof -
  have "m (p + of_nat (k + i)) = placed 0 e (0 + of_nat (k + i))" if "i < 4" for i
  proof -
    have "unat (of_nat (k + i) :: u32) = k + i" using assms(2,3) that by (simp add: unat_of_nat del: of_nat_add)
    moreover have "m (p + of_nat (k + i)) = e ! (k + i)" using assms(1,2) that nth_bytes [of "k + i" n m p] by simp
    ultimately show ?thesis using assms(1,2) that by (auto simp: placed_def Let_def simp del: of_nat_add)
  qed
  from read32_offset [of m p k "placed 0 e" 0, OF this] show ?thesis by simp
qed

lemma find_max_eq:
  assumes "bytes m bx (20 * length es) = concat es" "\<forall>e \<in> set es. length e = 20"
  shows "find_max_mem_area (length es) bx dx m = fold (\<lambda>e m. if sint (area_end e) \<le> sint m then m else area_end e) es dx"
  using assms
proof (induction es arbitrary: bx dx)
  case (Cons e es)
  have l: "length e = 20" using Cons.prems(2) by simp
  have "bytes m bx (20 + 20 * length es) = e @ concat es" using Cons.prems(1) by simp
  then have "bytes m bx 20 @ bytes m (bx + of_nat 20) (20 * length es) = e @ concat es" by (simp only: bytes_add)
  moreover have "length (bytes m bx 20) = length e" unfolding length_bytes l ..
  ultimately have "bytes m bx 20 = e \<and> bytes m (bx + of_nat 20) (20 * length es) = concat es"
    by (metis append_eq_append_conv)
  then have b: "bytes m bx 20 = e" "bytes m (bx + 20) (20 * length es) = concat es" by simp_all
  have "read32 m bx + read32 m (bx + 8) = area_end e"
    using read32_bytes [OF b(1), of 0] read32_bytes [OF b(1), of 8] by (simp add: area_end_def)
  then show ?case using Cons.IH [OF b(2)] Cons.prems(2) by (simp add: Let_def)
qed simp

lemma answers_lengths: "answers bios c es \<Longrightarrow> es \<noteq> [] \<and> (\<forall>e \<in> set es. length e = 20)"
  by (induction bios c es rule: answers.induct) (auto split: option.splits if_splits)

lemma memory_size_eq:
  assumes "answers bios 0 es" "length es \<le> 20" "read16 m ARDS_NUM = 0"
  shows "\<exists>m'. get_memory_size bios m = Inr m' \<and> read32 m' TOTAL_MEM_BYTES = largest_end es \<and>
    (\<forall>a. a \<notin> span ARDS_BUF 402 \<union> span TOTAL_MEM_BYTES 4 \<longrightarrow> m' a = m a)"
proof -
  let ?n = "length es"
  have di: "unat (ucast ARDS_BUF :: u16) = 0xd46" "ucast (ucast ARDS_BUF :: u16) = ARDS_BUF" by (simp_all add: ARDS_BUF_def)
  obtain m' where m': "e820_mem_get_loop bios 0 (ucast ARDS_BUF) m = Some (Inr m')" "bytes m' ARDS_BUF (20 * ?n) = concat es"
      "read16 m' ARDS_NUM = of_nat ?n" "\<forall>a. a \<notin> span ARDS_BUF (20 * ?n) \<union> span ARDS_NUM 2 \<longrightarrow> m' a = m a"
    using e820_loop_eq [OF assms(1), of "ucast ARDS_BUF" m] assms(2,3) unfolding di by auto
  have "0 < ?n" using answers_lengths [OF assms(1)] by auto
  moreover have "unat (of_nat ?n :: u16) = ?n" using assms(2) by (simp add: unat_of_nat)
  ultimately have "loop_count16 (read16 m' ARDS_NUM) = ?n" unfolding m'(3) loop_count16_def by (metis unat_0 less_irrefl)
  then have "get_memory_size bios m = Inr (write32 TOTAL_MEM_BYTES (largest_end es) m')"
    using m'(1) find_max_eq [OF m'(2)] answers_lengths [OF assms(1)] by (simp add: get_memory_size_def largest_end_def)
  moreover have "write32 TOTAL_MEM_BYTES (largest_end es) m' a = m a" if "a \<notin> span ARDS_BUF 402 \<union> span TOTAL_MEM_BYTES 4" for a
  proof -
    have "span ARDS_BUF (20 * ?n) \<subseteq> span ARDS_BUF 402" using assms(2) by (intro span_mono) simp
    moreover have "span ARDS_NUM 2 \<subseteq> span ARDS_BUF 402"
      using span_shift [of 400 2 402 ARDS_BUF] by (simp add: ARDS_NUM_def ARDS_BUF_def)
    ultimately have "m' a = m a" using m'(4) that by blast
    then show ?thesis using write32_other [of a TOTAL_MEM_BYTES "largest_end es" m'] that by simp
  qed
  ultimately show ?thesis using read_write32 by blast
qed

text \<open>The loader finds the size of the memory: when the BIOS describes the memory in at most 20 areas, the buffer's size,
  the word at \<open>0xd00\<close> becomes the greatest end of an area, read as a signed number, so that areas that end
  above 2 GB do not count; only the buffer, its counter and that word change. When the service fails, the loader halts.\<close>

theorem memory_size_found:
  assumes "answers bios 0 es" "length es \<le> 20" "read16 m ARDS_NUM = 0"
  shows "\<exists>m'. get_memory_size bios m = Inr m' \<and> read32 m' TOTAL_MEM_BYTES = largest_end es \<and>
    (\<forall>a. a \<notin> span ARDS_BUF 402 \<union> span TOTAL_MEM_BYTES 4 \<longrightarrow> m' a = m a)"
  by (rule memory_size_eq [OF assms])

text \<open>Two areas: 640 KB at 0 and 31 MB at 1 MB.\<close>

definition sample_bios :: bios where
  "sample_bios c =
     (if c = 0 then Some (1, 20, [0, 0, 0, 0, 0, 0, 0, 0, 0, 0, 10, 0] @ replicate 8 0)
      else Some (0, 20, [0, 0, 16, 0, 0, 0, 0, 0, 0, 0, 0xf0, 1] @ replicate 8 0))"

theorem memory_size_found_witness:
  "\<exists>m'. get_memory_size sample_bios (\<lambda>_. 0) = Inr m' \<and> read32 m' TOTAL_MEM_BYTES = 0x2000000"
proof -
  let ?e0 = "[0, 0, 0, 0, 0, 0, 0, 0, 0, 0, 10, 0] @ replicate 8 0 :: u8 list"
  let ?e1 = "[0, 0, 16, 0, 0, 0, 0, 0, 0, 0, 0xf0, 1] @ replicate 8 0 :: u8 list"
  have a: "answers sample_bios 0 [?e0, ?e1]" by (simp add: sample_bios_def)
  have "area_end ?e0 = 0xa0000" "area_end ?e1 = 0x2000000"
    by (simp_all add: area_end_def read32_def placed_def Let_def)
  then have "largest_end [?e0, ?e1] = 0x2000000" by (simp add: largest_end_def)
  then show ?thesis using memory_size_found [OF a, of "\<lambda>_. 0"] by (simp add: read16_def) blast
qed

section \<open>Reading from the disk\<close>

definition drive_ready :: "u16 \<Rightarrow> bool" where
  "drive_ready w \<longleftrightarrow> (ucast w :: u8) AND 0x88 = 0x08"

lemma not_ready_eq:
  assumes "drive_ready (port_inputs s 0x1f7 k)" "\<forall>j < k. \<not> drive_ready (port_inputs s 0x1f7 j)"
  shows "not_ready s = Some (s\<lparr>port_inputs := (port_inputs s)(0x1f7 := (\<lambda>n. port_inputs s 0x1f7 (Suc k + n)))\<rparr>)"
  using assms
proof (induction k arbitrary: s)
  case 0
  then show ?case by (subst not_ready.simps) (simp add: inb_def inw_def Let_def drive_ready_def)
next
  case (Suc k)
  let ?t = "s\<lparr>port_inputs := (port_inputs s)(0x1f7 := (\<lambda>n. port_inputs s 0x1f7 (Suc n)))\<rparr>"
  have "\<not> drive_ready (port_inputs s 0x1f7 0)" using Suc.prems(2) by blast
  then have "not_ready s = not_ready ?t" by (subst not_ready.simps) (simp add: inb_def inw_def Let_def drive_ready_def)
  moreover have "drive_ready (port_inputs ?t 0x1f7 k)" "\<forall>j < k. \<not> drive_ready (port_inputs ?t 0x1f7 j)"
    using Suc.prems by auto
  ultimately show ?case using Suc.IH [of ?t] by (simp cong: if_cong)
qed

lemma go_on_read_insw:
  "unat bx + 2 * n \<le> 2 ^ 16 \<Longrightarrow> go_on_read n ds bx s = insw n 0x1f0 (ucast ds * 16 + ucast bx) s"
proof (induction n arbitrary: bx s)
  case (Suc n)
  show ?case
  proof (cases "n = 0")
    case False
    then have "unat (bx + 2) = unat bx + 2" using Suc.prems by (subst unat_add_nowrap) simp_all
    moreover have "unat (ucast bx + 2 :: u32) = unat bx + 2"
      using Suc.prems unat_ucast16 [of bx] by (subst unat_add_nowrap) simp_all
    ultimately have "(ucast (bx + 2) :: u32) = ucast bx + 2" by (intro unat_inj) (simp only: unat_ucast16)
    then show ?thesis using Suc.IH [of "bx + 2"] Suc.prems \<open>unat (bx + 2) = unat bx + 2\<close>
      by (simp add: split_beta Let_def add.assoc)
  qed (simp add: split_beta Let_def)
qed simp

text \<open>The bytes that select a drive's sectors.\<close>

definition read_command :: "u32 \<Rightarrow> u8 \<Rightarrow> (u16 \<times> port_data) list" where
  "read_command lba n =
     [(0x1f2, Byte n), (0x1f3, Byte (ucast lba)), (0x1f4, Byte (ucast (drop_bit 8 lba))), (0x1f5, Byte (ucast (drop_bit 16 lba))),
      (0x1f6, Byte ((ucast (drop_bit 24 lba) AND 0x0f) OR 0xe0)), (0x1f7, Byte 0x20)]"

lemma rd_disk_eq:
  fixes s :: "'a vstate_scheme"
  assumes "0 < n" "n < 256" "unat bx + 512 * n \<le> 2 ^ 16" "\<forall>i. \<exists>k \<ge> i. drive_ready (port_inputs s 0x1f7 k)"
  shows "\<exists>j. rd_disk_m_16 lba (of_nat n) ds bx s = Some (s\<lparr>
      port_writes := port_writes s @ read_command lba (of_nat n),
      mem := store_bytes (ucast ds * 16 + ucast bx) (device_bytes (256 * n) (port_inputs s 0x1f0)) (mem s),
      port_inputs := (port_inputs s)(0x1f7 := (\<lambda>i. port_inputs s 0x1f7 (j + i)), 0x1f0 := (\<lambda>i. port_inputs s 0x1f0 (256 * n + i)))\<rparr>)"
proof -
  obtain k where "drive_ready (port_inputs s 0x1f7 k)" using assms(4) by blast
  then obtain k where k: "drive_ready (port_inputs s 0x1f7 k)" "\<forall>j < k. \<not> drive_ready (port_inputs s 0x1f7 j)"
    using exists_least_iff [of "\<lambda>k. drive_ready (port_inputs s 0x1f7 k)"] by blast
  define t where "t = s\<lparr>port_writes := port_writes s @ read_command lba (of_nat n)\<rparr>"
  have c: "loop_count16 (of_nat n * 256) = 256 * n"
  proof -
    have "unat (of_nat n * 256 :: u16) = 256 * n" using assms(2) by (simp add: unat_word_ariths unat_of_nat)
    then show ?thesis using assms(1) by (auto simp: loop_count16_def)
  qed
  have u: "ucast (of_nat n :: u16) = (of_nat n :: u8)" by transfer (simp add: min_def)
  have "rd_disk_m_16 lba (of_nat n) ds bx s = map_option (go_on_read (256 * n) ds bx) (not_ready t)"
    by (simp add: rd_disk_m_16_def Let_def outb_def t_def read_command_def c u)
  also have "\<dots> = Some (go_on_read (256 * n) ds bx (t\<lparr>port_inputs := (port_inputs t)(0x1f7 := (\<lambda>i. port_inputs t 0x1f7 (Suc k + i)))\<rparr>))"
    using not_ready_eq [of t k] k by (simp add: t_def)
  also have "go_on_read (256 * n) ds bx u = insw (256 * n) 0x1f0 (ucast ds * 16 + ucast bx) u" for u :: "'a vstate_scheme"
    by (rule go_on_read_insw) (use assms(3) in simp)
  also have "insw (256 * n) 0x1f0 a u = u\<lparr>mem := store_bytes a (device_bytes (256 * n) (port_inputs u 0x1f0)) (mem u),
      port_inputs := (port_inputs u)(0x1f0 := (\<lambda>i. port_inputs u 0x1f0 (256 * n + i)))\<rparr>" for a and u :: "'a vstate_scheme"
    by (rule insw_eq) (use assms(2) in simp)
  finally show ?thesis by (auto simp: t_def intro!: exI [of _ "Suc k"])
qed

text \<open>C16. The boot sector loads the system: from a drive that has data again and again, it asks for 8 sectors from sector 2
  and for 127 sectors from sector 10, and stores the words of the drive in order, the loader at \<open>0x900\<close> and the
  kernel at \<open>0x70000\<close>, and nothing else.\<close>

theorem mbr_loads:
  fixes s :: "'a vstate_scheme"
  assumes "\<forall>i. \<exists>k \<ge> i. drive_ready (port_inputs s 0x1f7 k)"
  shows "\<exists>s'. mbr_start s = Some s' \<and>
    port_writes s' = port_writes s @ read_command 2 8 @ read_command 10 127 \<and>
    bytes (mem s') 0x900 4096 = device_bytes 2048 (port_inputs s 0x1f0) \<and>
    bytes (mem s') 0x70000 65024 = device_bytes 32512 (\<lambda>i. port_inputs s 0x1f0 (2048 + i)) \<and>
    (\<forall>a. a \<notin> span 0x900 4096 \<union> span 0x70000 65024 \<longrightarrow> mem s' a = mem s a)"
proof -
  obtain j where t: "rd_disk_m_16 2 8 0 0x900 s = Some (s\<lparr>
      port_writes := port_writes s @ read_command 2 8, mem := store_bytes 0x900 (device_bytes 2048 (port_inputs s 0x1f0)) (mem s),
      port_inputs := (port_inputs s)(0x1f7 := (\<lambda>i. port_inputs s 0x1f7 (j + i)), 0x1f0 := (\<lambda>i. port_inputs s 0x1f0 (2048 + i)))\<rparr>)"
    using rd_disk_eq [of 8 "0x900" s 2 0] assms by auto
  define u where "u = s\<lparr>
      port_writes := port_writes s @ read_command 2 8, mem := store_bytes 0x900 (device_bytes 2048 (port_inputs s 0x1f0)) (mem s),
      port_inputs := (port_inputs s)(0x1f7 := (\<lambda>i. port_inputs s 0x1f7 (j + i)), 0x1f0 := (\<lambda>i. port_inputs s 0x1f0 (2048 + i)))\<rparr>"
  have "\<forall>i. \<exists>k \<ge> i. drive_ready (port_inputs u 0x1f7 k)"
  proof
    fix i
    obtain k where "i + j \<le> k" "drive_ready (port_inputs s 0x1f7 k)" using assms by blast
    then show "\<exists>k \<ge> i. drive_ready (port_inputs u 0x1f7 k)" by (intro exI [of _ "k - j"]) (simp add: u_def)
  qed
  then obtain s' where s': "rd_disk_m_16 10 127 0x7000 0 u = Some s'" "port_writes s' = port_writes u @ read_command 10 127"
      "mem s' = store_bytes 0x70000 (device_bytes 32512 (port_inputs u 0x1f0)) (mem u)"
    using rd_disk_eq [of 127 0 u 10 "0x7000"] by auto
  have sp: "span 0x900 4096 \<inter> span 0x70000 65024 = {}" by (rule span_below) simp_all
  have hu: "mem s' a = mem u a" if "a \<notin> span 0x70000 65024" for a
    unfolding s'(3) by (rule store_bytes_other) (use that in simp)
  have "bytes (mem s') 0x900 4096 = bytes (mem u) 0x900 4096"
    by (rule bytes_cong, rule hu) (use sp in blast)
  also have "\<dots> = device_bytes 2048 (port_inputs s 0x1f0)"
    using bytes_store [of "device_bytes 2048 (port_inputs s 0x1f0)" "0x900" "mem s"] by (simp add: u_def del: bytes_numeral)
  finally have lo: "bytes (mem s') 0x900 4096 = device_bytes 2048 (port_inputs s 0x1f0)" .
  have hi: "bytes (mem s') 0x70000 65024 = device_bytes 32512 (\<lambda>i. port_inputs s 0x1f0 (2048 + i))"
    using bytes_store [of "device_bytes 32512 (port_inputs u 0x1f0)" "0x70000" "mem u"] unfolding s'(3) by (simp add: u_def del: bytes_numeral)
  have "mem s' a = mem s a" if "a \<notin> span 0x900 4096 \<union> span 0x70000 65024" for a
    using that hu [of a] store_bytes_other [of a "0x900" "device_bytes 2048 (port_inputs s 0x1f0)" "mem s"]
    by (simp add: u_def)
  moreover have "mbr_start s = Some s'" using t s'(1) by (simp add: mbr_start_def u_def)
  moreover have "port_writes s' = port_writes s @ read_command 2 8 @ read_command 10 127" using s'(2) by (simp add: u_def)
  ultimately show ?thesis using lo hi by blast
qed

theorem mbr_loads_witness:
  "\<exists>s'. mbr_start (\<lparr>eflags = 0, port_writes = [], port_inputs = (\<lambda>p n. if p = 0x1f7 then 0x50 + 8 * of_nat (n mod 2) else of_nat n),
     entries = (\<lambda>_. \<lparr>le_prev = 0, le_next = 0\<rparr>), mem = (\<lambda>_. 0), pt = (\<lambda>_. 0)\<rparr> :: vstate) = Some s' \<and> mem s' 0x902 = 1"
proof -
  let ?s = "\<lparr>eflags = 0, port_writes = [], port_inputs = (\<lambda>p n. if p = 0x1f7 then 0x50 + 8 * of_nat (n mod 2) else of_nat n),
     entries = (\<lambda>_. \<lparr>le_prev = 0, le_next = 0\<rparr>), mem = (\<lambda>_. 0), pt = (\<lambda>_. 0)\<rparr> :: vstate"
  have "drive_ready (port_inputs ?s 0x1f7 (2 * i + 1))" for i by (simp add: drive_ready_def)
  then have "i \<le> 2 * i + 1 \<and> drive_ready (port_inputs ?s 0x1f7 (2 * i + 1))" for i by simp
  then have "\<forall>i. \<exists>k \<ge> i. drive_ready (port_inputs ?s 0x1f7 k)" by blast
  from mbr_loads [OF this] obtain s' where s': "mbr_start ?s = Some s'"
      "bytes (mem s') 0x900 4096 = device_bytes 2048 (port_inputs ?s 0x1f0)"
    by blast
  have "device_bytes (Suc (Suc k)) f ! 2 = ucast (f 1)" for k f by (simp add: numeral_2_eq_2)
  from this [of 2046 "port_inputs ?s 0x1f0"] have "device_bytes 2048 (port_inputs ?s 0x1f0) ! 2 = 1" by simp
  moreover have "bytes (mem s') 0x900 4096 ! 2 = mem s' (0x900 + of_nat 2)" by (rule nth_bytes) simp
  ultimately have "mem s' (0x900 + of_nat 2) = 1" by (simp only: s'(2))
  then show ?thesis using s'(1) by simp
qed

section \<open>Entering the kernel\<close>

abbreviation (input) screen_area :: "u32 set" where "screen_area \<equiv> span 0xb8000 4096"
abbreviation (input) table_area :: "u32 set" where "table_area \<equiv> span 0x100000 0x2000"

lemma screen_cell:
  assumes "unat bx + 2 \<le> 4096"
  shows "span (0xb8000 + bx) 2 \<subseteq> screen_area" "unat (0xb8000 + bx) = 0xb8000 + unat bx"
  using span_shift [of "unat bx" 2 4096 "0xb8000"] assms by (auto, subst unat_add_nowrap) simp_all

lemma bump2: "unat (bx :: u32) + 2 \<le> 4096 \<Longrightarrow> unat (bx + 2) = unat bx + 2"
  by (subst unat_add_nowrap) simp_all

lemma display0_frame:
  "unat bx + 2 * cx \<le> 4096 \<Longrightarrow> a \<notin> screen_area \<Longrightarrow> display0 cx bx si m a = m a"
proof (induction cx arbitrary: bx si m)
  case (Suc cx)
  have b: "unat bx + 2 \<le> 4096" using Suc.prems by simp
  then have "a \<notin> span (0xb8000 + bx) 2" using screen_cell Suc.prems(2) by blast
  then show ?case using Suc.IH [of "bx + 2"] Suc.prems bump2 [OF b] by (simp add: write16_apart)
qed simp

lemma display1_ok:
  "paged m \<Longrightarrow> unat bx + 2 * cx \<le> 4096 \<Longrightarrow> unat si + cx \<le> 256 \<Longrightarrow>
   \<exists>m'. display1 cx bx si m = Inr m' \<and> paged m' \<and> (\<forall>a. a \<notin> screen_area \<longrightarrow> m' a = m a)"
proof (induction cx arbitrary: bx si m)
  case (Suc cx)
  have b: "unat bx + 2 \<le> 4096" using Suc.prems by simp
  note c = screen_cell [OF b]
  have pa: "0xb8000 + bx < 0x100000" using b c(2) by (simp add: word_less_nat_alt)
  have "unat (VIRMESG + si) = 0xf06 + unat si" using Suc.prems(3) unfolding VIRMESG_def by (subst unat_add_nowrap) simp_all
  then have v: "VIRMESG + si < 0x100000" using Suc.prems(3) by (simp add: word_less_nat_alt)
  define m1 where "m1 = write16 (0xb8000 + bx) (0x200 OR ucast (m (VIRMESG + si))) m"
  have f: "m1 a = m a" if "a \<notin> screen_area" for a unfolding m1_def using c(1) that by (intro write16_apart) blast
  have "screen_area \<inter> table_area = {}" by (rule span_below) simp_all
  then have p: "paged m1" by (intro paged_upd [OF Suc.prems(1)] f) blast
  have "unat (si + 1) = unat si + 1" using Suc.prems(3) by (subst unat_add_nowrap) simp_all
  then obtain m' where "display1 cx (bx + 2) (si + 1) m1 = Inr m'" "paged m'" "\<forall>a. a \<notin> screen_area \<longrightarrow> m' a = m1 a"
    using Suc.IH [OF p, of "bx + 2" "si + 1"] Suc.prems bump2 [OF b] by auto
  moreover have "at_virtual m (0xc00b8000 + bx) = Inr (0xb8000 + bx)"
    using paged_low(2) [OF Suc.prems(1) pa] by (simp add: add.assoc)
  ultimately show ?case using load8_low [OF Suc.prems(1) v] f by (simp add: m1_def [symmetric])
qed simp

lemma p_mode_eq:
  fixes s :: "'a xstate_scheme"
  assumes g: "read16 (mem s) 0xd40 = 55" "read32 (mem s) 0xd42 = 0xd08" "gdtr s = (55, 0xd08)"
  shows "\<exists>m. p_mode_start s = s\<lparr>segs := [0x10, 0x10, 0x10, 0x18, 0x8], fs_sel := 0x10, regs := (regs s)\<lparr>ctx_esp := 0xc0000900\<rparr>,
      mem := m, cr3 := 0x100000, gdtr := (55, 0xc0000d08), cr0 := cr0 s OR 0x80000000\<rparr> \<and>
    read32 m 0xd24 = read32 (mem s) 0xd24 OR 0xc0000000 \<and>
    (\<exists>m0. \<forall>a \<in> table_area. m a = setup_page m0 a) \<and>
    (\<forall>a. a \<notin> span 0xd24 4 \<union> span 0xd40 6 \<union> screen_area \<union> table_area \<longrightarrow> m a = mem s a)"
proof -
  define m3 where "m3 = setup_page (display0 0x1a 320 0 (mem s))"
  define m4 where "m4 = write32 0xd42 0xd08 (write16 0xd40 55 m3)"
  define m5 where "m5 = write32 0xd42 0xc0000d08 (write32 0xd24 (read32 m4 0xd24 OR 0xc0000000) m4)"
  have f3: "m3 a = mem s a" if "a \<notin> screen_area \<union> table_area" for a
    using that setup_page_frame [of a "display0 0x1a 320 0 (mem s)"] display0_frame [of 320 "0x1a" a 0 "mem s"] by (simp add: m3_def)
  have s40: "span 0xd40 2 \<subseteq> span 0xd40 6" "span 0xd42 4 \<subseteq> span 0xd40 6"
    using span_mono [of 2 6 "0xd40"] span_shift [of 2 4 6 "0xd40"] by simp_all
  have f4: "m4 a = m3 a" if "a \<notin> span 0xd40 6" for a
  proof -
    have "a \<notin> span 0xd40 2" "a \<notin> span 0xd42 4" using that s40 by blast+
    then show ?thesis by (simp add: m4_def write32_other write16_apart)
  qed
  have f5: "m5 a = m4 a" if "a \<notin> span 0xd24 4 \<union> span 0xd40 6" for a
  proof -
    have "a \<notin> span 0xd24 4" "a \<notin> span 0xd42 4" using that s40 by blast+
    then show ?thesis by (simp add: m5_def write32_other)
  qed
  have ap: "span 0xd24 4 \<inter> span 0xd40 6 = {}" "span 0xd24 4 \<inter> (screen_area \<union> table_area) = {}"
    "table_area \<inter> (span 0xd24 4 \<union> span 0xd40 6) = {}" "span 0xd40 2 \<inter> span 0xd42 4 = {}" "span 0xd40 2 \<inter> span 0xd24 4 = {}"
  proof -
    show a: "span 0xd24 4 \<inter> span 0xd40 6 = {}" "span 0xd40 2 \<inter> span 0xd42 4 = {}" by (rule span_below; simp)+
    then show "span 0xd40 2 \<inter> span 0xd24 4 = {}" using s40 by blast
    have "span 0xd24 4 \<inter> screen_area = {}" "span 0xd24 4 \<inter> table_area = {}" "span 0xd40 6 \<inter> table_area = {}"
      by (rule span_below; simp)+
    then show "span 0xd24 4 \<inter> (screen_area \<union> table_area) = {}" "table_area \<inter> (span 0xd24 4 \<union> span 0xd40 6) = {}" by blast+
  qed
  have r4: "read32 m4 0xd42 = 0xd08" by (simp add: m4_def read_write32)
  have "read16 m5 0xd40 = read16 (write16 0xd40 55 m3) 0xd40"
  proof (rule read16_cong)
    fix x assume "x \<in> span 0xd40 2"
    then have "x \<notin> span 0xd42 4" "x \<notin> span 0xd24 4" using ap(4,5) by blast+
    then show "m5 x = write16 0xd40 55 m3 x" by (simp add: m5_def m4_def write32_other)
  qed
  then have r50: "read16 m5 0xd40 = 55" by (simp only: read_write16)
  have "read32 m5 0xd42 = 0xc0000d08" unfolding m5_def by (rule read_write32)
  note r5 = r50 this
  have "read32 m4 0xd24 = read32 (mem s) 0xd24"
  proof (rule read32_cong)
    fix x assume "x \<in> span 0xd24 4"
    then have "x \<notin> span 0xd40 6" "x \<notin> screen_area \<union> table_area" using ap(1,2) by blast+
    then show "m4 x = mem s x" by (metis f3 f4)
  qed
  moreover have "read32 m5 0xd24 = read32 (write32 0xd24 (read32 m4 0xd24 OR 0xc0000000) m4) 0xd24"
  proof (rule read32_cong)
    fix x assume "x \<in> span 0xd24 4"
    then have "x \<notin> span 0xd42 4" using ap(1) s40 by blast
    then show "m5 x = write32 0xd24 (read32 m4 0xd24 OR 0xc0000000) m4 x" by (simp add: m5_def write32_other)
  qed
  ultimately have v: "read32 m5 0xd24 = read32 (mem s) 0xd24 OR 0xc0000000" by (simp only: read_write32)
  have "\<forall>a \<in> table_area. m5 a = m3 a"
  proof
    fix a assume "a \<in> table_area"
    then have "a \<notin> span 0xd24 4 \<union> span 0xd40 6" "a \<notin> span 0xd40 6" using ap(3) by blast+
    then show "m5 a = m3 a" by (metis f4 f5)
  qed
  then have t: "\<exists>m0. \<forall>a \<in> table_area. m5 a = setup_page m0 a" unfolding m3_def by blast
  have fr: "m5 a = mem s a" if "a \<notin> span 0xd24 4 \<union> span 0xd40 6 \<union> screen_area \<union> table_area" for a
  proof -
    have "a \<notin> span 0xd24 4 \<union> span 0xd40 6" "a \<notin> span 0xd40 6" "a \<notin> screen_area \<union> table_area" using that by blast+
    then show ?thesis by (metis f3 f4 f5)
  qed
  have d42: "read32 (write32 0xd24 x m4) 0xd42 = 0xd08" for x
  proof -
    have "read32 (write32 0xd24 x m4) 0xd42 = read32 m4 0xd42"
      by (rule read32_cong, rule write32_other) (use ap(1) s40 in blast)
    then show ?thesis using r4 by simp
  qed
  have "relocate_gdt m4 = m5" unfolding m5_def by (simp add: relocate_gdt_def GDT_DESC_def r4 Let_def d42)
  then have "p_mode_start s = s\<lparr>segs := [0x10, 0x10, 0x10, 0x18, 0x8], fs_sel := 0x10, regs := (regs s)\<lparr>ctx_esp := 0xc0000900\<rparr>,
      mem := m5, cr3 := 0x100000, gdtr := (55, 0xc0000d08), cr0 := cr0 s OR 0x80000000\<rparr>"
    using g r5 by (simp add: p_mode_start_def CR0_PG_ON_def Let_def sgdt_desc_def lgdt_desc_def GDT_DESC_def PAGE_DIR_TABLE_ADDR_def m3_def [symmetric] m4_def [symmetric])
  then show ?thesis using v t fr by blast
qed

text \<open>What the loader expects: the answers of the BIOS, its own data, and an image of the kernel that fits between the loader and the
  image.\<close>

definition loadable_low :: "bmem \<Rightarrow> u32 \<Rightarrow> bool" where
  "loadable_low m h \<longleftrightarrow> loadable m h \<and> unat h + 20 \<le> 0x80000 \<and>
     (case segment m h of (d, s, n) \<Rightarrow> 0x1500 \<le> unat d \<and> unat s + n \<le> 0x80000)"

definition loader_ready :: "bios \<Rightarrow> u8 list list \<Rightarrow> bmem \<Rightarrow> bool" where
  "loader_ready bios es m \<longleftrightarrow> answers bios 0 es \<and> length es \<le> 20 \<and> read16 m ARDS_NUM = 0 \<and>
     read16 m GDT_DESC = 55 \<and> read32 m (GDT_DESC + 2) = GDT_BASE \<and>
     (\<forall>i < 28. read16 m (GDT_BASE + of_nat (2 * i)) = loader_gdt ! i) \<and>
     1 < unat (read16 m 0x7002c) \<and> (\<forall>h \<in> set (headers m). loadable_low m h) \<and>
     sorted_wrt (\<lambda>x y. seg_dest x \<inter> seg_dest y = {}) (map (segment m) (headers m))"

lemma own_table_cong:
  assumes "\<And>a. directory_entry m' pd a = directory_entry m pd a" "own_table D m pd va"
  shows "own_table D m' pd va"
  using assms(2) unfolding own_table_def assms(1) .

lemma paged_space:
  assumes t: "\<forall>a \<in> table_area. m a = setup_page m0 a"
  shows "self_mapped m 0x100000"
    and "pa < 0x100000 \<Longrightarrow> page_walk m 0x100000 pa = Some pa \<and> page_walk m 0x100000 (0xc0000000 + pa) = Some pa"
    and "0xc0000000 \<le> va \<Longrightarrow> va < 0xffc00000 \<Longrightarrow> own_table {768..1023} m 0x100000 va"
proof -
  have p: "paged m" using t by (auto simp: paged_def)
  have d: "directory_entry m 0x100000 a = directory_entry (setup_page m0) 0x100000 a" for a
    unfolding directory_entry_def
  proof (rule read32_cong)
    fix x assume "x \<in> span (table_word 0x100000 (PDE_IDX a)) 4"
    then have "x \<in> table_area" using table_in_span [of "0x100000" "PDE_IDX a"] by (auto simp: page_of_def index_less)
    then show "m x = setup_page m0 x" using t by blast
  qed
  have "PDE_IDX 0xffc00000 = 1023" by (simp add: PDE_IDX_def)
  then show "self_mapped m 0x100000"
    using setup_page_self [of m0] d [of "0xffc00000"] by (simp add: self_mapped_def directory_entry_def Let_def)
  show "page_walk m 0x100000 pa = Some pa \<and> page_walk m 0x100000 (0xc0000000 + pa) = Some pa" if "pa < 0x100000"
    using paged_low [OF p that] by (auto simp: at_virtual_def PAGE_DIR_TABLE_ADDR_def split: option.splits)
  show "own_table {768..1023} m 0x100000 va" if "0xc0000000 \<le> va" "va < 0xffc00000"
    by (rule own_table_cong [OF d kernel_part_own [OF that]])
qed

lemma word_bytes: "m p = ucast (read32 m p)" "m (p + 3) = ucast (drop_bit 24 (read32 m p))"
proof -
  show "m p = ucast (read32 m p)"
  proof (rule bit_word_eqI)
    fix n assume "n < LENGTH(8)"
    then show "bit (m p) n = bit (ucast (read32 m p) :: u8) n" by (auto simp: read32_def bit_simps)
  qed
  show "m (p + 3) = ucast (drop_bit 24 (read32 m p))"
  proof (rule bit_word_eqI)
    fix n assume "n < LENGTH(8)"
    then show "bit (m (p + 3)) n = bit (ucast (drop_bit 24 (read32 m p)) :: u8) n"
      by (auto simp: read32_def bit_simps dest: bit_imp_le_length)
  qed
qed

lemma word_halves: "read32 m p = ucast (read16 m p) OR push_bit 16 (ucast (read16 m (p + 2)))"
  by (simp add: read32_def read16_def half_words add.assoc)

lemma seg_base_words:
  "seg_base m a = ucast (read16 m (a + 2)) OR push_bit 16 (read32 m (a + 4) AND 0xff) OR (read32 m (a + 4) AND 0xff000000)"
proof -
  have f: "(0xff :: u32) = mask 8" "(0xff000000 :: u32) = push_bit 24 (mask 8)" by (simp_all add: mask_eq_exp_minus_1)
  have a: "a + 2 + 1 = a + 3" "a + 4 + 3 = a + 7" by simp_all
  have h: "ucast (read16 m (a + 2)) = (ucast (m (a + 2)) OR push_bit 8 (ucast (m (a + 3))) :: u32)"
    by (rule bit_word_eqI) (auto simp: read16_def a bit_simps dest: bit_imp_le_length)
  have "(ucast (m (a + 4)) :: u32) = read32 m (a + 4) AND 0xff"
    unfolding word_bytes(1) [of m "a + 4"] f by (rule bit_word_eqI) (auto simp: bit_simps)
  moreover have "push_bit 24 (ucast (m (a + 7)) :: u32) = read32 m (a + 4) AND 0xff000000"
    unfolding word_bytes(2) [of m "a + 4", unfolded a] f
    by (rule bit_word_eqI) (auto simp: bit_simps dest: bit_imp_le_length)
  ultimately show ?thesis unfolding seg_base_def h by (simp only: or.assoc)
qed

lemma loader_start_eq:
  fixes s :: "'a xstate_scheme"
  assumes "loader_ready bios es (mem s)"
  shows "\<exists>s'. loader_start bios s = Inr s' \<and> ctx_eip (regs s') = 0xc0001500 \<and> ctx_esp (regs s') = 0xc009f000 \<and>
    cr3 s' = 0x100000 \<and> gdtr s' = (55, 0xc0000d08) \<and> read32 (mem s') 0xd00 = largest_end es \<and>
    seg_base (mem s') 0xd20 = 0xc00b8000 \<and>
    (\<forall>x \<in> set (map (segment (mem s)) (headers (mem s))). seg_loaded (mem s) (mem s') x) \<and>
    (\<exists>m0. \<forall>a \<in> table_area. mem s' a = setup_page m0 a) \<and>
    segs s' = [0x10, 0x10, 0x10, 0x18, 0x8] \<and> cr0 s' = cr0 s OR 0x80000001"
proof -
  let ?m = "mem s" and ?img = "span 0x70000 0x10000"
  note r = assms [unfolded loader_ready_def ARDS_NUM_def GDT_DESC_def GDT_BASE_def]
  obtain m1 where m1: "get_memory_size bios ?m = Inr m1" "read32 m1 0xd00 = largest_end es"
      "\<forall>a. a \<notin> span 0xd46 402 \<union> span 0xd00 4 \<longrightarrow> m1 a = ?m a"
    using memory_size_eq [of bios es ?m] r by (auto simp: TOTAL_MEM_BYTES_def ARDS_BUF_def ARDS_NUM_def)
  have d1: "m1 a = ?m a" if "a \<in> span 0xd04 0x42" for a
  proof -
    have "span 0xd04 0x42 \<inter> span 0xd46 402 = {}" "span 0xd00 4 \<inter> span 0xd04 0x42 = {}" by (rule span_below; simp)+
    then show ?thesis using m1(3) that by blast
  qed
  have data: "read16 m1 (0xd04 + of_nat k) = read16 ?m (0xd04 + of_nat k)" if "k + 2 \<le> 0x42" for k
    using span_shift [OF that, of "0xd04"] d1 by (intro read16_cong) blast
  have g1: "read16 m1 0xd40 = 55" "read32 m1 0xd42 = 0xd08"
    using data [of "0x3c"] data [of "0x3e"] data [of "0x40"] r word_halves [of m1 "0xd42"] word_halves [of ?m "0xd42"] by simp_all
  define s1 where "s1 = (let s = lgdt_desc (outb 0x92 (fst (inb 0x92 (s\<lparr>mem := m1\<rparr>)) OR 2) (snd (inb 0x92 (s\<lparr>mem := m1\<rparr>))))
    in s\<lparr>cr0 := cr0 s OR CR0_PE_ON\<rparr>)"
  have s1: "mem s1 = m1" "gdtr s1 = (55, 0xd08)" "cr0 s1 = cr0 s OR 1"
    using g1 by (simp_all add: s1_def lgdt_desc_def outb_def inb_def inw_def GDT_DESC_def split_beta CR0_PE_ON_def Let_def)
  obtain m5 where m5: "p_mode_start s1 = s1\<lparr>segs := [0x10, 0x10, 0x10, 0x18, 0x8], fs_sel := 0x10,
        regs := (regs s1)\<lparr>ctx_esp := 0xc0000900\<rparr>, mem := m5, cr3 := 0x100000, gdtr := (55, 0xc0000d08), cr0 := cr0 s1 OR 0x80000000\<rparr>"
      "read32 m5 0xd24 = read32 m1 0xd24 OR 0xc0000000" "\<exists>m0. \<forall>a \<in> table_area. m5 a = setup_page m0 a"
      "\<forall>a. a \<notin> span 0xd24 4 \<union> span 0xd40 6 \<union> screen_area \<union> table_area \<longrightarrow> m5 a = m1 a"
    using p_mode_eq [of s1] g1 unfolding s1(1,2) by blast
  have "paged m5" using m5(3) by (auto simp: paged_def)
  then obtain m6 where m6: "display1 0x1b 480 0 m5 = Inr m6" "paged m6" "\<forall>a. a \<notin> screen_area \<longrightarrow> m6 a = m5 a"
    using display1_ok [of m5 480 "0x1b" 0] by auto
  have img: "m6 a = ?m a" if "a \<in> ?img" for a
  proof -
    have "screen_area \<inter> ?img = {}" "table_area \<inter> ?img = {}" "span 0xd24 4 \<inter> ?img = {}" "span 0xd40 6 \<inter> ?img = {}"
      "span 0xd46 402 \<inter> ?img = {}" "span 0xd00 4 \<inter> ?img = {}"
      using span_below [of "0xb8000" 4096 "0x70000" "0x10000"] span_below [of "0x100000" "0x2000" "0x70000" "0x10000"]
      by (simp_all add: Int_commute) (rule span_below; simp)+
    then show ?thesis using that m1(3) m5(4) m6(3) by (metis Int_iff Un_iff empty_iff)
  qed
  have rd: "read16 m6 a = read16 ?m a" if "span a 2 \<subseteq> ?img" for a using img that by (intro read16_cong) blast
  have rd4: "read32 m6 a = read32 ?m a" if "span a 4 \<subseteq> ?img" for a using img that by (intro read32_cong) blast
  have sub: "span 0x7002c 2 \<subseteq> ?img" "span 0x7002a 2 \<subseteq> ?img" "span 0x7001c 4 \<subseteq> ?img"
    using span_shift [of "0x2c" 2 "0x10000" "0x70000"] span_shift [of "0x2a" 2 "0x10000" "0x70000"] span_shift [of "0x1c" 4 "0x10000" "0x70000"]
    by simp_all
  have hd: "headers m6 = headers ?m" using rd [OF sub(1)] rd [OF sub(2)] rd4 [OF sub(3)] by (simp add: headers_def)
  have inimg: "span a n \<subseteq> ?img" if "0x70000 \<le> unat a" "unat a + n \<le> 0x80000" for a n
  proof
    fix x assume "x \<in> span a n"
    then have "0x70000 \<le> unat x" "unat x < 0x80000" using image_span [of a n x] that by auto
    then show "x \<in> ?img" by (simp add: in_span_iff unat_sub_if_size word_size)
  qed
  have low: "loadable_low ?m h" if "h \<in> set (headers ?m)" for h using r that by blast
  have sg: "segment m6 h = segment ?m h \<and> read32 m6 h = read32 ?m h" if "h \<in> set (headers ?m)" for h
  proof -
    have "span h 20 \<subseteq> ?img" using low [OF that] by (intro inimg) (auto simp: loadable_low_def loadable_def)
    then show ?thesis using img segment_cong [of h m6 ?m] by blast
  qed
  have parts: "map (segment m6) (headers m6) = map (segment ?m) (headers ?m)" using sg by (simp add: hd)
  have ld: "\<forall>h \<in> set (headers m6). loadable m6 h"
    using low sg unfolding hd by (simp add: loadable_low_def loadable_def)
  have w: "1 < unat (read16 m6 0x7002c)" using r rd [OF sub(1)] by simp
  obtain m7 where m7: "kernel_init m6 = Inr m7" "\<forall>x \<in> set (map (segment ?m) (headers ?m)). seg_loaded m6 m7 x"
      "\<forall>a. (\<forall>x \<in> set (map (segment ?m) (headers ?m)). a \<notin> seg_dest x) \<longrightarrow> m7 a = m6 a"
    using kernel_init_eq [OF m6(2) w ld] r unfolding parts by blast
  have dest: "0x1500 \<le> unat a \<and> unat a < 0x70000" if x: "x \<in> set (map (segment ?m) (headers ?m))" "a \<in> seg_dest x" for x a
  proof -
    obtain h where h: "h \<in> set (headers ?m)" "x = segment ?m h" using x(1) by auto
    obtain d c n where g: "segment ?m h = (d, c, n)" by (cases "segment ?m h")
    have b: "0x1500 \<le> unat d" "unat d + n \<le> 0x70000" using low [OF h(1)] g by (simp_all add: loadable_low_def loadable_def)
    obtain i where i: "i < n" "a = d + of_nat i" using x(2) g h(2) by (auto simp: seg_dest_def span_def)
    then show ?thesis using low_step(2) [of d n i] b by simp
  qed
  have stay: "m7 a = m6 a" if "unat a < 0x1500 \<or> 0x70000 \<le> unat a" for a
  proof -
    have "a \<notin> seg_dest x" if "x \<in> set (map (segment ?m) (headers ?m))" for x
      using dest [OF that, of a] \<open>unat a < 0x1500 \<or> 0x70000 \<le> unat a\<close> by auto
    then show ?thesis using m7(3) by blast
  qed
  have loaded: "seg_loaded ?m m7 x" if x: "x \<in> set (map (segment ?m) (headers ?m))" for x
  proof -
    obtain h where h: "h \<in> set (headers ?m)" "x = segment ?m h" using x by auto
    obtain d c n where g: "segment ?m h = (d, c, n)" by (cases "segment ?m h")
    have "span c n \<subseteq> ?img" using low [OF h(1)] g by (intro inimg) (simp_all add: loadable_low_def loadable_def)
    then have "bytes m6 c n = bytes ?m c n" using img by (intro bytes_cong) blast
    then show ?thesis using m7(2) x h(2) g by (auto simp: seg_loaded_def)
  qed
  have lowmem: "m7 a = m5 a" if "unat a < 0x1500" for a
  proof -
    have "a \<notin> screen_area" using that by (simp add: in_span_iff unat_sub_if_size word_size)
    then show ?thesis using stay [of a] m6(3) that by simp
  qed
  have lowspan: "unat x < 0x1500" if x: "x \<in> span a n" "unat a + n \<le> 0x1500" for x a n
  proof -
    obtain i where "i < n" "x = a + of_nat i" using x(1) by (auto simp: span_def)
    then show ?thesis using low_step(2) [of a n i] x(2) by simp
  qed
  have d5: "m5 a = m1 a" if "unat a < 0x1500" "a \<notin> span 0xd24 4 \<union> span 0xd40 6" for a
  proof -
    have "a \<notin> screen_area" "a \<notin> table_area" using that(1) by (simp_all add: in_span_iff unat_sub_if_size word_size)
    then show ?thesis using m5(4) that(2) by blast
  qed
  have "read32 m7 0xd00 = read32 m1 0xd00"
  proof (rule read32_cong)
    fix x assume x: "x \<in> span 0xd00 4"
    then have u: "unat x < 0x1500" by (rule lowspan) simp
    have "span 0xd00 4 \<inter> span 0xd24 4 = {}" "span 0xd00 4 \<inter> span 0xd40 6 = {}" by (rule span_below; simp)+
    then have "x \<notin> span 0xd24 4 \<union> span 0xd40 6" using x by blast
    from d5 [OF u this] lowmem [OF u] show "m7 x = m1 x" by simp
  qed
  moreover have v22: "read16 m7 0xd22 = read16 m1 0xd22"
  proof (rule read16_cong)
    fix x assume x: "x \<in> span 0xd22 2"
    then have u: "unat x < 0x1500" by (rule lowspan) simp
    have "span 0xd22 2 \<inter> span 0xd24 4 = {}" "span 0xd22 2 \<inter> span 0xd40 6 = {}" by (rule span_below; simp)+
    then have "x \<notin> span 0xd24 4 \<union> span 0xd40 6" using x by blast
    from d5 [OF u this] lowmem [OF u] show "m7 x = m1 x" by simp
  qed
  have v24: "read32 m7 0xd24 = read32 m5 0xd24"
    by (rule read32_cong, rule lowmem, erule lowspan) simp
  have "\<forall>i < 28. read16 ?m (0xd08 + of_nat (2 * i)) = loader_gdt ! i" using r by blast
  from this [rule_format, of 13] this [rule_format, of 14] this [rule_format, of 15]
  have gw: "read16 ?m 0xd22 = 0x8000" "read16 ?m 0xd24 = 0x920b" "read16 ?m 0xd26 = 0x00c0"
    by (simp_all add: loader_gdt_def)
  then have "read16 m1 0xd22 = 0x8000" "read16 m1 0xd24 = 0x920b" "read16 m1 0xd26 = 0x00c0"
    using data [of "0x1e"] data [of "0x20"] data [of "0x22"] by simp_all
  then have "read16 m7 0xd22 = 0x8000" "read32 m7 0xd24 = 0xc0c0920b"
    using v22 v24 m5(2) word_halves [of m1 "0xd24"] by simp_all
  then have "seg_base m7 0xd20 = 0xc00b8000" using seg_base_words [of m7 "0xd20"] by simp
  moreover have "\<exists>m0. \<forall>a \<in> table_area. m7 a = setup_page m0 a"
  proof -
    have "m7 a = m5 a" if t: "a \<in> table_area" for a
    proof -
      obtain i where i: "i < 0x2000" "a = 0x100000 + of_nat i" using t by (auto simp: span_def)
      then have "unat (of_nat i :: u32) = i" by (simp add: unat_of_nat)
      then have "unat a = 0x100000 + i" using i by (subst i(2), subst unat_add_nowrap) simp_all
      moreover have "screen_area \<inter> table_area = {}" by (rule span_below) simp_all
      then have "a \<notin> screen_area" using t by blast
      ultimately show ?thesis using stay [of a] m6(3) by simp
    qed
    then show ?thesis using m5(3) by auto
  qed
  moreover have "loader_start bios s = Inr ((p_mode_start s1)\<lparr>mem := m7, regs := (regs (p_mode_start s1))\<lparr>ctx_esp := 0xc009f000, ctx_eip := 0xc0001500\<rparr>\<rparr>)"
    using m1(1) m6(1) m7(1) m5(1) by (simp add: loader_start_def on_mem_def enter_kernel_def s1_def split_beta Let_def)
  moreover have "cr0 (p_mode_start s1) = cr0 s OR 0x80000001" "segs (p_mode_start s1) = [0x10, 0x10, 0x10, 0x18, 0x8]"
    by (simp_all add: m5(1) s1(3) or.assoc)
  ultimately show ?thesis using m1(2) m5(1) loaded by auto
qed

text \<open>C2. The hand-over to the kernel: from a memory map of at most 20 areas, the descriptor table of the loader and an image
  with fitting headers, the loader jumps to the kernel's entry with protected mode and paging on, the kernel's segments and stack, with the size of the memory at \<open>0xd00\<close>, the
  table register and the segment of the screen at the kernel's addresses and the parts of the image in their places. The page
  directory maps itself, so that the window of \<^verbatim>\<open>pte_addr\<close> and \<^verbatim>\<open>pde_addr\<close> is there; the
  first megabyte is mapped at 0 and at \<open>0xc0000000\<close>; each other directory entry of the kernel has a page of its own; and the
  entry of the kernel's heap is present, as \<^verbatim>\<open>init_all\<close> needs it.\<close>

theorem loader_hands_over:
  fixes s :: "'a xstate_scheme"
  assumes "loader_ready bios es (mem s)"
  shows "\<exists>s'. loader_start bios s = Inr s' \<and> ctx_eip (regs s') = 0xc0001500 \<and> ctx_esp (regs s') = 0xc009f000 \<and>
    gdtr s' = (55, 0xc0000d08) \<and> seg_base (mem s') 0xd20 = 0xc00b8000 \<and> read32 (mem s') 0xd00 = largest_end es \<and>
    segs s' = [0x10, 0x10, 0x10, 0x18, 0x8] \<and> cr0 s' = cr0 s OR 0x80000001 \<and>
    (\<forall>x \<in> set (map (segment (mem s)) (headers (mem s))). seg_loaded (mem s) (mem s') x) \<and>
    self_mapped (mem s') (cr3 s') \<and> seen_word (mem s') (cr3 s') (pde_addr 0xc0100000) AND 1 \<noteq> 0 \<and>
    (\<forall>pa < 0x100000. page_walk (mem s') (cr3 s') pa = Some pa \<and> page_walk (mem s') (cr3 s') (0xc0000000 + pa) = Some pa) \<and>
    (\<forall>va. 0xc0000000 \<le> va \<and> va < 0xffc00000 \<longrightarrow> own_table {768..1023} (mem s') (cr3 s') va)"
proof -
  obtain s' m0 where s': "loader_start bios s = Inr s'" "ctx_eip (regs s') = 0xc0001500" "ctx_esp (regs s') = 0xc009f000"
      "cr3 s' = 0x100000" "gdtr s' = (55, 0xc0000d08)" "read32 (mem s') 0xd00 = largest_end es"
      "seg_base (mem s') 0xd20 = 0xc00b8000" "\<forall>x \<in> set (map (segment (mem s)) (headers (mem s))). seg_loaded (mem s) (mem s') x"
      "\<forall>a \<in> table_area. mem s' a = setup_page m0 a" "segs s' = [0x10, 0x10, 0x10, 0x18, 0x8]" "cr0 s' = cr0 s OR 0x80000001"
    using loader_start_eq [OF assms] by blast
  note sp = paged_space [OF s'(9)]
  have "own_table {768..1023} (mem s') 0x100000 0xc0100000" by (rule sp(3)) simp_all
  then have "directory_entry (mem s') 0x100000 0xc0100000 AND 1 \<noteq> 0" by (simp add: own_table_def)
  then have "seen_word (mem s') 0x100000 (pde_addr 0xc0100000) AND 1 \<noteq> 0"
    using walk_pde_addr [OF sp(1)] by (simp add: seen_word_def directory_entry_def)
  then have seen: "seen_word (mem s') (cr3 s') (pde_addr 0xc0100000) AND 1 \<noteq> 0" unfolding s'(4) .
  have "self_mapped (mem s') (cr3 s')" unfolding s'(4) by (rule sp(1))
  moreover have "\<forall>pa < 0x100000. page_walk (mem s') (cr3 s') pa = Some pa \<and> page_walk (mem s') (cr3 s') (0xc0000000 + pa) = Some pa"
    unfolding s'(4) using sp(2) by blast
  moreover have "\<forall>va. 0xc0000000 \<le> va \<and> va < 0xffc00000 \<longrightarrow> own_table {768..1023} (mem s') (cr3 s') va"
    unfolding s'(4) using sp(3) by blast
  ultimately show ?thesis using s'(1-3,5-8,10,11) seen by (intro exI [of _ s'] conjI)
qed

text \<open>The image of above beside the data of the loader.\<close>

definition sample_disk :: bmem where
  "sample_disk a =
     (if a = 0xd40 then 55 else if a = 0xd42 then 8 else if a = 0xd43 then 0xd
      else if 0xd10 \<le> a \<and> a < 0xd28 then
        [0xff, 0xff, 0, 0, 0, 0x98, 0xcf, 0, 0xff, 0xff, 0, 0, 0, 0x92, 0xcf, 0, 7, 0, 0, 0x80, 0xb, 0x92, 0xc0, 0] ! unat (a - 0xd10)
      else sample_image a)"

lemma sample_disk_ready:
  "loader_ready sample_bios [[0, 0, 0, 0, 0, 0, 0, 0, 0, 0, 10, 0] @ replicate 8 0, [0, 0, 16, 0, 0, 0, 0, 0, 0, 0, 0xf0, 1] @ replicate 8 0]
     sample_disk"
proof -
  have g: "read16 sample_disk (GDT_BASE + of_nat (2 * i)) = loader_gdt ! i" if "i < 28" for i
  proof -
    have "[0..<28] = [0, 1, 2, 3, 4, 5, 6, 7, 8, 9, 10, 11, 12, 13, 14, 15, 16, 17, 18, 19, 20, 21, 22, 23, 24, 25, 26, 27]"
      by (simp add: numeral_eq_Suc upt_rec)
    then have "list_all (\<lambda>i. read16 sample_disk (GDT_BASE + of_nat (2 * i)) = loader_gdt ! i) [0..<28]"
      by (simp add: GDT_BASE_def read16_def sample_disk_def sample_image_def loader_gdt_def)
    then show ?thesis using that by (simp add: list_all_iff)
  qed
  have h: "read16 sample_disk 0x7002c = 2" "headers sample_disk = [0x70034]"
    by (simp_all add: headers_def read16_def read32_def sample_disk_def sample_image_def)
  have "segment sample_disk 0x70034 = (0x1500, 0x71000, 8)" "read32 sample_disk 0x70034 = 1"
    by (simp_all add: segment_def read32_def sample_disk_def sample_image_def)
  then have "loadable_low sample_disk 0x70034" by (simp add: loadable_low_def loadable_def)
  moreover have "answers sample_bios 0 [[0, 0, 0, 0, 0, 0, 0, 0, 0, 0, 10, 0] @ replicate 8 0, [0, 0, 16, 0, 0, 0, 0, 0, 0, 0, 0xf0, 1] @ replicate 8 0]"
    by (simp add: sample_bios_def)
  moreover have "read16 sample_disk ARDS_NUM = 0" "read16 sample_disk GDT_DESC = 55" "read32 sample_disk (GDT_DESC + 2) = GDT_BASE"
    by (simp_all add: read16_def read32_def sample_disk_def sample_image_def ARDS_NUM_def GDT_DESC_def GDT_BASE_def)
  ultimately show ?thesis using g h by (simp add: loader_ready_def)
qed

definition sample_power_on :: xstate where
  "sample_power_on = pstate.extend (sample_loader\<lparr>mem := sample_disk\<rparr>) \<lparr>cr0 = 0x10\<rparr>"

theorem loader_hands_over_witness:
  "\<exists>s'. loader_start sample_bios sample_power_on = Inr s' \<and> ctx_eip (regs s') = 0xc0001500 \<and> cr0 s' = 0x80000011 \<and>
     page_walk (mem s') (cr3 s') 0xc00b8000 = Some 0xb8000"
proof -
  let ?s = sample_power_on
  have "mem ?s = sample_disk" "cr0 ?s = 0x10" by (simp_all add: sample_power_on_def pstate.defs)
  from loader_hands_over [of _ _ ?s, unfolded this, OF sample_disk_ready]
  obtain s' where s': "loader_start sample_bios ?s = Inr s'" "ctx_eip (regs s') = 0xc0001500"
    "\<forall>pa < 0x100000. page_walk (mem s') (cr3 s') pa = Some pa \<and> page_walk (mem s') (cr3 s') (0xc0000000 + pa) = Some pa"
    and c: "cr0 s' = 0x10 OR 0x80000001"
    by blast
  have "page_walk (mem s') (cr3 s') (0xc0000000 + 0xb8000) = Some 0xb8000" by (rule s'(3) [rule_format, THEN conjunct2]) simp
  then show ?thesis using s'(1,2) c by simp
qed

end
