(* ===== verification/Spec2Isabelle.thy ===== *)
theory Spec2Isabelle
  imports Prelude Strings Bitmap Cpu Lists Printf Printf_Spec Paging Threads Scheduler Sync Console IoQueue Memory
    Descriptors Ide Files Kthreads Translation Process Interrupts Stubs Boot Loader Handover
begin

text \<open>
  A model of the pumelo-os kernel, a 32-bit x86 kernel in C and assembly (\<^verbatim>\<open>src/os\<close>), with the
  theorems that say what it does.

  \<^bold>\<open>The program.\<close> The boot sector reads loader and kernel from the disk. The loader asks the BIOS for the size of
  the memory, turns on protected mode, leaves a page directory that maps itself and the first megabyte at 0 and at
  \<^verbatim>\<open>0xc0000000\<close>, turns on paging, loads the image of the kernel and jumps to it.
  \<^verbatim>\<open>main\<close> calls \<^verbatim>\<open>init_all\<close>, which sets up
  the screen, the interrupt table, the page pools, the threads, the clock and the task state segment, and then enables
  interrupts. The clock calls \<^verbatim>\<open>schedule\<close>, which takes threads from the ready list in turn; locks,
  semaphores and the character queue block and unblock threads; \<^verbatim>\<open>thread_start\<close> and
  \<^verbatim>\<open>process_execute\<close> make new ones from pages of the allocator; the disk driver blocks its caller until
  the interrupt of the drive; the file system is laid out on the partitions the driver finds. The calls that start the
  driver and the file system are commented out in \<^verbatim>\<open>main\<close>.

  \<^bold>\<open>The theories\<close>, each importing those it calls:
  \<^item> Prelude: machine words, byte memory, results, the collection \<open>mem_simps\<close>.
  \<^item> Strings: \<^verbatim>\<open>kernel/string.c\<close>; Bitmap: \<^verbatim>\<open>ds/bitmap.c\<close>; Lists:
    \<^verbatim>\<open>ds/list.c\<close>; IoQueue: \<^verbatim>\<open>ds/ioqueue.c\<close>.
  \<^item> Cpu: \<^verbatim>\<open>kernel/intr.c\<close> and the instructions of \<^verbatim>\<open>include/x86.h\<close>; Paging:
    the recursive mapping of the page tables.
  \<^item> Printf: \<^verbatim>\<open>kernel/printfmt.c\<close>; Printf_Spec: what it promises; Console:
    \<^verbatim>\<open>kernel/console.c\<close> and \<^verbatim>\<open>kernel/stdio.c\<close>.
  \<^item> Threads: \<^verbatim>\<open>kernel/thread.c\<close>, \<^verbatim>\<open>kernel/switch.S\<close> and the tick of
    \<^verbatim>\<open>kernel/clock.c\<close>; Scheduler: what they promise; Sync: \<^verbatim>\<open>kernel/spinlock.c\<close> and
    \<^verbatim>\<open>kernel/sync.c\<close>.
  \<^item> Memory: \<^verbatim>\<open>kernel/mem.c\<close>; Translation: the page walk of the processor on physical memory, and
    what the stores of Memory through the window of the page tables mean for it; Kthreads: the threads of the kernel as
    they are created; Process: \<^verbatim>\<open>kernel/proc.c\<close>.
  \<^item> Descriptors: \<^verbatim>\<open>kernel/tss.c\<close>, \<^verbatim>\<open>kernel/pmm.c\<close>,
    \<^verbatim>\<open>include/mmu.h\<close>, and the table and the controllers of \<^verbatim>\<open>kernel/interrupt.c\<close>;
    Interrupts: entry and exit of \<^verbatim>\<open>kernel/kernel.S\<close> as one definition for all vectors, the dispatch,
    \<^verbatim>\<open>kernel/keyboard.c\<close> and \<^verbatim>\<open>kernel/panic.c\<close>; Stubs: the same entry and
    exit as the instructions of the file, vector by vector.
  \<^item> Ide: \<^verbatim>\<open>kernel/ide.c\<close>; Files: \<^verbatim>\<open>kernel/fs.c\<close>,
    \<^verbatim>\<open>kernel/inode.c\<close> and \<^verbatim>\<open>kernel/file.c\<close>.
  \<^item> Boot: \<^verbatim>\<open>kernel/init.c\<close>, \<^verbatim>\<open>kernel/main.c\<close> and the rest of
    \<^verbatim>\<open>kernel/clock.c\<close>.
  \<^item> Loader: the page tables and the loading of the image of \<^verbatim>\<open>boot/loader.S\<close> and
    \<^verbatim>\<open>boot/helper.S\<close>; Handover: \<^verbatim>\<open>boot/mbr.S\<close>, and \<^verbatim>\<open>boot/loader.S\<close> from its
    start to the jump to the kernel.

  \<^bold>\<open>State.\<close> One record grows along the imports (\<open>cpu\<close>, the list heap, the paged memory, \<open>tstate\<close> of the
  threads, and so on), so that an operation of one component applies to the state of every component above it. An object
  that only one component touches, such as a \<^verbatim>\<open>struct thread_struct\<close>, a lock or a
  \<^verbatim>\<open>struct ide_channel\<close>, is a record keyed by its address; what several components read or write as bytes
  (bitmaps, the screen, strings, superblocks, stack frames) is in the byte memory \<open>mem\<close>. Addresses the linker or a
  definition in another file fixes are components of the state that nothing changes. What devices answer is the stream
  \<open>port_inputs\<close>, what they are told is the trace of port writes, on both of which the theorems speak.

  \<^bold>\<open>Results.\<close> An operation returns \<open>stop + 'a\<close>: \<open>Inl (Panic text)\<close> for a failed
  \<^verbatim>\<open>assert\<close> or a call of \<^verbatim>\<open>panic\<close>, \<open>Inl Fault\<close> where C is undefined (a
  missing variable argument, an index behind an array), \<open>Inl Diverge\<close> for a loop that never ends. Loops whose end depends
  on memory are partial functions into \<open>option\<close>, where \<open>None\<close> is the call that never returns; no fuel is used
  anywhere, and theorems state that a value is returned.

  \<^bold>\<open>Blocking.\<close> \<^verbatim>\<open>schedule\<close> ends with the registers of the next thread loaded. A call that may
  block is therefore given in two parts: the part before, which returns what the stack frame keeps, and a definition
  \<open>..._resume\<close> for what runs when the thread is switched to again. Callers of the disk driver are closed over
  \<open>env\<close>, which gives the state the thread finds when it goes on; it is a parameter, since it stands for what all
  other threads did meanwhile.

  \<^bold>\<open>What is shown\<close>, by groups:
  \<^item> The boot loader: what is read from the disk and where to; the state in which the kernel is entered, with the control
    register, segments, stack, the translation of the kernel's addresses and the parts of the image.
  \<^item> The start: from the state of the loader (\<open>boot_ready\<close>), with 2112 KB to 258 MB of memory (above it the count of
    pages does not fit its 16 bits), \<^verbatim>\<open>init_all\<close> gives a running main thread, an idle thread in the ready
    list, the scheduler's invariant, the descriptor tables, and the page pools with one page in use. The interrupt flag is
    left as it was; the commands of the interrupt controllers are listed where their initialisation is treated.
  \<^item> Scheduling: \<open>sched_inv\<close> ties links, statuses and saved registers to a running thread and a queue; every step of the
    kernel keeps it (rule induction on \<open>kstep\<close>) and \<^verbatim>\<open>schedule\<close> refines \<open>pick\<close>; every thread
    of the queue runs in its turn; a started thread joins the queue.
  \<^item> Entry and exit: an interrupt and its return leave the interrupted code as it was; a process enters user mode at its
    function with its own stack page, in an address space that shares the kernel's half; the instructions of each stub do
    what the definition for all vectors says.
  \<^item> Memory: allocated pages were free, are mapped and come back; by the page walk, the new pages and what shares their
    entries translate to fresh frames and all else as before (locale \<open>address_space\<close>); a block leaves and enters the free
    list of its class.
  \<^item> The disk driver: what the drive is sent and in which order, who blocks and who is woken, what is read.
  \<^item> Refinements: the lists to HOL lists (locale \<open>ring\<close>), the bitmap to an array of bits (\<open>bit_array\<close>), the character
    queue to a bounded queue (\<open>fifo\<close>), locks to a depth (\<open>reentrant\<close>), the screen to a list of cells, formats to
    the text of their directives. Each locale states what the clients use and is interpreted on the code's model.
  \<^item> Descriptors are decoded by the processor's reading of them, defined after the architecture manual.
  \<^item> Errors: panics, calls that never return and what the code loses, where the code does not do what it means to.

  \<^bold>\<open>Not modelled.\<close> In the boot loader, the video services of the BIOS and the bytes that calls leave on the stack;
  the answers of its memory service are a parameter. The hypotheses on the kernel's own data in \<open>boot_ready\<close> (its texts, lists
  and tables are where the linker put them) are not derived from the image that the loader loads. What the processor writes
  of its own accord, other than the frame of an interrupt and the busy bit of the task state: the accessed bits of
  descriptors and the accessed and dirty bits of page table entries, on which no property depends.
  \<^verbatim>\<open>ds/bitmap_test.c\<close>, a user program, and the
  build files. \<^verbatim>\<open>struct taskstate\<close> and the key map, which no code uses. The text that
  \<^verbatim>\<open>assert\<close> prints before the kernel stops, outside Interrupts. Outside Translation, Loader and Handover, which
  speak of physical memory, the byte memory is that of the active address space, and a switch of the page directory does
  not change it.
  \<^verbatim>\<open>pmm.c\<close>, \<^verbatim>\<open>inode.c\<close> and \<^verbatim>\<open>file.c\<close> are modelled although the
  build leaves them out.
\<close>

end
